(* ===== verification/PF_Prelude.thy ===== *)
theory PF_Prelude
  imports Main "HOL-Library.AList" "HOL-Library.Char_ord" "HOL-Library.List_Lexorder"
begin

section \<open>Prelude: Go maps, results, generic list facts\<close>

text \<open>
  What every component shares.
  \<^item> A Go map with string keys is an association list (\<open>'v gomap\<close>) whose keys are distinct
    (\<open>gomap_ok\<close>). Its order is the order a Go \<open>range\<close> over the map takes; Go leaves that
    order open, and so do the theorems, which hold for every list.
  \<^item> A Go result \<open>(T, error)\<close> is a value of a sum type, \<open>Inl\<close> the error.
  \<^item> Go strings are byte strings; \<open>string\<close> is a list of 8-bit characters, and the order of
    \<open>HOL-Library.List_Lexorder\<close> with \<open>HOL-Library.Char_ord\<close> is Go's bytewise \<open><\<close>.
  \<^item> Reachability of a successor function, used by the graph algorithms and the runtimes.
\<close>

named_theorems gomap_simps \<open>rewriting rules for Go maps\<close>
named_theorems inv_intros \<open>preservation of the components' invariants\<close>

type_synonym 'v gomap = "(string \<times> 'v) list"

abbreviation mget :: "('k \<times> 'v) list \<Rightarrow> 'k \<Rightarrow> 'v option" where
  "mget m k \<equiv> map_of m k"

abbreviation mput :: "'k \<Rightarrow> 'v \<Rightarrow> ('k \<times> 'v) list \<Rightarrow> ('k \<times> 'v) list" where
  "mput k v m \<equiv> AList.update k v m"

abbreviation mdel :: "'k \<Rightarrow> ('k \<times> 'v) list \<Rightarrow> ('k \<times> 'v) list" where
  "mdel k m \<equiv> AList.delete k m"

abbreviation mkeys :: "('k \<times> 'v) list \<Rightarrow> 'k list" where
  "mkeys m \<equiv> map fst m"

definition gomap_ok :: "('k \<times> 'v) list \<Rightarrow> bool" where
  "gomap_ok m \<longleftrightarrow> distinct (mkeys m)"

lemma mget_mput [gomap_simps, simp]:
  "mget (mput k v m) k' = (if k' = k then Some v else mget m k')"
  by (simp add: update_conv')

lemma mget_mdel [gomap_simps, simp]:
  "mget (mdel k m) k' = (if k' = k then None else mget m k')"
  by (simp add: delete_conv')

lemma gomap_ok_empty [simp]: "gomap_ok []"
  by (simp add: gomap_ok_def)

lemma gomap_ok_put [simp, inv_intros]: "gomap_ok m \<Longrightarrow> gomap_ok (mput k v m)"
  by (simp add: gomap_ok_def distinct_update)

lemma gomap_ok_del [simp, inv_intros]: "gomap_ok m \<Longrightarrow> gomap_ok (mdel k m)"
  by (simp add: gomap_ok_def distinct_delete)

lemma mkeys_mput: "mkeys (mput k v m) = (if k \<in> set (mkeys m) then mkeys m else mkeys m @ [k])"
  by (induction m) auto

lemma set_mkeys_dom: "set (mkeys m) = dom (mget m)"
  by (simp add: dom_map_of_conv_image_fst)

lemma mget_in_keys: "mget m k = Some v \<Longrightarrow> k \<in> set (mkeys m)"
  by (metis domI set_mkeys_dom)

lemma in_mkeys_iff: "k \<in> set (mkeys m) \<longleftrightarrow> mget m k \<noteq> None"
  by (metis map_of_eq_None_iff set_map)

text \<open>Two association lists that hold the same entries in different orders are the same map.\<close>

lemma mget_perm:
  assumes "set m = set m'" "gomap_ok m" "gomap_ok m'"
  shows "mget m k = mget m' k"
  using assms by (metis gomap_ok_def map_of_eqI map_of_inject_set not_None_eq)


subsection \<open>Results\<close>

definition rbind :: "'e + 'a \<Rightarrow> ('a \<Rightarrow> 'e + 'b) \<Rightarrow> 'e + 'b" where
  "rbind r f = (case r of Inl e \<Rightarrow> Inl e | Inr x \<Rightarrow> f x)"

lemma map_sum_Inr_iff: "map_sum f g x = Inr y \<longleftrightarrow> (\<exists>z. x = Inr z \<and> y = g z)"
  by (cases x) auto

lemma rbind_simps [simp]: "rbind (Inl e) f = Inl e" "rbind (Inr x) f = f x"
  by (simp_all add: rbind_def)

lemma rbind_Inr_iff: "rbind r f = Inr y \<longleftrightarrow> (\<exists>x. r = Inr x \<and> f x = Inr y)"
  by (cases r) auto

lemma rbind_Inl_iff: "rbind r f = Inl e \<longleftrightarrow> r = Inl e \<or> (\<exists>x. r = Inr x \<and> f x = Inl e)"
  by (cases r) auto

text \<open>A loop whose body may return early with an error.\<close>

fun rfold :: "('a \<Rightarrow> 's \<Rightarrow> 'e + 's) \<Rightarrow> 'a list \<Rightarrow> 's \<Rightarrow> 'e + 's" where
  "rfold f [] s = Inr s"
| "rfold f (x # xs) s = (case f x s of Inl e \<Rightarrow> Inl e | Inr s' \<Rightarrow> rfold f xs s')"

lemma rfold_append: "rfold f (xs @ ys) s = rbind (rfold f xs s) (rfold f ys)"
  by (induction xs arbitrary: s) (auto split: sum.splits)

lemma rfold_invariant:
  assumes "P s" "\<And>x s s'. x \<in> set xs \<Longrightarrow> P s \<Longrightarrow> f x s = Inr s' \<Longrightarrow> P s'" "rfold f xs s = Inr t"
  shows "P t"
  using assms by (induction xs arbitrary: s) (auto split: sum.splits)

lemma fold_invariant:
  assumes "P s" "\<And>x s. x \<in> set xs \<Longrightarrow> P s \<Longrightarrow> P (f x s)"
  shows "P (fold f xs s)"
  using assms by (induction xs arbitrary: s) auto


subsection \<open>Lists\<close>

lemma count_list_filter_le: "count_list (filter P xs) x \<le> count_list xs x"
  by (induction xs) auto

lemma sum_list_pos_mem: "(x :: nat) \<in> set xs \<Longrightarrow> x \<le> sum_list xs"
  by (induction xs) auto

lemma int_sum_list: "int (sum_list (map f xs)) = (\<Sum>x \<leftarrow> xs. int (f x))"
  by (induction xs) auto

lemma sum_list_map_upd:
  fixes f :: "'a \<Rightarrow> nat"
  assumes "distinct xs" "x \<in> set xs" "v < f x"
  shows "sum_list (map (f(x := v)) xs) < sum_list (map f xs)"
  using assms
proof (induction xs)
  case (Cons y ys)
  show ?case
  proof (cases "y = x")
    case True
    with Cons.prems have "sum_list (map (f(x := v)) ys) = sum_list (map f ys)"
      by (metis fun_upd_other list.map_cong0 distinct.simps(2))
    with True Cons.prems show ?thesis by (simp del: fun_upd_apply add: fun_upd_same)
  next
    case False
    with Cons show ?thesis by simp
  qed
qed simp


subsection \<open>Reachability of a successor function\<close>

definition edge_rel :: "('a \<Rightarrow> 'a list) \<Rightarrow> ('a \<times> 'a) set" where
  "edge_rel S = {(u, v). v \<in> set (S u)}"

lemma edge_rel_iff [simp]: "(u, v) \<in> edge_rel S \<longleftrightarrow> v \<in> set (S u)"
  by (simp add: edge_rel_def)

definition reach_from :: "('a \<Rightarrow> 'a list) \<Rightarrow> 'a \<Rightarrow> 'a set" where
  "reach_from S s = (edge_rel S)\<^sup>* `` {s}"

lemma reach_from_refl [simp, intro]: "s \<in> reach_from S s"
  by (simp add: reach_from_def)

lemma reach_from_step: "u \<in> reach_from S s \<Longrightarrow> v \<in> set (S u) \<Longrightarrow> v \<in> reach_from S s"
  by (auto simp: reach_from_def intro: rtrancl_into_rtrancl)

lemma reach_from_least:
  assumes "s \<in> A" "\<And>u v. u \<in> A \<Longrightarrow> v \<in> set (S u) \<Longrightarrow> v \<in> A"
  shows "reach_from S s \<subseteq> A"
proof
  fix x assume "x \<in> reach_from S s"
  then have "(s, x) \<in> (edge_rel S)\<^sup>*" by (simp add: reach_from_def)
  then show "x \<in> A" by (induction rule: rtrancl_induct) (use assms in auto)
qed

end
