(* ===== verification/PF_Values.thy ===== *)
theory PF_Values
  imports PF_Prelude Complex_Main "HOL-Library.Log_Nat"
begin

section \<open>Go values: float64, the dynamic type any, strings\<close>

text \<open>
  The values the program passes around.
  \<^item> \<open>f64\<close> is an IEEE 754 binary64 value as a mathematical value (the sign of zero is not
    kept: no code modelled here observes it); \<open>round_f64\<close> rounds a rational to nearest, ties to
    even, as a Go conversion or \<open>strconv.ParseFloat\<close> does.
  \<^item> \<open>val\<close> is Go's \<open>any\<close>: one constructor per dynamic type the code distinguishes in its type
    switches. A struct with no type switch of its own is a \<open>VStruct\<close> of its name and fields.
    \<open>VNilMap\<close> is a typed nil \<open>map[string]any\<close>, which reads as an empty map.
  \<^item> the functions of Go's \<open>strings\<close> package the sources call, on byte strings.
\<close>


subsection \<open>float64\<close>

datatype f64 = F64 rat | PosInf | NegInf | NaN

definition pow2 :: "int \<Rightarrow> rat" where
  "pow2 e = (if 0 \<le> e then 2 ^ nat e else 1 / 2 ^ nat (- e))"

definition ilog2 :: "rat \<Rightarrow> int" where
  "ilog2 x = (let (p, q) = quotient_of x; e = bitlen p - bitlen q
     in if pow2 e \<le> x then e else e - 1)"

definition round_half_even :: "rat \<Rightarrow> int" where
  "round_half_even x = (let f = \<lfloor>x\<rfloor>; d = x - of_int f
     in if d < 1 / 2 then f else if 1 / 2 < d then f + 1 else if even f then f else f + 1)"

definition round_f64 :: "rat \<Rightarrow> f64" where
  "round_f64 x = (if x = 0 then F64 0 else
     let e = max (ilog2 \<bar>x\<bar>) (- 1022); u = pow2 (e - 52);
         r = of_int (round_half_even (\<bar>x\<bar> / u)) * u
     in if 2 ^ 1024 \<le> r then (if 0 < x then PosInf else NegInf) else F64 (sgn x * r))"

definition f64_of_int :: "int \<Rightarrow> f64" where
  "f64_of_int n = round_f64 (of_int n)"

fun f64_lt :: "f64 \<Rightarrow> f64 \<Rightarrow> bool" where
  "f64_lt NaN _ = False"
| "f64_lt _ NaN = False"
| "f64_lt (F64 a) (F64 b) = (a < b)"
| "f64_lt NegInf b = (b \<noteq> NegInf)"
| "f64_lt PosInf _ = False"
| "f64_lt (F64 _) PosInf = True"
| "f64_lt (F64 _) NegInf = False"

fun f64_eq :: "f64 \<Rightarrow> f64 \<Rightarrow> bool" where
  "f64_eq NaN _ = False"
| "f64_eq a b = (a = b)"

lemma f64_lt_trans: "f64_lt x y \<Longrightarrow> f64_lt y z \<Longrightarrow> f64_lt x z"
  by (cases x; cases y; cases z) auto

lemma f64_trichotomy: "x \<noteq> NaN \<Longrightarrow> y \<noteq> NaN \<Longrightarrow> \<not> f64_lt x y \<Longrightarrow> \<not> f64_lt y x \<Longrightarrow> f64_eq x y"
  by (cases x; cases y) auto

lemma f64_lt_eq: "f64_eq x y \<Longrightarrow> \<not> f64_lt x y \<and> \<not> f64_lt y x" "f64_lt x y \<Longrightarrow> \<not> f64_lt y x"
  by (cases x; cases y; simp)+

text \<open>\<open>int(f)\<close>: truncation towards zero; a value outside the int64 range (or NaN) becomes the
  minimum integer, which is what the amd64 conversion instruction gives.\<close>

fun int_of_f64 :: "f64 \<Rightarrow> int" where
  "int_of_f64 (F64 x) =
     (let t = (if 0 \<le> x then \<lfloor>x\<rfloor> else \<lceil>x\<rceil>)
      in if - (2 ^ 63) \<le> t \<and> t < 2 ^ 63 then t else - (2 ^ 63))"
| "int_of_f64 _ = - (2 ^ 63)"

lemma round_half_even_of_int [simp]: "round_half_even (of_int n) = n"
  by (simp add: round_half_even_def)

lemma ilog2_of_int_le:
  assumes "0 < n" "n < 2 ^ k" "0 < k"
  shows "ilog2 (of_int n) \<le> int k - 1"
proof -
  have "bitlen n \<le> int k"
    using assms by (subst bitlen_le_iff_power) auto
  moreover have "bitlen (1::int) = 1" by (simp add: bitlen_eq_zero_iff bitlen_def floorlog_def)
  ultimately show ?thesis by (simp add: ilog2_def quotient_of_int Let_def)
qed

text \<open>Integers below 2 to the 53 convert exactly, so numeric comparison of them is exact.\<close>

lemma f64_of_int_exact:
  assumes "\<bar>n\<bar> < 2 ^ 53"
  shows "f64_of_int n = F64 (of_int n)"
proof (cases "n = 0")
  case True
  then show ?thesis by (simp add: f64_of_int_def round_f64_def)
next
  case False
  define e where "e = max (ilog2 \<bar>of_int n\<bar>) (- 1022)"
  have "ilog2 (of_int \<bar>n\<bar>) \<le> int 53 - 1"
    using False assms by (intro ilog2_of_int_le) auto
  then have e: "e \<le> 52" by (simp add: e_def)
  define k where "k = nat (52 - e)"
  have u: "pow2 (e - 52) = 1 / 2 ^ k"
    using e by (cases "e = 52") (auto simp: pow2_def k_def)
  have "\<bar>of_int n\<bar> / pow2 (e - 52) = (of_int (\<bar>n\<bar> * 2 ^ k) :: rat)"
    by (simp add: u)
  then have r: "of_int (round_half_even (\<bar>of_int n\<bar> / pow2 (e - 52))) * pow2 (e - 52)
      = \<bar>of_int n :: rat\<bar>"
    by (simp only: round_half_even_of_int) (simp add: u)
  have "\<bar>of_int n :: rat\<bar> < 2 ^ 1024"
  proof -
    have "\<bar>n\<bar> < 2 ^ 1024" using assms by (rule order_less_trans) simp
    then have "(of_int \<bar>n\<bar> :: rat) < of_int (2 ^ 1024)" by (simp only: of_int_less_iff)
    then show ?thesis by simp
  qed
  with False show ?thesis
    by (simp add: f64_of_int_def round_f64_def Let_def e_def[symmetric] r sgn_mult_abs)
qed


subsection \<open>The dynamic type any\<close>

datatype val =
    VNil
  | VBool bool
  | VInt int
  | VInt32 int
  | VInt64 int
  | VF32 f64
  | VF64 f64
  | VStr string
  | VList "val list"
  | VStrs "string list"
  | VNilMap
  | VMap "(string \<times> val) list"
  | VMaps "(string \<times> val) list list"
  | VArts "artifact list"
  | VMsgs "message list"
  | VDecision route_decision
  | VStruct string "(string \<times> val) list"
and artifact =
    Artifact (art_ID: string) (art_Type: string) (art_MimeType: string) (art_Text: string)
      (art_Bytes: string) (art_URI: string) (art_Meta: "(string \<times> val) list option")
and message =
    Message (msg_Role: string) (msg_Content: string) (msg_Name: string)
      (msg_Meta: "(string \<times> val) list option")
and route_decision =
    RouteDecision (rd_Targets: "string list") (rd_Reason: string) (rd_Confidence: "f64 option")
      (rd_Meta: "(string \<times> val) list option")

text \<open>The type assertions \<open>v.(map[string]any)\<close>, \<open>v.([]any)\<close> and \<open>v.(string)\<close>.\<close>

fun as_map :: "val \<Rightarrow> (string \<times> val) list option" where
  "as_map (VMap m) = Some m"
| "as_map VNilMap = Some []"
| "as_map _ = None"

fun as_list :: "val \<Rightarrow> val list option" where
  "as_list (VList xs) = Some xs"
| "as_list _ = None"

fun as_str :: "val \<Rightarrow> string option" where
  "as_str (VStr s) = Some s"
| "as_str _ = None"

lemma as_map_SomeE:
  assumes "as_map v = Some m"
  obtains "v = VMap m" | "v = VNilMap" "m = []"
  using assms by (cases v) auto

lemma as_str_Some [simp]: "as_str v = Some s \<longleftrightarrow> v = VStr s"
  by (cases v) auto

lemma as_list_Some [simp]: "as_list v = Some xs \<longleftrightarrow> v = VList xs"
  by (cases v) auto


subsection \<open>Go strings\<close>

text \<open>\<open>strings.Split(s, sep)\<close> for a one-byte separator: never empty.\<close>

fun split_on :: "char \<Rightarrow> string \<Rightarrow> string list" where
  "split_on c [] = [[]]"
| "split_on c (x # xs) =
     (if x = c then [] # split_on c xs
      else (case split_on c xs of [] \<Rightarrow> [[x]] | y # ys \<Rightarrow> (x # y) # ys))"

text \<open>\<open>strings.Join(parts, sep)\<close>.\<close>

fun join_with :: "string \<Rightarrow> string list \<Rightarrow> string" where
  "join_with sep [] = []"
| "join_with sep [x] = x"
| "join_with sep (x # y # ys) = x @ sep @ join_with sep (y # ys)"

definition has_prefix :: "string \<Rightarrow> string \<Rightarrow> bool" where
  "has_prefix s p \<longleftrightarrow> take (length p) s = p"

definition has_suffix :: "string \<Rightarrow> string \<Rightarrow> bool" where
  "has_suffix s p \<longleftrightarrow> has_prefix (rev s) (rev p)"

text \<open>Decimal numerals, as \<open>%d\<close> prints them.\<close>

fun show_nat :: "nat \<Rightarrow> string" where
  "show_nat n = (if n < 10 then [char_of (48 + n)] else show_nat (n div 10) @ [char_of (48 + n mod 10)])"

declare show_nat.simps [simp del]

fun str_contains :: "string \<Rightarrow> string \<Rightarrow> bool" where
  "str_contains [] p = (p = [])"
| "str_contains (c # s) p = (has_prefix (c # s) p \<or> str_contains s p)"

lemma split_on_nonempty [simp]: "split_on c s \<noteq> []"
  by (induction s) (auto split: list.splits)

lemma join_split: "join_with [c] (split_on c s) = s"
proof (induction s)
  case (Cons x xs)
  obtain y ys where eq: "split_on c xs = y # ys"
    by (meson neq_Nil_conv split_on_nonempty)
  with Cons show ?case by (cases ys) auto
qed simp

lemma split_on_no_sep: "c \<notin> set s \<Longrightarrow> split_on c s = [s]"
  by (induction s) auto

lemma split_join:
  assumes "parts \<noteq> []" "\<forall>p \<in> set parts. c \<notin> set p"
  shows "split_on c (join_with [c] parts) = parts"
  using assms
proof (induction "[c]" parts rule: join_with.induct[case_names Nil One Many])
  case (Many x y ys)
  have "split_on c (x @ c # r) = x # split_on c r" if "c \<notin> set x" for r
    using that by (induction x) auto
  with Many show ?case by simp
qed (auto simp: split_on_no_sep)

lemma has_prefix_iff: "has_prefix s p \<longleftrightarrow> (\<exists>t. s = p @ t)"
  by (metis append_eq_conv_conj append_take_drop_id has_prefix_def)

lemma has_suffix_iff: "has_suffix s p \<longleftrightarrow> (\<exists>t. s = t @ p)"
  by (metis has_prefix_iff has_suffix_def rev_append rev_rev_ident)

lemma str_contains_iff: "str_contains s p \<longleftrightarrow> (\<exists>a b. s = a @ p @ b)"
proof (induction s)
  case (Cons c s)
  have "(\<exists>a b. c # s = a @ p @ b) \<longleftrightarrow> has_prefix (c # s) p \<or> (\<exists>a b. s = a @ p @ b)"
    by (auto simp: has_prefix_iff Cons_eq_append_conv)
  with Cons show ?case by simp
qed auto

definition byte :: "char \<Rightarrow> nat" where "byte c = of_char c"

lemma char_of_byte: "byte c = byte d \<Longrightarrow> c = d"
  by (simp add: byte_def)

text \<open>\<open>strings.Compare\<close> compares byte by byte.\<close>

fun str_compare :: "string \<Rightarrow> string \<Rightarrow> int" where
  "str_compare [] [] = 0"
| "str_compare [] (_ # _) = - 1"
| "str_compare (_ # _) [] = 1"
| "str_compare (a # as) (b # bs) = (if byte a < byte b then - 1 else if byte b < byte a then 1 else str_compare as bs)"

lemma str_compare_eq: "str_compare a b = 0 \<longleftrightarrow> a = b"
  by (induction a b rule: str_compare.induct) (auto simp: byte_def dest: char_of_byte split: if_splits)

lemma str_compare_neg: "str_compare b a = - str_compare a b"
  by (induction a b rule: str_compare.induct) auto

lemma str_compare_trans: "str_compare a b < 0 \<Longrightarrow> str_compare b c < 0 \<Longrightarrow> str_compare a c = - 1"
proof (induction a b arbitrary: c rule: str_compare.induct)
  case (2 b bs)
  then show ?case by (cases c) simp_all
next
  case (4 a as b bs)
  show ?case
  proof (cases c)
    case Nil
    then show ?thesis using "4.prems"(2) by simp
  next
    case (Cons d ds)
    have "byte a < byte b \<or> byte a = byte b \<and> str_compare as bs < 0"
      using "4.prems"(1) by (simp split: if_splits)
    moreover have "byte b < byte d \<or> byte b = byte d \<and> str_compare bs ds < 0"
      using "4.prems"(2) Cons by (simp split: if_splits)
    ultimately show ?thesis using Cons "4.IH"[of ds] by auto
  qed
qed simp_all

lemma str_compare_range: "str_compare a b \<in> {- 1, 0, 1}"
  by (induction a b rule: str_compare.induct) auto

end
