(* ===== verification/Core_Envelope.thy ===== *)
theory Core_Envelope
  imports PF_Values
begin

section \<open>Package core: the envelope and the core types\<close>

text \<open>
  The data structure every node receives and returns (\<open>core/envelope.go\<close>) and the plain types
  of \<open>core/types.go\<close>. \<open>Vars\<close> is an option: \<open>None\<close> is Go's nil map, which reads as empty
  and is allocated by the first \<open>SetVar\<close>. Wall-clock readings (\<open>TraceInfo.Started\<close>,
  \<open>NodeError.At\<close>) are left out. A Go \<open>error\<close> is its text.
\<close>

type_synonym NodeKind = string

definition NodeKindLLM :: NodeKind where "NodeKindLLM = ''llm''"
definition NodeKindTool :: NodeKind where "NodeKindTool = ''tool''"
definition NodeKindRouter :: NodeKind where "NodeKindRouter = ''router''"
definition NodeKindMerge :: NodeKind where "NodeKindMerge = ''merge''"
definition NodeKindMap :: NodeKind where "NodeKindMap = ''map''"
definition NodeKindGate :: NodeKind where "NodeKindGate = ''gate''"
definition NodeKindNoop :: NodeKind where "NodeKindNoop = ''noop''"
definition NodeKindConditional :: NodeKind where "NodeKindConditional = ''conditional''"

record TraceInfo =
  RunID :: string
  ParentID :: string
  SpanID :: string
  TraceID :: string

record NodeError =
  ne_NodeID :: string
  ne_Kind :: NodeKind
  ne_Message :: string
  ne_Attempt :: int

record Envelope =
  Input :: val
  Vars :: "val gomap option"
  Artifacts :: "artifact list"
  Messages :: "message list"
  Errors :: "NodeError list"
  Trace :: TraceInfo

definition empty_trace :: TraceInfo where
  "empty_trace = \<lparr>RunID = [], ParentID = [], SpanID = [], TraceID = []\<rparr>"

definition NewEnvelope :: Envelope where
  "NewEnvelope = \<lparr>Input = VNil, Vars = Some [], Artifacts = [], Messages = [], Errors = [],
     Trace = empty_trace\<rparr>"

text \<open>\<open>Clone\<close> of a nil pointer is nil; otherwise every field is copied.\<close>

definition Clone :: "Envelope option \<Rightarrow> Envelope option" where
  "Clone e = (case e of None \<Rightarrow> None
     | Some x \<Rightarrow> Some \<lparr>Input = Input x, Vars = map_option (map (\<lambda>(k, v). (k, v))) (Vars x),
         Artifacts = Artifacts x, Messages = Messages x, Errors = Errors x, Trace = Trace x\<rparr>)"

definition GetVar :: "Envelope \<Rightarrow> string \<Rightarrow> val option" where
  "GetVar e name = (case Vars e of None \<Rightarrow> None | Some m \<Rightarrow> mget m name)"

definition GetVarString :: "Envelope \<Rightarrow> string \<Rightarrow> string" where
  "GetVarString e name =
     (case GetVar e name of None \<Rightarrow> []
      | Some v \<Rightarrow> (case as_str v of None \<Rightarrow> [] | Some s \<Rightarrow> s))"

fun nested_get :: "val \<Rightarrow> string list \<Rightarrow> val option" where
  "nested_get v [] = Some v"
| "nested_get v (p # ps) =
     (case as_map v of None \<Rightarrow> None
      | Some m \<Rightarrow> (case mget m p of None \<Rightarrow> None | Some w \<Rightarrow> nested_get w ps))"

definition GetVarNested :: "Envelope \<Rightarrow> string \<Rightarrow> val option" where
  "GetVarNested e path =
     (case Vars e of None \<Rightarrow> None
      | Some m \<Rightarrow> nested_get (VMap m) (split_on (CHR ''.'') path))"

definition SetVar :: "string \<Rightarrow> val \<Rightarrow> Envelope \<Rightarrow> Envelope" where
  "SetVar name v e =
     e\<lparr>Vars := Some (mput name v (case Vars e of None \<Rightarrow> [] | Some m \<Rightarrow> m))\<rparr>"

definition AppendArtifact :: "artifact \<Rightarrow> Envelope \<Rightarrow> Envelope" where
  "AppendArtifact a e = e\<lparr>Artifacts := Artifacts e @ [a]\<rparr>"

definition AppendMessage :: "message \<Rightarrow> Envelope \<Rightarrow> Envelope" where
  "AppendMessage m e = e\<lparr>Messages := Messages e @ [m]\<rparr>"

definition AppendError :: "NodeError \<Rightarrow> Envelope \<Rightarrow> Envelope" where
  "AppendError err e = e\<lparr>Errors := Errors e @ [err]\<rparr>"

definition HasErrors :: "Envelope \<Rightarrow> bool" where
  "HasErrors e \<longleftrightarrow> 0 < length (Errors e)"

fun artifacts_of_type :: "string \<Rightarrow> artifact list \<Rightarrow> artifact list \<Rightarrow> artifact list" where
  "artifacts_of_type t result [] = result"
| "artifacts_of_type t result (a # as) =
     artifacts_of_type t (if art_Type a = t then result @ [a] else result) as"

definition GetArtifactsByType :: "Envelope \<Rightarrow> string \<Rightarrow> artifact list" where
  "GetArtifactsByType e t = artifacts_of_type t [] (Artifacts e)"

definition GetLastMessage :: "Envelope \<Rightarrow> message option" where
  "GetLastMessage e =
     (if length (Messages e) = 0 then None else Some (Messages e ! (length (Messages e) - 1)))"

fun messages_of_role :: "string \<Rightarrow> message list \<Rightarrow> message list \<Rightarrow> message list" where
  "messages_of_role r result [] = result"
| "messages_of_role r result (m # ms) =
     messages_of_role r (if msg_Role m = r then result @ [m] else result) ms"

definition GetMessagesByRole :: "Envelope \<Rightarrow> string \<Rightarrow> message list" where
  "GetMessagesByRole e r = messages_of_role r [] (Messages e)"

definition WithInput :: "val \<Rightarrow> Envelope \<Rightarrow> Envelope" where
  "WithInput v e = e\<lparr>Input := v\<rparr>"

definition WithVar :: "string \<Rightarrow> val \<Rightarrow> Envelope \<Rightarrow> Envelope" where
  "WithVar name v e = SetVar name v e"

definition WithTrace :: "TraceInfo \<Rightarrow> Envelope \<Rightarrow> Envelope" where
  "WithTrace t e = e\<lparr>Trace := t\<rparr>"

text \<open>The retry policy and token usage of \<open>core/types.go\<close>; durations are nanoseconds.\<close>

record RetryPolicy =
  MaxAttempts :: int
  Backoff :: int

definition DefaultRetryPolicy :: RetryPolicy where
  "DefaultRetryPolicy = \<lparr>MaxAttempts = 3, Backoff = 1000000000\<rparr>"

text \<open>Tools and their registry. \<open>List\<close> ranges over the map.\<close>

record PetalTool =
  tool_Name :: string
  tool_Invoke :: "val gomap \<Rightarrow> string + val gomap"

definition FuncTool :: "string \<Rightarrow> (val gomap \<Rightarrow> string + val gomap) option \<Rightarrow> PetalTool" where
  "FuncTool name fn = \<lparr>tool_Name = name,
     tool_Invoke = (\<lambda>args. case fn of None \<Rightarrow> Inr [] | Some f \<Rightarrow> f args)\<rparr>"

type_synonym ToolRegistry = "PetalTool gomap"

definition NewToolRegistry :: ToolRegistry where
  "NewToolRegistry = []"

definition tool_Register :: "PetalTool \<Rightarrow> ToolRegistry \<Rightarrow> ToolRegistry" where
  "tool_Register t r = mput (tool_Name t) t r"

definition tool_Get :: "ToolRegistry \<Rightarrow> string \<Rightarrow> PetalTool option" where
  "tool_Get r name = mget r name"

definition tool_List :: "ToolRegistry \<Rightarrow> string list" where
  "tool_List r = mkeys r"


subsection \<open>Lemmas\<close>

definition envelope_ok :: "Envelope \<Rightarrow> bool" where
  "envelope_ok e \<longleftrightarrow> (case Vars e of None \<Rightarrow> True | Some m \<Rightarrow> gomap_ok m)"

lemma Clone_eq [simp]: "Clone e = e"
proof -
  have "(\<lambda>(k, v). (k, v)) = (id :: string \<times> val \<Rightarrow> string \<times> val)"
    by (simp add: fun_eq_iff)
  then show ?thesis
    by (cases e) (auto simp: Clone_def map_option.id list.map_id0)
qed

lemma GetVar_SetVar [simp]:
  "GetVar (SetVar n v e) n' = (if n' = n then Some v else GetVar e n')"
  by (simp add: GetVar_def SetVar_def split: option.splits)

lemma SetVar_fields [simp]:
  "Input (SetVar n v e) = Input e" "Artifacts (SetVar n v e) = Artifacts e"
  "Messages (SetVar n v e) = Messages e" "Errors (SetVar n v e) = Errors e"
  "Trace (SetVar n v e) = Trace e"
  by (simp_all add: SetVar_def)

lemma AppendError_fields [simp]:
  "Vars (AppendError x e) = Vars e" "Errors (AppendError x e) = Errors e @ [x]"
  "Trace (AppendError x e) = Trace e" "GetVar (AppendError x e) n = GetVar e n"
  by (simp_all add: AppendError_def GetVar_def)

lemma envelope_ok_New [simp]: "envelope_ok NewEnvelope"
  by (simp add: envelope_ok_def NewEnvelope_def)

lemma envelope_ok_SetVar [inv_intros, simp]: "envelope_ok e \<Longrightarrow> envelope_ok (SetVar n v e)"
  by (auto simp: envelope_ok_def SetVar_def gomap_ok_def distinct_update split: option.splits)

lemma envelope_ok_AppendError [inv_intros, simp]:
  "envelope_ok (AppendError x e) = envelope_ok e"
  by (simp add: envelope_ok_def)

lemma artifacts_of_type_filter:
  "artifacts_of_type t result as = result @ filter (\<lambda>a. art_Type a = t) as"
  by (induction as arbitrary: result) auto

lemma messages_of_role_filter:
  "messages_of_role r result ms = result @ filter (\<lambda>m. msg_Role m = r) ms"
  by (induction ms arbitrary: result) auto

lemma GetLastMessage_append: "GetLastMessage (AppendMessage m e) = Some m"
  by (simp add: GetLastMessage_def AppendMessage_def)

lemma nested_get_append:
  "nested_get v (ps @ qs) = (case nested_get v ps of None \<Rightarrow> None | Some w \<Rightarrow> nested_get w qs)"
  by (induction v ps rule: nested_get.induct) (auto split: option.splits)

lemma GetVarNested_plain:
  "CHR ''.'' \<notin> set name \<Longrightarrow> GetVarNested e name = GetVar e name"
  by (auto simp: GetVarNested_def GetVar_def split_on_no_sep split: option.splits)

end
