(* ===== verification/Runtime_Events.thy ===== *)
theory Runtime_Events
  imports Core_Envelope "HOL-Library.Word" "HOL-Library.Sublist"
begin

section \<open>Runtime events, sequence numbers and the emitter\<close>

text \<open>
  \<open>runtime/events.go\<close>, \<open>runtime/sequence.go\<close> and the closure \<open>emit\<close> that
  \<open>BasicRuntime.Run\<close> builds. An emitter is its state: the sequence counter (an
  \<open>atomic.Uint64\<close>, so a 64-bit word that wraps), what the event bus and the event handler
  have received so far, and the runtime's own buffered channel, which drops an event when it is full,
  with its reader.
  Timestamps and elapsed times are left out.
\<close>

type_synonym EventKind = string

definition EventRunStarted :: EventKind where "EventRunStarted = ''run.started''"
definition EventNodeStarted :: EventKind where "EventNodeStarted = ''node.started''"
definition EventNodeFailed :: EventKind where "EventNodeFailed = ''node.failed''"
definition EventNodeFinished :: EventKind where "EventNodeFinished = ''node.finished''"
definition EventRouteDecision :: EventKind where "EventRouteDecision = ''route.decision''"
definition EventRunFinished :: EventKind where "EventRunFinished = ''run.finished''"
definition EventStepPaused :: EventKind where "EventStepPaused = ''step.paused''"
definition EventStepResumed :: EventKind where "EventStepResumed = ''step.resumed''"
definition EventStepSkipped :: EventKind where "EventStepSkipped = ''step.skipped''"
definition EventStepAborted :: EventKind where "EventStepAborted = ''step.aborted''"
definition EventNodeOutputDelta :: EventKind where "EventNodeOutputDelta = ''node.output.delta''"

lemmas event_kind_defs =
  EventRunStarted_def EventNodeStarted_def EventNodeFailed_def EventNodeFinished_def
  EventRouteDecision_def EventRunFinished_def EventStepPaused_def EventStepResumed_def
  EventStepSkipped_def EventStepAborted_def EventNodeOutputDelta_def

record Event =
  ev_Kind :: EventKind
  ev_RunID :: string
  ev_NodeID :: string
  ev_NodeKind :: NodeKind
  ev_Attempt :: int
  ev_Payload :: "val gomap"
  ev_Seq :: "64 word"
  ev_TraceID :: string
  ev_SpanID :: string

definition NewEvent :: "EventKind \<Rightarrow> string \<Rightarrow> Event" where
  "NewEvent kind runID = \<lparr>ev_Kind = kind, ev_RunID = runID, ev_NodeID = [], ev_NodeKind = [],
     ev_Attempt = 1, ev_Payload = [], ev_Seq = 0, ev_TraceID = [], ev_SpanID = []\<rparr>"

definition WithNode :: "string \<Rightarrow> NodeKind \<Rightarrow> Event \<Rightarrow> Event" where
  "WithNode nodeID nodeKind e = e\<lparr>ev_NodeID := nodeID, ev_NodeKind := nodeKind\<rparr>"

definition WithAttempt :: "int \<Rightarrow> Event \<Rightarrow> Event" where
  "WithAttempt attempt e = e\<lparr>ev_Attempt := attempt\<rparr>"

definition WithPayload :: "string \<Rightarrow> val \<Rightarrow> Event \<Rightarrow> Event" where
  "WithPayload key v e = e\<lparr>ev_Payload := mput key v (ev_Payload e)\<rparr>"

lemma with_simps [simp]:
  "ev_Kind (NewEvent k r) = k" "ev_RunID (NewEvent k r) = r"
  "ev_Kind (WithNode n nk e) = ev_Kind e" "ev_NodeID (WithNode n nk e) = n"
  "ev_RunID (WithNode n nk e) = ev_RunID e"
  "ev_Kind (WithPayload k' v e) = ev_Kind e" "ev_NodeID (WithPayload k' v e) = ev_NodeID e"
  "ev_RunID (WithPayload k' v e) = ev_RunID e"
  "ev_Payload (WithPayload k' v e) = mput k' v (ev_Payload e)"
  by (simp_all add: NewEvent_def WithNode_def WithPayload_def)


subsection \<open>Sequence numbers\<close>

text \<open>\<open>seqGen.Next\<close>: the counter after adding one.\<close>

definition seq_Next :: "64 word \<Rightarrow> 64 word \<times> 64 word" where
  "seq_Next counter = (let n = counter + 1 in (n, n))"


subsection \<open>The emitter\<close>

text \<open>
  \<open>em_log\<close> is what the handler (and the bus) is called with, \<open>em_ch\<close> the buffer of the runtime's event channel.
  A reader of the channel, the receiver of \<open>Events()\<close>, takes events while the run goes on: \<open>em_reads n\<close> says how
  many before the event after the first \<open>n\<close> is sent, and \<open>em_got\<close> holds what it has received.
\<close>

record Emitter =
  em_counter :: "64 word"
  em_log :: "Event list"
  em_ch :: "Event list"
  em_reads :: "nat \<Rightarrow> nat"
  em_got :: "Event list"

definition eventChCap :: nat where "eventChCap = 100"

text \<open>The emitter of a new run, with the events that are left in the channel from earlier runs; without a
  reader and on an empty channel it is \<open>new_emitter\<close>.\<close>

definition fresh_emitter :: "(nat \<Rightarrow> nat) \<Rightarrow> Event list \<Rightarrow> Emitter" where
  "fresh_emitter reads waiting = \<lparr>em_counter = 0, em_log = [], em_ch = waiting, em_reads = reads, em_got = []\<rparr>"

definition new_emitter :: Emitter where
  "new_emitter = \<lparr>em_counter = 0, em_log = [], em_ch = [], em_reads = (\<lambda>_. 0), em_got = []\<rparr>"

lemma new_emitter_fresh: "new_emitter = fresh_emitter (\<lambda>_. 0) []"
  by (simp add: new_emitter_def fresh_emitter_def)

definition reader_takes :: "Emitter \<Rightarrow> Emitter" where
  "reader_takes em = (let k = em_reads em (length (em_log em)) in
     em\<lparr>em_ch := drop k (em_ch em), em_got := em_got em @ take k (em_ch em)\<rparr>)"

text \<open>A non-blocking send on a channel with a buffer: the event is dropped when it is full.\<close>

definition try_send :: "nat \<Rightarrow> 'e \<Rightarrow> 'e list \<Rightarrow> 'e list" where
  "try_send cap e ch = (if length ch < cap then ch @ [e] else ch)"

definition emit :: "Event \<Rightarrow> Emitter \<Rightarrow> Emitter" where
  "emit e em =
     (let (n, c) = seq_Next (em_counter em); e' = e\<lparr>ev_Seq := n\<rparr>; em1 = reader_takes em
      in em1\<lparr>em_counter := c, em_log := em_log em @ [e'], em_ch := try_send eventChCap e' (em_ch em1)\<rparr>)"

definition emit_all :: "Event list \<Rightarrow> Emitter \<Rightarrow> Emitter" where
  "emit_all es em = fold emit es em"

text \<open>\<open>MultiEventHandler\<close> calls every non-nil handler in order; a handler is a state transformer.\<close>

fun MultiEventHandler :: "(Event \<Rightarrow> 's \<Rightarrow> 's) option list \<Rightarrow> Event \<Rightarrow> 's \<Rightarrow> 's" where
  "MultiEventHandler [] e s = s"
| "MultiEventHandler (h # hs) e s =
     MultiEventHandler hs e (case h of None \<Rightarrow> s | Some f \<Rightarrow> f e s)"

definition ChannelEventHandler :: "nat \<Rightarrow> Event \<Rightarrow> Event list \<Rightarrow> Event list" where
  "ChannelEventHandler cap e ch = try_send cap e ch"

text \<open>What the emitter keeps true: the log is numbered 1, 2, 3, ... and the counter is its length
  (modulo the width).\<close>

definition emitter_ok :: "Emitter \<Rightarrow> bool" where
  "emitter_ok em \<longleftrightarrow>
     em_counter em = of_nat (length (em_log em)) \<and>
     map ev_Seq (em_log em) = map (\<lambda>i. of_nat (Suc i)) [0..<length (em_log em)]"

text \<open>
  What the reader has received and what waits in the channel, in this order, are events of earlier runs and of
  the log, none twice and in the order of emission. Without a reader the channel keeps the first events; a
  reader that empties it each time misses none.
\<close>

definition channel_ok :: "Event list \<Rightarrow> Emitter \<Rightarrow> bool" where
  "channel_ok waiting em \<longleftrightarrow>
     subseq (em_got em @ em_ch em) (waiting @ em_log em) \<and> length (em_ch em) \<le> eventChCap \<and>
     ((\<forall>n. em_reads em n = 0) \<longrightarrow> em_got em = [] \<and> em_ch em = take eventChCap (waiting @ em_log em)) \<and>
     ((\<forall>n. eventChCap \<le> em_reads em n) \<longrightarrow> em_got em @ em_ch em = waiting @ em_log em)"

definition kinds :: "Emitter \<Rightarrow> EventKind list" where
  "kinds em = map ev_Kind (em_log em)"

lemma emitter_ok_new [simp]: "emitter_ok new_emitter"
  by (simp add: emitter_ok_def new_emitter_def)

lemma emitter_ok_fresh [simp]: "emitter_ok (fresh_emitter reads waiting)"
  by (simp add: emitter_ok_def fresh_emitter_def)

lemma emit_log: "em_log (emit e em) = em_log em @ [e\<lparr>ev_Seq := em_counter em + 1\<rparr>]"
  by (simp add: emit_def seq_Next_def reader_takes_def Let_def)

lemma emitter_ok_emit [inv_intros, simp]:
  assumes "emitter_ok em" shows "emitter_ok (emit e em)"
  using assms by (simp add: emitter_ok_def emit_def seq_Next_def reader_takes_def Let_def add.commute)

lemma channel_ok_fresh: "length waiting \<le> eventChCap \<Longrightarrow> channel_ok waiting (fresh_emitter reads waiting)"
  by (simp add: channel_ok_def fresh_emitter_def)

lemma emit_fields [simp]: "em_reads (emit e em) = em_reads em" "em_log (emit e em) \<noteq> []"
  by (simp_all add: emit_def seq_Next_def reader_takes_def Let_def)

lemma channel_ok_emit [simp]:
  assumes "channel_ok waiting em" shows "channel_ok waiting (emit e em)"
proof -
  define k where "k = em_reads em (length (em_log em))"
  define e' where "e' = e\<lparr>ev_Seq := em_counter em + 1\<rparr>"
  have f: "em_got (emit e em) = em_got em @ take k (em_ch em)" "em_ch (emit e em) = try_send eventChCap e' (drop k (em_ch em))"
    "em_log (emit e em) = em_log em @ [e']"
    by (simp_all add: emit_def seq_Next_def reader_takes_def Let_def k_def e'_def)
  have old: "em_got em @ take k (em_ch em) @ drop k (em_ch em) = em_got em @ em_ch em" by simp
  have sub: "subseq (em_got em @ em_ch em) (waiting @ em_log em)" and len: "length (em_ch em) \<le> eventChCap"
    using assms by (simp_all add: channel_ok_def)
  have "subseq (em_got (emit e em) @ em_ch (emit e em)) (waiting @ em_log (emit e em))"
  proof (cases "length (drop k (em_ch em)) < eventChCap")
    case True
    then have "em_got (emit e em) @ em_ch (emit e em) = (em_got em @ em_ch em) @ [e']" by (simp add: f try_send_def)
    moreover have "waiting @ em_log (emit e em) = (waiting @ em_log em) @ [e']" by (simp add: f)
    ultimately show ?thesis using list_emb_append_mono[OF sub, of "[e']" "[e']"] by simp
  next
    case False
    then have "em_got (emit e em) @ em_ch (emit e em) = em_got em @ em_ch em" by (simp add: f try_send_def)
    moreover have "waiting @ em_log (emit e em) = (waiting @ em_log em) @ [e']" by (simp add: f)
    ultimately show ?thesis using list_emb_append_mono[OF sub, of "[]" "[e']"] by simp
  qed
  moreover have "length (em_ch (emit e em)) \<le> eventChCap" using len by (auto simp: f try_send_def)
  moreover have "em_got (emit e em) = [] \<and> em_ch (emit e em) = take eventChCap (waiting @ em_log (emit e em))" if "\<forall>n. em_reads em n = 0"
  proof -
    have "k = 0" "em_got em = []" "em_ch em = take eventChCap (waiting @ em_log em)" using assms that by (simp_all add: channel_ok_def k_def)
    then show ?thesis by (auto simp: f try_send_def)
  qed
  moreover have "em_got (emit e em) @ em_ch (emit e em) = waiting @ em_log (emit e em)" if "\<forall>n. eventChCap \<le> em_reads em n"
  proof -
    have "eventChCap \<le> k" "em_got em @ em_ch em = waiting @ em_log em" using assms that by (simp_all add: channel_ok_def k_def)
    then show ?thesis using len by (simp add: f try_send_def eventChCap_def)
  qed
  ultimately show ?thesis by (simp add: channel_ok_def)
qed

lemma channel_ok_emit_all [simp]: "channel_ok waiting em \<Longrightarrow> channel_ok waiting (emit_all es em)"
  unfolding emit_all_def by (rule fold_invariant) simp_all

lemma emit_all_reads [simp]: "em_reads (emit_all es em) = em_reads em"
  unfolding emit_all_def by (induction es arbitrary: em) simp_all

lemma emitter_ok_emit_all [inv_intros, simp]: "emitter_ok em \<Longrightarrow> emitter_ok (emit_all es em)"
  unfolding emit_all_def by (rule fold_invariant) simp_all

lemma kinds_emit [simp]: "kinds (emit e em) = kinds em @ [ev_Kind e]"
  by (simp add: kinds_def emit_log)

lemma kinds_emit_all [simp]: "kinds (emit_all es em) = kinds em @ map ev_Kind es"
  unfolding emit_all_def by (induction es arbitrary: em) simp_all

lemma nodes_emit:
  "map (\<lambda>e. (ev_Kind e, ev_NodeID e)) (em_log (emit e em))
     = map (\<lambda>e. (ev_Kind e, ev_NodeID e)) (em_log em) @ [(ev_Kind e, ev_NodeID e)]"
  by (simp add: emit_log)

text \<open>Sequence numbers of a log shorter than the counter's range are strictly increasing.\<close>

lemma emitter_seq_sorted:
  assumes "emitter_ok em" "length (em_log em) < 2 ^ 64"
  shows "sorted_wrt (<) (map ev_Seq (em_log em))"
proof -
  have "(of_nat (Suc i) :: 64 word) < of_nat (Suc j)" if "i < j" "j < length (em_log em)" for i j
    using that assms(2) by (simp add: word_less_nat_alt unat_of_nat del: of_nat_Suc)
  moreover have "map ev_Seq (em_log em) = map (\<lambda>i. of_nat (Suc i)) [0..<length (em_log em)]"
    using assms(1) by (simp add: emitter_ok_def)
  ultimately show ?thesis
    by (simp add: sorted_wrt_map sorted_wrt_iff_nth_less del: of_nat_Suc)
qed

end
