(* ===== verification/Core_Node.thy ===== *)
theory Core_Node
  imports Runtime_Events
begin

section \<open>Package core: nodes\<close>

text \<open>
  The interfaces \<open>Node\<close>, \<open>MergeCapable\<close> and \<open>RouterNode\<close> of \<open>core/node.go\<close> and the
  \<open>mergeRunner\<close> interface of the runtime. A live node is its identity plus what its methods do.
  \<open>Run\<close> receives a pointer to an envelope: its outcome is what that envelope holds afterwards, what
  the call returned (a nil pointer is \<open>None\<close>) and the events the node emitted through the
  context's emitter. The first argument of \<open>n_Run\<close> numbers the calls of a run, so a node whose result
  depends on the outside world (a model, a tool, the clock) is a function of it too. Whether the dynamic type implements \<open>RouterNode\<close> or \<open>MergeCapable\<close> is a
  field, as the runtime finds it out by a type assertion.
\<close>

record RunOutcome =
  ro_env :: Envelope
  ro_result :: "string + Envelope option"
  ro_events :: "Event list"

record MergeCap =
  mc_ExpectedInputs :: int
  mc_MergeInputs :: "(Envelope option list \<Rightarrow> string + Envelope option) option"

record Node =
  n_ID :: string
  n_Kind :: NodeKind
  n_isRouter :: bool
  n_merge :: "MergeCap option"
  n_Run :: "nat \<Rightarrow> Envelope \<Rightarrow> RunOutcome"

text \<open>\<open>NoopNode\<close> returns the pointer it got.\<close>

definition NewNoopNode :: "string \<Rightarrow> Node" where
  "NewNoopNode i = \<lparr>n_ID = i, n_Kind = NodeKindNoop, n_isRouter = False, n_merge = None,
     n_Run = (\<lambda>_ env. \<lparr>ro_env = env, ro_result = Inr (Some env), ro_events = []\<rparr>)\<rparr>"

text \<open>\<open>FuncNode\<close> with a nil function returns the pointer it got.\<close>

definition NewFuncNode :: "string \<Rightarrow> (nat \<Rightarrow> Envelope \<Rightarrow> RunOutcome) option \<Rightarrow> Node" where
  "NewFuncNode i fn = \<lparr>n_ID = i, n_Kind = NodeKindNoop, n_isRouter = False, n_merge = None,
     n_Run = (\<lambda>call env. case fn of
        None \<Rightarrow> \<lparr>ro_env = env, ro_result = Inr (Some env), ro_events = []\<rparr>
      | Some f \<Rightarrow> f call env)\<rparr>"

definition WithKind :: "NodeKind \<Rightarrow> Node \<Rightarrow> Node" where
  "WithKind k n = n\<lparr>n_Kind := k\<rparr>"

definition SetExpectedInputs :: "int \<Rightarrow> Node \<Rightarrow> Node" where
  "SetExpectedInputs k n =
     n\<lparr>n_merge := map_option (\<lambda>mc. mc\<lparr>mc_ExpectedInputs := k\<rparr>) (n_merge n)\<rparr>"

lemma node_ID_simps [simp]:
  "n_ID (NewNoopNode i) = i" "n_ID (NewFuncNode i fn) = i" "n_ID (WithKind k n) = n_ID n"
  "n_ID (SetExpectedInputs m n) = n_ID n"
  by (simp_all add: NewNoopNode_def NewFuncNode_def WithKind_def SetExpectedInputs_def)

end
