(* ===== verification/Kahn.thy ===== *)
theory Kahn
  imports PF_Prelude
begin

section \<open>Kahn's algorithm\<close>

text \<open>
  The loop that \<open>BasicGraph.TopologicalSort\<close>, \<open>GraphDefinition.detectCycle\<close> and the agent
  validator share: in-degrees in a Go map (an absent key reads as 0), a queue, and the list of
  processed nodes. The locale \<open>kahn_graph\<close> is what a graph representation has to promise
  (distinct nodes, closed successors, in-degrees that count the edges); its lemmas are the
  correctness of the loop, proved once: the processed nodes are in topological order, and all nodes
  are processed exactly when the graph is acyclic.
\<close>

definition deg :: "('a \<times> int) list \<Rightarrow> 'a \<Rightarrow> int" where
  "deg d v = (case mget d v of None \<Rightarrow> 0 | Some n \<Rightarrow> n)"

text \<open>The inner loop: decrement each successor, enqueue it when it reaches zero.\<close>

fun kahn_dec :: "'a list \<Rightarrow> ('a \<times> int) list \<Rightarrow> 'a list \<Rightarrow> ('a \<times> int) list \<times> 'a list" where
  "kahn_dec [] d q = (d, q)"
| "kahn_dec (s # ss) d q =
     (let d' = mput s (deg d s - 1) d
      in kahn_dec ss d' (if deg d' s = 0 then q @ [s] else q))"

definition poscount :: "('a \<times> int) list \<Rightarrow> nat" where
  "poscount d = length (filter (\<lambda>(k, n). 0 < n) d)"

lemma deg_mput [simp]: "deg (mput s n d) v = (if v = s then n else deg d v)"
  by (simp add: deg_def)

lemma poscount_mput_le: "poscount (mput s (deg d s - 1) d) \<le> poscount d"
  by (induction d) (auto simp: poscount_def deg_def)

lemma poscount_mput_less: "deg d s = 1 \<Longrightarrow> poscount (mput s 0 d) < poscount d"
  by (induction d) (auto simp: poscount_def deg_def)

lemma kahn_dec_measure:
  "kahn_dec ss d q = (d', q') \<Longrightarrow> poscount d' + length q' \<le> poscount d + length q"
proof (induction ss arbitrary: d q)
  case (Cons s ss)
  let ?d = "mput s (deg d s - 1) d" and ?q = "if deg d s = 1 then q @ [s] else q"
  have "poscount ?d + length ?q \<le> poscount d + length q"
    using poscount_mput_le[of s d] poscount_mput_less[of d s] by auto
  moreover have "kahn_dec ss ?d ?q = (d', q')" using Cons.prems by (simp add: Let_def)
  then have "poscount d' + length q' \<le> poscount ?d + length ?q" by (rule Cons.IH)
  ultimately show ?case by linarith
qed simp

text \<open>The outer loop. It ends because every node enters the queue at most once more than it
  started there: an enqueue uses up a positive in-degree.\<close>

function kahn_loop ::
  "('a \<Rightarrow> 'a list) \<Rightarrow> ('a \<times> int) list \<Rightarrow> 'a list \<Rightarrow> 'a list \<Rightarrow> ('a \<times> int) list \<times> 'a list" where
  "kahn_loop S d [] result = (d, result)"
| "kahn_loop S d (current # queue) result =
     (case kahn_dec (S current) d queue of
        (d', queue') \<Rightarrow> kahn_loop S d' queue' (result @ [current]))"
  by pat_completeness auto
termination
  by (relation "measure (\<lambda>(S, d, q, r). poscount d + length q)")
    (auto dest!: kahn_dec_measure[OF sym])

definition kahn :: "('a \<Rightarrow> 'a list) \<Rightarrow> ('a \<times> int) list \<Rightarrow> 'a list \<Rightarrow> ('a \<times> int) list \<times> 'a list" where
  "kahn S d ord = kahn_loop S d (filter (\<lambda>v. deg d v = 0) ord) []"


subsection \<open>What one pass of the inner loop does\<close>

lemma kahn_dec_spec:
  assumes "kahn_dec ss d q = (d', q')"
  shows "\<exists>new. q' = q @ new \<and> distinct new
      \<and> set new = {v. 0 < deg d v \<and> deg d v \<le> int (count_list ss v)}
      \<and> (\<forall>v. deg d' v = deg d v - int (count_list ss v))"
  using assms
proof (induction ss arbitrary: d q)
  case Nil
  then show ?case by auto
next
  case (Cons s ss)
  define d1 where "d1 = mput s (deg d s - 1) d"
  define q1 where "q1 = (if deg d s = 1 then q @ [s] else q)"
  have d1: "deg d1 v = (if v = s then deg d s - 1 else deg d v)" for v by (simp add: d1_def)
  have "kahn_dec ss d1 q1 = (d', q')"
    using Cons.prems by (simp add: Let_def d1_def q1_def)
  from Cons.IH[OF this] obtain new where new: "q' = q1 @ new" "distinct new"
      "set new = {v. 0 < deg d1 v \<and> deg d1 v \<le> int (count_list ss v)}"
      "\<forall>v. deg d' v = deg d1 v - int (count_list ss v)"
    by blast
  define new' where "new' = (if deg d s = 1 then [s] else []) @ new"
  have "q' = q @ new'" using new(1) by (simp add: q1_def new'_def)
  moreover have "distinct new'"
    using new(2) by (simp add: new'_def new(3) d1)
  moreover have "v \<in> set new' \<longleftrightarrow> 0 < deg d v \<and> deg d v \<le> int (count_list (s # ss) v)" for v
  proof (cases "v = s")
    case True
    then have "v \<in> set new' \<longleftrightarrow> deg d s = 1 \<or> 0 < deg d s - 1 \<and> deg d s - 1 \<le> int (count_list ss s)"
      by (simp add: new'_def new(3) d1)
    with True show ?thesis by auto
  next
    case False
    then show ?thesis by (simp add: new'_def new(3) d1)
  qed
  then have "set new' = {v. 0 < deg d v \<and> deg d v \<le> int (count_list (s # ss) v)}" by blast
  moreover have "\<forall>v. deg d' v = deg d v - int (count_list (s # ss) v)"
    by (simp add: new(4) d1)
  ultimately show ?case by blast
qed


subsection \<open>The interface of a graph representation\<close>

definition topo_order :: "('a \<times> 'a) set \<Rightarrow> 'a list \<Rightarrow> bool" where
  "topo_order E xs \<longleftrightarrow>
     (\<forall>j < length xs. \<forall>u. (u, xs ! j) \<in> E \<longrightarrow> u \<in> set (take j xs))"

locale kahn_graph =
  fixes wf :: "'g \<Rightarrow> bool"
    and V :: "'g \<Rightarrow> 'a list"
    and S :: "'g \<Rightarrow> 'a \<Rightarrow> 'a list"
    and D :: "'g \<Rightarrow> ('a \<times> int) list"
  assumes V_distinct: "wf g \<Longrightarrow> distinct (V g)"
    and S_closed: "wf g \<Longrightarrow> u \<in> set (V g) \<Longrightarrow> set (S g u) \<subseteq> set (V g)"
    and D_indegree: "wf g \<Longrightarrow> v \<in> set (V g) \<Longrightarrow>
          deg (D g) v = (\<Sum>u \<leftarrow> V g. int (count_list (S g u) v))"
begin

definition E :: "'g \<Rightarrow> ('a \<times> 'a) set" where
  "E g = {(u, v). u \<in> set (V g) \<and> v \<in> set (S g u)}"

definition remaining :: "'g \<Rightarrow> 'a list \<Rightarrow> 'a \<Rightarrow> int" where
  "remaining g res v = (\<Sum>u \<in> set (V g) - set res. int (count_list (S g u) v))"

definition kinv :: "'g \<Rightarrow> ('a \<times> int) list \<Rightarrow> 'a list \<Rightarrow> 'a list \<Rightarrow> bool" where
  "kinv g d q res \<longleftrightarrow>
     distinct (res @ q) \<and> set (res @ q) \<subseteq> set (V g) \<and>
     (\<forall>v \<in> set (V g). deg d v = remaining g res v) \<and>
     (\<forall>v \<in> set (V g). deg d v = 0 \<longleftrightarrow> v \<in> set (res @ q)) \<and>
     topo_order (E g) res"

lemma remaining_nonneg: "0 \<le> remaining g res v"
  by (simp add: remaining_def sum_nonneg)

lemma remaining_zero:
  assumes "remaining g res v = 0" "(u, v) \<in> E g"
  shows "u \<in> set res"
proof (rule ccontr)
  assume u: "u \<notin> set res"
  have "\<forall>u \<in> set (V g) - set res. int (count_list (S g u) v) = 0"
    using assms(1) by (subst (asm) remaining_def, subst (asm) sum_nonneg_eq_0_iff) auto
  with u assms(2) show False by (auto simp: E_def count_list_0_iff)
qed

lemma remaining_snoc:
  assumes "c \<in> set (V g)" "c \<notin> set res"
  shows "remaining g (res @ [c]) v = remaining g res v - int (count_list (S g c) v)"
proof -
  have "remaining g res v
      = (\<Sum>u \<in> insert c (set (V g) - set (res @ [c])). int (count_list (S g u) v))"
    unfolding remaining_def by (rule sum.cong) (use assms in auto)
  also have "\<dots> = int (count_list (S g c) v) + remaining g (res @ [c]) v"
    by (subst sum.insert) (auto simp: remaining_def)
  finally show ?thesis by simp
qed

lemma kinv_init:
  assumes "wf g" "distinct ord" "set ord = set (V g)"
  shows "kinv g (D g) (filter (\<lambda>v. deg (D g) v = 0) ord) []"
  using assms V_distinct[OF assms(1)]
  by (auto simp: kinv_def remaining_def D_indegree sum_list_distinct_conv_sum_set topo_order_def)

lemma kinv_step:
  assumes wf: "wf g" and inv: "kinv g d (c # q) res"
    and dec: "kahn_dec (S g c) d q = (d', q')"
  shows "kinv g d' q' (res @ [c])"
proof -
  from kahn_dec_spec[OF dec] obtain new where new: "q' = q @ new" "distinct new"
      "set new = {v. 0 < deg d v \<and> deg d v \<le> int (count_list (S g c) v)}"
      "\<And>v. deg d' v = deg d v - int (count_list (S g c) v)"
    by blast
  from inv have c: "c \<in> set (V g)" "c \<notin> set res" "deg d c = 0" and dist: "distinct (res @ c # q)"
    and sub: "set (res @ c # q) \<subseteq> set (V g)"
    and dr: "\<And>v. v \<in> set (V g) \<Longrightarrow> deg d v = remaining g res v"
    and dz: "\<And>v. v \<in> set (V g) \<Longrightarrow> deg d v = 0 \<longleftrightarrow> v \<in> set (res @ c # q)"
    and topo: "topo_order (E g) res"
    by (auto simp: kinv_def)
  have new_V: "set new \<subseteq> set (V g)"
  proof
    fix v assume "v \<in> set new"
    then have "0 < count_list (S g c) v" using new(3) by auto
    then have "v \<in> set (S g c)" by (metis count_list_0_iff less_numeral_extra(3))
    then show "v \<in> set (V g)" using S_closed[OF wf c(1)] by blast
  qed
  have new_fresh: "set new \<inter> set (res @ c # q) = {}"
    using new(3) dz sub by fastforce
  have dr': "deg d' v = remaining g (res @ [c]) v" if "v \<in> set (V g)" for v
    using that by (simp add: new(4) dr remaining_snoc c)
  have dz': "deg d' v = 0 \<longleftrightarrow> v \<in> set ((res @ [c]) @ q')" if v: "v \<in> set (V g)" for v
    using dz[OF v] new(1,3,4) remaining_nonneg[of g "res @ [c]" v] dr'[OF v]
      remaining_nonneg[of g res v] dr[OF v] by auto
  have "u \<in> set res" if "(u, c) \<in> E g" for u
    using remaining_zero[OF _ that] dr[OF c(1)] c(3) by simp
  then have "topo_order (E g) (res @ [c])"
    using topo by (auto simp: topo_order_def nth_append less_Suc_eq)
  then show ?thesis
    using dist sub new(1,2) new_V new_fresh c dr' dz' by (auto simp: kinv_def)
qed

lemma kinv_loop:
  assumes wf: "wf g" and inv: "kinv g d q res" and run: "kahn_loop (S g) d q res = (d', res')"
  shows "kinv g d' [] res'"
proof -
  have "T = S g \<Longrightarrow> kinv g d q res \<Longrightarrow> kahn_loop T d q res = (d', res') \<Longrightarrow> kinv g d' [] res'" for T
  proof (induction T d q res rule: kahn_loop.induct)
    case (1 T d res)
    then show ?case by simp
  next
    case (2 T d c q res)
    obtain d1 q1 where dec: "kahn_dec (T c) d q = (d1, q1)" by fastforce
    show ?case
    proof (rule "2.IH"[OF dec[symmetric] "2.prems"(1)])
      show "kinv g d1 q1 (res @ [c])"
        using "2.prems"(1,2) dec by (intro kinv_step[OF wf]) simp_all
      show "kahn_loop T d1 q1 (res @ [c]) = (d', res')"
        using "2.prems"(3) dec by simp
    qed
  qed
  with inv run show ?thesis by blast
qed

lemma acyclic_remaining_empty:
  assumes wf: "wf g" and ac: "acyclic (E g)" and inv: "kinv g d [] res"
  shows "set res = set (V g)"
proof (rule ccontr)
  let ?R = "set (V g) - set res"
  assume "set res \<noteq> set (V g)"
  with inv have "?R \<noteq> {}" by (auto simp: kinv_def)
  moreover have "finite (E g)"
  proof (rule finite_subset)
    show "E g \<subseteq> set (V g) \<times> set (V g)" using S_closed[OF wf] by (auto simp: E_def)
  qed simp
  ultimately obtain v where v: "v \<in> ?R" "\<And>u. (u, v) \<in> E g \<Longrightarrow> u \<notin> ?R"
    using ac finite_acyclic_wf[of "E g"] by (metis equals0I wfE_min)
  have "count_list (S g u) v = 0" if "u \<in> ?R" for u
    using v(2)[of u] that by (auto simp: E_def count_list_0_iff)
  then have "remaining g res v = 0" by (simp add: remaining_def)
  with v(1) inv show False by (auto simp: kinv_def)
qed

lemma topo_order_acyclic:
  assumes "topo_order (E g) res" "set res = set (V g)" "wf g" "distinct res"
  shows "acyclic (E g)"
proof -
  define pos where "pos v = (LEAST i. i < length res \<and> res ! i = v)" for v
  have pos: "pos v < length res" "res ! pos v = v" if v: "v \<in> set res" for v
    using LeastI_ex[of "\<lambda>i. i < length res \<and> res ! i = v"] v
    by (auto simp: pos_def in_set_conv_nth)
  have lt: "pos u < pos v" if "(u, v) \<in> E g" for u v
  proof -
    from that have uv: "u \<in> set res" "v \<in> set res"
      using assms(2) S_closed[OF assms(3)] by (auto simp: E_def)
    with that pos[OF uv(2)] assms(1) have "u \<in> set (take (pos v) res)"
      by (auto simp: topo_order_def)
    then obtain i where "i < pos v" "i < length res" "res ! i = u" by (auto simp: in_set_conv_nth)
    moreover have "pos u = i"
      using pos[OF uv(1)] calculation assms(4) by (metis nth_eq_iff_index_eq)
    ultimately show ?thesis by simp
  qed
  show ?thesis
  proof (rule wf_acyclic)
    show "Wellfounded.wf (E g)"
      by (rule wf_subset[OF wf_measure[of pos]]) (auto simp: lt)
  qed
qed

lemma kahn_correct:
  assumes wf: "wf g" and ord: "distinct ord" "set ord = set (V g)"
    and run: "kahn (S g) (D g) ord = (d, res)"
  shows kahn_distinct: "distinct res"
    and kahn_subset: "set res \<subseteq> set (V g)"
    and kahn_topo: "topo_order (E g) res"
    and kahn_complete: "length res = length (V g) \<longleftrightarrow> acyclic (E g)"
    and kahn_all: "acyclic (E g) \<Longrightarrow> set res = set (V g)"
    and kahn_left: "v \<in> set (V g) \<Longrightarrow> 0 < deg d v \<longleftrightarrow> v \<notin> set res"
proof -
  have inv: "kinv g d [] res"
    using kinv_loop[OF wf kinv_init[OF wf ord]] run by (simp add: kahn_def)
  then show d: "distinct res" and s: "set res \<subseteq> set (V g)" and t: "topo_order (E g) res"
    by (auto simp: kinv_def)
  show a: "acyclic (E g) \<Longrightarrow> set res = set (V g)"
    using acyclic_remaining_empty[OF wf _ inv] .
  have "length res = length (V g) \<longleftrightarrow> set res = set (V g)"
    using d s V_distinct[OF wf] by (metis card_subset_eq distinct_card List.finite_set)
  with a topo_order_acyclic[OF t _ wf d] show "length res = length (V g) \<longleftrightarrow> acyclic (E g)"
    by blast
  show "0 < deg d v \<longleftrightarrow> v \<notin> set res" if "v \<in> set (V g)"
    using inv that remaining_nonneg[of g res v] by (auto simp: kinv_def)
qed

end

end
