(* ===== verification/Graph_Model.thy ===== *)
theory Graph_Model
  imports Core_Node Kahn
begin

section \<open>Package graph: the basic graph\<close>

text \<open>
  \<open>graph/graph.go\<close>: the record \<open>BasicGraph\<close> with its five maps and lists, its operations and
  its algorithms. Mutating methods return the new graph or the error (the code changes nothing on
  an error path). The invariant \<open>graph_ok\<close> ties the redundant parts together: the node order
  lists the node map, and the successor and predecessor lists are exactly the edges. The locale
  \<open>graph_interface\<close> is the contract of Go's interface \<open>graph.Graph\<close> that the runtimes use;
  \<open>counted_graph\<close> adds what the algorithms need, and implies the contract of \<open>Kahn\<close>.
\<close>

datatype graph_error =
    ErrNilNode
  | ErrDuplicateNode string
  | ErrInvalidEdgeSource string
  | ErrInvalidEdgeTarget string
  | ErrNodeNotFound string
  | ErrNoEntryNode
  | ErrCycleDetected
  | ErrEmptyGraph

datatype Edge = Edge (From: string) (To: string)

record BasicGraph =
  g_name :: string
  g_nodes :: "Node gomap"
  g_nodeOrder :: "string list"
  g_edges :: "Edge list"
  g_successors :: "string list gomap"
  g_predecessors :: "string list gomap"
  g_entry :: string

definition NewGraph :: "string \<Rightarrow> BasicGraph" where
  "NewGraph name = \<lparr>g_name = name, g_nodes = [], g_nodeOrder = [], g_edges = [],
     g_successors = [], g_predecessors = [], g_entry = []\<rparr>"

definition Nodes :: "BasicGraph \<Rightarrow> Node option list" where
  "Nodes g = map (\<lambda>i. mget (g_nodes g) i) (g_nodeOrder g)"

definition Edges :: "BasicGraph \<Rightarrow> Edge list" where
  "Edges g = g_edges g"

definition NodeByID :: "BasicGraph \<Rightarrow> string \<Rightarrow> Node option" where
  "NodeByID g i = mget (g_nodes g) i"

definition Entry :: "BasicGraph \<Rightarrow> string" where
  "Entry g = g_entry g"

text \<open>Indexing a Go map at an absent key gives the nil slice.\<close>

definition slice_at :: "string list gomap \<Rightarrow> string \<Rightarrow> string list" where
  "slice_at m i = (case mget m i of None \<Rightarrow> [] | Some xs \<Rightarrow> xs)"

definition Successors :: "BasicGraph \<Rightarrow> string \<Rightarrow> string list" where
  "Successors g i = slice_at (g_successors g) i"

definition Predecessors :: "BasicGraph \<Rightarrow> string \<Rightarrow> string list" where
  "Predecessors g i = slice_at (g_predecessors g) i"

definition init_slice :: "string \<Rightarrow> string list gomap \<Rightarrow> string list gomap" where
  "init_slice i m = (case mget m i of None \<Rightarrow> mput i [] m | Some _ \<Rightarrow> m)"

definition AddNode :: "Node option \<Rightarrow> BasicGraph \<Rightarrow> graph_error + BasicGraph" where
  "AddNode node g = (case node of
       None \<Rightarrow> Inl ErrNilNode
     | Some n \<Rightarrow>
         (let i = n_ID n in
          if mget (g_nodes g) i \<noteq> None then Inl (ErrDuplicateNode i)
          else Inr (g\<lparr>g_nodes := mput i n (g_nodes g), g_nodeOrder := g_nodeOrder g @ [i],
                      g_successors := init_slice i (g_successors g),
                      g_predecessors := init_slice i (g_predecessors g)\<rparr>)))"

definition AddEdge :: "string \<Rightarrow> string \<Rightarrow> BasicGraph \<Rightarrow> graph_error + BasicGraph" where
  "AddEdge from to g =
     (if mget (g_nodes g) from = None then Inl (ErrInvalidEdgeSource from)
      else if mget (g_nodes g) to = None then Inl (ErrInvalidEdgeTarget to)
      else if list_ex (\<lambda>e. From e = from \<and> To e = to) (g_edges g) then Inr g
      else Inr (g\<lparr>g_edges := g_edges g @ [Edge from to],
                  g_successors := mput from (slice_at (g_successors g) from @ [to]) (g_successors g),
                  g_predecessors := mput to (slice_at (g_predecessors g) to @ [from]) (g_predecessors g)\<rparr>))"

definition SetEntry :: "string \<Rightarrow> BasicGraph \<Rightarrow> graph_error + BasicGraph" where
  "SetEntry i g =
     (if mget (g_nodes g) i = None then Inl (ErrNodeNotFound i) else Inr (g\<lparr>g_entry := i\<rparr>))"

definition Validate :: "BasicGraph \<Rightarrow> graph_error option" where
  "Validate g =
     (if length (g_nodes g) = 0 then Some ErrEmptyGraph
      else if g_entry g = [] then Some ErrNoEntryNode
      else if mget (g_nodes g) (g_entry g) = None then Some (ErrNodeNotFound (g_entry g))
      else None)"

text \<open>\<open>TopologicalSort\<close>. The argument \<open>ord\<close> is the order in which Go's \<open>range\<close> yields the
  keys of \<open>inDegree\<close> when the first queue is filled.\<close>

definition inDegree :: "BasicGraph \<Rightarrow> int gomap" where
  "inDegree g = map (\<lambda>i. (i, int (length (Predecessors g i)))) (mkeys (g_nodes g))"

definition TopologicalSort ::
  "BasicGraph \<Rightarrow> string list \<Rightarrow> bool \<Rightarrow> graph_error + string list" where
  "TopologicalSort g ord allowCycles =
     (let (d, result) = kahn (Successors g) (inDegree g) ord
      in if length result \<noteq> length (g_nodes g) \<and> \<not> allowCycles then Inl ErrCycleDetected
         else Inr result)"

text \<open>\<open>Reachable\<close>. The recursive closure \<open>visit\<close> with its call stack made explicit: the pending
  calls are a list, and a visit of a fresh node pushes the visits of its successors. A node is
  marked visited exactly when it is appended to the result, so the result is the visited set.\<close>

function visit :: "string list gomap \<Rightarrow> string list \<Rightarrow> string list \<Rightarrow> string list" where
  "visit succ [] result = result"
| "visit succ (i # calls) result =
     (if i \<in> set result then visit succ calls result
      else visit succ (slice_at succ i @ calls) (result @ [i]))"
  by pat_completeness auto
termination
proof (relation "measures [\<lambda>(m, calls, r). card (set (mkeys m) - set r), \<lambda>(m, calls, r). length calls]",
    goal_cases)
  case (3 m i calls r)
  show ?case
  proof (cases "i \<in> set (mkeys m)")
    case True
    with 3 have "set (mkeys m) - set (r @ [i]) \<subset> set (mkeys m) - set r" by auto
    then have "card (set (mkeys m) - set (r @ [i])) < card (set (mkeys m) - set r)"
      by (intro psubset_card_mono) auto
    then show ?thesis by simp
  next
    case False
    then have "mget m i = None" by (simp add: in_mkeys_iff del: set_map)
    moreover have "set (mkeys m) - set (r @ [i]) = set (mkeys m) - set r" using False by auto
    ultimately show ?thesis by (simp add: slice_at_def del: set_map)
  qed
qed auto

definition Reachable :: "BasicGraph \<Rightarrow> string \<Rightarrow> string list" where
  "Reachable g startID = visit (g_successors g) [startID] []"


subsection \<open>The invariant\<close>

definition graph_ok :: "BasicGraph \<Rightarrow> bool" where
  "graph_ok g \<longleftrightarrow>
     gomap_ok (g_nodes g) \<and> g_nodeOrder g = mkeys (g_nodes g) \<and>
     (\<forall>i n. mget (g_nodes g) i = Some n \<longrightarrow> n_ID n = i) \<and>
     distinct (g_edges g) \<and>
     (\<forall>e \<in> set (g_edges g). mget (g_nodes g) (From e) \<noteq> None \<and> mget (g_nodes g) (To e) \<noteq> None) \<and>
     (\<forall>i. Successors g i = map To (filter (\<lambda>e. From e = i) (g_edges g))) \<and>
     (\<forall>i. Predecessors g i = map From (filter (\<lambda>e. To e = i) (g_edges g))) \<and>
     (g_entry g = [] \<or> mget (g_nodes g) (g_entry g) \<noteq> None)"

lemma slice_at_init [simp]: "slice_at (init_slice i m) j = slice_at m j"
  by (simp add: slice_at_def init_slice_def split: option.splits)

lemma slice_at_mput [simp]: "slice_at (mput i xs m) j = (if j = i then xs else slice_at m j)"
  by (simp add: slice_at_def)

lemma graph_ok_new [simp, inv_intros]: "graph_ok (NewGraph name)"
  by (simp add: graph_ok_def NewGraph_def Successors_def Predecessors_def slice_at_def)

lemma AddNode_Inr_iff:
  "AddNode node g = Inr g' \<longleftrightarrow>
     (\<exists>n. node = Some n \<and> NodeByID g (n_ID n) = None \<and>
        g' = g\<lparr>g_nodes := mput (n_ID n) n (g_nodes g), g_nodeOrder := g_nodeOrder g @ [n_ID n],
               g_successors := init_slice (n_ID n) (g_successors g),
               g_predecessors := init_slice (n_ID n) (g_predecessors g)\<rparr>)"
  by (auto simp: AddNode_def NodeByID_def Let_def split: option.splits)

lemma graph_ok_AddNode [inv_intros]:
  assumes "graph_ok g" "AddNode node g = Inr g'" shows "graph_ok g'"
proof -
  from assms(2) obtain n where "mget (g_nodes g) (n_ID n) = None"
    and g': "g' = g\<lparr>g_nodes := mput (n_ID n) n (g_nodes g), g_nodeOrder := g_nodeOrder g @ [n_ID n],
        g_successors := init_slice (n_ID n) (g_successors g),
        g_predecessors := init_slice (n_ID n) (g_predecessors g)\<rparr>"
    by (auto simp: AddNode_Inr_iff NodeByID_def)
  then have "n_ID n \<notin> set (mkeys (g_nodes g))" by (simp add: in_mkeys_iff del: set_map)
  then show ?thesis using assms(1) unfolding g'
    by (auto simp: graph_ok_def mkeys_mput Successors_def Predecessors_def simp del: set_map)
qed

lemma AddEdge_Inr_cases:
  assumes "AddEdge from to g = Inr g'"
  obtains (same) "NodeByID g from \<noteq> None" "NodeByID g to \<noteq> None"
      "Edge from to \<in> set (g_edges g)" "g' = g"
    | (new) "NodeByID g from \<noteq> None" "NodeByID g to \<noteq> None" "Edge from to \<notin> set (g_edges g)"
      "g' = g\<lparr>g_edges := g_edges g @ [Edge from to],
         g_successors := mput from (slice_at (g_successors g) from @ [to]) (g_successors g),
         g_predecessors := mput to (slice_at (g_predecessors g) to @ [from]) (g_predecessors g)\<rparr>"
proof -
  have "list_ex (\<lambda>e. From e = from \<and> To e = to) (g_edges g) \<longleftrightarrow> Edge from to \<in> set (g_edges g)"
    by (auto simp: list_ex_iff intro!: bexI)
  with assms that show thesis by (auto simp: AddEdge_def NodeByID_def split: if_splits)
qed

lemma graph_ok_AddEdge [inv_intros]:
  assumes "graph_ok g" "AddEdge from to g = Inr g'" shows "graph_ok g'"
  using assms(2)
proof (cases rule: AddEdge_Inr_cases)
  case same
  with assms(1) show ?thesis by simp
next
  case new
  with assms(1) show ?thesis
    by (auto simp: graph_ok_def NodeByID_def Successors_def Predecessors_def)
qed

lemma graph_ok_SetEntry [inv_intros]:
  "graph_ok g \<Longrightarrow> SetEntry i g = Inr g' \<Longrightarrow> graph_ok g'"
  by (auto simp: SetEntry_def graph_ok_def Successors_def Predecessors_def split: if_splits)


lemmas graph_ok_intros = graph_ok_new graph_ok_AddNode graph_ok_AddEdge graph_ok_SetEntry

lemma AddNode_NodeByID:
  "AddNode (Some n) g = Inr g' \<Longrightarrow> NodeByID g' i = (if i = n_ID n then Some n else NodeByID g i)"
  by (auto simp: AddNode_Inr_iff NodeByID_def)

lemma AddNode_edges:
  "AddNode node g = Inr g' \<Longrightarrow> g_edges g' = g_edges g \<and> Successors g' = Successors g
     \<and> Predecessors g' = Predecessors g \<and> g_entry g' = g_entry g"
  by (auto simp: AddNode_Inr_iff Successors_def Predecessors_def fun_eq_iff)

lemma AddEdge_frame:
  "AddEdge from to g = Inr g' \<Longrightarrow>
     g_nodes g' = g_nodes g \<and> g_nodeOrder g' = g_nodeOrder g \<and> g_entry g' = g_entry g
     \<and> g_name g' = g_name g"
  by (erule AddEdge_Inr_cases) auto

lemma AddEdge_edges:
  "AddEdge from to g = Inr g' \<Longrightarrow> set (g_edges g') = insert (Edge from to) (set (g_edges g))"
  by (erule AddEdge_Inr_cases) auto

lemma AddEdge_defined:
  "NodeByID g from \<noteq> None \<Longrightarrow> NodeByID g to \<noteq> None \<Longrightarrow> \<exists>g'. AddEdge from to g = Inr g'"
  by (auto simp: AddEdge_def NodeByID_def)

text \<open>Under the invariant, the two adjacency maps say the same as the edge list.\<close>

lemma graph_okD:
  assumes "graph_ok g"
  shows ok_Successors: "Successors g i = map To (filter (\<lambda>e. From e = i) (g_edges g))"
    and ok_Predecessors: "Predecessors g i = map From (filter (\<lambda>e. To e = i) (g_edges g))"
    and ok_distinct: "distinct (mkeys (g_nodes g))"
    and ok_nodeOrder: "g_nodeOrder g = mkeys (g_nodes g)"
    and ok_node_ID: "NodeByID g i = Some n \<Longrightarrow> n_ID n = i"
    and ok_edge_ends: "e \<in> set (g_edges g) \<Longrightarrow> NodeByID g (From e) \<noteq> None \<and> NodeByID g (To e) \<noteq> None"
    and ok_entry: "g_entry g = [] \<or> NodeByID g (g_entry g) \<noteq> None"
  using assms unfolding graph_ok_def gomap_ok_def NodeByID_def by blast+

lemma in_keys_NodeByID: "i \<in> set (mkeys (g_nodes g)) \<longleftrightarrow> NodeByID g i \<noteq> None"
  by (simp add: NodeByID_def in_mkeys_iff del: set_map)

lemma Successors_edge:
  assumes "graph_ok g" shows "v \<in> set (Successors g u) \<longleftrightarrow> Edge u v \<in> set (g_edges g)"
  unfolding ok_Successors[OF assms] by (auto intro!: image_eqI[where x = "Edge u v"])

lemma Predecessors_edge:
  assumes "graph_ok g" shows "u \<in> set (Predecessors g v) \<longleftrightarrow> Edge u v \<in> set (g_edges g)"
  unfolding ok_Predecessors[OF assms] by (auto intro!: image_eqI[where x = "Edge u v"])


subsection \<open>The interface of a graph\<close>

locale graph_interface =
  fixes wf :: "'g \<Rightarrow> bool"
    and ids :: "'g \<Rightarrow> string list"
    and node_by_id :: "'g \<Rightarrow> string \<Rightarrow> Node option"
    and succs :: "'g \<Rightarrow> string \<Rightarrow> string list"
    and preds :: "'g \<Rightarrow> string \<Rightarrow> string list"
  assumes ids_nodes: "wf g \<Longrightarrow> i \<in> set (ids g) \<longleftrightarrow> node_by_id g i \<noteq> None"
    and node_ids: "wf g \<Longrightarrow> node_by_id g i = Some n \<Longrightarrow> n_ID n = i"
    and succs_closed: "wf g \<Longrightarrow> v \<in> set (succs g u) \<Longrightarrow> v \<in> set (ids g)"
    and dual: "wf g \<Longrightarrow> v \<in> set (succs g u) \<longleftrightarrow> u \<in> set (preds g v)"
begin

lemma succs_found: "wf g \<Longrightarrow> v \<in> set (succs g u) \<Longrightarrow> \<exists>n. node_by_id g v = Some n \<and> n_ID n = v"
  using ids_nodes node_ids succs_closed by (metis not_None_eq)

lemma reach_found:
  assumes "wf g" "node_by_id g s \<noteq> None" "v \<in> reach_from (succs g) s"
  shows "node_by_id g v \<noteq> None"
proof -
  have "reach_from (succs g) s \<subseteq> {i. node_by_id g i \<noteq> None}"
    using assms(2) succs_found[OF assms(1)] by (intro reach_from_least) auto
  with assms(3) show ?thesis by blast
qed

end

locale counted_graph = graph_interface +
  assumes ids_distinct: "wf g \<Longrightarrow> distinct (ids g)"
    and preds_count: "wf g \<Longrightarrow> v \<in> set (ids g) \<Longrightarrow>
          length (preds g v) = (\<Sum>u \<leftarrow> ids g. count_list (succs g u) v)"

sublocale counted_graph \<subseteq> kahn_graph wf ids succs
    "\<lambda>g. map (\<lambda>i. (i, int (length (preds g i)))) (ids g)"
proof unfold_locales
  fix g v assume wf: "wf g" and v: "v \<in> set (ids g)"
  have "mget (map (\<lambda>i. (i, int (length (preds g i)))) (ids g)) v = Some (int (length (preds g v)))"
    using v by (simp add: map_of_map_restrict)
  then show "deg (map (\<lambda>i. (i, int (length (preds g i)))) (ids g)) v
      = (\<Sum>u \<leftarrow> ids g. int (count_list (succs g u) v))"
    using preds_count[OF wf v] by (simp add: deg_def int_sum_list)
qed (use ids_distinct succs_closed in auto)

text \<open>Edges grouped by their source: every edge is counted once.\<close>

lemma length_filter_by_source:
  assumes "distinct vs" "\<forall>e \<in> set es. From e \<in> set vs"
  shows "length (filter P es) = (\<Sum>u \<leftarrow> vs. length (filter (\<lambda>e. P e \<and> From e = u) es))"
  using assms(2)
proof (induction es)
  case (Cons e es)
  have one: "(\<Sum>u \<leftarrow> vs. if From e = u then Suc 0 else 0) = 1" if "From e \<in> set vs"
    using that assms(1) by (induction vs) (auto simp: sum_list_0)
  have "(\<Sum>u \<leftarrow> vs. length (filter (\<lambda>e. P e \<and> From e = u) (e # es)))
      = (\<Sum>u \<leftarrow> vs. (if P e \<and> From e = u then Suc 0 else 0)
          + length (filter (\<lambda>e. P e \<and> From e = u) es))"
    by (rule arg_cong[where f = sum_list]) auto
  also have "\<dots> = (if P e then 1 else 0) + length (filter P es)"
    using Cons one by (auto simp: sum_list_addf)
  finally show ?case by simp
qed simp

lemma count_list_map_To:
  "count_list (map To (filter (\<lambda>e. From e = u) es)) v
     = length (filter (\<lambda>e. To e = v \<and> From e = u) es)"
  by (induction es) auto

interpretation bg: counted_graph graph_ok "\<lambda>g. mkeys (g_nodes g)" NodeByID Successors Predecessors
proof
  fix g i n v u
  assume ok: "graph_ok g"
  show "(i \<in> set (mkeys (g_nodes g))) = (NodeByID g i \<noteq> None)"
    by (rule in_keys_NodeByID)
  show "NodeByID g i = Some n \<Longrightarrow> n_ID n = i"
    by (rule ok_node_ID[OF ok])
  show "v \<in> set (mkeys (g_nodes g))" if "v \<in> set (Successors g u)"
    using that ok_edge_ends[OF ok] unfolding in_keys_NodeByID Successors_edge[OF ok] by force
  show "(v \<in> set (Successors g u)) = (u \<in> set (Predecessors g v))"
    by (simp add: Successors_edge[OF ok] Predecessors_edge[OF ok])
  show "distinct (mkeys (g_nodes g))"
    by (rule ok_distinct[OF ok])
  have src: "\<forall>e \<in> set (g_edges g). From e \<in> set (mkeys (g_nodes g))"
    using ok_edge_ends[OF ok] unfolding in_keys_NodeByID by blast
  have "length (Predecessors g v) = length (filter (\<lambda>e. To e = v) (g_edges g))"
    by (simp add: ok_Predecessors[OF ok])
  also have "\<dots> = (\<Sum>u \<leftarrow> mkeys (g_nodes g). count_list (Successors g u) v)"
    unfolding ok_Successors[OF ok] count_list_map_To
    by (rule length_filter_by_source[OF ok_distinct[OF ok] src])
  finally show "length (Predecessors g v) = (\<Sum>u \<leftarrow> mkeys (g_nodes g). count_list (Successors g u) v)" .
qed


subsection \<open>Reachability\<close>

lemma visit_distinct: "distinct result \<Longrightarrow> distinct (visit succ calls result)"
  by (induction succ calls result rule: visit.induct) auto

lemma visit_sound:
  assumes "\<And>u v. u \<in> A \<Longrightarrow> v \<in> set (slice_at succ u) \<Longrightarrow> v \<in> A"
  shows "set calls \<subseteq> A \<Longrightarrow> set result \<subseteq> A \<Longrightarrow> set (visit succ calls result) \<subseteq> A"
  using assms by (induction succ calls result rule: visit.induct) (simp; blast)+

lemma visit_extends: "set result \<union> set calls \<subseteq> set (visit succ calls result)"
  by (induction succ calls result rule: visit.induct) auto

lemma visit_closed:
  assumes "\<forall>u \<in> set result. set (slice_at succ u) \<subseteq> set result \<union> set calls"
  shows "\<forall>u \<in> set (visit succ calls result). set (slice_at succ u) \<subseteq> set (visit succ calls result)"
  using assms by (induction succ calls result rule: visit.induct) (simp; blast)+

lemma visit_prefix: "\<exists>ys. visit succ calls result = result @ ys"
  by (induction succ calls result rule: visit.induct) auto


subsection \<open>Properties\<close>

text \<open>C11: \<open>Reachable\<close> returns exactly the nodes reachable from the start node over the successor
  lists, each once, the start node first.\<close>

theorem Reachable_correct:
  "set (Reachable g s) = reach_from (Successors g) s \<and> distinct (Reachable g s)
     \<and> hd (Reachable g s) = s"
proof -
  have S: "Successors g = slice_at (g_successors g)" by (simp add: Successors_def fun_eq_iff)
  have "set (Reachable g s) \<subseteq> reach_from (Successors g) s"
    unfolding Reachable_def by (rule visit_sound) (auto simp: S intro: reach_from_step)
  moreover have "reach_from (Successors g) s \<subseteq> set (Reachable g s)"
    using visit_closed[of "[]" "g_successors g" "[s]"] visit_extends[of "[]" "[s]" "g_successors g"]
    unfolding Reachable_def by (intro reach_from_least) (auto simp: S)
  moreover have "distinct (Reachable g s)"
    unfolding Reachable_def by (simp add: visit_distinct)
  moreover have "hd (Reachable g s) = s"
    using visit_prefix[of "g_successors g" "slice_at (g_successors g) s" "[s]"]
    by (auto simp: Reachable_def)
  ultimately show ?thesis by blast
qed


lemma bg_E: "graph_ok g \<Longrightarrow> bg.E g = edge_rel (Successors g)"
  unfolding bg.E_def edge_rel_def
  by (auto simp: in_keys_NodeByID Successors_edge simp del: set_map dest: ok_edge_ends)

text \<open>C10: For every order in which the map range may yield the nodes, \<open>TopologicalSort\<close> (cycles not
  allowed) returns the error exactly on a cyclic graph, and otherwise a list that holds every node
  once, each after all its predecessors.\<close>

theorem TopologicalSort_correct:
  assumes ok: "graph_ok g" and ord: "distinct ord" "set ord = set (g_nodeOrder g)"
  shows "(if acyclic (edge_rel (Successors g))
      then \<exists>order. TopologicalSort g ord False = Inr order \<and> distinct order
             \<and> set order = set (g_nodeOrder g) \<and> topo_order (edge_rel (Successors g)) order
      else TopologicalSort g ord False = Inl ErrCycleDetected)"
proof -
  obtain d result where run: "kahn (Successors g) (inDegree g) ord = (d, result)" by fastforce
  have ord': "set ord = set (mkeys (g_nodes g))" using ord(2) ok_nodeOrder[OF ok] by simp
  have run': "kahn (Successors g) (map (\<lambda>i. (i, int (length (Predecessors g i)))) (mkeys (g_nodes g))) ord
      = (d, result)"
    using run by (simp add: inDegree_def)
  note kc = bg.kahn_correct[OF ok ord(1) ord' run', unfolded bg_E[OF ok]]
  have "length (mkeys (g_nodes g)) = length (g_nodes g)" by simp
  with run kc(1,3,4,5) ok_nodeOrder[OF ok] show ?thesis
    by (auto simp: TopologicalSort_def)
qed

text \<open>The graphs that a sequence of successful calls builds.\<close>

inductive built :: "BasicGraph \<Rightarrow> bool" where
  new: "built (NewGraph name)"
| add_node: "built g \<Longrightarrow> AddNode node g = Inr g' \<Longrightarrow> built g'"
| add_edge: "built g \<Longrightarrow> AddEdge from to g = Inr g' \<Longrightarrow> built g'"
| set_entry: "built g \<Longrightarrow> SetEntry i g = Inr g' \<Longrightarrow> built g'"

lemma built_graph_ok: "built g \<Longrightarrow> graph_ok g"
  by (induction rule: built.induct) (auto intro: graph_ok_intros)

text \<open>C12: In every graph built through the API the two adjacency maps, the edge list and the node map
  agree: no duplicate edge, an edge joins existing nodes, \<open>v\<close> is a successor of \<open>u\<close> exactly when
  \<open>u\<close> is a predecessor of \<open>v\<close>, and \<open>Nodes\<close> lists exactly the nodes that \<open>NodeByID\<close>
  finds, each once and under its own ID.\<close>

theorem built_consistent:
  assumes "built g"
  shows "distinct (Edges g) \<and> distinct (Successors g u) \<and> distinct (Predecessors g v)
    \<and> (v \<in> set (Successors g u) \<longleftrightarrow> Edge u v \<in> set (Edges g))
    \<and> (u \<in> set (Predecessors g v) \<longleftrightarrow> Edge u v \<in> set (Edges g))
    \<and> (Edge u v \<in> set (Edges g) \<longrightarrow> NodeByID g u \<noteq> None \<and> NodeByID g v \<noteq> None)
    \<and> distinct (g_nodeOrder g) \<and> map (map_option n_ID) (Nodes g) = map Some (g_nodeOrder g)
    \<and> (u \<in> set (g_nodeOrder g) \<longleftrightarrow> NodeByID g u \<noteq> None)
    \<and> set (Nodes g) = {Some node | node. \<exists>i. NodeByID g i = Some node}"
proof -
  have ok: "graph_ok g" using assms by (rule built_graph_ok)
  then have dist: "distinct (g_edges g)" by (simp add: graph_ok_def)
  then have "distinct (map To (filter (\<lambda>e. From e = u) (g_edges g)))"
      "distinct (map From (filter (\<lambda>e. To e = v) (g_edges g)))"
    by (auto simp: distinct_map inj_on_def Edge.expand)
  then have adj: "distinct (Successors g u)" "distinct (Predecessors g v)"
    by (simp_all add: ok_Successors[OF ok] ok_Predecessors[OF ok])
  have "map_option n_ID (NodeByID g i) = Some i" if "i \<in> set (g_nodeOrder g)" for i
    using that ok_node_ID[OF ok] in_keys_NodeByID unfolding ok_nodeOrder[OF ok] by fastforce
  then have nodes: "map (map_option n_ID) (Nodes g) = map Some (g_nodeOrder g)"
    by (simp add: Nodes_def NodeByID_def[symmetric])
  have known: "i \<in> set (g_nodeOrder g) \<longleftrightarrow> NodeByID g i \<noteq> None" for i
    using ok_nodeOrder[OF ok] in_keys_NodeByID[of i g] by simp
  have "set (Nodes g) = NodeByID g ` set (g_nodeOrder g)" by (simp add: Nodes_def NodeByID_def)
  then have "set (Nodes g) = {Some node | node. \<exists>i. NodeByID g i = Some node}" using known by (auto simp: image_iff) metis+
  then show ?thesis
    using dist adj Successors_edge[OF ok] Predecessors_edge[OF ok] nodes known[of u]
      ok_distinct[OF ok] ok_nodeOrder[OF ok] ok_edge_ends[OF ok, of "Edge u v"]
    by (simp add: Edges_def)
qed

text \<open>A two-node graph for the witnesses.\<close>

definition demo_build :: "graph_error + BasicGraph" where
  "demo_build =
     rbind (AddNode (Some (NewNoopNode ''a'')) (NewGraph ''demo'')) (\<lambda>g.
     rbind (AddNode (Some (NewNoopNode ''b'')) g) (\<lambda>g.
     rbind (AddEdge ''a'' ''b'' g) (SetEntry ''a'')))"

definition demo_graph :: BasicGraph where
  "demo_graph = (case demo_build of Inr g \<Rightarrow> g | Inl _ \<Rightarrow> NewGraph [])"

lemmas graph_op_defs = AddNode_def AddEdge_def SetEntry_def NewGraph_def init_slice_def slice_at_def
  Let_def

lemma demo_build_Inr: "demo_build = Inr demo_graph"
  by (simp add: demo_graph_def demo_build_def graph_op_defs)

lemma demo_built: "built demo_graph"
proof -
  obtain g1 g2 g3 where g1: "AddNode (Some (NewNoopNode ''a'')) (NewGraph ''demo'') = Inr g1"
    and g2: "AddNode (Some (NewNoopNode ''b'')) g1 = Inr g2"
    and g3: "AddEdge ''a'' ''b'' g2 = Inr g3" and g4: "SetEntry ''a'' g3 = Inr demo_graph"
    using demo_build_Inr unfolding demo_build_def rbind_Inr_iff by (elim exE conjE)
  have "built g2" by (rule built.add_node[OF built.add_node[OF built.new g1] g2])
  then show ?thesis by (rule built.set_entry[OF built.add_edge[OF _ g3] g4])
qed

lemma demo_graph_simps:
  "g_nodeOrder demo_graph = [''a'', ''b'']" "Edges demo_graph = [Edge ''a'' ''b'']"
  "Successors demo_graph ''a'' = [''b'']" "Successors demo_graph ''b'' = []"
  by (simp_all add: demo_graph_def demo_build_def graph_op_defs Edges_def Successors_def)

lemma demo_acyclic: "acyclic (edge_rel (Successors demo_graph))"
proof -
  have "Successors demo_graph u = (if u = ''a'' then [''b''] else [])" for u
    by (simp add: demo_graph_def demo_build_def graph_op_defs Successors_def)
  then have "edge_rel (Successors demo_graph) = {(''a'', ''b'')}"
    by (auto split: if_splits)
  then show ?thesis by (simp add: acyclic_insert wf_acyclic)
qed

theorem TopologicalSort_correct_witness:
  "\<exists>order. TopologicalSort demo_graph [''b'', ''a''] False = Inr order \<and> set order = {''a'', ''b''}"
  using TopologicalSort_correct[OF built_graph_ok[OF demo_built], of "[''b'', ''a'']"] demo_acyclic
  by (auto simp: demo_graph_simps)

theorem built_consistent_witness:
  "built demo_graph \<and> Edge ''a'' ''b'' \<in> set (Edges demo_graph)
     \<and> ''a'' \<in> set (Predecessors demo_graph ''b'')"
  using built_consistent[OF demo_built, of "''a''" "''b''"] demo_built by (simp add: demo_graph_simps)

end
