(* ===== verification/Graph_Builder.thy ===== *)
theory Graph_Builder
  imports Graph_Model
begin

section \<open>Package graph: the fluent builder\<close>

text \<open>
  \<open>graph/builder.go\<close>: a graph under construction, the current nodes, the errors collected so far.
  Every method returns the builder; an error is appended and the method goes on or returns as the
  code does. A nil node argument is \<open>None\<close>; a node
  object is passed to one call only, so the graph holds the node as it was when it was added. The invariant \<open>builder_ok\<close> is kept by all methods.
\<close>

datatype builder_error =
    BEGraph graph_error
  | BENilNode
  | BENilMerge
  | BENodeNotFound string
  | BEMergeNotFound string
  | BENotMergeNode string NodeKind
  | BENilFanOut
  | BENeedsNode string
  | BENeedsCurrent string
  | BENilEntry nat
  | BENilPipelineNode nat
  | BENilRouter
  | BENilTarget

record GraphBuilder =
  b_graph :: BasicGraph
  b_current :: "string list"
  b_errors :: "builder_error list"
  b_entryDefined :: bool

definition NewGraphBuilder :: "string \<Rightarrow> GraphBuilder" where
  "NewGraphBuilder name =
     \<lparr>b_graph = NewGraph name, b_current = [], b_errors = [], b_entryDefined = False\<rparr>"

definition b_fail :: "builder_error \<Rightarrow> GraphBuilder \<Rightarrow> GraphBuilder" where
  "b_fail err b = b\<lparr>b_errors := b_errors b @ [err]\<rparr>"

definition b_AddNode :: "Node option \<Rightarrow> GraphBuilder \<Rightarrow> GraphBuilder" where
  "b_AddNode node b = (case node of None \<Rightarrow> b_fail BENilNode b
     | Some n \<Rightarrow> (case AddNode (Some n) (b_graph b) of
           Inl err \<Rightarrow> b_fail (BEGraph err) b
         | Inr g \<Rightarrow>
             (let b1 = b\<lparr>b_graph := g\<rparr>;
                  b2 = (if \<not> b_entryDefined b1
                        then b1\<lparr>b_graph := (case SetEntry (n_ID n) g of Inl _ \<Rightarrow> g | Inr g' \<Rightarrow> g'),
                                b_entryDefined := True\<rparr>
                        else b1)
              in b2\<lparr>b_current := [n_ID n]\<rparr>)))"

definition b_Entry :: "string \<Rightarrow> GraphBuilder \<Rightarrow> GraphBuilder" where
  "b_Entry nodeID b = (case SetEntry nodeID (b_graph b) of
       Inl err \<Rightarrow> b_fail (BEGraph err) b
     | Inr g \<Rightarrow> b\<lparr>b_graph := g, b_entryDefined := True\<rparr>)"

text \<open>One call of \<open>graph.AddEdge\<close> whose error, if any, is collected.\<close>

definition b_AddEdge :: "string \<Rightarrow> string \<Rightarrow> GraphBuilder \<Rightarrow> GraphBuilder" where
  "b_AddEdge from to b = (case AddEdge from to (b_graph b) of
       Inl err \<Rightarrow> b_fail (BEGraph err) b
     | Inr g \<Rightarrow> b\<lparr>b_graph := g\<rparr>)"

text \<open>The loop \<open>for _, from := range b.current\<close> that most methods have.\<close>

definition connect_from :: "string list \<Rightarrow> string \<Rightarrow> GraphBuilder \<Rightarrow> GraphBuilder" where
  "connect_from froms to b = fold (\<lambda>from. b_AddEdge from to) froms b"

definition b_Edge :: "Node option \<Rightarrow> GraphBuilder \<Rightarrow> GraphBuilder" where
  "b_Edge node b = (case node of None \<Rightarrow> b_fail BENilNode b
     | Some n \<Rightarrow> (case AddNode (Some n) (b_graph b) of
           Inl err \<Rightarrow> b_fail (BEGraph err) b
         | Inr g \<Rightarrow> (connect_from (b_current b) (n_ID n) (b\<lparr>b_graph := g\<rparr>))\<lparr>b_current := [n_ID n]\<rparr>))"

definition b_EdgeTo :: "string \<Rightarrow> GraphBuilder \<Rightarrow> GraphBuilder" where
  "b_EdgeTo nodeID b =
     (if NodeByID (b_graph b) nodeID = None then b_fail (BENodeNotFound nodeID) b
      else (connect_from (b_current b) nodeID b)\<lparr>b_current := [nodeID]\<rparr>)"

definition b_Connect :: "string \<Rightarrow> string \<Rightarrow> GraphBuilder \<Rightarrow> GraphBuilder" where
  "b_Connect fromID toID b = b_AddEdge fromID toID b"

fun fanout_loop :: "string list \<Rightarrow> Node option list \<Rightarrow> GraphBuilder \<Rightarrow> string list \<Rightarrow> GraphBuilder \<times> string list" where
  "fanout_loop current [] b newCurrent = (b, newCurrent)"
| "fanout_loop current (None # nodes) b newCurrent =
     fanout_loop current nodes (b_fail BENilFanOut b) newCurrent"
| "fanout_loop current (Some n # nodes) b newCurrent = (case AddNode (Some n) (b_graph b) of
       Inl err \<Rightarrow> fanout_loop current nodes (b_fail (BEGraph err) b) newCurrent
     | Inr g \<Rightarrow> fanout_loop current nodes (connect_from current (n_ID n) (b\<lparr>b_graph := g\<rparr>))
                  (newCurrent @ [n_ID n]))"

definition FanOut :: "Node option list \<Rightarrow> GraphBuilder \<Rightarrow> GraphBuilder" where
  "FanOut nodes b =
     (if nodes = [] then b_fail (BENeedsNode ''FanOut'') b
      else if b_current b = [] then b_fail (BENeedsCurrent ''FanOut'') b
      else let (b', newCurrent) = fanout_loop (b_current b) nodes b []
           in b'\<lparr>b_current := newCurrent\<rparr>)"

fun fanout_to_loop :: "string list \<Rightarrow> string list \<Rightarrow> GraphBuilder \<Rightarrow> string list \<Rightarrow> GraphBuilder \<times> string list" where
  "fanout_to_loop current [] b newCurrent = (b, newCurrent)"
| "fanout_to_loop current (nodeID # ids) b newCurrent =
     (if NodeByID (b_graph b) nodeID = None
      then fanout_to_loop current ids (b_fail (BENodeNotFound nodeID) b) newCurrent
      else fanout_to_loop current ids (connect_from current nodeID b) (newCurrent @ [nodeID]))"

definition FanOutTo :: "string list \<Rightarrow> GraphBuilder \<Rightarrow> GraphBuilder" where
  "FanOutTo nodeIDs b =
     (if nodeIDs = [] then b_fail (BENeedsNode ''FanOutTo'') b
      else if b_current b = [] then b_fail (BENeedsCurrent ''FanOutTo'') b
      else let (b', newCurrent) = fanout_to_loop (b_current b) nodeIDs b []
           in b'\<lparr>b_current := newCurrent\<rparr>)"

text \<open>\<open>Merge\<close> takes a \<open>MergeCapable\<close>: a node with the merge methods. Its expected input count
  is set to the number of current branches when it is 0.\<close>

definition expect_inputs :: "nat \<Rightarrow> Node \<Rightarrow> Node" where
  "expect_inputs k m = (case n_merge m of
       None \<Rightarrow> m
     | Some mc \<Rightarrow> if mc_ExpectedInputs mc = 0 then SetExpectedInputs (int k) m else m)"

definition b_Merge :: "Node option \<Rightarrow> GraphBuilder \<Rightarrow> GraphBuilder" where
  "b_Merge mergeNode b = (case mergeNode of None \<Rightarrow> b_fail BENilMerge b
     | Some m0 \<Rightarrow>
         (let m = expect_inputs (length (b_current b)) m0 in
          case AddNode (Some m) (b_graph b) of
            Inl err \<Rightarrow> b_fail (BEGraph err) b
          | Inr g \<Rightarrow> (connect_from (b_current b) (n_ID m) (b\<lparr>b_graph := g\<rparr>))\<lparr>b_current := [n_ID m]\<rparr>))"

definition MergeTo :: "string \<Rightarrow> GraphBuilder \<Rightarrow> GraphBuilder" where
  "MergeTo nodeID b = (case NodeByID (b_graph b) nodeID of
       None \<Rightarrow> b_fail (BEMergeNotFound nodeID) b
     | Some n \<Rightarrow>
         if n_Kind n \<noteq> NodeKindMerge then b_fail (BENotMergeNode nodeID (n_Kind n)) b
         else (connect_from (b_current b) nodeID b)\<lparr>b_current := [nodeID]\<rparr>)"

definition Branch :: "string \<Rightarrow> GraphBuilder \<Rightarrow> GraphBuilder" where
  "Branch nodeID b =
     (if NodeByID (b_graph b) nodeID = None then b_fail (BENodeNotFound nodeID) b
      else b\<lparr>b_current := [nodeID]\<rparr>)"

fun branches_loop :: "string list \<Rightarrow> GraphBuilder \<Rightarrow> string list \<Rightarrow> GraphBuilder \<times> string list" where
  "branches_loop [] b newCurrent = (b, newCurrent)"
| "branches_loop (nodeID # ids) b newCurrent =
     (if NodeByID (b_graph b) nodeID = None
      then branches_loop ids (b_fail (BENodeNotFound nodeID) b) newCurrent
      else branches_loop ids b (newCurrent @ [nodeID]))"

definition Branches :: "string list \<Rightarrow> GraphBuilder \<Rightarrow> GraphBuilder" where
  "Branches nodeIDs b =
     (let (b', newCurrent) = branches_loop nodeIDs b [] in b'\<lparr>b_current := newCurrent\<rparr>)"

fun WithNodes :: "Node option list \<Rightarrow> GraphBuilder \<Rightarrow> GraphBuilder" where
  "WithNodes [] b = b"
| "WithNodes (None # nodes) b = WithNodes nodes (b_fail BENilNode b)"
| "WithNodes (Some n # nodes) b = WithNodes nodes (case AddNode (Some n) (b_graph b) of
       Inl err \<Rightarrow> b_fail (BEGraph err) b
     | Inr g \<Rightarrow> b\<lparr>b_graph := g\<rparr>)"

datatype build_error = BuilderErrors "builder_error list" | ValidationFailed graph_error

definition Build :: "GraphBuilder \<Rightarrow> build_error + BasicGraph" where
  "Build b =
     (if 0 < length (b_errors b) then Inl (BuilderErrors (b_errors b))
      else case Validate (b_graph b) of
             Some err \<Rightarrow> Inl (ValidationFailed err)
           | None \<Rightarrow> Inr (b_graph b))"

text \<open>\<open>MustBuild\<close> panics on an error: \<open>None\<close>.\<close>

definition MustBuild :: "GraphBuilder \<Rightarrow> BasicGraph option" where
  "MustBuild b = (case Build b of Inl _ \<Rightarrow> None | Inr g \<Rightarrow> Some g)"

record FanOutBranch =
  fb_Entry :: "Node option"
  fb_Nodes :: "Node option list"

definition NewBranch :: "Node option \<Rightarrow> FanOutBranch" where
  "NewBranch n = \<lparr>fb_Entry = n, fb_Nodes = []\<rparr>"

definition NewPipelineBranch :: "Node option list \<Rightarrow> FanOutBranch" where
  "NewPipelineBranch nodes = (case nodes of
       [] \<Rightarrow> \<lparr>fb_Entry = None, fb_Nodes = []\<rparr>
     | n # rest \<Rightarrow> \<lparr>fb_Entry = n, fb_Nodes = rest\<rparr>)"

fun pipeline_loop :: "nat \<Rightarrow> string \<Rightarrow> Node option list \<Rightarrow> GraphBuilder \<Rightarrow> GraphBuilder \<times> string" where
  "pipeline_loop i lastID [] b = (b, lastID)"
| "pipeline_loop i lastID (None # nodes) b =
     pipeline_loop i lastID nodes (b_fail (BENilPipelineNode i) b)"
| "pipeline_loop i lastID (Some n # nodes) b = (case AddNode (Some n) (b_graph b) of
       Inl err \<Rightarrow> pipeline_loop i lastID nodes (b_fail (BEGraph err) b)
     | Inr g \<Rightarrow> pipeline_loop i (n_ID n) nodes (b_AddEdge lastID (n_ID n) (b\<lparr>b_graph := g\<rparr>)))"

fun fanout_branches_loop ::
  "string list \<Rightarrow> nat \<Rightarrow> FanOutBranch list \<Rightarrow> GraphBuilder \<Rightarrow> string list \<Rightarrow> GraphBuilder \<times> string list" where
  "fanout_branches_loop current i [] b newCurrent = (b, newCurrent)"
| "fanout_branches_loop current i (br # brs) b newCurrent = (case fb_Entry br of
       None \<Rightarrow> fanout_branches_loop current (Suc i) brs (b_fail (BENilEntry i) b) newCurrent
     | Some n \<Rightarrow> (case AddNode (Some n) (b_graph b) of
           Inl err \<Rightarrow> fanout_branches_loop current (Suc i) brs (b_fail (BEGraph err) b) newCurrent
         | Inr g \<Rightarrow>
             (let (b', lastID) = pipeline_loop i (n_ID n) (fb_Nodes br)
                                   (connect_from current (n_ID n) (b\<lparr>b_graph := g\<rparr>))
              in fanout_branches_loop current (Suc i) brs b' (newCurrent @ [lastID]))))"

definition FanOutBranches :: "FanOutBranch list \<Rightarrow> GraphBuilder \<Rightarrow> GraphBuilder" where
  "FanOutBranches branches b =
     (if branches = [] then b_fail (BENeedsNode ''FanOutBranches'') b
      else if b_current b = [] then b_fail (BENeedsCurrent ''FanOutBranches'') b
      else let (b', newCurrent) = fanout_branches_loop (b_current b) 0 branches b []
           in b'\<lparr>b_current := newCurrent\<rparr>)"

fun targets_loop :: "string \<Rightarrow> Node option list \<Rightarrow> GraphBuilder \<Rightarrow> string list \<Rightarrow> GraphBuilder \<times> string list" where
  "targets_loop routerID [] b targetIDs = (b, targetIDs)"
| "targets_loop routerID (None # targets) b targetIDs =
     targets_loop routerID targets (b_fail BENilTarget b) targetIDs"
| "targets_loop routerID (Some t # targets) b targetIDs = (case AddNode (Some t) (b_graph b) of
       Inl err \<Rightarrow> targets_loop routerID targets (b_fail (BEGraph err) b) targetIDs
     | Inr g \<Rightarrow> targets_loop routerID targets (b_AddEdge routerID (n_ID t) (b\<lparr>b_graph := g\<rparr>))
                  (targetIDs @ [n_ID t]))"

definition Conditional :: "Node option \<Rightarrow> Node option list \<Rightarrow> GraphBuilder \<Rightarrow> GraphBuilder" where
  "Conditional router targets b = (case router of None \<Rightarrow> b_fail BENilRouter b
     | Some r \<Rightarrow> (case AddNode (Some r) (b_graph b) of
           Inl err \<Rightarrow> b_fail (BEGraph err) b
         | Inr g \<Rightarrow>
             (let (b', targetIDs) = targets_loop (n_ID r) targets
                                      (connect_from (b_current b) (n_ID r) (b\<lparr>b_graph := g\<rparr>)) []
              in b'\<lparr>b_current := targetIDs\<rparr>)))"

definition Terminal :: "GraphBuilder \<Rightarrow> GraphBuilder" where
  "Terminal b = b\<lparr>b_current := []\<rparr>"


subsection \<open>The invariant\<close>

text \<open>The graph is well formed and has its entry once the entry is defined; the current nodes exist.\<close>

definition bgraph_ok :: "GraphBuilder \<Rightarrow> bool" where
  "bgraph_ok b \<longleftrightarrow> graph_ok (b_graph b)
     \<and> (b_entryDefined b \<longrightarrow> NodeByID (b_graph b) (g_entry (b_graph b)) \<noteq> None)"

definition builder_ok :: "GraphBuilder \<Rightarrow> bool" where
  "builder_ok b \<longleftrightarrow> bgraph_ok b \<and> (\<forall>i \<in> set (b_current b). NodeByID (b_graph b) i \<noteq> None)"

text \<open>What a step inside a method does at most: errors, nodes and edges only grow.\<close>

definition b_extends :: "GraphBuilder \<Rightarrow> GraphBuilder \<Rightarrow> bool" where
  "b_extends b b' \<longleftrightarrow> (\<exists>es. b_errors b' = b_errors b @ es)
     \<and> (\<forall>i. NodeByID (b_graph b) i \<noteq> None \<longrightarrow> NodeByID (b_graph b') i = NodeByID (b_graph b) i)
     \<and> set (g_edges (b_graph b)) \<subseteq> set (g_edges (b_graph b'))
     \<and> (bgraph_ok b \<longrightarrow> bgraph_ok b')"

named_theorems b_extends_intros

lemma b_extends_refl [simp, b_extends_intros]: "b_extends b b"
  by (simp add: b_extends_def)

lemma b_extends_trans [trans]: "b_extends a b \<Longrightarrow> b_extends b c \<Longrightarrow> b_extends a c"
  unfolding b_extends_def by (metis append.assoc subset_trans)

lemma bgraph_ok_current [simp]: "bgraph_ok (b\<lparr>b_current := c\<rparr>) = bgraph_ok b"
  by (simp add: bgraph_ok_def)

lemma b_extends_current [simp]:
  "b_extends b (b'\<lparr>b_current := c\<rparr>) = b_extends b b'"
  by (simp add: b_extends_def)

lemma b_extends_fail [simp, b_extends_intros]: "b_extends b (b_fail err b)"
  by (simp add: b_extends_def b_fail_def bgraph_ok_def)

lemma b_current_fail [simp]: "b_current (b_fail err b) = b_current b"
  by (simp add: b_fail_def)

lemma b_extends_found: "b_extends b b' \<Longrightarrow> NodeByID (b_graph b) i \<noteq> None \<Longrightarrow> NodeByID (b_graph b') i \<noteq> None"
  by (simp add: b_extends_def)

lemma b_extends_AddNode:
  assumes "AddNode (Some n) (b_graph b) = Inr g"
  shows "b_extends b (b\<lparr>b_graph := g\<rparr>)" "NodeByID g (n_ID n) = Some n"
proof -
  have "NodeByID (b_graph b) (n_ID n) = None" using assms by (auto simp: AddNode_Inr_iff)
  then show "b_extends b (b\<lparr>b_graph := g\<rparr>)" "NodeByID g (n_ID n) = Some n"
    using AddNode_edges[OF assms] AddNode_NodeByID[OF assms] graph_ok_AddNode[OF _ assms]
    by (auto simp: b_extends_def bgraph_ok_def)
qed

lemma b_extends_AddEdge [simp, b_extends_intros]: "b_extends b (b_AddEdge from to b)"
proof (cases "AddEdge from to (b_graph b)")
  case (Inr g)
  then show ?thesis using AddEdge_frame[OF Inr] AddEdge_edges[OF Inr]
    by (auto simp: b_AddEdge_def b_extends_def bgraph_ok_def NodeByID_def intro: graph_ok_AddEdge[OF _ Inr])
qed (simp add: b_AddEdge_def)

lemma b_current_AddEdge [simp]: "b_current (b_AddEdge from to b) = b_current b"
  by (simp add: b_AddEdge_def b_fail_def split: sum.splits)

lemma connect_from_Cons [simp]:
  "connect_from [] to b = b"
  "connect_from (f # froms) to b = connect_from froms to (b_AddEdge f to b)"
  by (simp_all add: connect_from_def)

lemma b_extends_connect [simp, b_extends_intros]: "b_extends b (connect_from froms to b)"
  by (induction froms arbitrary: b) (auto intro: b_extends_trans b_extends_AddEdge)

text \<open>A loop of a method extends the builder and collects nodes that exist.\<close>

definition collects :: "GraphBuilder \<Rightarrow> string list \<Rightarrow> GraphBuilder \<times> string list \<Rightarrow> bool" where
  "collects b cs r \<longleftrightarrow> b_extends b (fst r) \<and>
     ((\<forall>i \<in> set cs. NodeByID (b_graph b) i \<noteq> None) \<longrightarrow>
        (\<forall>i \<in> set (snd r). NodeByID (b_graph (fst r)) i \<noteq> None))"

lemma collects_refl [simp]: "collects b cs (b, cs)"
  by (simp add: collects_def)

lemma collects_step:
  assumes "b_extends b b1" "collects b1 cs r" shows "collects b cs r"
  using assms b_extends_trans b_extends_found[OF assms(1)] by (auto simp: collects_def)

lemma collects_snoc:
  assumes "b_extends b b1" "NodeByID (b_graph b1) i \<noteq> None" "collects b1 (cs @ [i]) r"
  shows "collects b cs r"
  using assms b_extends_trans b_extends_found[OF assms(1)] by (auto simp: collects_def)

lemmas b_added = b_extends_trans[OF b_extends_AddNode(1)]

lemma b_added_found:
  assumes "AddNode (Some n) (b_graph b) = Inr g" "b_extends (b\<lparr>b_graph := g\<rparr>) b'"
  shows "NodeByID (b_graph b') (n_ID n) \<noteq> None"
  using b_extends_found[OF assms(2)] b_extends_AddNode(2)[OF assms(1)] by simp

lemmas collects_fail = collects_step[OF b_extends_fail]

lemma fanout_collects: "collects b cs (fanout_loop current nodes b cs)"
proof (induction current nodes b cs rule: fanout_loop.induct)
  case (3 current n nodes b cs)
  show ?case
  proof (cases "AddNode (Some n) (b_graph b)")
    case (Inr g)
    have "collects b cs (fanout_loop current nodes (connect_from current (n_ID n) (b\<lparr>b_graph := g\<rparr>))
        (cs @ [n_ID n]))"
      by (rule collects_snoc[OF b_added[OF Inr b_extends_connect]
            b_added_found[OF Inr b_extends_connect] 3(2)[OF Inr]])
    then show ?thesis by (simp add: Inr)
  qed (use 3 in \<open>simp add: collects_fail\<close>)
qed (simp_all add: collects_fail)

lemma fanout_to_collects: "collects b cs (fanout_to_loop current ids b cs)"
proof (induction current ids b cs rule: fanout_to_loop.induct)
  case (2 current i ids b cs)
  show ?case
  proof (cases "NodeByID (b_graph b) i = None")
    case False
    have "collects b cs (fanout_to_loop current ids (connect_from current i b) (cs @ [i]))"
      by (rule collects_snoc[OF b_extends_connect b_extends_found[OF b_extends_connect False]
            2(2)[OF False]])
    then show ?thesis by (simp add: False del: not_None_eq)
  qed (use 2 in \<open>simp add: collects_fail\<close>)
qed simp

lemma branches_collects: "collects b cs (branches_loop ids b cs)"
  by (induction ids b cs rule: branches_loop.induct)
    (auto simp: collects_fail intro: collects_snoc[OF b_extends_refl] simp del: not_None_eq)

lemma pipeline_extends:
  assumes "pipeline_loop i lastID nodes b = (b', last')"
  shows "b_extends b b' \<and> (NodeByID (b_graph b) lastID \<noteq> None \<longrightarrow> NodeByID (b_graph b') last' \<noteq> None)"
  using assms
proof (induction i lastID nodes b rule: pipeline_loop.induct)
  case (2 i lastID nodes b)
  then have "b_extends (b_fail (BENilPipelineNode i) b) b'"
    and "NodeByID (b_graph b) lastID \<noteq> None \<longrightarrow> NodeByID (b_graph b') last' \<noteq> None"
    by (simp_all add: b_fail_def)
  then show ?case using b_extends_trans b_extends_fail by blast
next
  case (3 i lastID n nodes b)
  show ?case
  proof (cases "AddNode (Some n) (b_graph b)")
    case (Inl err)
    with 3 have "b_extends (b_fail (BEGraph err) b) b'"
      and "NodeByID (b_graph b) lastID \<noteq> None \<longrightarrow> NodeByID (b_graph b') last' \<noteq> None"
      by (simp_all add: b_fail_def)
    then show ?thesis using b_extends_trans b_extends_fail by blast
  next
    case (Inr g)
    let ?b = "b_AddEdge lastID (n_ID n) (b\<lparr>b_graph := g\<rparr>)"
    from 3(2)[OF Inr] 3(3) Inr have "b_extends ?b b'"
      "NodeByID (b_graph ?b) (n_ID n) \<noteq> None \<longrightarrow> NodeByID (b_graph b') last' \<noteq> None" by simp_all
    then show ?thesis
      using b_added[OF Inr b_extends_AddEdge] b_added_found[OF Inr b_extends_AddEdge] b_extends_trans
      by blast
  qed
qed simp

lemma fanout_branches_collects: "collects b cs (fanout_branches_loop current i brs b cs)"
proof (induction current i brs b cs rule: fanout_branches_loop.induct)
  case (2 current i br brs b cs)
  show ?case
  proof (cases "fb_Entry br")
    case (Some n)
    show ?thesis
    proof (cases "AddNode (Some n) (b_graph b)")
      case (Inr g)
      let ?b = "connect_from current (n_ID n) (b\<lparr>b_graph := g\<rparr>)"
      obtain b' l where p: "pipeline_loop i (n_ID n) (fb_Nodes br) ?b = (b', l)" by fastforce
      have "b_extends b b'" "NodeByID (b_graph b') l \<noteq> None"
        using pipeline_extends[OF p] b_added[OF Inr b_extends_connect]
          b_added_found[OF Inr b_extends_connect] b_extends_trans by blast+
      from collects_snoc[OF this 2(3)[OF Some Inr p[symmetric] refl]] show ?thesis
        by (simp add: Some Inr p)
    qed (use collects_fail[OF 2(2)[OF Some]] Some in \<open>simp\<close>)
  qed (use 2 in \<open>simp add: collects_fail\<close>)
qed simp

lemma targets_collects: "collects b cs (targets_loop rid targets b cs)"
proof (induction rid targets b cs rule: targets_loop.induct)
  case (3 rid t targets b cs)
  show ?case
  proof (cases "AddNode (Some t) (b_graph b)")
    case (Inr g)
    have "collects b cs (targets_loop rid targets (b_AddEdge rid (n_ID t) (b\<lparr>b_graph := g\<rparr>))
        (cs @ [n_ID t]))"
      by (rule collects_snoc[OF b_added[OF Inr b_extends_AddEdge]
            b_added_found[OF Inr b_extends_AddEdge] 3(2)[OF Inr]])
    then show ?thesis by (simp add: Inr)
  qed (use 3 in \<open>simp add: collects_fail\<close>)
qed (simp_all add: collects_fail)


subsection \<open>Every method keeps the invariant\<close>

text \<open>One method call on a builder.\<close>

inductive builder_call :: "GraphBuilder \<Rightarrow> GraphBuilder \<Rightarrow> bool" where
  "builder_call b (b_AddNode node b)"
| "builder_call b (b_Entry i b)"
| "builder_call b (b_Edge node b)"
| "builder_call b (b_EdgeTo i b)"
| "builder_call b (b_Connect i j b)"
| "builder_call b (FanOut nodes b)"
| "builder_call b (FanOutTo ids b)"
| "builder_call b (b_Merge node b)"
| "builder_call b (MergeTo i b)"
| "builder_call b (Branch i b)"
| "builder_call b (Branches ids b)"
| "builder_call b (WithNodes nodes b)"
| "builder_call b (FanOutBranches branches b)"
| "builder_call b (Conditional node nodes b)"
| "builder_call b (Terminal b)"

lemma builder_ok_new: "builder_ok (NewGraphBuilder name)"
  by (simp add: builder_ok_def bgraph_ok_def NewGraphBuilder_def)

definition b_keeps :: "GraphBuilder \<Rightarrow> GraphBuilder \<Rightarrow> bool" where
  "b_keeps b b' \<longleftrightarrow> b_extends b b' \<and> (builder_ok b \<longrightarrow> builder_ok b')"

lemma b_keeps_collected:
  assumes "collects b [] r" shows "b_keeps b ((fst r)\<lparr>b_current := snd r\<rparr>)"
  using assms by (auto simp: b_keeps_def collects_def builder_ok_def b_extends_def)

lemma b_keeps_single:
  assumes "b_extends b b'" "NodeByID (b_graph b') i \<noteq> None" shows "b_keeps b (b'\<lparr>b_current := [i]\<rparr>)"
  using assms by (auto simp: b_keeps_def builder_ok_def b_extends_def)

lemma b_keeps_same:
  assumes "b_extends b b'" "b_current b' = b_current b" shows "b_keeps b b'"
  using assms b_extends_found[OF assms(1)] by (auto simp: b_keeps_def builder_ok_def b_extends_def)

lemma b_keeps_fail [simp]: "b_keeps b (b_fail err b)"
  by (rule b_keeps_same[OF b_extends_fail]) (simp add: b_fail_def)

lemma b_keeps_AddNode: "b_keeps b (b_AddNode node b)"
proof (cases node)
  case (Some n)
  show ?thesis
  proof (cases "AddNode (Some n) (b_graph b)")
    case (Inr g)
    have g: "NodeByID g (n_ID n) = Some n" by (rule b_extends_AddNode(2)[OF Inr])
    then have e: "SetEntry (n_ID n) g = Inr (g\<lparr>g_entry := n_ID n\<rparr>)"
      by (simp add: SetEntry_def NodeByID_def)
    let ?b = "if b_entryDefined b then b\<lparr>b_graph := g\<rparr>
        else b\<lparr>b_graph := g\<lparr>g_entry := n_ID n\<rparr>, b_entryDefined := True\<rparr>"
    have "b_extends (b\<lparr>b_graph := g\<rparr>) ?b"
      using graph_ok_SetEntry[OF _ e] g by (auto simp: b_extends_def bgraph_ok_def NodeByID_def)
    from b_keeps_single[OF b_added[OF Inr this] b_added_found[OF Inr this]] show ?thesis
      by (simp add: b_AddNode_def Some Inr e Let_def split: if_splits)
  qed (simp add: b_AddNode_def Some)
qed (simp add: b_AddNode_def)

lemma b_keeps_Entry: "b_keeps b (b_Entry i b)"
proof (cases "SetEntry i (b_graph b)")
  case (Inr g)
  then have "b_extends b (b\<lparr>b_graph := g, b_entryDefined := True\<rparr>)"
    using graph_ok_SetEntry[OF _ Inr]
    by (auto simp: b_extends_def bgraph_ok_def SetEntry_def NodeByID_def split: if_splits)
  then show ?thesis by (simp add: b_Entry_def Inr b_keeps_same)
qed (simp add: b_Entry_def)

text \<open>Adding a node and connecting the current nodes to it: \<open>Edge\<close>, \<open>Merge\<close>, \<open>Conditional\<close>.\<close>

lemma b_keeps_attach:
  assumes "AddNode (Some n) (b_graph b) = Inr g"
  shows "b_keeps b ((connect_from froms (n_ID n) (b\<lparr>b_graph := g\<rparr>))\<lparr>b_current := [n_ID n]\<rparr>)"
  by (rule b_keeps_single[OF b_added[OF assms b_extends_connect] b_added_found[OF assms b_extends_connect]])

lemma b_keeps_link:
  assumes "NodeByID (b_graph b) i \<noteq> None"
  shows "b_keeps b ((connect_from froms i b)\<lparr>b_current := [i]\<rparr>)"
  by (rule b_keeps_single[OF b_extends_connect b_extends_found[OF b_extends_connect assms]])

lemma b_keeps_Edge: "b_keeps b (b_Edge node b)"
  by (simp add: b_Edge_def b_keeps_attach split: option.split sum.split)

lemma b_keeps_EdgeTo: "b_keeps b (b_EdgeTo i b)"
  by (simp add: b_EdgeTo_def b_keeps_link del: not_None_eq)

lemma b_keeps_Connect: "b_keeps b (b_Connect i j b)"
  by (simp add: b_Connect_def b_keeps_same)

lemma b_keeps_FanOut: "b_keeps b (FanOut nodes b)"
  by (simp add: FanOut_def Let_def split_def b_keeps_collected[OF fanout_collects])

lemma b_keeps_FanOutTo: "b_keeps b (FanOutTo ids b)"
  by (simp add: FanOutTo_def Let_def split_def b_keeps_collected[OF fanout_to_collects])

lemma b_keeps_Merge: "b_keeps b (b_Merge node b)"
  by (simp add: b_Merge_def b_keeps_attach Let_def split: option.split sum.split)

lemma b_keeps_MergeTo: "b_keeps b (MergeTo i b)"
  by (simp add: MergeTo_def b_keeps_link split: option.split)

lemma b_keeps_Branch: "b_keeps b (Branch i b)"
  by (simp add: Branch_def b_keeps_single[OF b_extends_refl] del: not_None_eq)

lemma b_keeps_Branches: "b_keeps b (Branches ids b)"
  by (simp add: Branches_def Let_def split_def b_keeps_collected[OF branches_collects])

lemma WithNodes_extends: "b_extends b (WithNodes nodes b) \<and> b_current (WithNodes nodes b) = b_current b"
proof (induction nodes b rule: WithNodes.induct)
  case (2 nodes b)
  then show ?case using b_extends_trans[OF b_extends_fail[of b BENilNode]] by simp
next
  case (3 n nodes b)
  show ?case
  proof (cases "AddNode (Some n) (b_graph b)")
    case (Inl e)
    with 3 show ?thesis using b_extends_trans[OF b_extends_fail[of b "BEGraph e"]] by simp
  next
    case (Inr g)
    with 3 b_added[OF Inr] show ?thesis by simp
  qed
qed simp

lemma b_keeps_WithNodes: "b_keeps b (WithNodes nodes b)"
  using WithNodes_extends b_keeps_same by blast

lemma b_keeps_FanOutBranches: "b_keeps b (FanOutBranches branches b)"
  by (simp add: FanOutBranches_def Let_def split_def b_keeps_collected[OF fanout_branches_collects])

lemma b_keeps_Conditional: "b_keeps b (Conditional router targets b)"
proof (cases router)
  case (Some r)
  show ?thesis
  proof (cases "AddNode (Some r) (b_graph b)")
    case (Inr g)
    have "collects b [] (targets_loop (n_ID r) targets
        (connect_from (b_current b) (n_ID r) (b\<lparr>b_graph := g\<rparr>)) [])"
      by (rule collects_step[OF b_added[OF Inr b_extends_connect] targets_collects])
    from b_keeps_collected[OF this] show ?thesis
      by (simp add: Conditional_def Some Inr split_def Let_def)
  qed (simp add: Conditional_def Some)
qed (simp add: Conditional_def)

lemma b_keeps_Terminal: "b_keeps b (Terminal b)"
  by (simp add: Terminal_def b_keeps_def builder_ok_def)

lemmas b_keeps_ops = b_keeps_AddNode b_keeps_Entry b_keeps_Edge b_keeps_EdgeTo b_keeps_Connect
  b_keeps_FanOut b_keeps_FanOutTo b_keeps_Merge b_keeps_MergeTo b_keeps_Branch b_keeps_Branches
  b_keeps_WithNodes b_keeps_FanOutBranches b_keeps_Conditional b_keeps_Terminal

lemma builder_call_keeps: "builder_call b b' \<Longrightarrow> b_keeps b b'"
  by (cases rule: builder_call.cases) (auto intro: b_keeps_ops)

lemma builder_calls_keep: "builder_call\<^sup>*\<^sup>* b b' \<Longrightarrow> b_keeps b b'"
proof (induction rule: rtranclp_induct)
  case base
  show ?case by (simp add: b_keeps_def)
next
  case (step b' b'')
  with builder_call_keeps[OF step(2)] show ?case by (auto simp: b_keeps_def intro: b_extends_trans)
qed



subsection \<open>What a built graph is\<close>

text \<open>
  C22: A graph that \<open>Build\<close> returns after any sequence of builder calls is well formed, has a
  non-empty entry that is one of its nodes, and only has edges between its nodes. \<open>Build\<close> returns
  the graph exactly when no call reported an error and the graph has an entry; an error once
  reported makes every later \<open>Build\<close> fail.
\<close>

theorem Build_sound:
  assumes "builder_call\<^sup>*\<^sup>* (NewGraphBuilder name) b"
  shows "((\<exists>g. Build b = Inr g) \<longleftrightarrow> b_errors b = [] \<and> Entry (b_graph b) \<noteq> []) \<and>
    (\<forall>g. Build b = Inr g \<longrightarrow> g = b_graph b \<and> graph_ok g \<and> NodeByID g (Entry g) \<noteq> None \<and>
       (\<forall>e \<in> set (Edges g). NodeByID g (From e) \<noteq> None \<and> NodeByID g (To e) \<noteq> None)) \<and>
    (\<forall>b'. b_errors b \<noteq> [] \<longrightarrow> builder_call\<^sup>*\<^sup>* b b' \<longrightarrow>
       (\<exists>es. Build b' = Inl (BuilderErrors (b_errors b @ es))))"
proof (intro conjI allI impI)
  have ok: "graph_ok (b_graph b)"
    using builder_calls_keep[OF assms] builder_ok_new by (auto simp: b_keeps_def builder_ok_def bgraph_ok_def)
  have "g_nodes (b_graph b) \<noteq> []" if "NodeByID (b_graph b) i \<noteq> None" for i
    using that by (auto simp: NodeByID_def)
  then show "(\<exists>g. Build b = Inr g) \<longleftrightarrow> b_errors b = [] \<and> Entry (b_graph b) \<noteq> []"
    using ok_entry[OF ok] by (auto simp: Build_def Validate_def Entry_def NodeByID_def)
  fix g assume "Build b = Inr g"
  then have g: "g = b_graph b" "NodeByID g (Entry g) \<noteq> None"
    by (auto simp: Build_def Validate_def Entry_def NodeByID_def split: if_splits option.splits)
  then show "g = b_graph b" "NodeByID g (Entry g) \<noteq> None" "graph_ok g" using ok by simp_all
  show "\<forall>e \<in> set (Edges g). NodeByID g (From e) \<noteq> None \<and> NodeByID g (To e) \<noteq> None"
    unfolding Edges_def using ok_edge_ends[OF ok] g(1) by blast
next
  fix b' assume "b_errors b \<noteq> []" "builder_call\<^sup>*\<^sup>* b b'"
  then show "\<exists>es. Build b' = Inl (BuilderErrors (b_errors b @ es))"
    using builder_calls_keep[of b b'] by (auto simp: b_keeps_def b_extends_def Build_def)
qed

definition demo_builder :: "GraphBuilder" where
  "demo_builder = b_Edge (Some (NewNoopNode ''b'')) (b_AddNode (Some (NewNoopNode ''a''))
     (NewGraphBuilder ''demo''))"

theorem Build_sound_witness:
  "builder_call\<^sup>*\<^sup>* (NewGraphBuilder ''demo'') demo_builder \<and> (\<exists>g. Build demo_builder = Inr g)"
proof -
  have calls: "builder_call\<^sup>*\<^sup>* (NewGraphBuilder ''demo'') demo_builder"
    unfolding demo_builder_def
    by (rule rtranclp.rtrancl_into_rtrancl[of builder_call, OF r_into_rtranclp[of builder_call]])
      (rule builder_call.intros)+
  have "b_errors demo_builder = [] \<and> Entry (b_graph demo_builder) \<noteq> []" by code_simp
  with calls Build_sound[OF calls] show ?thesis by blast
qed

text \<open>Connecting distinct nodes to a node they are not connected to yet adds exactly these edges.\<close>

lemma connect_from_fresh:
  assumes "\<forall>c \<in> set cs. NodeByID (b_graph b) c \<noteq> None" "NodeByID (b_graph b) i \<noteq> None"
    "distinct cs" "\<forall>c \<in> set cs. Edge c i \<notin> set (g_edges (b_graph b))"
  shows "b_errors (connect_from cs i b) = b_errors b"
    and "b_current (connect_from cs i b) = b_current b"
    and "g_nodes (b_graph (connect_from cs i b)) = g_nodes (b_graph b)"
    and "g_edges (b_graph (connect_from cs i b)) = g_edges (b_graph b) @ map (\<lambda>c. Edge c i) cs"
proof -
  have "b_errors (connect_from cs i b) = b_errors b \<and> b_current (connect_from cs i b) = b_current b \<and>
    g_nodes (b_graph (connect_from cs i b)) = g_nodes (b_graph b) \<and>
    g_edges (b_graph (connect_from cs i b)) = g_edges (b_graph b) @ map (\<lambda>c. Edge c i) cs"
    using assms
  proof (induction cs arbitrary: b)
    case (Cons c cs)
    from Cons.prems obtain g where g: "AddEdge c i (b_graph b) = Inr g"
      using AddEdge_defined by (metis list.set_intros(1))
    then have new: "g_nodes g = g_nodes (b_graph b)" "g_edges g = g_edges (b_graph b) @ [Edge c i]"
      using Cons.prems(4) AddEdge_frame[OF g] by (auto elim!: AddEdge_Inr_cases)
    let ?b = "b\<lparr>b_graph := g\<rparr>"
    have "b_AddEdge c i b = ?b" by (simp add: b_AddEdge_def g)
    moreover have "\<forall>c \<in> set cs. Edge c i \<notin> set (g_edges (b_graph ?b))" using Cons.prems new by auto
    ultimately show ?case using Cons.IH[of ?b] Cons.prems new by (simp add: NodeByID_def)
  qed simp
  then show "b_errors (connect_from cs i b) = b_errors b"
    "b_current (connect_from cs i b) = b_current b"
    "g_nodes (b_graph (connect_from cs i b)) = g_nodes (b_graph b)"
    "g_edges (b_graph (connect_from cs i b)) = g_edges (b_graph b) @ map (\<lambda>c. Edge c i) cs" by blast+
qed

lemma graph_ok_connect: "graph_ok (b_graph b) \<Longrightarrow> graph_ok (b_graph (connect_from cs i b))"
proof (induction cs arbitrary: b)
  case (Cons c cs)
  have "graph_ok (b_graph (b_AddEdge c i b))"
    using Cons.prems graph_ok_AddEdge by (auto simp: b_AddEdge_def b_fail_def split: sum.split)
  then show ?case by (simp add: Cons.IH)
qed simp

lemma mput_fresh: "mget m i = None \<Longrightarrow> mput i v m = m @ [(i, v)]"
  by (induction m) (auto split: if_splits)

text \<open>A node that is not in the graph, attached to distinct nodes of the graph.\<close>

lemma attach_fresh:
  assumes "graph_ok (b_graph b)" "NodeByID (b_graph b) (n_ID n) = None"
    "\<forall>c \<in> set cs. NodeByID (b_graph b) c \<noteq> None" "distinct cs"
  obtains g b' where "AddNode (Some n) (b_graph b) = Inr g"
    and "connect_from cs (n_ID n) (b\<lparr>b_graph := g\<rparr>) = b'"
    and "b_errors b' = b_errors b" and "b_current b' = b_current b" and "graph_ok (b_graph b')"
    and "g_nodes (b_graph b') = g_nodes (b_graph b) @ [(n_ID n, n)]"
    and "g_edges (b_graph b') = g_edges (b_graph b) @ map (\<lambda>c. Edge c (n_ID n)) cs"
proof -
  obtain g where g: "AddNode (Some n) (b_graph b) = Inr g"
    using assms(2) by (auto simp: AddNode_Inr_iff)
  have nodes: "g_nodes g = g_nodes (b_graph b) @ [(n_ID n, n)]"
    using g assms(2) by (auto simp: AddNode_Inr_iff NodeByID_def mput_fresh)
  have edges: "g_edges g = g_edges (b_graph b)" using AddNode_edges[OF g] by simp
  have found: "\<forall>c \<in> set cs. NodeByID g c \<noteq> None" "NodeByID g (n_ID n) \<noteq> None"
    using assms(3) AddNode_NodeByID[OF g] by auto
  have noedge: "\<forall>c \<in> set cs. Edge c (n_ID n) \<notin> set (g_edges g)"
    using ok_edge_ends[OF assms(1)] assms(2) edges by fastforce
  let ?b = "b\<lparr>b_graph := g\<rparr>"
  have "graph_ok (b_graph (connect_from cs (n_ID n) ?b))"
    using graph_ok_connect graph_ok_AddNode[OF assms(1) g] by simp
  with that[OF g refl] connect_from_fresh[of cs ?b "n_ID n"] found noedge assms(4) nodes edges
  show thesis by simp
qed

lemma fanout_fresh:
  assumes "graph_ok (b_graph b)" "\<forall>c \<in> set current. NodeByID (b_graph b) c \<noteq> None" "distinct current"
    "\<forall>n \<in> set ns. NodeByID (b_graph b) (n_ID n) = None" "distinct (map n_ID ns)"
  shows "\<exists>b'. fanout_loop current (map Some ns) b cs = (b', cs @ map n_ID ns) \<and>
     b_errors b' = b_errors b \<and> graph_ok (b_graph b') \<and>
     g_nodes (b_graph b') = g_nodes (b_graph b) @ map (\<lambda>n. (n_ID n, n)) ns \<and>
     g_edges (b_graph b') = g_edges (b_graph b) @ concat (map (\<lambda>n. map (\<lambda>c. Edge c (n_ID n)) current) ns)"
  using assms
proof (induction ns arbitrary: b cs)
  case (Cons n ns)
  from Cons.prems(4) have "NodeByID (b_graph b) (n_ID n) = None" by simp
  then obtain g b1 where g: "AddNode (Some n) (b_graph b) = Inr g"
      "connect_from current (n_ID n) (b\<lparr>b_graph := g\<rparr>) = b1"
    and c: "b_errors b1 = b_errors b" "graph_ok (b_graph b1)"
      "g_nodes (b_graph b1) = g_nodes (b_graph b) @ [(n_ID n, n)]"
      "g_edges (b_graph b1) = g_edges (b_graph b) @ map (\<lambda>c. Edge c (n_ID n)) current"
    using attach_fresh[OF Cons.prems(1) _ Cons.prems(2,3)] by blast
  have look: "NodeByID (b_graph b1) i = (case NodeByID (b_graph b) i of
      None \<Rightarrow> if i = n_ID n then Some n else None | Some m \<Rightarrow> Some m)" for i
    unfolding NodeByID_def c(3) by (auto simp: map_add_def split: option.splits)
  have "\<forall>c \<in> set current. NodeByID (b_graph b1) c \<noteq> None"
    using Cons.prems(2) by (auto simp: look)
  moreover have "\<forall>n \<in> set ns. NodeByID (b_graph b1) (n_ID n) = None"
    using Cons.prems(4,5) by (auto simp: look image_iff)
  ultimately obtain b' where
    "fanout_loop current (map Some ns) b1 (cs @ [n_ID n]) = (b', (cs @ [n_ID n]) @ map n_ID ns)"
    "b_errors b' = b_errors b1" "graph_ok (b_graph b')"
    "g_nodes (b_graph b') = g_nodes (b_graph b1) @ map (\<lambda>n. (n_ID n, n)) ns"
    "g_edges (b_graph b') = g_edges (b_graph b1) @ concat (map (\<lambda>n. map (\<lambda>c. Edge c (n_ID n)) current) ns)"
    using Cons.IH[OF c(2) _ Cons.prems(3)] Cons.prems(5) by fastforce
  then show ?case by (simp add: g c)
qed simp

lemma edges_into:
  "map From (filter (\<lambda>e. To e = i) (map (\<lambda>c. Edge c j) cs)) = (if i = j then cs else [])"
  "map To (filter (\<lambda>e. From e = c) (map (\<lambda>c. Edge c j) cs)) = replicate (count_list cs c) j"
  by (induction cs) auto

lemma count_list_distinct: "distinct cs \<Longrightarrow> c \<in> set cs \<Longrightarrow> count_list cs c = 1"
  by (induction cs) (auto simp: count_list_0_iff)

lemma edges_grid:
  "distinct (map n_ID ns) \<Longrightarrow> n \<in> set ns \<Longrightarrow>
     map From (filter (\<lambda>e. To e = n_ID n) (concat (map (\<lambda>n. map (\<lambda>c. Edge c (n_ID n)) cs) ns))) = cs"
  "distinct cs \<Longrightarrow> c \<in> set cs \<Longrightarrow>
     map To (filter (\<lambda>e. From e = c) (concat (map (\<lambda>n. map (\<lambda>c. Edge c (n_ID n)) cs) ns))) = map n_ID ns"
  "i \<notin> n_ID ` set ns \<Longrightarrow>
     filter (\<lambda>e. To e = i) (concat (map (\<lambda>n. map (\<lambda>c. Edge c (n_ID n)) cs) ns)) = []"
  "c \<notin> set cs \<Longrightarrow>
     filter (\<lambda>e. From e = c) (concat (map (\<lambda>n. map (\<lambda>c. Edge c (n_ID n)) cs) ns)) = []"
proof -
  show "filter (\<lambda>e. To e = i) (concat (map (\<lambda>n. map (\<lambda>c. Edge c (n_ID n)) cs) ns)) = []"
    if "i \<notin> n_ID ` set ns" for i ns using that by (auto simp: filter_empty_conv)
  show "filter (\<lambda>e. From e = c) (concat (map (\<lambda>n. map (\<lambda>c. Edge c (n_ID n)) cs) ns)) = []"
    if "c \<notin> set cs" using that by (auto simp: filter_empty_conv)
  show "map From (filter (\<lambda>e. To e = n_ID n) (concat (map (\<lambda>n. map (\<lambda>c. Edge c (n_ID n)) cs) ns))) = cs"
    if "distinct (map n_ID ns)" "n \<in> set ns"
    using that
  proof (induction ns)
    case (Cons m ns)
    show ?case
    proof (cases "n_ID n = n_ID m")
      case True
      then have "filter (\<lambda>e. To e = n_ID n) (concat (map (\<lambda>n. map (\<lambda>c. Edge c (n_ID n)) cs) ns)) = []"
        using Cons.prems(1) by (auto simp: filter_empty_conv image_iff)
      with True show ?thesis by (simp add: comp_def)
    next
      case False
      with Cons show ?thesis by (auto simp: edges_into)
    qed
  qed simp
  show "map To (filter (\<lambda>e. From e = c) (concat (map (\<lambda>n. map (\<lambda>c. Edge c (n_ID n)) cs) ns))) = map n_ID ns"
    if "distinct cs" "c \<in> set cs" using that by (induction ns) (auto simp: edges_into count_list_distinct)
qed

text \<open>Adjacency in a graph whose edges are old ones, a complete fan-out and a join.\<close>

lemma diamond_adjacency:
  assumes "graph_ok g" "graph_ok g2" "distinct cs" "distinct (i # map n_ID ns)"
    and edges: "g_edges g2 = (g_edges g @ concat (map (\<lambda>n. map (\<lambda>c. Edge c (n_ID n)) cs) ns))
        @ map (\<lambda>c. Edge c i) (map n_ID ns)"
    and "\<forall>c \<in> set cs. NodeByID g c \<noteq> None" "\<forall>j \<in> set (i # map n_ID ns). NodeByID g j = None"
  shows "Predecessors g2 i = map n_ID ns"
    and "n \<in> set ns \<Longrightarrow> Predecessors g2 (n_ID n) = cs"
    and "n \<in> set ns \<Longrightarrow> Successors g2 (n_ID n) = [i]"
    and "c \<in> set cs \<Longrightarrow> Successors g2 c = Successors g c @ map n_ID ns"
proof -
  have old: "filter (\<lambda>e. To e = j) (g_edges g) = []" "filter (\<lambda>e. From e = j) (g_edges g) = []"
    if "j \<in> set (i # map n_ID ns)" for j
    using ok_edge_ends[OF assms(1)] assms(7) that by (fastforce simp: filter_empty_conv)+
  have sep: "set cs \<inter> set (i # map n_ID ns) = {}" using assms(6,7) by fastforce
  note adj = ok_Predecessors[OF assms(2)] ok_Successors[OF assms(2)] edges edges_into edges_grid old
  show "Predecessors g2 i = map n_ID ns" using assms(4) by (simp add: adj comp_def)
  show "Predecessors g2 (n_ID n) = cs" "Successors g2 (n_ID n) = [i]" if n: "n \<in> set ns"
  proof -
    have "n_ID n \<noteq> i" "n_ID n \<notin> set cs" using n sep assms(4) by auto
    moreover have "count_list (map n_ID ns) (n_ID n) = 1"
      using n assms(4) by (simp add: count_list_distinct)
    ultimately show "Predecessors g2 (n_ID n) = cs" "Successors g2 (n_ID n) = [i]"
      using n assms(4) by (simp_all add: adj del: map_map)
  qed
  show "Successors g2 c = Successors g c @ map n_ID ns" if c: "c \<in> set cs"
  proof -
    have "count_list (map n_ID ns) c = 0" using c sep by (auto simp: count_list_0_iff)
    then show ?thesis using c assms(3) by (simp add: adj ok_Successors[OF assms(1)] del: map_map)
  qed
qed

text \<open>
  Fan-out followed by merge builds the diamond the runtimes rely on. From distinct current nodes,
  \<open>FanOut\<close> with new nodes and then \<open>Merge\<close> with a new merge node whose expected input count is unset
  reports no error; every branch node has exactly the current nodes as predecessors and exactly the
  merge node as successor; the merge node's predecessors are the branch nodes in order, and its
  expected input count is their number.
\<close>

theorem FanOut_Merge_diamond:
  assumes "builder_ok b" "b_current b \<noteq> []" "distinct (b_current b)" "ns \<noteq> []"
    and "distinct (map n_ID (m # ns))" "\<forall>n \<in> set (m # ns). NodeByID (b_graph b) (n_ID n) = None"
    and "n_merge m = Some mc" "mc_ExpectedInputs mc = 0"
    and "b' = b_Merge (Some m) (FanOut (map Some ns) b)"
  shows "b_errors b' = b_errors b \<and> b_current b' = [n_ID m] \<and>
    NodeByID (b_graph b') (n_ID m) = Some (SetExpectedInputs (int (length ns)) m) \<and>
    Predecessors (b_graph b') (n_ID m) = map n_ID ns \<and>
    (\<forall>n \<in> set ns. Predecessors (b_graph b') (n_ID n) = b_current b \<and>
       Successors (b_graph b') (n_ID n) = [n_ID m]) \<and>
    (\<forall>c \<in> set (b_current b). Successors (b_graph b') c = Successors (b_graph b) c @ map n_ID ns)"
proof -
  have ok: "graph_ok (b_graph b)" and cur: "\<forall>c \<in> set (b_current b). NodeByID (b_graph b) c \<noteq> None"
    using assms(1) by (simp_all add: builder_ok_def bgraph_ok_def)
  obtain b1 where "fanout_loop (b_current b) (map Some ns) b [] = (b1, map n_ID ns)"
    and b1: "b_errors b1 = b_errors b" "graph_ok (b_graph b1)"
      "g_nodes (b_graph b1) = g_nodes (b_graph b) @ map (\<lambda>n. (n_ID n, n)) ns"
      "g_edges (b_graph b1) = g_edges (b_graph b) @ concat (map (\<lambda>n. map (\<lambda>c. Edge c (n_ID n)) (b_current b)) ns)"
    using fanout_fresh[OF ok cur assms(3), of ns "[]"] assms(5,6) by auto
  then have fo: "FanOut (map Some ns) b = b1\<lparr>b_current := map n_ID ns\<rparr>"
    using assms(2,4) by (simp add: FanOut_def)
  let ?m = "SetExpectedInputs (int (length ns)) m" and ?b1 = "b1\<lparr>b_current := map n_ID ns\<rparr>"
  have fresh: "NodeByID (b_graph ?b1) (n_ID ?m) = None"
    using assms(5,6) by (auto simp: NodeByID_def b1(3) map_of_eq_None_iff image_iff map_add_def split: option.splits)
  have branch: "\<forall>c \<in> set (map n_ID ns). NodeByID (b_graph ?b1) c \<noteq> None"
    by (auto simp: NodeByID_def b1(3) map_of_eq_None_iff image_iff)
  have ok1: "graph_ok (b_graph ?b1)" and dist: "distinct (map n_ID ns)" using b1(2) assms(5) by simp_all
  obtain g b2 where m: "AddNode (Some ?m) (b_graph ?b1) = Inr g"
      "connect_from (map n_ID ns) (n_ID ?m) (?b1\<lparr>b_graph := g\<rparr>) = b2"
    and b2: "b_errors b2 = b_errors ?b1" "graph_ok (b_graph b2)"
      "g_nodes (b_graph b2) = g_nodes (b_graph ?b1) @ [(n_ID ?m, ?m)]"
      "g_edges (b_graph b2) = g_edges (b_graph ?b1) @ map (\<lambda>c. Edge c (n_ID ?m)) (map n_ID ns)"
    using attach_fresh[OF ok1 fresh branch dist] by blast
  have b': "b' = b2\<lparr>b_current := [n_ID m]\<rparr>"
    using m assms(7,8) by (simp add: assms(9) fo b_Merge_def expect_inputs_def Let_def)
  have es: "g_edges (b_graph b2) = (g_edges (b_graph b) @
      concat (map (\<lambda>n. map (\<lambda>c. Edge c (n_ID n)) (b_current b)) ns)) @ map (\<lambda>c. Edge c (n_ID m)) (map n_ID ns)"
    by (simp add: b2(4) b1(4))
  have new: "distinct (n_ID m # map n_ID ns)" "\<forall>j \<in> set (n_ID m # map n_ID ns). NodeByID (b_graph b) j = None"
    using assms(5,6) by auto
  note adj = diamond_adjacency[OF ok b2(2) assms(3) new(1) es cur new(2)]
  have "NodeByID (b_graph b2) (n_ID m) = Some ?m"
    using fresh by (simp add: NodeByID_def b2(3) map_add_def)
  then show ?thesis using b1(1) b2(1) adj by (simp add: b')
qed

definition demo_merge :: Node where
  "demo_merge = (NewNoopNode ''m'')\<lparr>n_Kind := NodeKindMerge,
     n_merge := Some \<lparr>mc_ExpectedInputs = 0, mc_MergeInputs = None\<rparr>\<rparr>"

theorem FanOut_Merge_diamond_witness:
  "Predecessors (b_graph (b_Merge (Some demo_merge) (FanOut [Some (NewNoopNode ''c''), Some (NewNoopNode ''d'')]
     demo_builder))) ''m'' = [''c'', ''d'']"
proof -
  have "builder_ok demo_builder"
    using builder_ok_new b_keeps_AddNode b_keeps_Edge unfolding b_keeps_def demo_builder_def by blast
  moreover have "b_current demo_builder = [''b'']" by code_simp
  moreover have "NodeByID (b_graph demo_builder) i = None" if "i \<in> {''c'', ''d'', ''m''}" for i
    using that by (auto simp: demo_builder_def b_Edge_def b_AddNode_def NewGraphBuilder_def NewGraph_def
        AddNode_def SetEntry_def NodeByID_def Let_def connect_from_def b_AddEdge_def AddEdge_def
        init_slice_def slice_at_def)
  ultimately show ?thesis
    using FanOut_Merge_diamond[of demo_builder "[NewNoopNode ''c'', NewNoopNode ''d'']" demo_merge, OF _ _ _ _ _ _ _ _ refl]
    by (simp add: demo_merge_def)
qed

end
