(* ===== verification/Step_Controller.thy ===== *)
theory Step_Controller
  imports Graph_Model
begin

section \<open>Step controllers\<close>

text \<open>
  \<open>runtime/step_controller.go\<close>: requests, responses, snapshots and the four controllers. A controller
  is a state with the two methods of the interface \<open>StepController\<close> as state transformers. The
  user's callback and handler functions are arguments. \<open>Step\<close> gets a context, which says when it ends. The
  channel controller's \<open>Step\<close> blocks on channels: it is modelled by what one iteration of its loop does with
  the buffered responses.
\<close>

type_synonym StepAction = string
type_synonym StepPoint = string

definition StepActionContinue :: StepAction where "StepActionContinue = ''continue''"
definition StepActionSkipNode :: StepAction where "StepActionSkipNode = ''skip''"
definition StepActionAbort :: StepAction where "StepActionAbort = ''abort''"
definition StepActionRunToBreakpoint :: StepAction where "StepActionRunToBreakpoint = ''run_to_breakpoint''"
definition StepPointBeforeNode :: StepPoint where "StepPointBeforeNode = ''before_node''"
definition StepPointAfterNode :: StepPoint where "StepPointAfterNode = ''after_node''"

lemmas step_const_defs = StepActionContinue_def StepActionSkipNode_def StepActionAbort_def
  StepActionRunToBreakpoint_def StepPointBeforeNode_def StepPointAfterNode_def

record EnvelopeSnapshot =
  es_Input :: val
  es_Vars :: "val gomap"
  es_Artifacts :: "artifact list"
  es_Messages :: "message list"
  es_Errors :: "NodeError list"
  es_Trace :: TraceInfo

record EnvelopeModification =
  SetVars :: "val gomap"
  DeleteVars :: "string list"

record GraphSnapshot =
  gs_Name :: string
  gs_CurrentNode :: string
  gs_Successors :: "string list"
  gs_Predecessors :: "string list"
  gs_AllNodes :: "string list"

record StepRequest =
  sq_ID :: string
  sq_RunID :: string
  sq_Point :: StepPoint
  sq_NodeID :: string
  sq_NodeKind :: NodeKind
  sq_Envelope :: EnvelopeSnapshot
  sq_HopCount :: nat
  sq_Error :: "string option"
  sq_Graph :: GraphSnapshot

record StepResponse =
  sp_RequestID :: string
  sp_Action :: StepAction
  sp_ModifiedEnvelope :: "EnvelopeModification option"

record StepConfig =
  PauseBeforeNode :: bool
  PauseAfterNode :: bool
  StepTimeout :: int

definition DefaultStepConfig :: StepConfig where
  "DefaultStepConfig = \<lparr>PauseBeforeNode = True, PauseAfterNode = False, StepTimeout = 0\<rparr>"

text \<open>
  A context as a call of \<open>Step\<close> sees it: the time (a \<open>time.Duration\<close>) until it is done, if it ever is, the text of its error
  then, and which case a \<open>select\<close> takes when the context ends at the very moment another case becomes ready.
\<close>

record StepContext =
  sc_left :: "int option"
  sc_err :: string
  sc_tie :: bool

definition ctx_cuts :: "StepContext \<Rightarrow> int \<Rightarrow> bool" where
  "ctx_cuts ctx d = (case sc_left ctx of None \<Rightarrow> False | Some left \<Rightarrow> left < d \<or> left = d \<and> sc_tie ctx)"

text \<open>\<open>context.WithTimeout(ctx, config.StepTimeout)\<close>, when a timeout is configured: the earlier end counts.\<close>

definition stepContext :: "StepConfig \<Rightarrow> StepContext \<Rightarrow> StepContext" where
  "stepContext config ctx =
     (if 0 < StepTimeout config \<and> (case sc_left ctx of None \<Rightarrow> True | Some left \<Rightarrow> StepTimeout config < left)
      then ctx\<lparr>sc_left := Some (StepTimeout config), sc_err := ''context deadline exceeded''\<rparr> else ctx)"

definition createEnvelopeSnapshot :: "Envelope \<Rightarrow> EnvelopeSnapshot" where
  "createEnvelopeSnapshot env = \<lparr>es_Input = Input env,
     es_Vars = (case Vars env of None \<Rightarrow> [] | Some m \<Rightarrow> m), es_Artifacts = Artifacts env,
     es_Messages = Messages env, es_Errors = Errors env, es_Trace = Trace env\<rparr>"

text \<open>A nil node in the node order would be a nil dereference; \<open>graph_ok\<close> excludes it.\<close>

definition createGraphSnapshot :: "BasicGraph \<Rightarrow> string \<Rightarrow> GraphSnapshot" where
  "createGraphSnapshot g currentNode = \<lparr>gs_Name = g_name g, gs_CurrentNode = currentNode,
     gs_Successors = Successors g currentNode, gs_Predecessors = Predecessors g currentNode,
     gs_AllNodes = map (\<lambda>n. case n of None \<Rightarrow> [] | Some m \<Rightarrow> n_ID m) (Nodes g)\<rparr>"

text \<open>The interface: \<open>Step\<close> returns a response (nil is \<open>None\<close>) or an error.\<close>

record 's StepCtl =
  ctl_Step :: "StepContext \<Rightarrow> StepRequest \<Rightarrow> 's \<Rightarrow> (string + StepResponse option) \<times> 's"
  ctl_ShouldPause :: "string \<Rightarrow> StepPoint \<Rightarrow> 's \<Rightarrow> bool \<times> 's"


subsection \<open>CallbackStepController\<close>

record CallbackStepController =
  cb_callback :: "StepContext \<Rightarrow> StepRequest \<Rightarrow> string + StepResponse option"
  cb_shouldPause :: "(string \<Rightarrow> StepPoint \<Rightarrow> bool) option"

definition NewCallbackStepController ::
  "(StepContext \<Rightarrow> StepRequest \<Rightarrow> string + StepResponse option) \<Rightarrow> CallbackStepController" where
  "NewCallbackStepController callback = \<lparr>cb_callback = callback, cb_shouldPause = None\<rparr>"

definition WithShouldPause ::
  "(string \<Rightarrow> StepPoint \<Rightarrow> bool) option \<Rightarrow> CallbackStepController \<Rightarrow> CallbackStepController" where
  "WithShouldPause fn c = c\<lparr>cb_shouldPause := fn\<rparr>"

definition cb_Step :: "StepContext \<Rightarrow> StepRequest \<Rightarrow> CallbackStepController \<Rightarrow> (string + StepResponse option) \<times> CallbackStepController" where
  "cb_Step ctx req c = (cb_callback c ctx req, c)"

definition cb_ShouldPause :: "string \<Rightarrow> StepPoint \<Rightarrow> CallbackStepController \<Rightarrow> bool \<times> CallbackStepController" where
  "cb_ShouldPause nodeID point c = (case cb_shouldPause c of
       Some f \<Rightarrow> (f nodeID point, c)
     | None \<Rightarrow> (True, c))"

definition CallbackCtl :: "CallbackStepController StepCtl" where
  "CallbackCtl = \<lparr>ctl_Step = cb_Step, ctl_ShouldPause = cb_ShouldPause\<rparr>"


subsection \<open>ChannelStepController\<close>

text \<open>A Go \<open>map[K]bool\<close> read at a key: an absent key is false.\<close>

definition bool_at :: "bool gomap \<Rightarrow> string \<Rightarrow> bool" where
  "bool_at m k = (mget m k = Some True)"

record ChannelStepController =
  cc_bufferSize :: nat
  cc_requests :: "StepRequest list"
  cc_responses :: "StepResponse list"
  cc_pending :: "StepRequest gomap"
  cc_Breakpoints :: "bool gomap"
  cc_PausePoints :: "bool gomap"
  cc_runToBreakpoint :: bool

definition NewChannelStepController :: "nat \<Rightarrow> ChannelStepController" where
  "NewChannelStepController bufferSize = \<lparr>cc_bufferSize = bufferSize, cc_requests = [],
     cc_responses = [], cc_pending = [], cc_Breakpoints = [], cc_PausePoints = [],
     cc_runToBreakpoint = False\<rparr>"

text \<open>\<open>Step\<close> first registers the request and sends it; here the send finds room in the buffer.
  Cancellation, here or while waiting, removes the request again.\<close>

definition cc_begin :: "StepRequest \<Rightarrow> ChannelStepController \<Rightarrow> ChannelStepController" where
  "cc_begin req c = c\<lparr>cc_pending := mput (sq_ID req) req (cc_pending c), cc_requests := cc_requests c @ [req]\<rparr>"

definition cc_cancel :: "StepRequest \<Rightarrow> ChannelStepController \<Rightarrow> ChannelStepController" where
  "cc_cancel req c = c\<lparr>cc_pending := mdel (sq_ID req) (cc_pending c)\<rparr>"

text \<open>One iteration of the waiting loop when a response is in the buffer: the response for this request
  ends the loop, another one is put back when the buffer has room.\<close>

definition cc_poll :: "StepRequest \<Rightarrow> ChannelStepController \<Rightarrow> StepResponse option \<times> ChannelStepController" where
  "cc_poll req c = (case cc_responses c of
       [] \<Rightarrow> (None, c)
     | resp # rest \<Rightarrow>
         (let c1 = c\<lparr>cc_responses := rest\<rparr> in
          if sp_RequestID resp = sq_ID req
          then (Some resp, c1\<lparr>cc_pending := mdel (sq_ID req) (cc_pending c1),
                  cc_runToBreakpoint := (if sp_Action resp = StepActionRunToBreakpoint then True
                                         else cc_runToBreakpoint c1)\<rparr>)
          else (None, c1\<lparr>cc_responses := try_send (cc_bufferSize c1) resp (cc_responses c1)\<rparr>)))"

text \<open>The waiting loop over a buffer that no one else touches. \<open>n\<close> bounds the iterations: with no
  matching response in the buffer the loop goes round until the context ends.\<close>

fun cc_wait :: "nat \<Rightarrow> StepRequest \<Rightarrow> ChannelStepController \<Rightarrow> StepResponse option \<times> ChannelStepController" where
  "cc_wait 0 req c = (None, c)"
| "cc_wait (Suc n) req c = (case cc_poll req c of
       (Some resp, c') \<Rightarrow> (Some resp, c')
     | (None, c') \<Rightarrow> cc_wait n req c')"

definition cc_ShouldPause :: "string \<Rightarrow> StepPoint \<Rightarrow> ChannelStepController \<Rightarrow> bool \<times> ChannelStepController" where
  "cc_ShouldPause nodeID point c =
     (if cc_runToBreakpoint c
      then (if bool_at (cc_Breakpoints c) nodeID then (True, c\<lparr>cc_runToBreakpoint := False\<rparr>) else (False, c))
      else if 0 < length (cc_PausePoints c) \<and> \<not> bool_at (cc_PausePoints c) point then (False, c)
      else if 0 < length (cc_Breakpoints c) then (bool_at (cc_Breakpoints c) nodeID, c)
      else (True, c))"

text \<open>\<open>Respond\<close>, when the response buffer has room.\<close>

definition cc_Respond :: "StepResponse \<Rightarrow> ChannelStepController \<Rightarrow> string + ChannelStepController" where
  "cc_Respond resp c =
     (if mget (cc_pending c) (sp_RequestID resp) = None then Inl (sp_RequestID resp)
      else Inr (c\<lparr>cc_responses := cc_responses c @ [resp]\<rparr>))"

definition cc_SetBreakpoint :: "string \<Rightarrow> ChannelStepController \<Rightarrow> ChannelStepController" where
  "cc_SetBreakpoint nodeID c = c\<lparr>cc_Breakpoints := mput nodeID True (cc_Breakpoints c)\<rparr>"

definition cc_ClearBreakpoint :: "string \<Rightarrow> ChannelStepController \<Rightarrow> ChannelStepController" where
  "cc_ClearBreakpoint nodeID c = c\<lparr>cc_Breakpoints := mdel nodeID (cc_Breakpoints c)\<rparr>"

definition cc_ClearAllBreakpoints :: "ChannelStepController \<Rightarrow> ChannelStepController" where
  "cc_ClearAllBreakpoints c = c\<lparr>cc_Breakpoints := []\<rparr>"

definition cc_ListPending :: "ChannelStepController \<Rightarrow> StepRequest list" where
  "cc_ListPending c = map snd (cc_pending c)"


subsection \<open>BreakpointStepController\<close>

record BreakpointStepController =
  bc_breakpoints :: "StepPoint gomap"
  bc_handler :: "StepContext \<Rightarrow> StepRequest \<Rightarrow> string + StepResponse option"

definition NewBreakpointStepController ::
  "(StepContext \<Rightarrow> StepRequest \<Rightarrow> string + StepResponse option) \<Rightarrow> BreakpointStepController" where
  "NewBreakpointStepController handler = \<lparr>bc_breakpoints = [], bc_handler = handler\<rparr>"

definition AddBreakpoint :: "string \<Rightarrow> StepPoint \<Rightarrow> BreakpointStepController \<Rightarrow> BreakpointStepController" where
  "AddBreakpoint nodeID point c = c\<lparr>bc_breakpoints := mput nodeID point (bc_breakpoints c)\<rparr>"

definition AddBreakpointBefore :: "string \<Rightarrow> BreakpointStepController \<Rightarrow> BreakpointStepController" where
  "AddBreakpointBefore nodeID c = AddBreakpoint nodeID StepPointBeforeNode c"

definition AddBreakpointAfter :: "string \<Rightarrow> BreakpointStepController \<Rightarrow> BreakpointStepController" where
  "AddBreakpointAfter nodeID c = AddBreakpoint nodeID StepPointAfterNode c"

definition RemoveBreakpoint :: "string \<Rightarrow> BreakpointStepController \<Rightarrow> BreakpointStepController" where
  "RemoveBreakpoint nodeID c = c\<lparr>bc_breakpoints := mdel nodeID (bc_breakpoints c)\<rparr>"

definition bc_ClearAllBreakpoints :: "BreakpointStepController \<Rightarrow> BreakpointStepController" where
  "bc_ClearAllBreakpoints c = c\<lparr>bc_breakpoints := []\<rparr>"

definition bc_Step :: "StepContext \<Rightarrow> StepRequest \<Rightarrow> BreakpointStepController \<Rightarrow> (string + StepResponse option) \<times> BreakpointStepController" where
  "bc_Step ctx req c = (bc_handler c ctx req, c)"

definition bc_ShouldPause :: "string \<Rightarrow> StepPoint \<Rightarrow> BreakpointStepController \<Rightarrow> bool \<times> BreakpointStepController" where
  "bc_ShouldPause nodeID point c = (case mget (bc_breakpoints c) nodeID of
       None \<Rightarrow> (False, c)
     | Some bp \<Rightarrow> (bp = point, c))"

definition ListBreakpoints :: "BreakpointStepController \<Rightarrow> StepPoint gomap" where
  "ListBreakpoints c = bc_breakpoints c"

definition BreakpointCtl :: "BreakpointStepController StepCtl" where
  "BreakpointCtl = \<lparr>ctl_Step = bc_Step, ctl_ShouldPause = bc_ShouldPause\<rparr>"


subsection \<open>AutoStepController\<close>

text \<open>
  \<open>as_log\<close> is what the log handler has received. On a paused controller \<open>Step\<close> waits for the signal of \<open>Resume\<close>,
  which another goroutine sends \<open>as_resumeAfter\<close> later, then for the delay; the end of the context cuts either wait short.
  A wait that neither ends is \<open>resume_signal_lost\<close> below.
\<close>

record AutoStepController =
  as_delay :: int
  as_log :: "StepRequest list"
  as_breakpoints :: "bool gomap"
  as_paused :: bool
  as_resumeAfter :: int

definition NewAutoStepController :: "int \<Rightarrow> AutoStepController" where
  "NewAutoStepController delay = \<lparr>as_delay = delay, as_log = [], as_breakpoints = [], as_paused = False, as_resumeAfter = 0\<rparr>"

definition as_Step :: "StepContext \<Rightarrow> StepRequest \<Rightarrow> AutoStepController \<Rightarrow> (string + StepResponse option) \<times> AutoStepController" where
  "as_Step ctx req c =
     (let c1 = c\<lparr>as_log := as_log c @ [req]\<rparr> in
      if as_paused c1 \<and> ctx_cuts ctx (as_resumeAfter c1) then (Inl (sc_err ctx), c1)
      else let waited = (if as_paused c1 then as_resumeAfter c1 else 0); c2 = c1\<lparr>as_paused := False\<rparr> in
           if 0 < as_delay c2 \<and> ctx_cuts ctx (waited + as_delay c2) then (Inl (sc_err ctx), c2)
           else (Inr (Some \<lparr>sp_RequestID = sq_ID req, sp_Action = StepActionContinue,
                            sp_ModifiedEnvelope = None\<rparr>), c2))"

definition as_ShouldPause :: "string \<Rightarrow> StepPoint \<Rightarrow> AutoStepController \<Rightarrow> bool \<times> AutoStepController" where
  "as_ShouldPause nodeID point c =
     (if 0 < length (as_breakpoints c) then (bool_at (as_breakpoints c) nodeID, c) else (True, c))"

definition as_Pause :: "AutoStepController \<Rightarrow> AutoStepController" where
  "as_Pause c = c\<lparr>as_paused := True\<rparr>"

definition as_Resume :: "AutoStepController \<Rightarrow> AutoStepController" where
  "as_Resume c = c\<lparr>as_paused := False\<rparr>"

definition SetDelay :: "int \<Rightarrow> AutoStepController \<Rightarrow> AutoStepController" where
  "SetDelay d c = c\<lparr>as_delay := d\<rparr>"

definition as_SetBreakpoint :: "string \<Rightarrow> AutoStepController \<Rightarrow> AutoStepController" where
  "as_SetBreakpoint nodeID c = c\<lparr>as_breakpoints := mput nodeID True (as_breakpoints c)\<rparr>"

definition as_ClearBreakpoint :: "string \<Rightarrow> AutoStepController \<Rightarrow> AutoStepController" where
  "as_ClearBreakpoint nodeID c = c\<lparr>as_breakpoints := mdel nodeID (as_breakpoints c)\<rparr>"

definition AutoCtl :: "AutoStepController StepCtl" where
  "AutoCtl = \<lparr>ctl_Step = as_Step, ctl_ShouldPause = as_ShouldPause\<rparr>"


subsection \<open>Responses of the channel controller\<close>

lemma cc_wait_found:
  assumes "cc_responses c = before @ resp # after" "length (cc_responses c) \<le> cc_bufferSize c"
    and "\<forall>r \<in> set before. sp_RequestID r \<noteq> sq_ID req" "sp_RequestID resp = sq_ID req" "length before < n"
  shows "cc_wait n req c = (Some resp, c\<lparr>cc_responses := after @ before, cc_pending := mdel (sq_ID req) (cc_pending c),
     cc_runToBreakpoint := (sp_Action resp = StepActionRunToBreakpoint \<or> cc_runToBreakpoint c)\<rparr>)"
  using assms
proof (induction before arbitrary: n after c)
  case Nil
  then show ?case by (cases n) (auto simp: cc_poll_def Let_def)
next
  case (Cons r before)
  from Cons.prems(5) obtain m where n: "n = Suc m" "length before < m" by (cases n) auto
  let ?c = "c\<lparr>cc_responses := before @ resp # (after @ [r])\<rparr>"
  have "cc_poll req c = (None, ?c)" using Cons.prems by (simp add: cc_poll_def Let_def try_send_def)
  with Cons.IH[of ?c "after @ [r]" m] Cons.prems n show ?case by simp
qed

text \<open>
  The channel controller delivers responses to the requests they name. When the buffer holds a
  response for the waiting request, the waiting loop returns the first such response after at most
  one round through the buffer, whatever answers to other requests are queued before it; those stay
  in the buffer, the request is no longer pending, and run-to-breakpoint mode is entered exactly
  when the response asks for it.
\<close>

theorem cc_wait_delivers:
  assumes "length (cc_responses c) \<le> cc_bufferSize c"
    and "\<exists>r \<in> set (cc_responses c). sp_RequestID r = sq_ID req"
  shows "\<exists>before resp after c'. cc_responses c = before @ resp # after \<and> sp_RequestID resp = sq_ID req \<and>
    (\<forall>r \<in> set before. sp_RequestID r \<noteq> sq_ID req) \<and>
    cc_wait (length (cc_responses c)) req c = (Some resp, c') \<and>
    cc_responses c' = after @ before \<and> mget (cc_pending c') (sq_ID req) = None \<and>
    (\<forall>i. i \<noteq> sq_ID req \<longrightarrow> mget (cc_pending c') i = mget (cc_pending c) i) \<and>
    cc_runToBreakpoint c' = (sp_Action resp = StepActionRunToBreakpoint \<or> cc_runToBreakpoint c)"
proof -
  from split_list_first_prop[OF assms(2)] obtain before resp after where
    *: "cc_responses c = before @ resp # after" "sp_RequestID resp = sq_ID req"
    "\<forall>r \<in> set before. sp_RequestID r \<noteq> sq_ID req" by blast
  show ?thesis
    by (rule exI[of _ before], rule exI[of _ resp], rule exI[of _ after])
      (use * cc_wait_found[OF *(1) assms(1) *(3,2), of "length (cc_responses c)"] in simp)
qed

definition demo_request :: "string \<Rightarrow> StepRequest" where
  "demo_request i = \<lparr>sq_ID = i, sq_RunID = ''run'', sq_Point = StepPointBeforeNode, sq_NodeID = ''a'',
     sq_NodeKind = NodeKindNoop, sq_Envelope = createEnvelopeSnapshot NewEnvelope, sq_HopCount = 1,
     sq_Error = None, sq_Graph = createGraphSnapshot (NewGraph ''g'') ''a''\<rparr>"

definition demo_response :: "string \<Rightarrow> StepResponse" where
  "demo_response i = \<lparr>sp_RequestID = i, sp_Action = StepActionContinue, sp_ModifiedEnvelope = None\<rparr>"

theorem cc_wait_delivers_witness:
  "\<exists>resp c'. cc_wait 2 (demo_request ''s2'')
      ((NewChannelStepController 4)\<lparr>cc_responses := [demo_response ''s1'', demo_response ''s2'']\<rparr>) = (Some resp, c')
    \<and> sp_RequestID resp = ''s2''"
  using cc_wait_delivers[of "(NewChannelStepController 4)\<lparr>cc_responses := [demo_response ''s1'', demo_response ''s2'']\<rparr>"
      "demo_request ''s2''"]
  by (auto simp: NewChannelStepController_def demo_request_def demo_response_def numeral_2_eq_2)

text \<open>Run-to-breakpoint mode pauses exactly at the next node with a breakpoint, and ends there.\<close>

fun cc_pauses :: "(string \<times> StepPoint) list \<Rightarrow> ChannelStepController \<Rightarrow> bool list \<times> ChannelStepController" where
  "cc_pauses [] c = ([], c)"
| "cc_pauses ((i, p) # visits) c =
     (let (b, c1) = cc_ShouldPause i p c; (bs, c2) = cc_pauses visits c1 in (b # bs, c2))"

lemma run_to_breakpoint:
  assumes "cc_runToBreakpoint c" "\<forall>(i, p) \<in> set visits. \<not> bool_at (cc_Breakpoints c) i" "bool_at (cc_Breakpoints c) j"
  shows "cc_pauses (visits @ [(j, q)]) c = (map (\<lambda>_. False) visits @ [True], c\<lparr>cc_runToBreakpoint := False\<rparr>)"
  using assms by (induction visits) (auto simp: cc_ShouldPause_def split: prod.splits)


subsection \<open>Pausing and resuming the automatic controller\<close>

text \<open>
  \<open>Step\<close> and \<open>Resume\<close> of \<open>AutoStepController\<close> as two threads. \<open>Step\<close> reads the flag under
  the lock, releases it and then waits for the signal; \<open>Resume\<close> clears the flag under the lock and then
  sends the signal if someone is waiting at that moment.
\<close>

datatype step_pc = SRead | SChecked bool | SWaiting | SReturned
datatype resume_pc = RStart | RCleared | RReturned

inductive auto_step :: "bool \<times> step_pc \<times> resume_pc \<Rightarrow> bool \<times> step_pc \<times> resume_pc \<Rightarrow> bool" where
  read_flag: "auto_step (p, SRead, r) (p, SChecked p, r)"
| proceed: "auto_step (p, SChecked False, r) (p, SReturned, r)"
| wait: "auto_step (p, SChecked True, r) (p, SWaiting, r)"
| clear_flag: "auto_step (p, s, RStart) (False, s, RCleared)"
| signal: "auto_step (p, SWaiting, RCleared) (p, SReturned, RReturned)"
| signal_dropped: "s \<noteq> SWaiting \<Longrightarrow> auto_step (p, s, RCleared) (p, s, RReturned)"

inductive_cases auto_stuckE: "auto_step (p, SWaiting, RReturned) t"

text \<open>
  A wake-up of the automatic controller can be lost. There is an interleaving of one \<open>Step\<close> on a
  paused controller and one \<open>Resume\<close> after which the pause flag is cleared and \<open>Resume\<close> has returned,
  but \<open>Step\<close> waits for a signal that no thread sends any more.
\<close>

theorem resume_signal_lost:
  "\<exists>t. auto_step\<^sup>*\<^sup>* (True, SRead, RStart) t \<and> t = (False, SWaiting, RReturned) \<and> (\<nexists>u. auto_step t u)"
proof -
  have "auto_step\<^sup>*\<^sup>* (True, SRead, RStart) (True, SChecked True, RStart)" by (blast intro: read_flag)
  also have "auto_step\<^sup>*\<^sup>* \<dots> (False, SChecked True, RCleared)" by (blast intro: clear_flag)
  also have "auto_step\<^sup>*\<^sup>* \<dots> (False, SChecked True, RReturned)" by (blast intro: signal_dropped)
  also have "auto_step\<^sup>*\<^sup>* \<dots> (False, SWaiting, RReturned)" by (blast intro: wait)
  finally show ?thesis by (blast elim: auto_stuckE)
qed


subsection \<open>Controllers that only watch\<close>

text \<open>The contract of a controller that lets the run go on unchanged, in the contexts that leave it the time it needs.\<close>

locale passive_controller =
  fixes ctl :: "'s StepCtl" and ok :: "'s \<Rightarrow> bool" and patient :: "StepContext \<Rightarrow> bool"
  assumes step_continues: "ok s \<Longrightarrow> patient ctx \<Longrightarrow> \<exists>resp s'. ctl_Step ctl ctx req s = (Inr (Some resp), s') \<and> ok s'
      \<and> sp_Action resp = StepActionContinue \<and> sp_ModifiedEnvelope resp = None"
    and pause_ok: "ok s \<Longrightarrow> ok (snd (ctl_ShouldPause ctl i p s))"

interpretation auto_ctl: passive_controller AutoCtl "\<lambda>c. \<not> as_paused c \<and> as_delay c = d" "\<lambda>ctx. d \<le> 0 \<or> \<not> ctx_cuts ctx d"
  for d
  by unfold_locales (auto simp: AutoCtl_def as_Step_def as_ShouldPause_def Let_def)

interpretation callback_ctl: passive_controller CallbackCtl
    "\<lambda>c. \<forall>ctx req. patient ctx \<longrightarrow> (\<exists>resp. cb_callback c ctx req = Inr (Some resp) \<and> sp_Action resp = StepActionContinue
       \<and> sp_ModifiedEnvelope resp = None)" patient
  for patient
  by unfold_locales (auto simp: CallbackCtl_def cb_Step_def cb_ShouldPause_def split: option.split)

interpretation breakpoint_ctl: passive_controller BreakpointCtl
    "\<lambda>c. \<forall>ctx req. patient ctx \<longrightarrow> (\<exists>resp. bc_handler c ctx req = Inr (Some resp) \<and> sp_Action resp = StepActionContinue
       \<and> sp_ModifiedEnvelope resp = None)" patient
  for patient
  by unfold_locales (auto simp: BreakpointCtl_def bc_Step_def bc_ShouldPause_def split: option.split)

end
