(* ===== verification/Runtime_Common.thy ===== *)
theory Runtime_Common
  imports Step_Controller
begin

section \<open>What both executors share\<close>

text \<open>
  \<open>runtime/runtime.go\<close>: the options, \<open>validateGraph\<close>, \<open>executeNode\<close>, \<open>determineSuccessors\<close> and
  \<open>handleStepPoint\<close>. A function that dereferences a nil envelope panics: its result is \<open>None\<close>. The
  emitter closure is an argument \<open>emitf\<close>, since \<open>EventEmitterDecorator\<close> may wrap it. What the code
  takes from outside is the record \<open>World\<close>: whether the context is done at the n-th check, when it ends as seen
  from each step point, the random run and step identifiers.
\<close>

datatype run_error =
    ErrMaxHopsExceeded string nat
  | ErrRunCanceled string
  | ErrNodeExecution string string
  | ErrStepAborted
  | ErrStepControl string
  | ErrMergeFailed string string
  | ErrNodeMissing string

datatype validate_error = ErrNilGraph | ErrGraph graph_error

text \<open>The texts of the errors that a run can return after its validation.\<close>

fun run_error_text :: "run_error \<Rightarrow> string" where
  "run_error_text (ErrMaxHopsExceeded i n) =
     ''maximum hops exceeded: node '' @ i @ '' executed '' @ show_nat n @ '' times''"
| "run_error_text (ErrRunCanceled e) = ''run was canceled: '' @ e"
| "run_error_text (ErrNodeExecution i e) = ''node execution failed: node '' @ i @ '': '' @ e"
| "run_error_text ErrStepAborted = ''execution aborted by step controller''"
| "run_error_text (ErrStepControl e) = ''step controller error: '' @ e"
| "run_error_text (ErrMergeFailed i e) = ''merge node '' @ i @ '' failed: '' @ e"
| "run_error_text (ErrNodeMissing i) = ''node not found: '' @ i"

type_synonym emit_fn = "Event \<Rightarrow> Emitter \<Rightarrow> Emitter"

record World =
  w_ctxDone :: "nat \<Rightarrow> bool"
  w_ctxErr :: string
  w_runID :: string
  w_stepID :: "nat \<Rightarrow> StepPoint \<Rightarrow> string"
  w_stepCtx :: "nat \<Rightarrow> StepPoint \<Rightarrow> StepContext"

record 's RunOptions =
  MaxHops :: int
  ContinueOnError :: bool
  Concurrency :: int
  EventEmitterDecorator :: "(emit_fn \<Rightarrow> emit_fn) option"
  StepController :: "'s StepCtl option"
  StepCfg :: "StepConfig option"
  CaptureSnapshots :: bool
  GraphDefinition :: val
  Inputs :: val
  TriggerSource :: string
  WorkflowID :: string
  WorkflowVersion :: string

definition DefaultRunOptions :: "'s RunOptions" where
  "DefaultRunOptions = \<lparr>MaxHops = 100, ContinueOnError = False, Concurrency = 1,
     EventEmitterDecorator = None, StepController = None, StepCfg = None, CaptureSnapshots = False,
     GraphDefinition = VNil, Inputs = VNil, TriggerSource = [], WorkflowID = [], WorkflowVersion = []\<rparr>"

definition validateGraph :: "BasicGraph option \<Rightarrow> validate_error option" where
  "validateGraph g = (case g of None \<Rightarrow> Some ErrNilGraph
     | Some g \<Rightarrow>
         if length (Nodes g) = 0 then Some (ErrGraph ErrEmptyGraph)
         else if Entry g = [] then Some (ErrGraph ErrNoEntryNode)
         else if NodeByID g (Entry g) = None then Some (ErrGraph (ErrNodeNotFound (Entry g)))
         else None)"


subsection \<open>Executing one node\<close>

text \<open>The result of the call, the envelope passed in as the node left it, and the emitter.\<close>

definition executeNode ::
  "emit_fn \<Rightarrow> nat \<Rightarrow> Node \<Rightarrow> Envelope \<Rightarrow> Emitter \<Rightarrow> (string + Envelope option) \<times> Envelope \<times> Emitter" where
  "executeNode emitf call node env em =
     (let runID = RunID (Trace env);
          em1 = emitf (WithNode (n_ID node) (n_Kind node) (NewEvent EventNodeStarted runID)) em;
          out = n_Run node call env;
          em2 = fold emitf (ro_events out) em1
      in case ro_result out of
           Inl err \<Rightarrow> (Inl err, ro_env out,
             emitf (WithPayload ''error'' (VStr err)
               (WithNode (n_ID node) (n_Kind node) (NewEvent EventNodeFailed runID))) em2)
         | Inr result \<Rightarrow> (Inr result, ro_env out,
             emitf (WithNode (n_ID node) (n_Kind node) (NewEvent EventNodeFinished runID)) em2))"


subsection \<open>Choosing the successors\<close>

definition gate_redirect_key :: string where "gate_redirect_key = ''__gate_redirect__''"

definition decision_key :: "string \<Rightarrow> string" where "decision_key nodeID = nodeID @ ''_decision''"

text \<open>The redirect target, when the envelope asks for one that is a successor.\<close>

definition gate_redirect :: "string list \<Rightarrow> Envelope \<Rightarrow> string option" where
  "gate_redirect graphSuccessors env = (case GetVar env gate_redirect_key of
       None \<Rightarrow> None
     | Some v \<Rightarrow> (case as_str v of
           None \<Rightarrow> None
         | Some redirectNode \<Rightarrow>
             if redirectNode \<noteq> [] \<and> list_ex (\<lambda>s. s = redirectNode) graphSuccessors
             then Some redirectNode else None))"

definition routed_event :: "string \<Rightarrow> Node \<Rightarrow> string list \<Rightarrow> string \<Rightarrow> val \<Rightarrow> Event" where
  "routed_event runID node targets reason confidence =
     WithPayload ''confidence'' confidence (WithPayload ''reason'' (VStr reason)
       (WithPayload ''targets'' (VStrs targets)
         (WithNode (n_ID node) (n_Kind node) (NewEvent EventRouteDecision runID))))"

definition determineSuccessors ::
  "emit_fn \<Rightarrow> BasicGraph \<Rightarrow> Node \<Rightarrow> Envelope option \<Rightarrow> Emitter \<Rightarrow> (string list \<times> Envelope option \<times> Emitter) option" where
  "determineSuccessors emitf g node envp em =
     (let graphSuccessors = Successors g (n_ID node) in
      if length graphSuccessors = 0 then Some ([], envp, em)
      else case envp of None \<Rightarrow> None
      | Some env \<Rightarrow>
          (case gate_redirect graphSuccessors env of
             Some redirectNode \<Rightarrow>
               Some ([redirectNode], Some (SetVar gate_redirect_key VNil env),
                 emitf (routed_event (RunID (Trace env)) node [redirectNode] ''gate redirect'' (VF64 (F64 1))) em)
           | None \<Rightarrow>
               if \<not> n_isRouter node then Some (graphSuccessors, envp, em)
               else case GetVar env (decision_key (n_ID node)) of
                      None \<Rightarrow> Some (graphSuccessors, envp, em)
                    | Some (VDecision decision) \<Rightarrow>
                        Some (filter (\<lambda>s. s \<in> set (rd_Targets decision)) graphSuccessors, envp,
                          emitf (routed_event (RunID (Trace env)) node (rd_Targets decision) (rd_Reason decision)
                            (case rd_Confidence decision of None \<Rightarrow> VNil | Some c \<Rightarrow> VF64 c)) em)
                    | Some _ \<Rightarrow> Some (graphSuccessors, envp, em)))"

text \<open>The next nodes are successors in the graph, each at most as often as there.\<close>

lemma determineSuccessors_subset:
  assumes "determineSuccessors emitf g node envp em = Some (succs, envp', em')"
  shows "set succs \<subseteq> set (Successors g (n_ID node))"
  using assms
  by (auto simp: determineSuccessors_def gate_redirect_def Let_def list_ex_iff
      split: if_splits option.splits val.splits)

lemma determineSuccessors_defined:
  "envp \<noteq> None \<Longrightarrow> determineSuccessors emitf g node envp em \<noteq> None"
  by (auto simp: determineSuccessors_def Let_def split: option.split val.split)

lemma determineSuccessors_env:
  assumes "determineSuccessors emitf g node envp em = Some (succs, envp', em')"
  shows "envp' = None \<longleftrightarrow> envp = None"
    and "envp = Some e \<Longrightarrow> envp' = Some e' \<Longrightarrow> Trace e' = Trace e \<and> Errors e' = Errors e"
  using assms by (auto simp: determineSuccessors_def Let_def split: if_splits option.splits val.splits)


subsection \<open>Step points\<close>

definition apply_mods :: "EnvelopeModification \<Rightarrow> Envelope \<Rightarrow> Envelope" where
  "apply_mods m env =
     (let env1 = fold (\<lambda>(k, v). SetVar k v) (SetVars m) env
      in fold (\<lambda>k e. e\<lparr>Vars := map_option (mdel k) (Vars e)\<rparr>) (DeleteVars m) env1)"

text \<open>The action, the modified envelope if any, or the controller's error. The outer \<open>None\<close> is a nil
  dereference: of the envelope, or of a nil response.\<close>

definition step_config :: "'s RunOptions \<Rightarrow> StepConfig" where
  "step_config opts = (case StepCfg opts of None \<Rightarrow> DefaultStepConfig | Some c \<Rightarrow> c)"

definition handleStepPoint ::
  "World \<Rightarrow> 's RunOptions \<Rightarrow> emit_fn \<Rightarrow> BasicGraph \<Rightarrow> Node \<Rightarrow> Envelope option \<Rightarrow> StepPoint \<Rightarrow> nat \<Rightarrow> nat \<Rightarrow>
     string option \<Rightarrow> 's \<times> Emitter \<Rightarrow> ((string + StepAction \<times> Envelope option) \<times> 's \<times> Emitter) option" where
  "handleStepPoint w opts emitf g node envp point tick hopCount nodeErr st =
     (case StepController opts of
        None \<Rightarrow> Some (Inr (StepActionContinue, None), st)
      | Some ctrl \<Rightarrow>
          (let config = step_config opts; (s, em) = st in
           if point = StepPointBeforeNode \<and> \<not> PauseBeforeNode config \<or>
              point = StepPointAfterNode \<and> \<not> PauseAfterNode config
           then Some (Inr (StepActionContinue, None), st)
           else case ctl_ShouldPause ctrl (n_ID node) point s of
                  (False, s1) \<Rightarrow> Some (Inr (StepActionContinue, None), (s1, em))
                | (True, s1) \<Rightarrow>
                    (case envp of None \<Rightarrow> None
                     | Some env \<Rightarrow>
                         (let runID = RunID (Trace env);
                              req = \<lparr>sq_ID = w_stepID w tick point, sq_RunID = runID, sq_Point = point,
                                     sq_NodeID = n_ID node, sq_NodeKind = n_Kind node,
                                     sq_Envelope = createEnvelopeSnapshot env, sq_HopCount = hopCount,
                                     sq_Error = nodeErr, sq_Graph = createGraphSnapshot g (n_ID node)\<rparr>;
                              em1 = emitf (WithPayload ''hop_count'' (VInt (int hopCount))
                                      (WithPayload ''step_point'' (VStr point)
                                        (WithPayload ''step_id'' (VStr (sq_ID req))
                                          (WithNode (n_ID node) (n_Kind node) (NewEvent EventStepPaused runID))))) em
                          in case ctl_Step ctrl (stepContext config (w_stepCtx w tick point)) req s1 of
                               (Inl err, s2) \<Rightarrow> Some (Inl err, (s2, em1))
                             | (Inr None, s2) \<Rightarrow> None
                             | (Inr (Some resp), s2) \<Rightarrow>
                                 (let em2 = emitf (WithPayload ''action'' (VStr (sp_Action resp))
                                              (WithPayload ''step_id'' (VStr (sq_ID req))
                                                (WithNode (n_ID node) (n_Kind node) (NewEvent EventStepResumed runID)))) em1;
                                      modifiedEnv = (case sp_ModifiedEnvelope resp of
                                          None \<Rightarrow> None
                                        | Some m \<Rightarrow> if point = StepPointBeforeNode \<and> sp_Action resp = StepActionContinue
                                                   then map_option (apply_mods m) (Clone (Some env)) else None)
                                  in Some (Inr (sp_Action resp, modifiedEnv), (s2, em2)))))))"

definition emitStepControlEvent :: "emit_fn \<Rightarrow> string \<Rightarrow> Node \<Rightarrow> EventKind \<Rightarrow> string \<Rightarrow> Emitter \<Rightarrow> Emitter" where
  "emitStepControlEvent emitf runID node kind reason em =
     emitf (WithPayload ''reason'' (VStr reason) (WithNode (n_ID node) (n_Kind node) (NewEvent kind runID))) em"

text \<open>The run context check and the hop counter.\<close>

definition hop_at :: "nat gomap \<Rightarrow> string \<Rightarrow> nat" where
  "hop_at m i = (case mget m i of None \<Rightarrow> 0 | Some k \<Rightarrow> k)"

lemma hop_at_mput [simp]: "hop_at (mput i k m) j = (if j = i then k else hop_at m j)"
  by (simp add: hop_at_def)

lemma hop_at_Nil [simp]: "hop_at [] i = 0"
  by (simp add: hop_at_def)

end
