(* ===== verification/Runtime_Sequential.thy ===== *)
theory Runtime_Sequential
  imports Runtime_Common
begin

section \<open>The sequential executor\<close>

text \<open>
  \<open>executeGraphSequential\<close> and \<open>Run\<close> of \<open>runtime/runtime.go\<close>. One iteration of the queue loop is
  the function \<open>seq_iter\<close>; the loop \<open>seq_loop\<close> is total because every iteration that goes on either
  shortens the queue or uses up one of the \<open>MaxHops\<close> visits of a node of the graph.
\<close>

record 's SeqState =
  ss_queue :: "string list"
  ss_visited :: "bool gomap"
  ss_hopCount :: "nat gomap"
  ss_current :: "Envelope option"
  ss_ctl :: 's
  ss_em :: Emitter
  ss_tick :: nat

definition shouldSkipVisitedNode :: "string \<Rightarrow> bool gomap \<Rightarrow> nat gomap \<Rightarrow> int \<Rightarrow> bool" where
  "shouldSkipVisitedNode nodeID visited hopCount maxHops =
     (if \<not> bool_at visited nodeID \<or> hop_at hopCount nodeID = 0 then False
      else maxHops \<le> int (hop_at hopCount nodeID))"

definition checkRunContext :: "World \<Rightarrow> nat \<Rightarrow> run_error option" where
  "checkRunContext w tick = (if w_ctxDone w tick then Some (ErrRunCanceled (w_ctxErr w)) else None)"

definition incrementAndValidateHop :: "string \<Rightarrow> nat gomap \<Rightarrow> int \<Rightarrow> nat gomap \<times> nat \<times> run_error option" where
  "incrementAndValidateHop nodeID hopCount maxHops =
     (let hopCount' = mput nodeID (hop_at hopCount nodeID + 1) hopCount;
          attempt = hop_at hopCount' nodeID
      in (hopCount', attempt,
          if maxHops < int attempt then Some (ErrMaxHopsExceeded nodeID attempt) else None))"

text \<open>The current envelope, whether to skip the node, and the error.\<close>

definition handleSequentialBeforeStep ::
  "World \<Rightarrow> 's RunOptions \<Rightarrow> emit_fn \<Rightarrow> BasicGraph \<Rightarrow> Node \<Rightarrow> Envelope option \<Rightarrow> nat \<Rightarrow> nat \<Rightarrow> 's \<times> Emitter \<Rightarrow>
     (Envelope option \<times> bool \<times> run_error option \<times> 's \<times> Emitter) option" where
  "handleSequentialBeforeStep w opts emitf g node current tick attempt st =
     (if StepController opts = None then Some (current, False, None, st)
      else case handleStepPoint w opts emitf g node current StepPointBeforeNode tick attempt None st of
        None \<Rightarrow> None
      | Some (Inl stepErr, st') \<Rightarrow> Some (current, False, Some (ErrStepControl stepErr), st')
      | Some (Inr (action, modifiedEnv), (s, em)) \<Rightarrow>
          (let current = (case modifiedEnv of None \<Rightarrow> current | Some e \<Rightarrow> Some e) in
           if action = StepActionAbort then
             (case current of None \<Rightarrow> None
              | Some e \<Rightarrow> Some (current, False, Some ErrStepAborted, s,
                  emitStepControlEvent emitf (RunID (Trace e)) node EventStepAborted ''controller_abort'' em))
           else if action = StepActionSkipNode then
             (case current of None \<Rightarrow> None
              | Some e \<Rightarrow> Some (current, True, None, s,
                  emitStepControlEvent emitf (RunID (Trace e)) node EventStepSkipped ''controller_skip'' em))
           else Some (current, False, None, s, em)))"

definition handleSequentialAfterStep ::
  "World \<Rightarrow> 's RunOptions \<Rightarrow> emit_fn \<Rightarrow> BasicGraph \<Rightarrow> Node \<Rightarrow> Envelope option \<Rightarrow> Envelope option \<Rightarrow> string option \<Rightarrow>
     nat \<Rightarrow> nat \<Rightarrow> 's \<times> Emitter \<Rightarrow> (run_error option \<times> 's \<times> Emitter) option" where
  "handleSequentialAfterStep w opts emitf g node current result nodeErr tick attempt st =
     (if StepController opts = None then Some (None, st)
      else let envForStep = (case result of None \<Rightarrow> current | Some e \<Rightarrow> Some e) in
      case handleStepPoint w opts emitf g node envForStep StepPointAfterNode tick attempt nodeErr st of
        None \<Rightarrow> None
      | Some (Inl stepErr, st') \<Rightarrow> Some (Some (ErrStepControl stepErr), st')
      | Some (Inr (action, _), (s, em)) \<Rightarrow>
          if action \<noteq> StepActionAbort then Some (None, s, em)
          else (case current of None \<Rightarrow> None
                | Some e \<Rightarrow> Some (Some ErrStepAborted, s,
                    emitStepControlEvent emitf (RunID (Trace e)) node EventStepAborted ''controller_abort'' em)))"

definition resolveSequentialNodeOutcome ::
  "Envelope \<Rightarrow> string + Envelope option \<Rightarrow> Node \<Rightarrow> nat \<Rightarrow> 's RunOptions \<Rightarrow> string \<Rightarrow> Envelope option \<times> run_error option" where
  "resolveSequentialNodeOutcome current result node attempt opts nodeID = (case result of
       Inr env \<Rightarrow> (env, None)
     | Inl nodeErr \<Rightarrow>
         if \<not> ContinueOnError opts then (Some current, Some (ErrNodeExecution nodeID nodeErr))
         else (Some (AppendError \<lparr>ne_NodeID = nodeID, ne_Kind = n_Kind node, ne_Message = nodeErr,
                       ne_Attempt = int attempt\<rparr> current), None))"

text \<open>One iteration: go on with a new state, or return (the state's current envelope and the error),
  or panic.\<close>

datatype 's seq_res = Next "'s SeqState" | Return "run_error option" "'s SeqState" | Crash

definition go_on :: "emit_fn \<Rightarrow> BasicGraph \<Rightarrow> Node \<Rightarrow> 's SeqState \<Rightarrow> 's seq_res" where
  "go_on emitf g node st =
     (case determineSuccessors emitf g node (ss_current st) (ss_em st) of
        None \<Rightarrow> Crash
      | Some (nextNodes, current, em) \<Rightarrow>
          Next (st\<lparr>ss_current := current, ss_em := em, ss_queue := ss_queue st @ nextNodes\<rparr>))"

text \<open>The part of the iteration from \<open>executeNode\<close> on.\<close>

definition seq_run_node ::
  "World \<Rightarrow> 's RunOptions \<Rightarrow> emit_fn \<Rightarrow> BasicGraph \<Rightarrow> string \<Rightarrow> Node \<Rightarrow> nat \<Rightarrow> 's SeqState \<Rightarrow> 's seq_res" where
  "seq_run_node w opts emitf g nodeID node attempt st =
     (case ss_current st of None \<Rightarrow> Crash
      | Some env \<Rightarrow>
          (case executeNode emitf (ss_tick st) node env (ss_em st) of (result, env', em) \<Rightarrow>
           (case handleSequentialAfterStep w opts emitf g node (Some env')
                   (case result of Inl _ \<Rightarrow> None | Inr r \<Rightarrow> r) (case result of Inl e \<Rightarrow> Some e | Inr _ \<Rightarrow> None)
                   (ss_tick st) attempt (ss_ctl st, em) of
              None \<Rightarrow> Crash
            | Some (Some err, s, em) \<Rightarrow>
                Return (Some err) (st\<lparr>ss_current := Some env', ss_ctl := s, ss_em := em\<rparr>)
            | Some (None, s, em) \<Rightarrow>
                (case resolveSequentialNodeOutcome env' result node attempt opts nodeID of
                   (current, Some err) \<Rightarrow>
                     Return (Some err) (st\<lparr>ss_current := current, ss_ctl := s, ss_em := em\<rparr>)
                 | (current, None) \<Rightarrow>
                     go_on emitf g node (st\<lparr>ss_current := current, ss_ctl := s, ss_em := em,
                       ss_visited := mput nodeID True (ss_visited st)\<rparr>)))))"

text \<open>The part from the step point before the node on.\<close>

definition seq_visit ::
  "World \<Rightarrow> 's RunOptions \<Rightarrow> emit_fn \<Rightarrow> BasicGraph \<Rightarrow> string \<Rightarrow> Node \<Rightarrow> nat \<Rightarrow> 's SeqState \<Rightarrow> 's seq_res" where
  "seq_visit w opts emitf g nodeID node attempt st =
     (case handleSequentialBeforeStep w opts emitf g node (ss_current st) (ss_tick st) attempt
             (ss_ctl st, ss_em st) of
        None \<Rightarrow> Crash
      | Some (current, skipNode, err, s, em) \<Rightarrow>
          (let st = st\<lparr>ss_current := current, ss_ctl := s, ss_em := em\<rparr> in
           if err \<noteq> None then Return err st
           else if skipNode
           then go_on emitf g node (st\<lparr>ss_visited := mput nodeID True (ss_visited st)\<rparr>)
           else seq_run_node w opts emitf g nodeID node attempt st))"

definition seq_iter :: "World \<Rightarrow> 's RunOptions \<Rightarrow> emit_fn \<Rightarrow> BasicGraph \<Rightarrow> 's SeqState \<Rightarrow> 's seq_res" where
  "seq_iter w opts emitf g st = (case ss_queue st of
       [] \<Rightarrow> Return None st
     | nodeID # queue \<Rightarrow>
         (let st = st\<lparr>ss_queue := queue\<rparr> in
          if shouldSkipVisitedNode nodeID (ss_visited st) (ss_hopCount st) (MaxHops opts) then Next st
          else case checkRunContext w (ss_tick st) of Some err \<Rightarrow> Return (Some err) st
          | None \<Rightarrow>
            (case incrementAndValidateHop nodeID (ss_hopCount st) (MaxHops opts) of (hopCount, attempt, err) \<Rightarrow>
             (let st = st\<lparr>ss_hopCount := hopCount, ss_tick := Suc (ss_tick st)\<rparr> in
              if err \<noteq> None then Return err st
              else case NodeByID g nodeID of
                     None \<Rightarrow> Return (Some (ErrNodeMissing nodeID)) st
                   | Some node \<Rightarrow> seq_visit w opts emitf g nodeID node attempt st))))"

lemma go_on_Next:
  assumes "go_on emitf g node st = Next st'"
  obtains nxt cur em where "determineSuccessors emitf g node (ss_current st) (ss_em st) = Some (nxt, cur, em)"
    and "st' = st\<lparr>ss_current := cur, ss_em := em, ss_queue := ss_queue st @ nxt\<rparr>"
  using assms by (auto simp: go_on_def split: option.splits)

lemma go_on_not_Return [simp]: "go_on emitf g node st \<noteq> Return err st'"
  by (auto simp: go_on_def split: option.splits)

text \<open>What going on after a node was taken from the queue does to the bookkeeping.\<close>

definition visits :: "BasicGraph \<Rightarrow> Node \<Rightarrow> string \<Rightarrow> 's SeqState \<Rightarrow> 's SeqState \<Rightarrow> bool" where
  "visits g node i st st' \<longleftrightarrow> ss_hopCount st' = ss_hopCount st \<and> ss_tick st' = ss_tick st
     \<and> ss_visited st' = mput i True (ss_visited st)
     \<and> (\<exists>nxt. ss_queue st' = ss_queue st @ nxt \<and> set nxt \<subseteq> set (Successors g (n_ID node)))"

lemma go_on_visits:
  assumes "go_on emitf g node st = Next st'" "ss_visited st = mput i True (ss_visited st0)"
    "ss_hopCount st = ss_hopCount st0" "ss_tick st = ss_tick st0" "ss_queue st = ss_queue st0"
  shows "visits g node i st0 st'"
  using assms by (elim go_on_Next) (auto simp: visits_def dest: determineSuccessors_subset)

lemma seq_run_node_visits:
  assumes "seq_run_node w opts emitf g i node attempt st = Next st'"
  shows "visits g node i st st'"
proof -
  from assms obtain cur s em where
    "go_on emitf g node (st\<lparr>ss_current := cur, ss_ctl := s, ss_em := em, ss_visited := mput i True (ss_visited st)\<rparr>) = Next st'"
    by (auto simp: seq_run_node_def split: option.splits prod.splits)
  then show ?thesis by (rule go_on_visits) simp_all
qed

lemma seq_visit_visits:
  assumes "seq_visit w opts emitf g i node attempt st = Next st'"
  shows "visits g node i st st'"
proof -
  from assms obtain cur skipNode s em where r:
    "(if skipNode then go_on emitf g node (st\<lparr>ss_current := cur, ss_ctl := s, ss_em := em,
         ss_visited := mput i True (ss_visited st)\<rparr>)
      else seq_run_node w opts emitf g i node attempt (st\<lparr>ss_current := cur, ss_ctl := s, ss_em := em\<rparr>)) = Next st'"
    by (fastforce simp: seq_visit_def Let_def split: option.splits prod.splits if_splits)
  show ?thesis
  proof (cases skipNode)
    case True
    with r show ?thesis by (auto intro: go_on_visits)
  next
    case False
    with r show ?thesis by (auto simp: visits_def dest: seq_run_node_visits)
  qed
qed

definition taken :: "string \<Rightarrow> string list \<Rightarrow> 's SeqState \<Rightarrow> 's SeqState" where
  "taken i q st = st\<lparr>ss_queue := q, ss_hopCount := mput i (Suc (hop_at (ss_hopCount st) i)) (ss_hopCount st),
     ss_tick := Suc (ss_tick st)\<rparr>"

lemma seq_iter_cases:
  obtains (finished) "ss_queue st = []" "seq_iter w opts emitf g st = Return None st"
  | (skip) i q where "ss_queue st = i # q" "seq_iter w opts emitf g st = Next (st\<lparr>ss_queue := q\<rparr>)"
      "shouldSkipVisitedNode i (ss_visited st) (ss_hopCount st) (MaxHops opts)"
  | (canceled) i q where "ss_queue st = i # q" "w_ctxDone w (ss_tick st)"
      "seq_iter w opts emitf g st = Return (Some (ErrRunCanceled (w_ctxErr w))) (st\<lparr>ss_queue := q\<rparr>)"
  | (hops) i q n where "ss_queue st = i # q" "MaxHops opts < int (Suc (hop_at (ss_hopCount st) i))"
      "\<not> shouldSkipVisitedNode i (ss_visited st) (ss_hopCount st) (MaxHops opts)"
      "seq_iter w opts emitf g st = Return (Some (ErrMaxHopsExceeded i n)) (taken i q st)"
  | (missing) i q where "ss_queue st = i # q" "NodeByID g i = None"
      "seq_iter w opts emitf g st = Return (Some (ErrNodeMissing i)) (taken i q st)"
  | (visit) i q node where "ss_queue st = i # q" "NodeByID g i = Some node" "\<not> w_ctxDone w (ss_tick st)"
      "\<not> shouldSkipVisitedNode i (ss_visited st) (ss_hopCount st) (MaxHops opts)"
      "int (Suc (hop_at (ss_hopCount st) i)) \<le> MaxHops opts"
      "seq_iter w opts emitf g st
         = seq_visit w opts emitf g i node (Suc (hop_at (ss_hopCount st) i)) (taken i q st)"
proof (cases "ss_queue st")
  case Nil
  with finished show thesis by (simp add: seq_iter_def)
next
  case (Cons i q)
  let ?skip = "shouldSkipVisitedNode i (ss_visited st) (ss_hopCount st) (MaxHops opts)"
  have eq: "seq_iter w opts emitf g st =
    (if ?skip then Next (st\<lparr>ss_queue := q\<rparr>)
     else if w_ctxDone w (ss_tick st) then Return (Some (ErrRunCanceled (w_ctxErr w))) (st\<lparr>ss_queue := q\<rparr>)
     else if MaxHops opts < int (Suc (hop_at (ss_hopCount st) i))
     then Return (Some (ErrMaxHopsExceeded i (Suc (hop_at (ss_hopCount st) i)))) (taken i q st)
     else case NodeByID g i of
         None \<Rightarrow> Return (Some (ErrNodeMissing i)) (taken i q st)
       | Some node \<Rightarrow> seq_visit w opts emitf g i node (Suc (hop_at (ss_hopCount st) i)) (taken i q st))"
    using Cons by (simp add: seq_iter_def Let_def checkRunContext_def incrementAndValidateHop_def taken_def
        split: option.split)
  show thesis
  proof (cases "?skip \<or> w_ctxDone w (ss_tick st) \<or> MaxHops opts < int (Suc (hop_at (ss_hopCount st) i))")
    case True
    with eq Cons skip canceled hops show thesis by (auto split: if_splits)
  next
    case False
    with eq Cons missing visit show thesis by (cases "NodeByID g i") auto
  qed
qed

lemma seq_iter_NextE:
  assumes "seq_iter w opts emitf g st = Next st'"
  obtains (skip) i q where "ss_queue st = i # q" "st' = st\<lparr>ss_queue := q\<rparr>"
      "shouldSkipVisitedNode i (ss_visited st) (ss_hopCount st) (MaxHops opts)"
  | (visit) i q node where "ss_queue st = i # q" "NodeByID g i = Some node"
      "int (Suc (hop_at (ss_hopCount st) i)) \<le> MaxHops opts" "visits g node i (taken i q st) st'"
  using assms by (cases rule: seq_iter_cases[of st w opts emitf g]) (auto dest: seq_visit_visits)

text \<open>The loop. Every iteration that goes on decreases the visits that are left, or the queue.\<close>

definition visits_left :: "'s RunOptions \<Rightarrow> BasicGraph \<Rightarrow> nat gomap \<Rightarrow> nat" where
  "visits_left opts g hops = (\<Sum>i \<leftarrow> mkeys (g_nodes g). nat (MaxHops opts) - hop_at hops i)"

lemma visits_left_decreases:
  assumes "NodeByID g i \<noteq> None" "int (Suc (hop_at hops i)) \<le> MaxHops opts"
  shows "visits_left opts g (mput i (Suc (hop_at hops i)) hops) < visits_left opts g hops"
proof -
  let ?f = "\<lambda>hs j. nat (MaxHops opts) - hop_at hs j"
  have "(\<Sum>j \<leftarrow> ks. ?f (mput i (Suc (hop_at hops i)) hops) j) \<le> (\<Sum>j \<leftarrow> ks. ?f hops j) \<and>
    (i \<in> set ks \<longrightarrow> (\<Sum>j \<leftarrow> ks. ?f (mput i (Suc (hop_at hops i)) hops) j) < (\<Sum>j \<leftarrow> ks. ?f hops j))" for ks
    by (induction ks) (use assms(2) in auto)
  moreover have "i \<in> set (mkeys (g_nodes g))" using assms(1) in_keys_NodeByID by blast
  ultimately show ?thesis unfolding visits_left_def by blast
qed

function seq_loop :: "World \<Rightarrow> 's RunOptions \<Rightarrow> emit_fn \<Rightarrow> BasicGraph \<Rightarrow> 's SeqState \<Rightarrow> (run_error option \<times> 's SeqState) option" where
  "seq_loop w opts emitf g st = (case seq_iter w opts emitf g st of
       Next st' \<Rightarrow> seq_loop w opts emitf g st'
     | Return err st' \<Rightarrow> Some (err, st')
     | Crash \<Rightarrow> None)"
  by pat_completeness auto
termination
proof (relation "measures [\<lambda>(w, opts, emitf, g, st). visits_left opts g (ss_hopCount st),
    \<lambda>(w, opts, emitf, g, st). length (ss_queue st)]", simp)
  fix w and opts :: "'s RunOptions" and emitf g and st st' :: "'s SeqState"
  assume "seq_iter w opts emitf g st = Next st'"
  then show "((w, opts, emitf, g, st'), w, opts, emitf, g, st) \<in> measures
     [\<lambda>(w, opts, emitf, g, st). visits_left opts g (ss_hopCount st), \<lambda>(w, opts, emitf, g, st). length (ss_queue st)]"
    by (cases rule: seq_iter_NextE) (auto simp: visits_def taken_def visits_left_decreases)
qed

declare seq_loop.simps [simp del]



subsection \<open>Run\<close>

definition executeGraphSequential ::
  "World \<Rightarrow> 's RunOptions \<Rightarrow> emit_fn \<Rightarrow> BasicGraph \<Rightarrow> Envelope \<Rightarrow> 's \<times> Emitter \<Rightarrow>
     (Envelope option \<times> run_error option \<times> 's \<times> Emitter) option" where
  "executeGraphSequential w opts emitf g env st =
     (case seq_loop w opts emitf g \<lparr>ss_queue = [Entry g], ss_visited = [], ss_hopCount = [],
             ss_current = Some env, ss_ctl = fst st, ss_em = snd st, ss_tick = 0\<rparr> of
        None \<Rightarrow> None
      | Some (err, st') \<Rightarrow> Some (ss_current st', err, ss_ctl st', ss_em st'))"

text \<open>The parallel executor is an argument of the dispatch: it is one of the executions that
  \<open>Runtime_Parallel\<close> describes.\<close>

type_synonym 's executor =
  "World \<Rightarrow> 's RunOptions \<Rightarrow> emit_fn \<Rightarrow> BasicGraph \<Rightarrow> Envelope \<Rightarrow> 's \<times> Emitter \<Rightarrow>
     (Envelope option \<times> run_error option \<times> 's \<times> Emitter) option"

definition executeGraph :: "'s executor \<Rightarrow> 's executor" where
  "executeGraph executeGraphParallel w opts emitf g env st =
     (if 1 < Concurrency opts then executeGraphParallel w opts emitf g env st
      else executeGraphSequential w opts emitf g env st)"

definition apply_defaults :: "'s RunOptions \<Rightarrow> 's RunOptions" where
  "apply_defaults opts = (if MaxHops opts \<le> 0 then opts\<lparr>MaxHops := 100\<rparr> else opts)"

definition run_emitter :: "'s RunOptions \<Rightarrow> emit_fn" where
  "run_emitter opts = (case EventEmitterDecorator opts of None \<Rightarrow> emit | Some d \<Rightarrow> d emit)"

definition with_opt :: "bool \<Rightarrow> string \<Rightarrow> val \<Rightarrow> Event \<Rightarrow> Event" where
  "with_opt b key v e = (if b then WithPayload key v e else e)"

definition runStartEvent :: "'s RunOptions \<Rightarrow> World \<Rightarrow> BasicGraph \<Rightarrow> Event" where
  "runStartEvent opts w g =
     with_opt (CaptureSnapshots opts \<and> Inputs opts \<noteq> VNil) ''inputs'' (Inputs opts)
      (with_opt (CaptureSnapshots opts \<and> GraphDefinition opts \<noteq> VNil) ''graph_definition'' (GraphDefinition opts)
       (with_opt (WorkflowVersion opts \<noteq> []) ''workflow_version'' (VStr (WorkflowVersion opts))
        (with_opt (WorkflowID opts \<noteq> []) ''workflow_id'' (VStr (WorkflowID opts))
         (with_opt (TriggerSource opts \<noteq> []) ''trigger'' (VStr (TriggerSource opts))
          (WithPayload ''entry'' (VStr (Entry g)) (WithPayload ''graph'' (VStr (g_name g))
            (NewEvent EventRunStarted (w_runID w))))))))"

definition finishEvent :: "World \<Rightarrow> run_error option \<Rightarrow> Event" where
  "finishEvent w err = (case err of
       Some e \<Rightarrow> WithPayload ''error'' (VStr (run_error_text e))
                  (WithPayload ''status'' (VStr ''failed'') (NewEvent EventRunFinished (w_runID w)))
     | None \<Rightarrow> WithPayload ''status'' (VStr ''completed'') (NewEvent EventRunFinished (w_runID w)))"

definition init_env :: "World \<Rightarrow> Envelope option \<Rightarrow> Envelope" where
  "init_env w env = (let e = (case env of None \<Rightarrow> NewEnvelope | Some e \<Rightarrow> e) in
     e\<lparr>Trace := (Trace e)\<lparr>RunID := w_runID w\<rparr>\<rparr>)"

text \<open>\<open>Run\<close>: the graph is rejected, or the run panics (\<open>None\<close>), or it returns an envelope and an error.\<close>

definition Run ::
  "'s executor \<Rightarrow> World \<Rightarrow> 's RunOptions \<Rightarrow> BasicGraph option \<Rightarrow> Envelope option \<Rightarrow> 's \<times> Emitter \<Rightarrow>
     validate_error + (Envelope option \<times> run_error option \<times> 's \<times> Emitter) option" where
  "Run executeGraphParallel w opts0 gp env st =
     (let opts = apply_defaults opts0 in
      case validateGraph gp of Some err \<Rightarrow> Inl err
      | None \<Rightarrow>
          (let g = the gp; emitf = run_emitter opts;
               st1 = (fst st, emitf (runStartEvent opts w g) (snd st))
           in Inr (case executeGraph executeGraphParallel w opts emitf g (init_env w env) st1 of
                None \<Rightarrow> None
              | Some (result, err, s, em) \<Rightarrow> Some (result, err, s, emitf (finishEvent w err) em))))"

end
