(* ===== verification/Sequential_Correct.thy ===== *)
theory Sequential_Correct
  imports Runtime_Sequential
begin

section \<open>Correctness of the sequential executor\<close>

text \<open>
  What a sequential run does, for every graph, every set of options, every behaviour of the nodes and
  of the step controller, and every moment at which the context ends: how often nodes run and which,
  what the event log looks like, when a run panics, how errors are recorded, that all reachable
  nodes run, and that a controller that only watches changes nothing.
\<close>

lemma seq_loop_rule:
  assumes "seq_loop w opts emitf g st = Some (err, st')" "P st"
    and "\<And>st st'. P st \<Longrightarrow> seq_iter w opts emitf g st = Next st' \<Longrightarrow> P st'"
    and "\<And>st err st'. P st \<Longrightarrow> seq_iter w opts emitf g st = Return err st' \<Longrightarrow> Q err st'"
  shows "Q err st'"
  using assms
proof (induction w opts emitf g st rule: seq_loop.induct)
  case (1 w opts emitf g st)
  show ?case
  proof (cases "seq_iter w opts emitf g st")
    case (Next st1)
    with 1(2) have "seq_loop w opts emitf g st1 = Some (err, st')"
      by (simp add: seq_loop.simps[of w opts emitf g st])
    from 1(1)[OF Next this 1(4)[OF 1(3) Next]] 1(4,5) show ?thesis by blast
  next
    case (Return e st1)
    with 1(2) 1(5)[OF 1(3) Return] show ?thesis by (simp add: seq_loop.simps[of w opts emitf g st])
  next
    case Crash
    with 1(2) show ?thesis by (simp add: seq_loop.simps[of w opts emitf g st])
  qed
qed

lemma seq_loop_total_rule:
  assumes "P st" "\<And>st st'. P st \<Longrightarrow> seq_iter w opts emitf g st = Next st' \<Longrightarrow> P st'"
    and "\<And>st. P st \<Longrightarrow> seq_iter w opts emitf g st \<noteq> Crash"
  shows "seq_loop w opts emitf g st \<noteq> None"
  using assms
proof (induction w opts emitf g st rule: seq_loop.induct)
  case (1 w opts emitf g st)
  show ?case
  proof (cases "seq_iter w opts emitf g st")
    case (Next st1)
    from 1(1)[OF Next 1(3)[OF 1(2) Next]] 1(3,4) have "seq_loop w opts emitf g st1 \<noteq> None" by blast
    with Next show ?thesis by (simp add: seq_loop.simps[of w opts emitf g st])
  next
    case (Return e st1)
    then show ?thesis by (simp add: seq_loop.simps[of w opts emitf g st])
  next
    case Crash
    with 1(4)[OF 1(2)] show ?thesis by simp
  qed
qed


subsection \<open>The events of an iteration\<close>

definition control_kinds :: "EventKind set" where
  "control_kinds = {EventStepPaused, EventStepResumed, EventStepSkipped, EventStepAborted, EventRouteDecision}"

definition control :: "Event list \<Rightarrow> bool" where
  "control es \<longleftrightarrow> (\<forall>e \<in> set es. ev_Kind e \<in> control_kinds)"

lemma control_simps [simp]:
  "control []" "control (e # es) \<longleftrightarrow> ev_Kind e \<in> control_kinds \<and> control es"
  "control (es @ fs) \<longleftrightarrow> control es \<and> control fs"
  by (auto simp: control_def)

lemma control_kinds_simps [simp]:
  "EventStepPaused \<in> control_kinds" "EventStepResumed \<in> control_kinds" "EventStepSkipped \<in> control_kinds"
  "EventStepAborted \<in> control_kinds" "EventRouteDecision \<in> control_kinds"
  "EventNodeStarted \<notin> control_kinds" "EventNodeFailed \<notin> control_kinds" "EventNodeFinished \<notin> control_kinds"
  "EventRunStarted \<notin> control_kinds" "EventRunFinished \<notin> control_kinds"
  by (simp_all add: control_kinds_def event_kind_defs)

lemma emit_all_simps [simp]:
  "emit_all [] em = em" "emit_all (e # es) em = emit_all es (emit e em)"
  "emit_all (es @ fs) em = emit_all fs (emit_all es em)"
  by (simp_all add: emit_all_def)

text \<open>\<open>em'\<close> is \<open>em\<close> after some control events.\<close>

definition ctl_after :: "Emitter \<Rightarrow> Emitter \<Rightarrow> bool" where
  "ctl_after em em' \<longleftrightarrow> (\<exists>es. control es \<and> em' = emit_all es em)"

lemma ctl_after_refl [simp, intro]: "ctl_after em em"
  unfolding ctl_after_def by (rule exI[of _ "[]"]) simp

lemma ctl_after_emit: "ctl_after em em' \<Longrightarrow> ev_Kind e \<in> control_kinds \<Longrightarrow> ctl_after em (emit e em')"
  unfolding ctl_after_def by (metis control_simps emit_all_simps)

lemma ctl_after_trans: "ctl_after a b \<Longrightarrow> ctl_after b c \<Longrightarrow> ctl_after a c"
  unfolding ctl_after_def by (metis control_simps(3) emit_all_simps(3))

lemma determineSuccessors_ctl:
  "determineSuccessors emit g node envp em = Some (succs, envp', em') \<Longrightarrow> ctl_after em em'"
  by (auto simp: determineSuccessors_def routed_event_def Let_def intro!: ctl_after_emit
      split: if_splits option.splits val.splits)

lemma handleStepPoint_ctl:
  "handleStepPoint w opts emit g node envp point tick hops nodeErr (s, em) = Some (r, s', em') \<Longrightarrow> ctl_after em em'"
  by (auto simp: handleStepPoint_def Let_def intro!: ctl_after_emit split: if_splits option.splits prod.splits sum.splits bool.splits)

lemma before_ctl:
  "handleSequentialBeforeStep w opts emit g node cur tick attempt (s, em) = Some (cur', skip, err, s', em')
     \<Longrightarrow> ctl_after em em'"
  by (auto simp: handleSequentialBeforeStep_def emitStepControlEvent_def Let_def
      split: if_splits option.splits prod.splits sum.splits dest: handleStepPoint_ctl intro!: ctl_after_emit)

lemma after_ctl:
  "handleSequentialAfterStep w opts emit g node cur res nodeErr tick attempt (s, em) = Some (err, s', em')
     \<Longrightarrow> ctl_after em em'"
  by (auto simp: handleSequentialAfterStep_def emitStepControlEvent_def Let_def
      split: if_splits option.splits prod.splits sum.splits dest: handleStepPoint_ctl intro!: ctl_after_emit)

definition node_trace :: "nat \<Rightarrow> Node \<Rightarrow> Envelope \<Rightarrow> Event list" where
  "node_trace call node env =
     (let runID = RunID (Trace env); out = n_Run node call env in
      [WithNode (n_ID node) (n_Kind node) (NewEvent EventNodeStarted runID)] @ ro_events out @
      (case ro_result out of
         Inl err \<Rightarrow> [WithPayload ''error'' (VStr err)
             (WithNode (n_ID node) (n_Kind node) (NewEvent EventNodeFailed runID))]
       | Inr _ \<Rightarrow> [WithNode (n_ID node) (n_Kind node) (NewEvent EventNodeFinished runID)]))"

lemma executeNode_emit:
  "executeNode emit call node env em =
     (ro_result (n_Run node call env), ro_env (n_Run node call env), emit_all (node_trace call node env) em)"
  by (simp add: executeNode_def node_trace_def Let_def emit_all_def split: sum.split)

text \<open>One visit: control events, possibly the events of one execution of the node, control events.\<close>

definition visit_events :: "Node \<Rightarrow> nat \<Rightarrow> Emitter \<Rightarrow> Emitter \<Rightarrow> bool" where
  "visit_events node call em em' \<longleftrightarrow> ctl_after em em' \<or>
     (\<exists>em1 env. ctl_after em em1 \<and> ctl_after (emit_all (node_trace call node env) em1) em')"

lemma seq_run_node_events:
  assumes "seq_run_node w opts emit g i node attempt st = Next st' \<or>
      seq_run_node w opts emit g i node attempt st = Return err st'"
  shows "\<exists>env. ss_current st = Some env \<and> ctl_after (emit_all (node_trace (ss_tick st) node env) (ss_em st)) (ss_em st')"
proof -
  from assms obtain env where env: "ss_current st = Some env"
    by (auto simp: seq_run_node_def split: option.splits)
  let ?out = "n_Run node (ss_tick st) env" and ?em = "emit_all (node_trace (ss_tick st) node env) (ss_em st)"
  from assms env obtain e s em where
    a: "handleSequentialAfterStep w opts emit g node (Some (ro_env ?out))
        (case ro_result ?out of Inl _ \<Rightarrow> None | Inr r \<Rightarrow> r) (case ro_result ?out of Inl e \<Rightarrow> Some e | Inr _ \<Rightarrow> None)
        (ss_tick st) attempt (ss_ctl st, ?em) = Some (e, s, em)"
    and r: "ss_em st' = em \<or> (\<exists>cur. go_on emit g node (st\<lparr>ss_current := cur, ss_ctl := s, ss_em := em,
            ss_visited := mput i True (ss_visited st)\<rparr>) = Next st')"
    by (fastforce simp: seq_run_node_def executeNode_emit split: option.splits prod.splits)
  from r have "ctl_after em (ss_em st')" by (auto elim!: go_on_Next dest: determineSuccessors_ctl)
  with after_ctl[OF a] env show ?thesis using ctl_after_trans by blast
qed

lemma seq_visit_events:
  assumes "seq_visit w opts emit g i node attempt st = Next st' \<or>
      seq_visit w opts emit g i node attempt st = Return err st'"
  shows "visit_events node (ss_tick st) (ss_em st) (ss_em st')"
proof -
  from assms obtain cur skip e s em where
    b: "handleSequentialBeforeStep w opts emit g node (ss_current st) (ss_tick st) attempt (ss_ctl st, ss_em st)
          = Some (cur, skip, e, s, em)"
    by (auto simp: seq_visit_def split: option.splits)
  let ?st = "st\<lparr>ss_current := cur, ss_ctl := s, ss_em := em\<rparr>"
  from assms b consider "ss_em st' = em"
    | "go_on emit g node (?st\<lparr>ss_visited := mput i True (ss_visited st)\<rparr>) = Next st'"
    | "seq_run_node w opts emit g i node attempt ?st = Next st' \<or>
        seq_run_node w opts emit g i node attempt ?st = Return err st'"
    by (auto simp: seq_visit_def Let_def split: if_splits)
  then show ?thesis
  proof cases
    case 1
    with before_ctl[OF b] show ?thesis by (simp add: visit_events_def)
  next
    case 2
    then have "ctl_after em (ss_em st')" by (auto elim!: go_on_Next dest: determineSuccessors_ctl)
    with before_ctl[OF b] ctl_after_trans show ?thesis by (auto simp: visit_events_def)
  next
    case 3
    from seq_run_node_events[OF this] before_ctl[OF b] show ?thesis by (auto simp: visit_events_def)
  qed
qed



subsection \<open>Counting executions in the event log\<close>

definition ids_of :: "EventKind \<Rightarrow> Emitter \<Rightarrow> string list" where
  "ids_of k em = map ev_NodeID (filter (\<lambda>e. ev_Kind e = k) (em_log em))"

text \<open>A node that does not forge the runtime's own events.\<close>

definition runtime_kinds :: "EventKind set" where
  "runtime_kinds = {EventNodeStarted, EventNodeFailed, EventNodeFinished, EventRunStarted, EventRunFinished}"

definition quiet :: "Node \<Rightarrow> bool" where
  "quiet node \<longleftrightarrow> (\<forall>call env. \<forall>e \<in> set (ro_events (n_Run node call env)). ev_Kind e \<notin> runtime_kinds)"

definition quiet_graph :: "BasicGraph \<Rightarrow> bool" where
  "quiet_graph g \<longleftrightarrow> (\<forall>i node. NodeByID g i = Some node \<longrightarrow> quiet node)"

lemma ids_of_emit [simp]:
  "ids_of k (emit e em) = ids_of k em @ (if ev_Kind e = k then [ev_NodeID e] else [])"
  by (simp add: ids_of_def emit_log)

lemma ids_of_emit_all:
  "ids_of k (emit_all es em) = ids_of k em @ map ev_NodeID (filter (\<lambda>e. ev_Kind e = k) es)"
  by (induction es arbitrary: em) auto

text \<open>The failed executions in the log: the node and the error text the event carries.\<close>

definition failure_of :: "Event \<Rightarrow> string \<times> string" where
  "failure_of e = (ev_NodeID e, case mget (ev_Payload e) ''error'' of Some (VStr m) \<Rightarrow> m | _ \<Rightarrow> [])"

definition failures :: "Emitter \<Rightarrow> (string \<times> string) list" where
  "failures em = map failure_of (filter (\<lambda>e. ev_Kind e = EventNodeFailed) (em_log em))"

lemma failures_emit [simp]: "failures (emit e em) = failures em @ (if ev_Kind e = EventNodeFailed then [failure_of e] else [])"
  by (simp add: failures_def emit_log failure_of_def)

lemma failures_emit_all: "failures (emit_all es em) = failures em @ map failure_of (filter (\<lambda>e. ev_Kind e = EventNodeFailed) es)"
  by (induction es arbitrary: em) auto

lemma failures_ctl:
  assumes "ctl_after em em'" shows "failures em' = failures em"
proof -
  from assms obtain es where es: "control es" "em' = emit_all es em" by (auto simp: ctl_after_def)
  then have "filter (\<lambda>e. ev_Kind e = EventNodeFailed) es = []" by (auto simp: control_def filter_empty_conv)
  then show ?thesis by (simp add: es(2) failures_emit_all)
qed

lemma failures_node:
  assumes "quiet node"
  shows "failures (emit_all (node_trace call node env) em) = failures em @
    (case ro_result (n_Run node call env) of Inl m \<Rightarrow> [(n_ID node, m)] | Inr _ \<Rightarrow> [])"
proof -
  have "filter (\<lambda>e. ev_Kind e = EventNodeFailed) (ro_events (n_Run node call env)) = []"
    using assms by (auto simp: quiet_def runtime_kinds_def filter_empty_conv)
  then show ?thesis
    by (simp add: failures_emit_all node_trace_def Let_def failure_of_def event_kind_defs split: sum.split)
qed

lemma ids_of_ctl:
  assumes "ctl_after em em'" "k \<notin> control_kinds" shows "ids_of k em' = ids_of k em"
proof -
  from assms(1) obtain es where es: "control es" "em' = emit_all es em" by (auto simp: ctl_after_def)
  then have "filter (\<lambda>e. ev_Kind e = k) es = []" using assms(2) by (auto simp: control_def filter_empty_conv)
  then show ?thesis by (simp add: es(2) ids_of_emit_all)
qed

lemma ids_of_node:
  assumes "quiet node"
  shows "ids_of EventNodeStarted (emit_all (node_trace call node env) em) = ids_of EventNodeStarted em @ [n_ID node]"
    and "ids_of EventNodeFailed (emit_all (node_trace call node env) em) = ids_of EventNodeFailed em @
           (if isl (ro_result (n_Run node call env)) then [n_ID node] else [])"
    and "k \<in> {EventRunStarted, EventRunFinished} \<Longrightarrow> ids_of k (emit_all (node_trace call node env) em) = ids_of k em"
proof -
  have q: "filter (\<lambda>e. ev_Kind e = k) (ro_events (n_Run node call env)) = []" if "k \<in> runtime_kinds" for k
    using assms that by (auto simp: quiet_def filter_empty_conv)
  note defs = ids_of_emit_all node_trace_def Let_def runtime_kinds_def event_kind_defs
  show "ids_of EventNodeStarted (emit_all (node_trace call node env) em) = ids_of EventNodeStarted em @ [n_ID node]"
    using q[of EventNodeStarted] by (simp add: defs split: sum.split)
  show "ids_of EventNodeFailed (emit_all (node_trace call node env) em) = ids_of EventNodeFailed em @
           (if isl (ro_result (n_Run node call env)) then [n_ID node] else [])"
    using q[of EventNodeFailed] by (simp add: defs split: sum.split)
  show "ids_of k (emit_all (node_trace call node env) em) = ids_of k em" if "k \<in> {EventRunStarted, EventRunFinished}"
    using that q[of k] by (auto simp: defs split: sum.split)
qed

lemma visit_started:
  assumes "visit_events node call em em'" "quiet node"
  shows "ids_of EventNodeStarted em' = ids_of EventNodeStarted em \<or>
    ids_of EventNodeStarted em' = ids_of EventNodeStarted em @ [n_ID node]"
  using assms(1) ids_of_node(1)[OF assms(2)]
  by (auto simp: visit_events_def dest!: ids_of_ctl[where k = EventNodeStarted])

lemma visit_run_kinds:
  assumes "visit_events node call em em'" "quiet node" "k \<in> {EventRunStarted, EventRunFinished}"
  shows "ids_of k em' = ids_of k em"
proof -
  have "k \<notin> control_kinds" using assms(3) by auto
  then show ?thesis
    using assms(1) ids_of_node(3)[OF assms(2,3)] by (auto simp: visit_events_def dest!: ids_of_ctl[where k = k])
qed


subsection \<open>The invariant of the loop\<close>

definition seq_inv :: "'s RunOptions \<Rightarrow> BasicGraph \<Rightarrow> 's SeqState \<Rightarrow> bool" where
  "seq_inv opts g st \<longleftrightarrow>
     set (ss_queue st) \<subseteq> reach_from (Successors g) (Entry g) \<and>
     (\<forall>i. 0 < hop_at (ss_hopCount st) i \<longrightarrow> bool_at (ss_visited st) i) \<and>
     (\<forall>i. int (hop_at (ss_hopCount st) i) \<le> MaxHops opts) \<and>
     (\<forall>i. count_list (ids_of EventNodeStarted (ss_em st)) i \<le> hop_at (ss_hopCount st) i) \<and>
     set (ids_of EventNodeStarted (ss_em st)) \<subseteq> reach_from (Successors g) (Entry g)"

lemma seq_invI:
  assumes "set (ss_queue st) \<subseteq> reach_from (Successors g) (Entry g)"
    "\<And>i. 0 < hop_at (ss_hopCount st) i \<Longrightarrow> bool_at (ss_visited st) i"
    "\<And>i. int (hop_at (ss_hopCount st) i) \<le> MaxHops opts"
    "\<And>i. count_list (ids_of EventNodeStarted (ss_em st)) i \<le> hop_at (ss_hopCount st) i"
    "set (ids_of EventNodeStarted (ss_em st)) \<subseteq> reach_from (Successors g) (Entry g)"
  shows "seq_inv opts g st"
  using assms by (simp add: seq_inv_def)

lemma seq_invD:
  assumes "seq_inv opts g st"
  shows "set (ss_queue st) \<subseteq> reach_from (Successors g) (Entry g)"
    "0 < hop_at (ss_hopCount st) i \<Longrightarrow> bool_at (ss_visited st) i"
    "int (hop_at (ss_hopCount st) i) \<le> MaxHops opts"
    "count_list (ids_of EventNodeStarted (ss_em st)) i \<le> hop_at (ss_hopCount st) i"
    "set (ids_of EventNodeStarted (ss_em st)) \<subseteq> reach_from (Successors g) (Entry g)"
  using assms by (simp_all add: seq_inv_def)

lemma bool_at_mput [simp]: "bool_at (mput k b m) j = (if j = k then b else bool_at m j)"
  by (simp add: bool_at_def)

text \<open>The counts after a visit of node \<open>i\<close>: one hop more, at most one execution more.\<close>

lemma visit_counts:
  assumes "seq_inv opts g st" "ss_queue st = i # q" "NodeByID g i = Some node" "n_ID node = i" "quiet node"
    and "visit_events node call (ss_em st) em'"
  shows "count_list (ids_of EventNodeStarted em') j \<le> hop_at (mput i (Suc (hop_at (ss_hopCount st) i)) (ss_hopCount st)) j"
    and "set (ids_of EventNodeStarted em') \<subseteq> reach_from (Successors g) (Entry g)"
  using visit_started[OF assms(6,5)] seq_invD(1,4,5)[OF assms(1)] assms(2,4)
  by (auto simp: le_SucI)

lemma seq_inv_Next:
  assumes "graph_ok g" "quiet_graph g" "seq_inv opts g st" "seq_iter w opts emit g st = Next st'"
  shows "seq_inv opts g st'"
proof (cases rule: seq_iter_cases[of st w opts emit g])
  case (skip i q)
  with assms(3,4) show ?thesis by (auto simp: seq_inv_def)
next
  case (visit i q node)
  have id: "n_ID node = i" using ok_node_ID[OF assms(1) visit(2)] .
  have qn: "quiet node" using assms(2) visit(2) by (auto simp: quiet_graph_def)
  have v: "seq_visit w opts emit g i node (Suc (hop_at (ss_hopCount st) i)) (taken i q st) = Next st'"
    using visit(6) assms(4) by simp
  then have ev: "visit_events node (Suc (ss_tick st)) (ss_em st) (ss_em st')"
    using seq_visit_events[of w opts g i node _ "taken i q st" st'] by (auto simp: taken_def)
  from seq_visit_visits[OF v] obtain nxt where st': "ss_hopCount st' = mput i (Suc (hop_at (ss_hopCount st) i)) (ss_hopCount st)"
    "ss_visited st' = mput i True (ss_visited st)" "ss_queue st' = q @ nxt" "set nxt \<subseteq> set (Successors g i)"
    by (auto simp: visits_def taken_def id)
  note inv = seq_invD[OF assms(3)]
  have "i \<in> reach_from (Successors g) (Entry g)" using inv(1) visit(1) by simp
  then show ?thesis
    using inv st' visit(1,5) visit_counts[OF assms(3) visit(1,2) id qn ev]
    by (intro seq_invI) (auto intro: reach_from_step simp del: of_nat_Suc)
qed (use assms(4) in simp_all)

lemma before_err:
  assumes "handleSequentialBeforeStep w opts emitf g node cur tick attempt st0 = Some (cur', skip, Some err, st1)"
  shows "err = ErrStepAborted \<or> (\<exists>e. err = ErrStepControl e)"
  using assms
  by (auto simp: handleSequentialBeforeStep_def Let_def split: if_splits option.splits prod.splits sum.splits)

lemma after_err:
  assumes "handleSequentialAfterStep w opts emitf g node cur res nodeErr tick attempt st0 = Some (Some err, st1)"
  shows "err = ErrStepAborted \<or> (\<exists>e. err = ErrStepControl e)"
  using assms
  by (auto simp: handleSequentialAfterStep_def Let_def split: if_splits option.splits prod.splits sum.splits)

lemma after_err_ctl:
  assumes "handleSequentialAfterStep w opts emitf g node cur res nodeErr tick attempt st0 = Some (Some err, st1)"
  shows "StepController opts \<noteq> None \<and> (err = ErrStepAborted \<or> (\<exists>e. err = ErrStepControl e))"
  using assms after_err[OF assms] by (auto simp: handleSequentialAfterStep_def split: if_splits)

lemma seq_visit_Return:
  assumes "seq_visit w opts emitf g i node attempt st = Return err st'"
  shows "\<exists>e. err = Some e \<and> (e = ErrStepAborted \<or> (\<exists>m. e = ErrStepControl m) \<or>
    (\<not> ContinueOnError opts \<and> (\<exists>m. e = ErrNodeExecution i m)))"
proof -
  from assms obtain cur skip e s em where
    b: "handleSequentialBeforeStep w opts emitf g node (ss_current st) (ss_tick st) attempt (ss_ctl st, ss_em st)
          = Some (cur, skip, e, s, em)"
    by (auto simp: seq_visit_def split: option.splits)
  let ?st = "st\<lparr>ss_current := cur, ss_ctl := s, ss_em := em\<rparr>"
  show ?thesis
  proof (cases e)
    case (Some x)
    with assms b before_err[OF b[unfolded Some]] show ?thesis by (auto simp: seq_visit_def)
  next
    case None
    with assms b have "seq_run_node w opts emitf g i node attempt ?st = Return err st'"
      by (auto simp: seq_visit_def Let_def split: if_splits)
    then show ?thesis
      by (auto simp: seq_run_node_def resolveSequentialNodeOutcome_def
          split: option.splits prod.splits sum.splits if_splits dest: after_err)
  qed
qed

text \<open>What a sequential execution guarantees when it returns.\<close>

definition seq_post :: "'s RunOptions \<Rightarrow> BasicGraph \<Rightarrow> run_error option \<Rightarrow> Emitter \<Rightarrow> bool" where
  "seq_post opts g err em \<longleftrightarrow>
     (\<forall>i. int (count_list (ids_of EventNodeStarted em) i) \<le> MaxHops opts) \<and>
     set (ids_of EventNodeStarted em) \<subseteq> reach_from (Successors g) (Entry g) \<and>
     (\<forall>i n. err \<noteq> Some (ErrMaxHopsExceeded i n)) \<and> (\<forall>i. err \<noteq> Some (ErrNodeMissing i)) \<and>
     (\<forall>i m. err \<noteq> Some (ErrMergeFailed i m))"

lemma seq_inv_post:
  assumes "seq_inv opts g st" "err = None \<or> err = Some (ErrRunCanceled m)"
  shows "seq_post opts g err (ss_em st)"
  using seq_invD(3-5)[OF assms(1)] assms(2) unfolding seq_post_def
  by (auto intro: order_trans[OF iffD2[OF of_nat_le_iff]])

lemma seq_post_Return:
  assumes g: "graph_ok g" "quiet_graph g" "NodeByID g (Entry g) \<noteq> None" "0 < MaxHops opts"
    and inv: "seq_inv opts g st" and r: "seq_iter w opts emit g st = Return err st'"
  shows "seq_post opts g err (ss_em st')"
proof (cases rule: seq_iter_cases[of st w opts emit g])
  case finished
  with seq_inv_post[OF inv] r show ?thesis by auto
next
  case (canceled i q)
  then show ?thesis using seq_inv_post[OF inv] r by auto
next
  case (hops i q n)
  have "hop_at (ss_hopCount st) i = 0 \<or> int (hop_at (ss_hopCount st) i) < MaxHops opts"
    using hops(3) seq_invD(2)[OF inv, of i] by (auto simp: shouldSkipVisitedNode_def split: if_splits)
  with hops(2) g(4) show ?thesis by auto
next
  case (missing i q)
  have "i \<in> reach_from (Successors g) (Entry g)" using seq_invD(1)[OF inv] missing(1) by simp
  with bg.reach_found[OF g(1,3)] missing(2) show ?thesis by blast
next
  case (visit i q node)
  have id: "n_ID node = i" using ok_node_ID[OF g(1) visit(2)] .
  have qn: "quiet node" using g(2) visit(2) by (auto simp: quiet_graph_def)
  have v: "seq_visit w opts emit g i node (Suc (hop_at (ss_hopCount st) i)) (taken i q st) = Return err st'"
    using visit(6) r by simp
  then have ev: "visit_events node (Suc (ss_tick st)) (ss_em st) (ss_em st')"
    using seq_visit_events[of w opts g i node _ "taken i q st" st' err] by (auto simp: taken_def)
  have "int (count_list (ids_of EventNodeStarted (ss_em st')) j) \<le> MaxHops opts" for j
  proof -
    have "int (hop_at (mput i (Suc (hop_at (ss_hopCount st) i)) (ss_hopCount st)) j) \<le> MaxHops opts"
      using visit(5) seq_invD(3)[OF inv, of j] by (simp del: of_nat_Suc)
    with visit_counts(1)[OF inv visit(1,2) id qn ev, of j] show ?thesis by linarith
  qed
  with visit_counts(2)[OF inv visit(1,2) id qn ev] seq_visit_Return[OF v] show ?thesis
    by (auto simp: seq_post_def)
qed (use r in simp)

lemma seq_inv_init:
  assumes "ids_of EventNodeStarted em = []" "0 < MaxHops opts"
  shows "seq_inv opts g \<lparr>ss_queue = [Entry g], ss_visited = [], ss_hopCount = [], ss_current = Some env,
     ss_ctl = s, ss_em = em, ss_tick = 0\<rparr>"
  using assms by (auto simp: seq_inv_def)

lemma apply_defaults_pos: "0 < MaxHops (apply_defaults opts)"
  by (simp add: apply_defaults_def)

lemma validateGraph_None:
  "validateGraph (Some g) = None \<Longrightarrow> NodeByID g (Entry g) \<noteq> None"
  by (auto simp: validateGraph_def split: if_splits)

lemma runStartEvent_kind [simp]: "ev_Kind (runStartEvent opts w g) = EventRunStarted"
  by (simp add: runStartEvent_def with_opt_def)

lemma finishEvent_kind [simp]: "ev_Kind (finishEvent w err) = EventRunFinished"
  by (simp add: finishEvent_def split: option.split)

text \<open>A sequential run without a decorator, taken apart.\<close>

lemma Run_sequentialE:
  assumes "Run par w opts (Some g) env (s, em0) = Inr (Some (res, err, s', em))"
    and "Concurrency opts \<le> 1" "EventEmitterDecorator opts = None"
  obtains st where "NodeByID g (Entry g) \<noteq> None"
    and "seq_loop w (apply_defaults opts) emit g \<lparr>ss_queue = [Entry g], ss_visited = [], ss_hopCount = [],
           ss_current = Some (init_env w env), ss_ctl = s,
           ss_em = emit (runStartEvent (apply_defaults opts) w g) em0, ss_tick = 0\<rparr> = Some (err, st)"
    and "res = ss_current st" "s' = ss_ctl st" "em = emit (finishEvent w err) (ss_em st)"
proof -
  have e: "run_emitter (apply_defaults opts) = emit" "\<not> 1 < Concurrency (apply_defaults opts)"
    using assms(2,3) by (simp_all add: run_emitter_def apply_defaults_def)
  from assms(1) have v: "validateGraph (Some g) = None"
    by (auto simp: Run_def Let_def split: option.splits)
  from assms(1) e v that[OF validateGraph_None[OF v]] show thesis
    by (auto simp: Run_def Let_def executeGraph_def executeGraphSequential_def split: option.splits)
qed

text \<open>
  C1: A sequential run always ends, and visits are bounded. Whatever the graph, cycles included, the
  nodes, the step controller and the cancellation do, when \<open>Run\<close> returns every node was started at
  most \<open>MaxHops\<close> times (100 when the option is not positive), only nodes reachable from the entry were
  started, and the error is never \<open>ErrMaxHopsExceeded\<close>, never a missing node and never a merge
  failure. (The graph is consistent, as one built by the API is; nodes do not emit the runtime's own event kinds,
  which count the starts, and no decorator wraps the emitter.)
\<close>

theorem Run_sequential_bounded:
  assumes "graph_ok g" "quiet_graph g" "Concurrency opts \<le> 1" "EventEmitterDecorator opts = None"
    and "Run par w opts (Some g) env (s, new_emitter) = Inr (Some (res, err, s', em))"
  shows "(\<forall>i. int (count_list (ids_of EventNodeStarted em) i) \<le> (if MaxHops opts \<le> 0 then 100 else MaxHops opts)) \<and>
    set (ids_of EventNodeStarted em) \<subseteq> reach_from (Successors g) (Entry g) \<and>
    (\<forall>i n. err \<noteq> Some (ErrMaxHopsExceeded i n)) \<and> (\<forall>i. err \<noteq> Some (ErrNodeMissing i)) \<and>
    (\<forall>i m. err \<noteq> Some (ErrMergeFailed i m))"
proof -
  obtain st where entry: "NodeByID g (Entry g) \<noteq> None"
    and loop: "seq_loop w (apply_defaults opts) emit g \<lparr>ss_queue = [Entry g], ss_visited = [], ss_hopCount = [],
           ss_current = Some (init_env w env), ss_ctl = s,
           ss_em = emit (runStartEvent (apply_defaults opts) w g) new_emitter, ss_tick = 0\<rparr> = Some (err, st)"
    and em: "em = emit (finishEvent w err) (ss_em st)"
    by (rule Run_sequentialE[OF assms(5,3,4)])
  have start: "seq_inv (apply_defaults opts) g \<lparr>ss_queue = [Entry g], ss_visited = [], ss_hopCount = [],
      ss_current = Some (init_env w env), ss_ctl = s,
      ss_em = emit (runStartEvent (apply_defaults opts) w g) new_emitter, ss_tick = 0\<rparr>"
    by (rule seq_inv_init) (simp_all add: apply_defaults_pos ids_of_def new_emitter_def emit_log event_kind_defs)
  have "seq_post (apply_defaults opts) g err (ss_em st)"
    by (rule seq_loop_rule[OF loop, where P = "seq_inv (apply_defaults opts) g"
          and Q = "\<lambda>err st. seq_post (apply_defaults opts) g err (ss_em st)"])
      (use start seq_inv_Next[OF assms(1,2)] seq_post_Return[OF assms(1,2) entry apply_defaults_pos] in blast)+
  then show ?thesis
    by (auto simp: seq_post_def em apply_defaults_def event_kind_defs split: if_splits)
qed



subsection \<open>The event log of a run\<close>

definition inner_growth :: "Emitter \<Rightarrow> Emitter \<Rightarrow> bool" where
  "inner_growth em em' \<longleftrightarrow>
     (\<exists>es. em' = emit_all es em \<and> (\<forall>e \<in> set es. ev_Kind e \<noteq> EventRunStarted \<and> ev_Kind e \<noteq> EventRunFinished))"

lemma inner_growth_refl [simp, intro]: "inner_growth em em"
  unfolding inner_growth_def by (rule exI[of _ "[]"]) simp

lemma inner_growth_trans: "inner_growth a b \<Longrightarrow> inner_growth b c \<Longrightarrow> inner_growth a c"
  unfolding inner_growth_def by (elim exE conjE, rule exI, rule conjI, simp, rule emit_all_simps(3)[symmetric]) auto

lemma inner_growth_ctl: "ctl_after em em' \<Longrightarrow> inner_growth em em'"
  unfolding ctl_after_def inner_growth_def control_def by (metis control_kinds_simps(9,10))

lemma inner_growth_node:
  assumes "quiet node" shows "inner_growth em (emit_all (node_trace call node env) em)"
  using assms unfolding inner_growth_def quiet_def runtime_kinds_def
  by (intro exI[of _ "node_trace call node env"])
    (auto simp: node_trace_def Let_def event_kind_defs split: sum.splits)

lemma inner_growth_visit: "visit_events node call em em' \<Longrightarrow> quiet node \<Longrightarrow> inner_growth em em'"
  unfolding visit_events_def using inner_growth_ctl inner_growth_node inner_growth_trans by blast

lemma seq_iter_growth:
  assumes "quiet_graph g" "seq_iter w opts emit g st = Next st' \<or> seq_iter w opts emit g st = Return err st'"
  shows "inner_growth (ss_em st) (ss_em st')"
proof (cases rule: seq_iter_cases[of st w opts emit g])
  case (visit i q node)
  then have "quiet node" using assms(1) by (auto simp: quiet_graph_def)
  moreover have "visit_events node (Suc (ss_tick st)) (ss_em st) (ss_em st')"
    using visit(6) assms(2) seq_visit_events[of w opts g i node _ "taken i q st" st'] by (auto simp: taken_def)
  ultimately show ?thesis by (rule inner_growth_visit[rotated])
qed (use assms(2) in \<open>auto simp: taken_def\<close>)

lemma seq_loop_growth:
  assumes "quiet_graph g" "seq_loop w opts emit g st = Some (err, st')"
  shows "inner_growth (ss_em st) (ss_em st')"
  by (rule seq_loop_rule[OF assms(2), where P = "\<lambda>s. inner_growth (ss_em st) (ss_em s)"])
    (use seq_iter_growth[OF assms(1)] inner_growth_trans in blast)+

text \<open>
  C5: The event log of a sequential run frames it. Take nodes that do not emit the runtime's own event kinds, no emitter
  decorator, and an event channel with at most 100 events left from earlier runs and any reader. The first event is
  \<open>run.started\<close>, the last is \<open>run.finished\<close>, neither kind occurs in between, and the last event's \<open>status\<close> is
  \<open>completed\<close> exactly when the run returns no error and \<open>failed\<close> otherwise. Sequence numbers are 1, 2, 3, ... in the order
  of emission (modulo the width of the counter). What the reader of the channel has received, followed by what waits
  there, is made of the events left before and those of this run in the order of emission, with some left out; at most 100 wait.
  Without a reader the channel holds the first 100; a reader that empties it before every event misses none.
\<close>

theorem Run_event_log:
  assumes "quiet_graph g" "Concurrency opts \<le> 1" "EventEmitterDecorator opts = None" "length waiting \<le> 100"
    and "Run par w opts (Some g) env (s, fresh_emitter reads waiting) = Inr (Some (res, err, s', em))"
  shows "(\<exists>mid. kinds em = [EventRunStarted] @ mid @ [EventRunFinished] \<and>
       EventRunStarted \<notin> set mid \<and> EventRunFinished \<notin> set mid) \<and>
    mget (ev_Payload (last (em_log em))) ''status'' = Some (VStr (if err = None then ''completed'' else ''failed'')) \<and>
    map ev_Seq (em_log em) = map (\<lambda>i. of_nat (Suc i)) [0..<length (em_log em)] \<and>
    subseq (em_got em @ em_ch em) (waiting @ em_log em) \<and> length (em_ch em) \<le> 100 \<and>
    (reads = (\<lambda>_. 0) \<longrightarrow> em_got em = [] \<and> em_ch em = take 100 (waiting @ em_log em)) \<and>
    ((\<forall>n. 100 \<le> reads n) \<longrightarrow> em_got em @ em_ch em = waiting @ em_log em)"
proof -
  let ?em0 = "fresh_emitter reads waiting"
  obtain st where loop: "seq_loop w (apply_defaults opts) emit g \<lparr>ss_queue = [Entry g], ss_visited = [],
      ss_hopCount = [], ss_current = Some (init_env w env), ss_ctl = s,
      ss_em = emit (runStartEvent (apply_defaults opts) w g) ?em0, ss_tick = 0\<rparr> = Some (err, st)"
    and em: "em = emit (finishEvent w err) (ss_em st)"
    by (rule Run_sequentialE[OF assms(5,2,3)])
  from seq_loop_growth[OF assms(1) loop] obtain es where
    es: "ss_em st = emit_all es (emit (runStartEvent (apply_defaults opts) w g) ?em0)"
      "\<forall>e \<in> set es. ev_Kind e \<noteq> EventRunStarted \<and> ev_Kind e \<noteq> EventRunFinished"
    by (auto simp: inner_growth_def)
  have "kinds em = [EventRunStarted] @ map ev_Kind es @ [EventRunFinished]"
    by (simp add: em es(1)) (simp add: kinds_def fresh_emitter_def)
  then have frame: "\<exists>mid. kinds em = [EventRunStarted] @ mid @ [EventRunFinished] \<and>
       EventRunStarted \<notin> set mid \<and> EventRunFinished \<notin> set mid"
    using es(2) by (intro exI[of _ "map ev_Kind es"]) auto
  have "channel_ok waiting ?em0" by (rule channel_ok_fresh) (simp add: eventChCap_def assms(4))
  then have ch: "channel_ok waiting em" "em_reads em = reads" by (simp_all add: em es(1)) (simp add: fresh_emitter_def)
  have "emitter_ok em" by (simp add: em es(1) emitter_ok_fresh)
  moreover have "mget (ev_Payload (last (em_log em))) ''status'' = Some (VStr (if err = None then ''completed'' else ''failed''))"
    by (simp add: em emit_log finishEvent_def split: option.split)
  ultimately show ?thesis using frame ch unfolding emitter_ok_def channel_ok_def eventChCap_def by simp
qed


subsection \<open>When a run does not panic\<close>

text \<open>Nodes return a non-nil envelope when they return no error; the controller never answers nil.\<close>

definition returns_env :: "Node \<Rightarrow> bool" where
  "returns_env node \<longleftrightarrow> (\<forall>call env. ro_result (n_Run node call env) \<noteq> Inr None)"

definition answers :: "'s RunOptions \<Rightarrow> bool" where
  "answers opts \<longleftrightarrow> (case StepController opts of None \<Rightarrow> True
     | Some c \<Rightarrow> \<forall>ctx req s. fst (ctl_Step c ctx req s) \<noteq> Inr None)"

lemma handleStepPoint_safe:
  assumes "answers opts" "envp \<noteq> None"
  shows "handleStepPoint w opts emitf g node envp point tick hops nodeErr st \<noteq> None"
proof -
  have "fst (ctl_Step c ctx req s) \<noteq> Inr None" if "StepController opts = Some c" for c ctx req s
    using assms(1) that by (simp add: answers_def)
  then show ?thesis using assms(2)
    by (auto simp: handleStepPoint_def Let_def split: option.split prod.split sum.split bool.split)
      (metis fst_conv)+
qed

lemma before_safe:
  assumes "answers opts" "cur \<noteq> None"
  shows "\<exists>cur' skip err st1. handleSequentialBeforeStep w opts emitf g node cur tick attempt st0
     = Some (cur', skip, err, st1) \<and> cur' \<noteq> None"
proof -
  obtain r s em where "StepController opts = None \<or>
      handleStepPoint w opts emitf g node cur StepPointBeforeNode tick attempt None st0 = Some (r, s, em)"
    using handleStepPoint_safe[OF assms] by (metis not_None_eq surj_pair)
  then show ?thesis using assms(2)
    by (cases st0) (auto simp: handleSequentialBeforeStep_def Let_def split: option.split sum.split prod.split)
qed

lemma after_safe:
  assumes "answers opts"
  shows "handleSequentialAfterStep w opts emitf g node (Some e) res nodeErr tick attempt st0 \<noteq> None"
proof -
  have "(case res of None \<Rightarrow> Some e | Some e \<Rightarrow> Some e) \<noteq> None" by (simp split: option.split)
  from handleStepPoint_safe[OF assms this, of w emitf g node StepPointAfterNode tick attempt nodeErr st0]
  show ?thesis
    by (auto simp: handleSequentialAfterStep_def Let_def split: option.split sum.split prod.split)
qed

lemma go_on_safe:
  assumes "ss_current st \<noteq> None"
  shows "\<exists>st'. go_on emitf g node st = Next st' \<and> ss_current st' \<noteq> None"
proof -
  obtain nxt cur em where d: "determineSuccessors emitf g node (ss_current st) (ss_em st) = Some (nxt, cur, em)"
    using determineSuccessors_defined[OF assms] by (metis not_None_eq surj_pair)
  with determineSuccessors_env(1)[OF d] assms show ?thesis by (simp add: go_on_def)
qed

lemma seq_run_node_safe:
  assumes "answers opts" "returns_env node" "ss_current st \<noteq> None"
  shows "seq_run_node w opts emitf g i node attempt st \<noteq> Crash"
    and "seq_run_node w opts emitf g i node attempt st = Next st' \<Longrightarrow> ss_current st' \<noteq> None"
    and "seq_run_node w opts emitf g i node attempt st = Return err st' \<Longrightarrow> ss_current st' \<noteq> None"
proof -
  obtain env where env: "ss_current st = Some env" using assms(3) by blast
  obtain result env' em where x: "executeNode emitf (ss_tick st) node env (ss_em st) = (result, env', em)"
    using prod_cases3 by blast
  then have r: "result \<noteq> Inr None"
    using assms(2) by (auto simp: executeNode_def Let_def returns_env_def split: sum.splits)
  obtain e s em' where a: "handleSequentialAfterStep w opts emitf g node (Some env')
      (case result of Inl _ \<Rightarrow> None | Inr r \<Rightarrow> r) (case result of Inl e \<Rightarrow> Some e | Inr _ \<Rightarrow> None)
      (ss_tick st) attempt (ss_ctl st, em) = Some (e, s, em')"
    using after_safe[OF assms(1)] by (metis not_None_eq surj_pair)
  obtain cur err' where o: "resolveSequentialNodeOutcome env' result node attempt opts i = (cur, err')" by fastforce
  then have cur: "cur \<noteq> None" using r
    by (auto simp: resolveSequentialNodeOutcome_def split: sum.splits if_splits)
  let ?st = "st\<lparr>ss_current := cur, ss_ctl := s, ss_em := em', ss_visited := mput i True (ss_visited st)\<rparr>"
  have eq: "seq_run_node w opts emitf g i node attempt st = (case e of
        Some err \<Rightarrow> Return (Some err) (st\<lparr>ss_current := Some env', ss_ctl := s, ss_em := em'\<rparr>)
      | None \<Rightarrow> (case err' of Some err \<Rightarrow> Return (Some err) (st\<lparr>ss_current := cur, ss_ctl := s, ss_em := em'\<rparr>)
                | None \<Rightarrow> go_on emitf g node ?st))"
    using env x a o by (simp add: seq_run_node_def split: option.split)
  obtain st1 where g: "go_on emitf g node ?st = Next st1" "ss_current st1 \<noteq> None"
    using go_on_safe[of ?st emitf g node] cur by auto
  show "seq_run_node w opts emitf g i node attempt st \<noteq> Crash"
    "seq_run_node w opts emitf g i node attempt st = Next st' \<Longrightarrow> ss_current st' \<noteq> None"
    "seq_run_node w opts emitf g i node attempt st = Return err st' \<Longrightarrow> ss_current st' \<noteq> None"
    using eq g cur by (auto split: option.splits)
qed

lemma seq_visit_eq:
  assumes "handleSequentialBeforeStep w opts emitf g node (ss_current st) (ss_tick st) attempt (ss_ctl st, ss_em st)
    = Some (cur, skip, e, s, em)" and "st1 = st\<lparr>ss_current := cur, ss_ctl := s, ss_em := em\<rparr>"
  shows "seq_visit w opts emitf g i node attempt st = (if e \<noteq> None then Return e st1
     else if skip then go_on emitf g node (st1\<lparr>ss_visited := mput i True (ss_visited st)\<rparr>)
     else seq_run_node w opts emitf g i node attempt st1)"
  using assms by (simp add: seq_visit_def Let_def)

lemma seq_visit_safe:
  assumes "answers opts" "returns_env node" "ss_current st \<noteq> None"
  shows "seq_visit w opts emitf g i node attempt st \<noteq> Crash"
    and "seq_visit w opts emitf g i node attempt st = Next st' \<Longrightarrow> ss_current st' \<noteq> None"
    and "seq_visit w opts emitf g i node attempt st = Return err st' \<Longrightarrow> ss_current st' \<noteq> None"
proof -
  obtain cur skip e s em where b:
    "handleSequentialBeforeStep w opts emitf g node (ss_current st) (ss_tick st) attempt (ss_ctl st, ss_em st)
       = Some (cur, skip, e, s, em)" and cur: "cur \<noteq> None"
    using before_safe[OF assms(1,3)] by (metis surj_pair)
  let ?st = "st\<lparr>ss_current := cur, ss_ctl := s, ss_em := em\<rparr>"
  let ?st1 = "?st\<lparr>ss_visited := mput i True (ss_visited st)\<rparr>"
  obtain st1 where g: "go_on emitf g node ?st1 = Next st1" "ss_current st1 \<noteq> None"
    using go_on_safe[of ?st1 emitf g node] cur by auto
  have "ss_current ?st \<noteq> None" using cur by simp
  note run = seq_run_node_safe[OF assms(1,2) this, of w emitf g i attempt]
  have eq: "seq_visit w opts emitf g i node attempt st = (if e \<noteq> None then Return e ?st
     else if skip then go_on emitf g node ?st1 else seq_run_node w opts emitf g i node attempt ?st)"
    by (rule seq_visit_eq[OF b refl])
  show "seq_visit w opts emitf g i node attempt st \<noteq> Crash" using eq g run(1) by auto
  show "ss_current st' \<noteq> None" if "seq_visit w opts emitf g i node attempt st = Next st'"
    using that eq g run(2) by (auto split: if_splits)
  show "ss_current st' \<noteq> None" if "seq_visit w opts emitf g i node attempt st = Return err st'"
    using that eq g run(3) cur by (auto split: if_splits)
qed

lemma seq_loop_safe:
  assumes "answers opts" "\<forall>i node. NodeByID g i = Some node \<longrightarrow> returns_env node" "ss_current st \<noteq> None"
  shows "seq_loop w opts emitf g st \<noteq> None"
    and "seq_loop w opts emitf g st = Some (err, st') \<Longrightarrow> ss_current st' \<noteq> None"
proof -
  have iter: "seq_iter w opts emitf g s \<noteq> Crash \<and>
      (\<forall>s'. seq_iter w opts emitf g s = Next s' \<longrightarrow> ss_current s' \<noteq> None) \<and>
      (\<forall>e s'. seq_iter w opts emitf g s = Return e s' \<longrightarrow> ss_current s' \<noteq> None)" if s: "ss_current s \<noteq> None" for s
  proof (cases rule: seq_iter_cases[of s w opts emitf g])
    case (visit i q node)
    have "returns_env node" "ss_current (taken i q s) \<noteq> None" using assms(2) visit(2) s by (auto simp: taken_def)
    from seq_visit_safe[OF assms(1) this] show ?thesis unfolding visit(6) by blast
  qed (use s in \<open>auto simp: taken_def\<close>)
  show "seq_loop w opts emitf g st \<noteq> None"
    by (rule seq_loop_total_rule[where P = "\<lambda>s. ss_current s \<noteq> None"]) (use iter assms(3) in blast)+
  show "ss_current st' \<noteq> None" if "seq_loop w opts emitf g st = Some (err, st')"
    by (rule seq_loop_rule[OF that, where P = "\<lambda>s. ss_current s \<noteq> None"]) (use iter assms(3) in blast)+
qed

text \<open>
  C4: A sequential run of a valid graph returns. If every node of the graph returns a non-nil envelope
  whenever it returns no error, and the step controller, if there is one, never answers a request with
  nil, then \<open>Run\<close> does not panic, and the envelope it returns is not nil.
\<close>

theorem Run_sequential_returns:
  assumes "validateGraph (Some g) = None" "Concurrency opts \<le> 1" "answers opts"
    and "\<forall>i node. NodeByID g i = Some node \<longrightarrow> returns_env node"
  shows "\<exists>e err s' em. Run par w opts (Some g) env st = Inr (Some (Some e, err, s', em))"
proof -
  let ?o = "apply_defaults opts"
  have o: "answers ?o" "\<not> 1 < Concurrency ?o" using assms(2,3) by (simp_all add: apply_defaults_def answers_def)
  let ?init = "\<lparr>ss_queue = [Entry g], ss_visited = [], ss_hopCount = [], ss_current = Some (init_env w env),
     ss_ctl = fst st, ss_em = run_emitter ?o (runStartEvent ?o w g) (snd st), ss_tick = 0\<rparr>"
  have "ss_current ?init \<noteq> None" by simp
  note safe = seq_loop_safe[OF o(1) assms(4) this]
  from safe(1) obtain err st' where loop: "seq_loop w ?o (run_emitter ?o) g ?init = Some (err, st')"
    by (metis not_None_eq surj_pair)
  from safe(2)[OF loop] obtain e where "ss_current st' = Some e" by blast
  with loop o(2) assms(1) show ?thesis
    by (simp add: Run_def Let_def executeGraph_def executeGraphSequential_def)
qed



subsection \<open>Failures and recorded errors\<close>

text \<open>A node that leaves the recorded errors of its envelope alone.\<close>

definition keeps_errors :: "Node \<Rightarrow> bool" where
  "keeps_errors node \<longleftrightarrow> (\<forall>call env. Errors (ro_env (n_Run node call env)) = Errors env \<and>
     (\<forall>e. ro_result (n_Run node call env) = Inr (Some e) \<longrightarrow> Errors e = Errors env))"

lemma apply_mods_Errors [simp]: "Errors (apply_mods m env) = Errors env"
proof -
  have set: "Errors (fold (\<lambda>(k, v). SetVar k v) kvs env) = Errors env" for kvs env
    by (induction kvs arbitrary: env) auto
  have del: "Errors (fold (\<lambda>k e. e\<lparr>Vars := map_option (mdel k) (Vars e)\<rparr>) ks env) = Errors env" for ks env
    by (induction ks arbitrary: env) auto
  show ?thesis by (simp add: apply_mods_def set del)
qed

lemma before_Errors:
  assumes "handleSequentialBeforeStep w opts emitf g node (Some env) tick attempt st0 = Some (cur, skip, err, st1)"
  shows "\<exists>e. cur = Some e \<and> Errors e = Errors env"
  using assms
  by (auto simp: handleSequentialBeforeStep_def handleStepPoint_def Let_def
      split: if_splits option.splits prod.splits sum.splits bool.splits)

text \<open>The recorded errors follow the \<open>node.failed\<close> events; without \<open>ContinueOnError\<close> there are none yet.\<close>

definition recorded :: "NodeError \<Rightarrow> string \<times> string" where
  "recorded e = (ne_NodeID e, ne_Message e)"

definition err_inv :: "'s RunOptions \<Rightarrow> NodeError list \<Rightarrow> 's SeqState \<Rightarrow> bool" where
  "err_inv opts errs st \<longleftrightarrow> (\<exists>e new. ss_current st = Some e \<and> Errors e = errs @ new \<and>
     map recorded new = failures (ss_em st) \<and> (\<not> ContinueOnError opts \<longrightarrow> new = []))"

text \<open>How a failed execution ends a run: with its error, unless the controller ends the run at the step after it.\<close>

definition ends_with :: "'s RunOptions \<Rightarrow> (string \<times> string) list \<Rightarrow> run_error option \<Rightarrow> bool" where
  "ends_with opts fs err \<longleftrightarrow> fs = [] \<or> (\<exists>i m. fs = [(i, m)] \<and> (err = Some (ErrNodeExecution i m) \<or>
     StepController opts \<noteq> None \<and> (err = Some ErrStepAborted \<or> (\<exists>t. err = Some (ErrStepControl t)))))"

definition err_post :: "'s RunOptions \<Rightarrow> NodeError list \<Rightarrow> run_error option \<Rightarrow> 's SeqState \<Rightarrow> bool" where
  "err_post opts errs err st \<longleftrightarrow> (err = None \<longrightarrow> err_inv opts errs st) \<and>
     (\<forall>i m. err = Some (ErrNodeExecution i m) \<longrightarrow> \<not> ContinueOnError opts \<and> failures (ss_em st) = [(i, m)]) \<and>
     (\<not> ContinueOnError opts \<longrightarrow> ends_with opts (failures (ss_em st)) err)"

lemma err_inv_frame [simp]:
  "err_inv opts errs (st\<lparr>ss_queue := q\<rparr>) = err_inv opts errs st"
  "err_inv opts errs (taken i q st) = err_inv opts errs st"
  unfolding err_inv_def taken_def by simp_all

lemma go_on_Errors:
  assumes "go_on emit g node st = Next st'" "err_inv opts errs st" shows "err_inv opts errs st'"
proof -
  obtain nxt cur em where d: "determineSuccessors emit g node (ss_current st) (ss_em st) = Some (nxt, cur, em)"
    and st': "st' = st\<lparr>ss_current := cur, ss_em := em, ss_queue := ss_queue st @ nxt\<rparr>"
    using assms(1) by (rule go_on_Next)
  from assms(2) obtain e new where e: "ss_current st = Some e" "Errors e = errs @ new"
      "map recorded new = failures (ss_em st)" "\<not> ContinueOnError opts \<longrightarrow> new = []"
    unfolding err_inv_def by blast
  have "failures em = failures (ss_em st)"
    by (rule failures_ctl[OF determineSuccessors_ctl[OF d]])
  moreover obtain e' where c: "cur = Some e'" using determineSuccessors_env(1)[OF d] e(1) by auto
  moreover have "Errors e' = Errors e" using determineSuccessors_env(2)[OF d e(1) c] by blast
  ultimately show ?thesis using e unfolding err_inv_def st'
    by (intro exI[of _ e'] exI[of _ new]) simp
qed

lemma seq_run_node_Errors:
  assumes "quiet node" "keeps_errors node" "returns_env node" "n_ID node = i" "err_inv opts errs st"
  shows "seq_run_node w opts emit g i node attempt st = Next st' \<Longrightarrow> err_inv opts errs st'"
    and "seq_run_node w opts emit g i node attempt st = Return err st' \<Longrightarrow> err_post opts errs err st'"
proof -
  from assms(5) obtain env new where env: "ss_current st = Some env" "Errors env = errs @ new"
      "map recorded new = failures (ss_em st)" "\<not> ContinueOnError opts \<longrightarrow> new = []"
    by (auto simp: err_inv_def)
  let ?out = "n_Run node (ss_tick st) env"
  let ?em = "emit_all (node_trace (ss_tick st) node env) (ss_em st)"
  let ?after = "handleSequentialAfterStep w opts emit g node (Some (ro_env ?out))
      (case ro_result ?out of Inl _ \<Rightarrow> None | Inr r \<Rightarrow> r) (case ro_result ?out of Inl e \<Rightarrow> Some e | Inr _ \<Rightarrow> None)
      (ss_tick st) attempt (ss_ctl st, ?em)"
  have failed: "failures em = map recorded new @ (case ro_result ?out of Inl m \<Rightarrow> [(i, m)] | Inr _ \<Rightarrow> [])"
    if "?after = Some (e, s, em)" for e s em
    using failures_ctl[OF after_ctl[OF that]] failures_node[OF assms(1)] env(3) assms(4) by (simp split: sum.split)
  have keep: "Errors (ro_env ?out) = Errors env" "ro_result ?out = Inr (Some e) \<Longrightarrow> Errors e = Errors env" for e
    using assms(2) by (simp_all add: keeps_errors_def)
  have nn: "ro_result ?out \<noteq> Inr None" using assms(3) by (simp add: returns_env_def)
  show "err_inv opts errs st'" if "seq_run_node w opts emit g i node attempt st = Next st'"
  proof -
    from that env(1) obtain s em cur where a: "?after = Some (None, s, em)"
      and o: "resolveSequentialNodeOutcome (ro_env ?out) (ro_result ?out) node attempt opts i = (cur, None)"
      and n: "go_on emit g node (st\<lparr>ss_current := cur, ss_ctl := s, ss_em := em,
          ss_visited := mput i True (ss_visited st)\<rparr>) = Next st'"
      by (auto simp: seq_run_node_def executeNode_emit split: option.splits prod.splits)
    from o nn keep env(2,4) failed[OF a] have "err_inv opts errs (st\<lparr>ss_current := cur, ss_ctl := s, ss_em := em,
        ss_visited := mput i True (ss_visited st)\<rparr>)"
      by (auto simp: resolveSequentialNodeOutcome_def err_inv_def recorded_def split: sum.splits if_splits)
    with n go_on_Errors show ?thesis by blast
  qed
  show "err_post opts errs err st'" if "seq_run_node w opts emit g i node attempt st = Return err st'"
    using that env(1,4) failed
    by (auto simp: seq_run_node_def executeNode_emit resolveSequentialNodeOutcome_def err_post_def ends_with_def
        split: option.splits prod.splits sum.splits if_splits dest!: after_err_ctl)
qed

lemma seq_visit_Errors:
  assumes "quiet node" "keeps_errors node" "returns_env node" "n_ID node = i" "err_inv opts errs st"
  shows "seq_visit w opts emit g i node attempt st = Next st' \<Longrightarrow> err_inv opts errs st'"
    and "seq_visit w opts emit g i node attempt st = Return err st' \<Longrightarrow> err_post opts errs err st'"
proof -
  from assms(5) obtain env new where env: "ss_current st = Some env" "Errors env = errs @ new"
      "map recorded new = failures (ss_em st)" "\<not> ContinueOnError opts \<longrightarrow> new = []"
    unfolding err_inv_def by blast
  have "seq_visit w opts emit g i node attempt st = Next st' \<or> seq_visit w opts emit g i node attempt st = Return err st'
    \<Longrightarrow> \<exists>r. handleSequentialBeforeStep w opts emit g node (ss_current st) (ss_tick st) attempt (ss_ctl st, ss_em st) = Some r"
    by (auto simp: seq_visit_def split: option.splits)
  moreover have "(seq_visit w opts emit g i node attempt st = Next st' \<longrightarrow> err_inv opts errs st') \<and>
      (seq_visit w opts emit g i node attempt st = Return err st' \<longrightarrow> err_post opts errs err st')"
    if b: "handleSequentialBeforeStep w opts emit g node (ss_current st) (ss_tick st) attempt (ss_ctl st, ss_em st)
      = Some (cur, skip, e, s, em)" for cur skip e s em
  proof -
    obtain e1 where e1: "cur = Some e1" "Errors e1 = Errors env" using before_Errors[OF b[unfolded env(1)]] by blast
    let ?st = "st\<lparr>ss_current := cur, ss_ctl := s, ss_em := em\<rparr>"
    have f: "failures em = failures (ss_em st)"
      by (rule failures_ctl[OF before_ctl[OF b]])
    then have inv: "err_inv opts errs (?st\<lparr>ss_visited := v\<rparr>)" "err_inv opts errs ?st" for v
      using e1 env unfolding err_inv_def by (intro exI[of _ e1] exI[of _ new]; simp)+
    note run = seq_run_node_Errors[OF assms(1-4) inv(2)] and go = go_on_Errors[OF _ inv(1)]
    note eq = seq_visit_eq[OF b refl, of i]
    show ?thesis
    proof (cases e)
      case None
      then show ?thesis unfolding eq using run go by (cases skip) auto
    next
      case (Some x)
      then show ?thesis unfolding eq using before_err[OF b[unfolded Some]] env(3,4) f by (auto simp: err_post_def ends_with_def)
    qed
  qed
  ultimately show "seq_visit w opts emit g i node attempt st = Next st' \<Longrightarrow> err_inv opts errs st'"
    "seq_visit w opts emit g i node attempt st = Return err st' \<Longrightarrow> err_post opts errs err st'"
    by (metis surj_pair)+
qed


definition well_behaved :: "BasicGraph \<Rightarrow> bool" where
  "well_behaved g \<longleftrightarrow> (\<forall>i node. NodeByID g i = Some node \<longrightarrow> quiet node \<and> keeps_errors node \<and> returns_env node)"

lemma seq_iter_Errors:
  assumes "graph_ok g" "well_behaved g" "err_inv opts errs st"
  shows "seq_iter w opts emit g st = Next st' \<Longrightarrow> err_inv opts errs st'"
    and "seq_iter w opts emit g st = Return err st' \<Longrightarrow> err_post opts errs err st'"
proof -
  have "(seq_iter w opts emit g st = Next st' \<longrightarrow> err_inv opts errs st') \<and>
      (seq_iter w opts emit g st = Return err st' \<longrightarrow> err_post opts errs err st')"
  proof (cases rule: seq_iter_cases[of st w opts emit g])
    case (visit i q node)
    have "quiet node" "keeps_errors node" "returns_env node" "n_ID node = i"
      using assms(2) visit(2) ok_node_ID[OF assms(1) visit(2)] by (auto simp: well_behaved_def)
    from seq_visit_Errors[OF this, of opts errs "taken i q st"] assms(3) show ?thesis
      unfolding visit(6) by simp
  qed (use assms(3) in \<open>auto simp: err_post_def ends_with_def err_inv_def taken_def\<close>)
  then show "seq_iter w opts emit g st = Next st' \<Longrightarrow> err_inv opts errs st'"
    "seq_iter w opts emit g st = Return err st' \<Longrightarrow> err_post opts errs err st'" by blast+
qed

text \<open>
  C3: Failures are reported the way the options ask. Take a consistent graph whose nodes do not emit the runtime's own event
  kinds, leave the recorded errors alone and return a non-nil envelope when they return no error, and no emitter
  decorator. A sequential run that completes with \<open>ContinueOnError\<close> has recorded one error per failed execution, in order, with
  the node and the error text the execution failed with, after the errors the envelope came with; one that completes without
  it had no failed execution and recorded nothing. With \<open>ContinueOnError\<close> a failing node never ends the run with its
  error. Without it, the first failed execution ends the run: the run fails with the node and the error text of that one execution,
  or, only when a step controller is set, with the error of the controller's decision at the step after the node.
\<close>

theorem Run_sequential_failures:
  assumes "graph_ok g" "well_behaved g" "Concurrency opts \<le> 1" "EventEmitterDecorator opts = None"
    and "Run par w opts (Some g) env (s, new_emitter) = Inr (Some (res, err, s', em))"
  shows "(err = None \<longrightarrow> (\<exists>e new. res = Some e \<and> Errors e = Errors (init_env w env) @ new \<and>
        map (\<lambda>ne. (ne_NodeID ne, ne_Message ne)) new = failures em \<and> (\<not> ContinueOnError opts \<longrightarrow> new = []))) \<and>
    (\<forall>i m. err = Some (ErrNodeExecution i m) \<longrightarrow> \<not> ContinueOnError opts \<and> failures em = [(i, m)]) \<and>
    (\<not> ContinueOnError opts \<longrightarrow> failures em = [] \<or> (\<exists>i m. failures em = [(i, m)] \<and>
        (err = Some (ErrNodeExecution i m) \<or>
         StepController opts \<noteq> None \<and> (err = Some ErrStepAborted \<or> (\<exists>t. err = Some (ErrStepControl t))))))"
proof -
  obtain st where loop: "seq_loop w (apply_defaults opts) emit g \<lparr>ss_queue = [Entry g], ss_visited = [],
      ss_hopCount = [], ss_current = Some (init_env w env), ss_ctl = s,
      ss_em = emit (runStartEvent (apply_defaults opts) w g) new_emitter, ss_tick = 0\<rparr> = Some (err, st)"
    and st: "res = ss_current st" "em = emit (finishEvent w err) (ss_em st)"
    by (rule Run_sequentialE[OF assms(5,3,4)])
  let ?errs = "Errors (init_env w env)" and ?o = "apply_defaults opts"
  have start: "err_inv ?o ?errs \<lparr>ss_queue = [Entry g], ss_visited = [], ss_hopCount = [],
      ss_current = Some (init_env w env), ss_ctl = s, ss_em = emit (runStartEvent ?o w g) new_emitter, ss_tick = 0\<rparr>"
    by (simp add: err_inv_def failures_def new_emitter_def emit_log event_kind_defs)
  have post: "err_post ?o ?errs err st"
    by (rule seq_loop_rule[OF loop, where P = "err_inv ?o ?errs"])
      (use start seq_iter_Errors[OF assms(1,2)] in blast)+
  have same: "failures (ss_em st) = failures em" "ContinueOnError ?o = ContinueOnError opts" "StepController ?o = StepController opts"
    by (simp_all add: st(2) apply_defaults_def event_kind_defs)
  show ?thesis
    using post unfolding err_post_def err_inv_def ends_with_def recorded_def[abs_def] same st(1)[symmetric] by blast
qed


subsection \<open>All reachable nodes are executed\<close>

text \<open>Nodes that never ask for a gate redirect, and a graph without routers.\<close>

definition no_redirect :: "Envelope \<Rightarrow> bool" where
  "no_redirect env \<longleftrightarrow> GetVar env gate_redirect_key = None"

definition plain :: "Node \<Rightarrow> bool" where
  "plain node \<longleftrightarrow> quiet node \<and> \<not> n_isRouter node \<and> (\<forall>call env. no_redirect env \<longrightarrow>
     (\<exists>e. ro_result (n_Run node call env) = Inr (Some e) \<and> no_redirect e))"

definition plain_graph :: "BasicGraph \<Rightarrow> bool" where
  "plain_graph g \<longleftrightarrow> (\<forall>i node. NodeByID g i = Some node \<longrightarrow> plain node)"

lemma determineSuccessors_plain:
  assumes "\<not> n_isRouter node" "no_redirect env"
  shows "determineSuccessors emitf g node (Some env) em = Some (Successors g (n_ID node), Some env, em)"
  using assms by (simp add: determineSuccessors_def gate_redirect_def no_redirect_def Let_def)

text \<open>Executed nodes (\<open>X\<close>) have their successors executed or waiting (\<open>Q\<close>).\<close>

definition covered :: "(string \<Rightarrow> string list) \<Rightarrow> string \<Rightarrow> string set \<Rightarrow> string set \<Rightarrow> bool" where
  "covered S r X Q \<longleftrightarrow> r \<in> X \<union> Q \<and> (\<forall>i \<in> X. set (S i) \<subseteq> X \<union> Q)"

lemma covered_skip: "covered S r X (insert i Q) \<Longrightarrow> i \<in> X \<Longrightarrow> covered S r X Q"
  by (auto simp: covered_def)

lemma covered_visit: "covered S r X (insert i Q) \<Longrightarrow> covered S r (insert i X) (Q \<union> set (S i))"
  by (auto simp: covered_def)

lemma covered_done: "covered S r X {} \<Longrightarrow> reach_from S r \<subseteq> X"
  by (intro reach_from_least) (auto simp: covered_def)

definition cover_inv :: "BasicGraph \<Rightarrow> 's SeqState \<Rightarrow> bool" where
  "cover_inv g st \<longleftrightarrow> (\<exists>env. ss_current st = Some env \<and> no_redirect env) \<and>
     (\<forall>i. 0 < hop_at (ss_hopCount st) i \<longrightarrow> i \<in> set (ids_of EventNodeStarted (ss_em st))) \<and>
     covered (Successors g) (Entry g) (set (ids_of EventNodeStarted (ss_em st))) (set (ss_queue st))"

lemma seq_visit_plain:
  assumes "StepController opts = None" "plain node" "n_ID node = i" "ss_current st = Some env" "no_redirect env"
  shows "\<exists>e. no_redirect e \<and> seq_visit w opts emit g i node attempt st =
    Next (st\<lparr>ss_current := Some e, ss_em := emit_all (node_trace (ss_tick st) node env) (ss_em st),
      ss_visited := mput i True (ss_visited st), ss_queue := ss_queue st @ Successors g i\<rparr>)"
proof -
  obtain e where e: "ro_result (n_Run node (ss_tick st) env) = Inr (Some e)" "no_redirect e"
    using assms(2,5) by (auto simp: plain_def)
  have "\<not> n_isRouter node" using assms(2) by (simp add: plain_def)
  with e assms show ?thesis
    by (intro exI[of _ e])
      (simp add: seq_visit_def seq_run_node_def handleSequentialBeforeStep_def handleSequentialAfterStep_def
        executeNode_emit resolveSequentialNodeOutcome_def go_on_def determineSuccessors_plain)
qed

lemma cover_Next:
  assumes "graph_ok g" "plain_graph g" "StepController opts = None" "cover_inv g st"
    and "seq_iter w opts emit g st = Next st'"
  shows "cover_inv g st'"
proof (cases rule: seq_iter_cases[of st w opts emit g])
  case (skip i q)
  have "0 < hop_at (ss_hopCount st) i" using skip(3) by (auto simp: shouldSkipVisitedNode_def split: if_splits)
  then have i: "i \<in> set (ids_of EventNodeStarted (ss_em st))" using assms(4) by (simp add: cover_inv_def)
  have st': "st' = st\<lparr>ss_queue := q\<rparr>" using skip(2) assms(5) by simp
  have "covered (Successors g) (Entry g) (set (ids_of EventNodeStarted (ss_em st))) (set q)"
    by (rule covered_skip[OF _ i]) (use assms(4) in \<open>simp add: cover_inv_def skip(1)\<close>)
  with assms(4) show ?thesis unfolding cover_inv_def st' by simp
next
  case (visit i q node)
  have pl: "plain node" "n_ID node = i"
    using assms(2) visit(2) ok_node_ID[OF assms(1) visit(2)] by (auto simp: plain_graph_def)
  from assms(4) obtain env where env: "ss_current (taken i q st) = Some env" "no_redirect env"
    by (auto simp: cover_inv_def taken_def)
  obtain e where e: "no_redirect e" "seq_iter w opts emit g st = Next ((taken i q st)\<lparr>ss_current := Some e,
        ss_em := emit_all (node_trace (ss_tick (taken i q st)) node env) (ss_em (taken i q st)),
        ss_visited := mput i True (ss_visited (taken i q st)), ss_queue := ss_queue (taken i q st) @ Successors g i\<rparr>)"
    using seq_visit_plain[OF assms(3) pl env] unfolding visit(6) by blast
  then have st': "st' = (taken i q st)\<lparr>ss_current := Some e,
        ss_em := emit_all (node_trace (ss_tick (taken i q st)) node env) (ss_em (taken i q st)),
        ss_visited := mput i True (ss_visited (taken i q st)), ss_queue := ss_queue (taken i q st) @ Successors g i\<rparr>"
    using assms(5) by simp
  have ids: "ids_of EventNodeStarted (ss_em st') = ids_of EventNodeStarted (ss_em st) @ [i]"
    using ids_of_node(1)[of node] pl by (simp add: st' taken_def plain_def)
  have q: "ss_queue st' = q @ Successors g i" "ss_current st' = Some e"
    "ss_hopCount st' = mput i (Suc (hop_at (ss_hopCount st) i)) (ss_hopCount st)"
    by (simp_all add: st' taken_def)
  have "covered (Successors g) (Entry g) (insert i (set (ids_of EventNodeStarted (ss_em st)))) (set q \<union> set (Successors g i))"
    by (rule covered_visit) (use assms(4) in \<open>simp add: cover_inv_def visit(1)\<close>)
  with assms(4) e(1) show ?thesis unfolding cover_inv_def ids q by simp
qed (use assms(5) in simp_all)

text \<open>Such a run only returns with an empty queue and no error.\<close>

lemma cover_Return:
  assumes "graph_ok g" "plain_graph g" "StepController opts = None" "NodeByID g (Entry g) \<noteq> None"
    and "0 < MaxHops opts" "\<forall>n. \<not> w_ctxDone w n" "cover_inv g st" "seq_inv opts g st"
  shows "seq_iter w opts emit g st \<noteq> Crash"
    and "seq_iter w opts emit g st = Return err st' \<Longrightarrow> err = None \<and> st' = st \<and> ss_queue st = []"
proof -
  have "seq_iter w opts emit g st \<noteq> Crash \<and>
    (seq_iter w opts emit g st = Return err st' \<longrightarrow> err = None \<and> st' = st \<and> ss_queue st = [])"
  proof (cases rule: seq_iter_cases[of st w opts emit g])
    case (canceled i q)
    with assms(6) show ?thesis by simp
  next
    case (hops i q n)
    have "hop_at (ss_hopCount st) i = 0 \<or> int (hop_at (ss_hopCount st) i) < MaxHops opts"
      using hops(3) seq_invD(2)[OF assms(8), of i] by (auto simp: shouldSkipVisitedNode_def split: if_splits)
    with hops(2) assms(5) show ?thesis by auto
  next
    case (missing i q)
    have "i \<in> reach_from (Successors g) (Entry g)" using seq_invD(1)[OF assms(8)] missing(1) by simp
    with bg.reach_found[OF assms(1,4)] missing(2) show ?thesis by blast
  next
    case (visit i q node)
    have pl: "plain node" "n_ID node = i"
      using assms(2) visit(2) ok_node_ID[OF assms(1) visit(2)] by (auto simp: plain_graph_def)
    from assms(7) obtain env where "ss_current (taken i q st) = Some env" "no_redirect env"
      by (auto simp: cover_inv_def taken_def)
    from seq_visit_plain[OF assms(3) pl this, of w g] visit(6) show ?thesis by (metis seq_res.distinct(1,3))
  qed auto
  then show "seq_iter w opts emit g st \<noteq> Crash"
    "seq_iter w opts emit g st = Return err st' \<Longrightarrow> err = None \<and> st' = st \<and> ss_queue st = []" by blast+
qed

text \<open>
  C2: Without routers, gate redirects, failures, cancellation and step control, a sequential run completes
  without an error, and it has executed exactly the nodes that are reachable from the entry.
\<close>

theorem Run_sequential_covers:
  assumes "graph_ok g" "plain_graph g" "validateGraph (Some g) = None"
    and "Concurrency opts \<le> 1" "EventEmitterDecorator opts = None" "StepController opts = None"
    and "\<forall>n. \<not> w_ctxDone w n" "no_redirect (init_env w env)"
  shows "\<exists>res s' em. Run par w opts (Some g) env (s, new_emitter) = Inr (Some (res, None, s', em)) \<and>
    set (ids_of EventNodeStarted em) = reach_from (Successors g) (Entry g)"
proof -
  let ?o = "apply_defaults opts"
  let ?init = "\<lparr>ss_queue = [Entry g], ss_visited = [], ss_hopCount = [], ss_current = Some (init_env w env),
     ss_ctl = s, ss_em = emit (runStartEvent ?o w g) new_emitter, ss_tick = 0\<rparr>"
  let ?I = "\<lambda>st. cover_inv g st \<and> seq_inv ?o g st"
  have qg: "quiet_graph g" using assms(2) by (auto simp: plain_graph_def plain_def quiet_graph_def)
  have o: "StepController ?o = None" "run_emitter ?o = emit" "\<not> 1 < Concurrency ?o"
    using assms(4-6) by (simp_all add: apply_defaults_def run_emitter_def)
  have ids: "ids_of EventNodeStarted (ss_em ?init) = []"
    by (simp add: ids_of_def new_emitter_def emit_log event_kind_defs)
  have init: "?I ?init"
    using assms(8) ids seq_inv_init[of _ ?o, OF _ apply_defaults_pos]
    by (simp add: cover_inv_def covered_def)
  have step: "?I st'" if "?I st" "seq_iter w ?o emit g st = Next st'" for st st'
    using that cover_Next[OF assms(1,2) o(1)] seq_inv_Next[OF assms(1) qg] by blast
  note ret = cover_Return[OF assms(1,2) o(1) validateGraph_None[OF assms(3)] apply_defaults_pos assms(7)]
  have "seq_loop w ?o emit g ?init \<noteq> None"
    by (rule seq_loop_total_rule[where P = ?I]) (use init step ret(1) in blast)+
  then obtain err st where loop: "seq_loop w ?o emit g ?init = Some (err, st)" by auto
  have "err = None \<and> ?I st \<and> ss_queue st = []"
    by (rule seq_loop_rule[OF loop, where P = ?I]) (use init step ret(2) in blast)+
  then have "err = None" "covered (Successors g) (Entry g) (set (ids_of EventNodeStarted (ss_em st))) {}"
      "set (ids_of EventNodeStarted (ss_em st)) \<subseteq> reach_from (Successors g) (Entry g)"
    using seq_invD(5) by (auto simp: cover_inv_def)
  then have "err = None" "set (ids_of EventNodeStarted (ss_em st)) = reach_from (Successors g) (Entry g)"
    using covered_done by blast+
  with loop o(2,3) assms(3) show ?thesis
    by (simp add: Run_def Let_def executeGraph_def executeGraphSequential_def event_kind_defs)
qed


subsection \<open>A concrete run\<close>

definition demo_world :: World where
  "demo_world = \<lparr>w_ctxDone = (\<lambda>_. False), w_ctxErr = [], w_runID = ''r1'', w_stepID = (\<lambda>_ _. ''s''),
     w_stepCtx = (\<lambda>_ _. \<lparr>sc_left = None, sc_err = [], sc_tie = False\<rparr>)\<rparr>"

definition demo_run :: "validate_error + (Envelope option \<times> run_error option \<times> unit \<times> Emitter) option" where
  "demo_run = Run (\<lambda>_ _ _ _ _ _. None) demo_world DefaultRunOptions (Some demo_graph) None ((), new_emitter)"

lemma noop_facts: "quiet (NewNoopNode i)" "keeps_errors (NewNoopNode i)" "returns_env (NewNoopNode i)" "plain (NewNoopNode i)"
  by (auto simp: NewNoopNode_def quiet_def keeps_errors_def returns_env_def plain_def)

lemma demo_nodes: "NodeByID demo_graph i = Some n \<Longrightarrow> \<exists>j. n = NewNoopNode j"
  by (auto simp: NodeByID_def demo_graph_def demo_build_def graph_op_defs split: if_splits)

lemma demo_facts:
  "graph_ok demo_graph" "quiet_graph demo_graph" "well_behaved demo_graph" "plain_graph demo_graph"
  "validateGraph (Some demo_graph) = None" "Entry demo_graph = ''a''"
  "Concurrency (DefaultRunOptions :: unit RunOptions) \<le> 1"
  "EventEmitterDecorator (DefaultRunOptions :: unit RunOptions) = None"
  "StepController (DefaultRunOptions :: unit RunOptions) = None"
  "MaxHops (DefaultRunOptions :: unit RunOptions) = 100"
proof -
  show "graph_ok demo_graph" by (rule built_graph_ok[OF demo_built])
  show "quiet_graph demo_graph" "well_behaved demo_graph" "plain_graph demo_graph"
    using demo_nodes noop_facts by (fastforce simp: quiet_graph_def well_behaved_def plain_graph_def)+
  show "validateGraph (Some demo_graph) = None" "Entry demo_graph = ''a''" by code_simp+
qed (simp_all add: DefaultRunOptions_def)

lemma demo_run_returns:
  obtains e em where "demo_run = Inr (Some (Some e, None, (), em))" "ids_of EventNodeStarted em = [''a'', ''b'']"
proof -
  have "case demo_run of Inr (Some (Some e, err, u, em)) \<Rightarrow> err = None \<and> ids_of EventNodeStarted em = [''a'', ''b'']
      | _ \<Rightarrow> False"
    by code_simp
  with that show thesis by (auto split: sum.splits option.splits)
qed

theorem Run_sequential_bounded_witness:
  "\<exists>res err s' em. demo_run = Inr (Some (res, err, s', em)) \<and>
     (\<forall>i. int (count_list (ids_of EventNodeStarted em) i) \<le> 100) \<and> ids_of EventNodeStarted em = [''a'', ''b'']"
proof -
  obtain e em where run: "demo_run = Inr (Some (Some e, None, (), em))" "ids_of EventNodeStarted em = [''a'', ''b'']"
    by (rule demo_run_returns)
  have "\<forall>i. int (count_list (ids_of EventNodeStarted em) i) \<le> 100"
    using Run_sequential_bounded[OF demo_facts(1,2,7,8) run(1)[unfolded demo_run_def]] by (simp add: demo_facts)
  with run show ?thesis by blast
qed

theorem Run_event_log_witness:
  "\<exists>res err s' em mid. demo_run = Inr (Some (res, err, s', em)) \<and> kinds em = [EventRunStarted] @ mid @ [EventRunFinished]"
proof -
  obtain e em where run: "demo_run = Inr (Some (Some e, None, (), em))" by (rule demo_run_returns)
  with Run_event_log[OF demo_facts(2,7,8) _ run(1)[unfolded demo_run_def new_emitter_fresh]] show ?thesis by auto
qed

theorem Run_sequential_returns_witness:
  "\<exists>e err s' em. demo_run = Inr (Some (Some e, err, s', em))"
  unfolding demo_run_def
  by (rule Run_sequential_returns[OF demo_facts(5,7)])
    (use demo_facts(3,9) in \<open>auto simp: answers_def well_behaved_def\<close>)

theorem Run_sequential_failures_witness:
  "\<exists>e em. demo_run = Inr (Some (Some e, None, (), em)) \<and> Errors e = [] \<and> failures em = []"
proof -
  obtain e em where run: "demo_run = Inr (Some (Some e, None, (), em))" by (rule demo_run_returns)
  have "Errors e = [] \<and> failures em = []"
    using Run_sequential_failures[OF demo_facts(1,3,7,8) run(1)[unfolded demo_run_def]]
    by (auto simp: DefaultRunOptions_def init_env_def NewEnvelope_def)
  with run show ?thesis by blast
qed

theorem Run_sequential_covers_witness:
  "\<exists>res s' em. demo_run = Inr (Some (res, None, s', em)) \<and>
     set (ids_of EventNodeStarted em) = reach_from (Successors demo_graph) ''a''"
  using Run_sequential_covers[OF demo_facts(1,4,5,7,8,9), of demo_world None]
  by (simp add: demo_run_def demo_facts demo_world_def no_redirect_def init_env_def NewEnvelope_def GetVar_def)


definition graph_of :: "Node list \<Rightarrow> (string \<times> string) list \<Rightarrow> string \<Rightarrow> BasicGraph" where
  "graph_of nodes es entry =
     (let step = (\<lambda>f g. case f g of Inl _ \<Rightarrow> g | Inr g' \<Rightarrow> g');
          g1 = fold (\<lambda>n. step (AddNode (Some n))) nodes (NewGraph ''g'');
          g2 = fold (\<lambda>(u, v). step (AddEdge u v)) es g1
      in step (SetEntry entry) g2)"

definition noop_graph :: "string list \<Rightarrow> (string \<times> string) list \<Rightarrow> string \<Rightarrow> BasicGraph" where
  "noop_graph ids es entry = graph_of (map NewNoopNode ids) es entry"

text \<open>
  The sequential executor runs a join once for every path that leads to it: in the diamond
  \<open>a\<close>, \<open>b\<close>, \<open>c\<close>, \<open>d\<close> the node \<open>d\<close> runs twice. The visited set only matters once a
  node has used up its hops.
\<close>

theorem diamond_join_runs_twice:
  "case Run (\<lambda>_ _ _ _ _ _. None) demo_world DefaultRunOptions
      (Some (noop_graph [''a'', ''b'', ''c'', ''d'']
        [(''a'', ''b''), (''a'', ''c''), (''b'', ''d''), (''c'', ''d'')] ''a'')) None ((), new_emitter) of
     Inr (Some (res, err, u, em)) \<Rightarrow> err = None \<and> ids_of EventNodeStarted em = [''a'', ''b'', ''c'', ''d'', ''d'']
   | _ \<Rightarrow> False"
  by code_simp

end
