(* ===== verification/Step_Transparent.thy ===== *)
theory Step_Transparent
  imports Sequential_Correct
begin

section \<open>Step control that does not interfere\<close>

text \<open>
  The client side of the contract \<open>passive_controller\<close>: the sequential loop with such a controller is
  simulated by the loop without one, so the run returns the same envelope and the same error.
\<close>

text \<open>Two loop states that differ in the controller and the emitter only.\<close>

definition same_run :: "'s SeqState \<Rightarrow> 's SeqState \<Rightarrow> bool" where
  "same_run st st0 \<longleftrightarrow> ss_queue st = ss_queue st0 \<and> ss_visited st = ss_visited st0 \<and>
     ss_hopCount st = ss_hopCount st0 \<and> ss_current st = ss_current st0 \<and> ss_tick st = ss_tick st0"

lemma determineSuccessors_em:
  "map_option (\<lambda>(succs, e, _). (succs, e)) (determineSuccessors emitf g node envp em)
     = map_option (\<lambda>(succs, e, _). (succs, e)) (determineSuccessors emitf g node envp em0)"
  by (simp add: determineSuccessors_def Let_def split: option.split val.split)

fun res_rel :: "('s SeqState \<Rightarrow> 's SeqState \<Rightarrow> bool) \<Rightarrow> 's seq_res \<Rightarrow> 's seq_res \<Rightarrow> bool" where
  "res_rel R (Next st) (Next st0) \<longleftrightarrow> R st st0"
| "res_rel R (Return err st) (Return err0 st0) \<longleftrightarrow> err = err0 \<and> R st st0"
| "res_rel R Crash Crash \<longleftrightarrow> True"
| "res_rel R _ _ \<longleftrightarrow> False"

lemma go_on_same:
  assumes "same_run st st0" "\<And>q c e. P (st\<lparr>ss_current := c, ss_em := e, ss_queue := q\<rparr>)"
  shows "res_rel (\<lambda>st st0. same_run st st0 \<and> P st) (go_on emitf g node st) (go_on emitf g node st0)"
proof -
  have c: "ss_current st0 = ss_current st" using assms(1) by (simp add: same_run_def)
  note em = determineSuccessors_em[of emitf g node "ss_current st" "ss_em st" "ss_em st0"]
  show ?thesis
  proof (cases "determineSuccessors emitf g node (ss_current st) (ss_em st)")
    case None
    with em have "determineSuccessors emitf g node (ss_current st) (ss_em st0) = None" by simp
    with None c show ?thesis by (simp add: go_on_def)
  next
    case (Some r)
    obtain nxt cur e where r: "r = (nxt, cur, e)" by (rule prod_cases3)
    with em Some obtain e0 where "determineSuccessors emitf g node (ss_current st) (ss_em st0) = Some (nxt, cur, e0)"
      by (cases "determineSuccessors emitf g node (ss_current st) (ss_em st0)") auto
    with Some r c assms show ?thesis by (simp add: go_on_def same_run_def)
  qed
qed

context passive_controller
begin

definition sim :: "'s SeqState \<Rightarrow> 's SeqState \<Rightarrow> bool" where
  "sim st st0 \<longleftrightarrow> same_run st st0 \<and> ok (ss_ctl st)"

lemma step_point:
  assumes "StepController opts = Some ctl" "ok s" and pat: "\<And>tick p. patient (stepContext (step_config opts) (w_stepCtx w tick p))"
  shows "\<exists>s' em'. ok s' \<and> handleStepPoint w opts emitf g node (Some env) p tick hops nodeErr (s, em)
    = Some (Inr (StepActionContinue, None), s', em')"
proof -
  obtain b s1 where p: "ctl_ShouldPause ctl (n_ID node) p s = (b, s1)" by fastforce
  with pause_ok[OF assms(2), of "n_ID node" p] have s1: "ok s1" by simp
  show ?thesis
  proof (cases b)
    case True
    define req where "req = \<lparr>sq_ID = w_stepID w tick p, sq_RunID = RunID (Trace env), sq_Point = p,
      sq_NodeID = n_ID node, sq_NodeKind = n_Kind node, sq_Envelope = createEnvelopeSnapshot env,
      sq_HopCount = hops, sq_Error = nodeErr, sq_Graph = createGraphSnapshot g (n_ID node)\<rparr>"
    from step_continues[OF s1 pat, of tick p req] obtain resp s2
      where r: "ctl_Step ctl (stepContext (step_config opts) (w_stepCtx w tick p)) req s1 = (Inr (Some resp), s2)" "ok s2"
      "sp_Action resp = StepActionContinue" "sp_ModifiedEnvelope resp = None" by blast
    show ?thesis using assms p True r unfolding req_def by (auto simp: handleStepPoint_def Let_def)
  next
    case False
    with assms p s1 show ?thesis by (auto simp: handleStepPoint_def Let_def)
  qed
qed

lemma after_passive:
  assumes "StepController opts = Some ctl" "ok s" "\<And>tick p. patient (stepContext (step_config opts) (w_stepCtx w tick p))"
  shows "\<exists>s' em'. ok s' \<and> handleSequentialAfterStep w opts emitf g node (Some env) result nodeErr tick attempt (s, em)
    = Some (None, s', em')"
proof -
  obtain e where "(case result of None \<Rightarrow> Some env | Some e \<Rightarrow> Some e) = Some e" by (cases result) auto
  with step_point[OF assms, of emitf g node e StepPointAfterNode tick attempt nodeErr em] assms(1) show ?thesis
    by (auto simp: handleSequentialAfterStep_def Let_def step_const_defs)
qed

lemma before_passive:
  assumes "StepController opts = Some ctl" "ok s" "\<And>tick p. patient (stepContext (step_config opts) (w_stepCtx w tick p))"
  shows "\<exists>s' em'. ok s' \<and> handleSequentialBeforeStep w opts emitf g node (Some env) tick attempt (s, em)
    = Some (Some env, False, None, s', em')"
  using step_point[OF assms, of emitf g node env StepPointBeforeNode tick attempt None em] assms(1)
  by (auto simp: handleSequentialBeforeStep_def Let_def step_const_defs)

lemma run_node_passive:
  assumes "StepController opts = Some ctl" "sim st st0" and pat: "\<And>tick p. patient (stepContext (step_config opts) (w_stepCtx w tick p))"
    and opts0: "opts0 = opts\<lparr>StepController := None\<rparr>"
  shows "res_rel sim (seq_run_node w opts emitf g i node attempt st) (seq_run_node w opts0 emitf g i node attempt st0)"
proof (cases "ss_current st")
  case None
  with assms(2) show ?thesis by (simp add: seq_run_node_def sim_def same_run_def)
next
  case (Some env)
  obtain result env' em em0 where x: "executeNode emitf (ss_tick st) node env (ss_em st) = (result, env', em)"
      "executeNode emitf (ss_tick st) node env (ss_em st0) = (result, env', em0)"
    by (fastforce simp: executeNode_def Let_def split: sum.splits)
  from after_passive[OF assms(1) _ pat, of "ss_ctl st"] assms(2) obtain s em' where
    a: "ok s" "handleSequentialAfterStep w opts emitf g node (Some env') (case result of Inl _ \<Rightarrow> None | Inr r \<Rightarrow> r)
      (case result of Inl e \<Rightarrow> Some e | Inr _ \<Rightarrow> None) (ss_tick st) attempt (ss_ctl st, em) = Some (None, s, em')"
    unfolding sim_def by blast
  have o: "resolveSequentialNodeOutcome env' result node attempt opts0 i
      = resolveSequentialNodeOutcome env' result node attempt opts i"
    by (simp add: opts0 resolveSequentialNodeOutcome_def split: sum.split)
  obtain cur err where c: "resolveSequentialNodeOutcome env' result node attempt opts i = (cur, err)" by fastforce
  let ?st = "st\<lparr>ss_current := cur, ss_ctl := s, ss_em := em', ss_visited := mput i True (ss_visited st)\<rparr>"
  let ?plain = "st0\<lparr>ss_current := cur, ss_em := em0, ss_visited := mput i True (ss_visited st0)\<rparr>"
  have "same_run ?st ?plain" using assms(2) by (simp add: sim_def same_run_def)
  from go_on_same[OF this, of "\<lambda>st. ok (ss_ctl st)"] a(1) have
    g: "res_rel sim (go_on emitf g node ?st) (go_on emitf g node ?plain)" unfolding sim_def by simp
  have "ss_current st0 = Some env" "ss_tick st0 = ss_tick st"
    using assms(2) Some by (simp_all add: sim_def same_run_def)
  with Some x a c o g assms(2) show ?thesis
    by (cases err) (auto simp: seq_run_node_def handleSequentialAfterStep_def opts0 sim_def same_run_def)
qed

lemma visit_passive:
  assumes "StepController opts = Some ctl" "sim st st0" and pat: "\<And>tick p. patient (stepContext (step_config opts) (w_stepCtx w tick p))"
    and opts0: "opts0 = opts\<lparr>StepController := None\<rparr>"
  shows "res_rel sim (seq_visit w opts emitf g i node attempt st) (seq_visit w opts0 emitf g i node attempt st0)"
proof -
  have v0: "seq_visit w opts0 emitf g i node attempt st0 = seq_run_node w opts0 emitf g i node attempt st0"
    by (simp add: seq_visit_def handleSequentialBeforeStep_def opts0)
  show ?thesis
  proof (cases "ss_current st")
    case (Some env)
    from before_passive[OF assms(1) _ pat, of "ss_ctl st"] assms(2) obtain s em where
      "ok s" "handleSequentialBeforeStep w opts emitf g node (ss_current st) (ss_tick st) attempt (ss_ctl st, ss_em st)
        = Some (Some env, False, None, s, em)" unfolding sim_def Some by blast
    then have "seq_visit w opts emitf g i node attempt st
        = seq_run_node w opts emitf g i node attempt (st\<lparr>ss_current := Some env, ss_ctl := s, ss_em := em\<rparr>)"
      "sim (st\<lparr>ss_current := Some env, ss_ctl := s, ss_em := em\<rparr>) st0"
      using assms(2) Some by (simp_all add: seq_visit_def sim_def same_run_def)
    with run_node_passive[OF assms(1) _ pat opts0] v0 show ?thesis by simp
  next
    case None
    then have "seq_visit w opts emitf g i node attempt st = Crash"
      using assms(1)
      by (auto simp: seq_visit_def seq_run_node_def handleSequentialBeforeStep_def handleStepPoint_def Let_def
          step_const_defs split: option.splits prod.splits if_splits bool.splits)
    moreover have "ss_current st0 = None" using None assms(2) by (simp add: sim_def same_run_def)
    ultimately show ?thesis by (simp add: v0 seq_run_node_def)
  qed
qed

lemma iter_passive:
  assumes "StepController opts = Some ctl" "sim st st0" and pat: "\<And>tick p. patient (stepContext (step_config opts) (w_stepCtx w tick p))"
    and opts0: "opts0 = opts\<lparr>StepController := None\<rparr>"
  shows "res_rel sim (seq_iter w opts emitf g st) (seq_iter w opts0 emitf g st0)"
proof (cases "ss_queue st")
  case Nil
  with assms(2) show ?thesis by (simp add: seq_iter_def sim_def same_run_def)
next
  case (Cons i q)
  have f: "ss_queue st0 = i # q" "ss_visited st0 = ss_visited st" "ss_hopCount st0 = ss_hopCount st"
      "ss_tick st0 = ss_tick st" "MaxHops opts0 = MaxHops opts"
    using assms(2) Cons by (simp_all add: sim_def same_run_def opts0)
  have "sim (st\<lparr>ss_queue := q, ss_hopCount := h, ss_tick := t\<rparr>) (st0\<lparr>ss_queue := q, ss_hopCount := h, ss_tick := t\<rparr>)"
    "sim (st\<lparr>ss_queue := q\<rparr>) (st0\<lparr>ss_queue := q\<rparr>)" for h t
    using assms(2) by (simp_all add: sim_def same_run_def)
  with visit_passive[OF assms(1) _ pat opts0] Cons f show ?thesis
    by (simp add: seq_iter_def Let_def split: option.split prod.split)
qed

lemma loop_passive:
  assumes "StepController opts = Some ctl" "sim st st0" "\<And>tick p. patient (stepContext (step_config opts) (w_stepCtx w tick p))"
  shows "rel_option (\<lambda>(err, st) (err0, st0). err = err0 \<and> sim st st0)
     (seq_loop w opts emitf g st) (seq_loop w (opts\<lparr>StepController := None\<rparr>) emitf g st0)"
  using assms
proof (induction w opts emitf g st arbitrary: st0 rule: seq_loop.induct)
  case (1 w opts emitf g st)
  let ?o = "opts\<lparr>StepController := None\<rparr>"
  from iter_passive[OF 1(2-4) refl, of emitf g]
  consider (onward) st1 st2 where "seq_iter w opts emitf g st = Next st1" "seq_iter w ?o emitf g st0 = Next st2" "sim st1 st2"
    | (return) err st1 st2 where "seq_iter w opts emitf g st = Return err st1" "seq_iter w ?o emitf g st0 = Return err st2" "sim st1 st2"
    | (crash) "seq_iter w opts emitf g st = Crash" "seq_iter w ?o emitf g st0 = Crash"
    by (cases "seq_iter w opts emitf g st"; cases "seq_iter w ?o emitf g st0") auto
  then show ?case
  proof cases
    case onward
    with 1(1)[OF onward(1) 1(2) onward(3) 1(4)] show ?thesis
      by (simp add: seq_loop.simps[of w opts emitf g st] seq_loop.simps[of w ?o emitf g st0])
  qed (simp_all add: seq_loop.simps[of w opts emitf g st] seq_loop.simps[of w ?o emitf g st0])
qed

lemma execute_passive:
  assumes "StepController opts = Some ctl" "ok s" "\<And>tick p. patient (stepContext (step_config opts) (w_stepCtx w tick p))"
  shows "map_option (\<lambda>(res, err, _). (res, err)) (executeGraphSequential w opts emitf g env (s, em))
     = map_option (\<lambda>(res, err, _). (res, err))
         (executeGraphSequential w (opts\<lparr>StepController := None\<rparr>) emitf g env (s0, em0))"
proof -
  let ?st = "\<lambda>s em. \<lparr>ss_queue = [Entry g], ss_visited = [], ss_hopCount = [], ss_current = Some env,
     ss_ctl = s, ss_em = em, ss_tick = 0\<rparr>"
  have "sim (?st s em) (?st s0 em0)" using assms(2) by (simp add: sim_def same_run_def)
  from loop_passive[OF assms(1) this assms(3), of emitf g] show ?thesis
    by (auto simp: executeGraphSequential_def sim_def same_run_def option_rel_Some1 split: option.split elim!: option.rel_cases)
qed

end

text \<open>
  C9: Watching a run with the automatic step controller does not change it. Take a controller that is not paused and
  that no one pauses during the run, and suppose that at every step point the context of the step (the run's
  context, or the step timeout of the configuration if that is shorter) outlasts the controller's delay, if it has one. Then for every
  graph, every node behaviour and every step configuration, the sequential execution returns the same envelope and the same
  error, or panics, exactly as without a controller.
\<close>

theorem auto_controller_transparent:
  assumes "StepController opts = Some AutoCtl" "\<not> as_paused c"
    and "\<forall>tick p. as_delay c \<le> 0 \<or> \<not> ctx_cuts (stepContext (step_config opts) (w_stepCtx w tick p)) (as_delay c)"
  shows "map_option (\<lambda>(res, err, _). (res, err)) (executeGraphSequential w opts emitf g env (c, em))
     = map_option (\<lambda>(res, err, _). (res, err))
         (executeGraphSequential w (opts\<lparr>StepController := None\<rparr>) emitf g env (c0, em0))"
  by (rule auto_ctl.execute_passive[of opts c "as_delay c", OF assms(1)]) (use assms(2,3) in auto)

text \<open>A delay of 5 under a step timeout of 9 does not matter.\<close>

definition demo_step_opts :: "int \<Rightarrow> AutoStepController RunOptions" where
  "demo_step_opts timeout = DefaultRunOptions\<lparr>StepController := Some AutoCtl, StepCfg := Some (DefaultStepConfig\<lparr>StepTimeout := timeout\<rparr>)\<rparr>"

theorem auto_controller_transparent_witness:
  "map_option (\<lambda>(res, err, _). (res, err))
      (executeGraphSequential demo_world (demo_step_opts 9) emit demo_graph NewEnvelope (NewAutoStepController 5, new_emitter))
    = map_option (\<lambda>(res, err, _). (res, err))
      (executeGraphSequential demo_world ((demo_step_opts 9)\<lparr>StepController := None\<rparr>) emit demo_graph NewEnvelope (NewAutoStepController 5, new_emitter))"
  by (rule auto_controller_transparent)
    (simp_all add: demo_step_opts_def NewAutoStepController_def demo_world_def stepContext_def step_config_def DefaultStepConfig_def ctx_cuts_def)

text \<open>A step timeout below the delay ends the run before its first node.\<close>

lemma short_timeout_ends_run:
  "map_option (\<lambda>(res, err, _). err) (executeGraphSequential demo_world (demo_step_opts 3) emit demo_graph NewEnvelope
     (NewAutoStepController 5, new_emitter)) = Some (Some (ErrStepControl ''context deadline exceeded''))"
  by code_simp

end
