(* ===== verification/Runtime_Parallel.thy ===== *)
theory Runtime_Parallel
  imports Sequential_Correct
begin

section \<open>The parallel executor\<close>

text \<open>
  \<open>executeGraphParallel\<close> of \<open>runtime/runtime.go\<close>: the shared \<open>parallelState\<close>, the handling of one
  result by the main goroutine, and the system of main goroutine, workers and the two buffered
  channels as a step relation. Envelopes are values: that a merge node and the recorded state may share
  one envelope, and what a failing node did to the envelope it was given, are not tracked. The events of
  one execution are emitted in one step.
\<close>

record nodeState =
  hopCount :: nat
  completed :: bool
  envelope :: "Envelope option"

record nodeResult =
  nr_nodeID :: string
  nr_result :: "string + Envelope option"

record workItem =
  wi_nodeID :: string
  wi_envelope :: "Envelope option"

record parallelState =
  states :: "nodeState gomap"
  recordedErrors :: "NodeError list"
  mergeInputs :: "Envelope option list gomap"

definition newNodeState :: nodeState where
  "newNodeState = \<lparr>hopCount = 0, completed = False, envelope = None\<rparr>"

definition newParallelState :: "string \<Rightarrow> Envelope \<Rightarrow> parallelState" where
  "newParallelState entryID entryEnv =
     \<lparr>states = [(entryID, \<lparr>hopCount = 0, completed = False, envelope = Some entryEnv\<rparr>)],
      recordedErrors = [], mergeInputs = []\<rparr>"

definition state_at :: "parallelState \<Rightarrow> string \<Rightarrow> nodeState" where
  "state_at p nodeID = (case mget (states p) nodeID of None \<Rightarrow> newNodeState | Some s \<Rightarrow> s)"

definition incrementHop :: "string \<Rightarrow> parallelState \<Rightarrow> nat \<times> Envelope option \<times> parallelState" where
  "incrementHop nodeID p =
     (let state = state_at p nodeID; state' = state\<lparr>hopCount := hopCount state + 1\<rparr>
      in (hopCount state', envelope state', p\<lparr>states := mput nodeID state' (states p)\<rparr>))"

definition markNodeCompleted :: "string \<Rightarrow> Envelope option \<Rightarrow> parallelState \<Rightarrow> parallelState" where
  "markNodeCompleted nodeID env p =
     p\<lparr>states := mput nodeID ((state_at p nodeID)\<lparr>completed := True, envelope := env\<rparr>) (states p)\<rparr>"

definition resetNode :: "string \<Rightarrow> Envelope option \<Rightarrow> parallelState \<Rightarrow> parallelState" where
  "resetNode nodeID env p = p\<lparr>states := mput nodeID (newNodeState\<lparr>envelope := env\<rparr>) (states p)\<rparr>"

definition canScheduleSuccessor :: "string \<Rightarrow> int \<Rightarrow> parallelState \<Rightarrow> bool \<times> parallelState" where
  "canScheduleSuccessor nodeID maxHops p =
     (int (hopCount (state_at p nodeID)) < maxHops, p\<lparr>states := mput nodeID (state_at p nodeID) (states p)\<rparr>)"

definition inputs_at :: "parallelState \<Rightarrow> string \<Rightarrow> Envelope option list" where
  "inputs_at p nodeID = (case mget (mergeInputs p) nodeID of None \<Rightarrow> [] | Some es \<Rightarrow> es)"

text \<open>The collected inputs when there are enough of them.\<close>

definition addMergeInput ::
  "string \<Rightarrow> Envelope option \<Rightarrow> int \<Rightarrow> parallelState \<Rightarrow> Envelope option list option \<times> parallelState" where
  "addMergeInput nodeID env expectedInputs p =
     (let inputs = inputs_at p nodeID @ [env];
          p' = p\<lparr>mergeInputs := mput nodeID inputs (mergeInputs p)\<rparr>
      in (if int (length inputs) < expectedInputs then None else Some inputs, p'))"

definition addRecordedError :: "NodeError \<Rightarrow> parallelState \<Rightarrow> parallelState" where
  "addRecordedError nodeErr p = p\<lparr>recordedErrors := recordedErrors p @ [nodeErr]\<rparr>"

definition appendRecordedErrors :: "parallelState \<Rightarrow> Envelope \<Rightarrow> Envelope" where
  "appendRecordedErrors p target = fold AppendError (recordedErrors p) target"

definition nodeKindOrUnknown :: "Node option \<Rightarrow> NodeKind" where
  "nodeKindOrUnknown node = (case node of None \<Rightarrow> ''unknown'' | Some n \<Rightarrow> n_Kind n)"

definition resolveParallelResultEnvelope ::
  "BasicGraph \<Rightarrow> nodeResult \<Rightarrow> 's RunOptions \<Rightarrow> nat \<Rightarrow> Envelope option \<Rightarrow> parallelState \<Rightarrow>
     (run_error + Envelope option) \<times> parallelState" where
  "resolveParallelResultEnvelope g result opts attempt previousEnvelope p = (case nr_result result of
       Inr env \<Rightarrow> (Inr env, p)
     | Inl err \<Rightarrow>
         if \<not> ContinueOnError opts then (Inl (ErrNodeExecution (nr_nodeID result) err), p)
         else (Inr previousEnvelope,
           addRecordedError \<lparr>ne_NodeID = nr_nodeID result,
             ne_Kind = nodeKindOrUnknown (NodeByID g (nr_nodeID result)), ne_Message = err,
             ne_Attempt = int attempt\<rparr> p))"

text \<open>A merge successor: not ready, an item to send, or an error.\<close>

definition scheduleMergeSuccessor ::
  "BasicGraph \<Rightarrow> string \<Rightarrow> Node \<Rightarrow> MergeCap \<Rightarrow> Envelope option \<Rightarrow> 's RunOptions \<Rightarrow> parallelState \<Rightarrow>
     (run_error + workItem option) \<times> parallelState" where
  "scheduleMergeSuccessor g succID succNode mergeNode resultEnvelope opts p =
     (let expectedInputs = (if mc_ExpectedInputs mergeNode = 0 then int (length (Predecessors g succID))
                            else mc_ExpectedInputs mergeNode)
      in case addMergeInput succID resultEnvelope expectedInputs p of
           (None, p1) \<Rightarrow> (Inr None, p1)
         | (Some inputs, p1) \<Rightarrow>
             (case mc_MergeInputs mergeNode of
                None \<Rightarrow> (Inr (Some \<lparr>wi_nodeID = succID, wi_envelope = hd inputs\<rparr>), resetNode succID (hd inputs) p1)
              | Some merger \<Rightarrow>
                  (case merger inputs of
                     Inr mergedEnv \<Rightarrow>
                       (Inr (Some \<lparr>wi_nodeID = succID, wi_envelope = mergedEnv\<rparr>), resetNode succID mergedEnv p1)
                   | Inl mergeErr \<Rightarrow>
                       if \<not> ContinueOnError opts then (Inl (ErrMergeFailed succID mergeErr), p1)
                       else (Inr (Some \<lparr>wi_nodeID = succID, wi_envelope = hd inputs\<rparr>),
                         resetNode succID (hd inputs) (addRecordedError \<lparr>ne_NodeID = succID,
                           ne_Kind = n_Kind succNode, ne_Message = mergeErr, ne_Attempt = 0\<rparr> p1)))))"

text \<open>The items to send for a list of successors, and the error that ends the loop if there is one.\<close>

fun scheduleParallelSuccessors ::
  "BasicGraph \<Rightarrow> Envelope option \<Rightarrow> 's RunOptions \<Rightarrow> string list \<Rightarrow> parallelState \<Rightarrow>
     workItem list \<times> run_error option \<times> parallelState" where
  "scheduleParallelSuccessors g resultEnvelope opts [] p = ([], None, p)"
| "scheduleParallelSuccessors g resultEnvelope opts (succID # successors) p = (case NodeByID g succID of
       None \<Rightarrow> scheduleParallelSuccessors g resultEnvelope opts successors p
     | Some succNode \<Rightarrow>
         (case n_merge succNode of
            Some mergeNode \<Rightarrow>
              (case scheduleMergeSuccessor g succID succNode mergeNode resultEnvelope opts p of
                 (Inl err, p1) \<Rightarrow> ([], Some err, p1)
               | (Inr scheduled, p1) \<Rightarrow>
                   (case scheduleParallelSuccessors g resultEnvelope opts successors p1 of (items, err, p2) \<Rightarrow>
                      ((case scheduled of None \<Rightarrow> items | Some item \<Rightarrow> item # items), err, p2)))
          | None \<Rightarrow>
              (case canScheduleSuccessor succID (MaxHops opts) p of (can, p1) \<Rightarrow>
               if \<not> can then scheduleParallelSuccessors g resultEnvelope opts successors p1
               else (case scheduleParallelSuccessors g resultEnvelope opts successors p1 of (items, err, p2) \<Rightarrow>
                       (\<lparr>wi_nodeID = succID, wi_envelope = Clone resultEnvelope\<rparr> # items, err, p2)))))"

text \<open>
  \<open>handleParallelResult\<close>: the result envelope, the items that are sent on the way and the error. \<open>None\<close>
  is the nil dereference in \<open>determineSuccessors\<close>. The envelope recorded for the node is the one that
  \<open>determineSuccessors\<close> leaves, since both are the same object.
\<close>

definition handleParallelResult ::
  "'s RunOptions \<Rightarrow> emit_fn \<Rightarrow> BasicGraph \<Rightarrow> nodeResult \<Rightarrow> parallelState \<Rightarrow> Emitter \<Rightarrow>
     (Envelope option \<times> workItem list \<times> run_error option \<times> parallelState \<times> Emitter) option" where
  "handleParallelResult opts emitf g result p em =
     (case incrementHop (nr_nodeID result) p of (attempt, previousEnvelope, p1) \<Rightarrow>
      (case resolveParallelResultEnvelope g result opts attempt previousEnvelope p1 of
         (Inl err, p2) \<Rightarrow> Some (None, [], Some err, p2, em)
       | (Inr resultEnvelope, p2) \<Rightarrow>
           (case NodeByID g (nr_nodeID result) of
              None \<Rightarrow> Some (resultEnvelope, [], None, markNodeCompleted (nr_nodeID result) resultEnvelope p2, em)
            | Some node \<Rightarrow>
                (case determineSuccessors emitf g node resultEnvelope em of
                   None \<Rightarrow> None
                 | Some (successors, resultEnvelope, em') \<Rightarrow>
                     (case scheduleParallelSuccessors g resultEnvelope opts successors
                             (markNodeCompleted (nr_nodeID result) resultEnvelope p2) of
                        (items, err, p3) \<Rightarrow> Some (resultEnvelope, items, err, p3, em'))))))"


subsection \<open>Main goroutine, workers and channels\<close>

text \<open>
  The main goroutine is receiving, or still has items to send (\<open>y_outbox\<close>), or has decided what to
  return (\<open>y_stop\<close>) and waits for the workers. A worker is idle, executes an item (\<open>y_running\<close>),
  holds a result it could not send yet (\<open>y_blocked\<close>) or has returned (\<open>y_exited\<close> counts these): an idle worker can
  return when the run's context is done, or when the main goroutine has cancelled the workers and closed the work channel. \<open>y_work\<close> and \<open>y_results\<close> are the
  channels, each with room for twice the number of workers. \<open>y_returned\<close> is what the function returned.
\<close>

record System =
  y_p :: parallelState
  y_outbox :: "workItem list"
  y_raise :: "run_error option"
  y_work :: "workItem list"
  y_running :: "workItem list"
  y_blocked :: "nodeResult list"
  y_results :: "nodeResult list"
  y_exited :: nat
  y_pending :: int
  y_final :: "Envelope option"
  y_em :: Emitter
  y_calls :: nat
  y_stop :: "(Envelope option \<times> run_error option) option"
  y_returned :: "(Envelope option \<times> run_error option) option"
  y_crashed :: bool

definition workers :: "'s RunOptions \<Rightarrow> nat" where
  "workers opts = nat (Concurrency opts)"

definition chan_cap :: "'s RunOptions \<Rightarrow> nat" where
  "chan_cap opts = nat (Concurrency opts) * 2"

definition par_init :: "BasicGraph \<Rightarrow> Envelope \<Rightarrow> Emitter \<Rightarrow> System" where
  "par_init g env em = \<lparr>y_p = newParallelState (Entry g) env,
     y_outbox = [\<lparr>wi_nodeID = Entry g, wi_envelope = Some env\<rparr>], y_raise = None, y_work = [], y_running = [],
     y_blocked = [], y_results = [], y_exited = 0, y_pending = 1, y_final = None, y_em = em, y_calls = 0,
     y_stop = None, y_returned = None, y_crashed = False\<rparr>"

text \<open>What the main loop does with one received result.\<close>

definition par_receive :: "'s RunOptions \<Rightarrow> emit_fn \<Rightarrow> BasicGraph \<Rightarrow> Envelope \<Rightarrow> nodeResult \<Rightarrow> System \<Rightarrow> System" where
  "par_receive opts emitf g env r y = (case handleParallelResult opts emitf g r (y_p y) (y_em y) of
       None \<Rightarrow> y\<lparr>y_crashed := True\<rparr>
     | Some (resultEnvelope, items, err, p, em) \<Rightarrow>
         (let y1 = y\<lparr>y_p := p, y_em := em, y_outbox := items, y_raise := err\<rparr>
          in if err \<noteq> None then y1
             else y1\<lparr>y_final := resultEnvelope, y_pending := y_pending y - 1 + int (length items)\<rparr>))"

text \<open>One execution by a worker; a nil envelope is dereferenced.\<close>

definition par_execute :: "emit_fn \<Rightarrow> BasicGraph \<Rightarrow> workItem \<Rightarrow> System \<Rightarrow> System" where
  "par_execute emitf g item y = (case NodeByID g (wi_nodeID item) of
       None \<Rightarrow> y\<lparr>y_blocked := y_blocked y @ [\<lparr>nr_nodeID = wi_nodeID item,
                     nr_result = Inl (''node not found: '' @ wi_nodeID item)\<rparr>]\<rparr>
     | Some node \<Rightarrow>
         (case wi_envelope item of None \<Rightarrow> y\<lparr>y_crashed := True\<rparr>
          | Some e \<Rightarrow>
              (case executeNode emitf (y_calls y) node e (y_em y) of (result, _, em) \<Rightarrow>
                 y\<lparr>y_em := em, y_calls := Suc (y_calls y),
                   y_blocked := y_blocked y @ [\<lparr>nr_nodeID = wi_nodeID item, nr_result = result\<rparr>]\<rparr>)))"

text \<open>The envelope returned by a completed run.\<close>

definition par_result :: "Envelope \<Rightarrow> System \<Rightarrow> Envelope option" where
  "par_result env y = Some (appendRecordedErrors (y_p y) (case y_final y of None \<Rightarrow> env | Some e \<Rightarrow> e))"

definition live :: "System \<Rightarrow> bool" where
  "live y \<longleftrightarrow> \<not> y_crashed y \<and> y_returned y = None"

inductive par_step :: "World \<Rightarrow> 's RunOptions \<Rightarrow> emit_fn \<Rightarrow> BasicGraph \<Rightarrow> Envelope \<Rightarrow> System \<Rightarrow> System \<Rightarrow> bool"
  for w opts emitf g env where
  send: "live y \<Longrightarrow> y_stop y = None \<Longrightarrow> y_outbox y = item # items \<Longrightarrow> length (y_work y) < chan_cap opts \<Longrightarrow>
     par_step w opts emitf g env y (y\<lparr>y_outbox := items, y_work := y_work y @ [item]\<rparr>)"
| take: "live y \<Longrightarrow> y_work y = item # items \<Longrightarrow> length (y_running y) + length (y_blocked y) + y_exited y < workers opts \<Longrightarrow>
     par_step w opts emitf g env y (y\<lparr>y_work := items, y_running := y_running y @ [item]\<rparr>)"
| leave: "live y \<Longrightarrow> w_ctxDone w (y_calls y) \<or> y_stop y \<noteq> None \<Longrightarrow>
     length (y_running y) + length (y_blocked y) + y_exited y < workers opts \<Longrightarrow>
     par_step w opts emitf g env y (y\<lparr>y_exited := Suc (y_exited y)\<rparr>)"
| execute: "live y \<Longrightarrow> y_running y = xs @ item # ys \<Longrightarrow>
     par_step w opts emitf g env y (par_execute emitf g item (y\<lparr>y_running := xs @ ys\<rparr>))"
| deliver: "live y \<Longrightarrow> y_blocked y = xs @ r # ys \<Longrightarrow> length (y_results y) < chan_cap opts \<Longrightarrow>
     par_step w opts emitf g env y (y\<lparr>y_blocked := xs @ ys, y_results := y_results y @ [r]\<rparr>)"
| receive: "live y \<Longrightarrow> y_stop y = None \<Longrightarrow> y_outbox y = [] \<Longrightarrow> y_raise y = None \<Longrightarrow> 0 < y_pending y \<Longrightarrow>
     y_results y = r # rs \<Longrightarrow>
     par_step w opts emitf g env y (par_receive opts emitf g env r (y\<lparr>y_results := rs\<rparr>))"
| canceled: "live y \<Longrightarrow> y_stop y = None \<Longrightarrow> y_outbox y = [] \<Longrightarrow> y_raise y = None \<Longrightarrow> 0 < y_pending y \<Longrightarrow>
     w_ctxDone w (y_calls y) \<Longrightarrow>
     par_step w opts emitf g env y (y\<lparr>y_stop := Some (Some env, Some (ErrRunCanceled (w_ctxErr w)))\<rparr>)"
| fail: "live y \<Longrightarrow> y_stop y = None \<Longrightarrow> y_outbox y = [] \<Longrightarrow> y_raise y = Some err \<Longrightarrow>
     par_step w opts emitf g env y (y\<lparr>y_stop := Some (Some env, Some err)\<rparr>)"
| complete: "live y \<Longrightarrow> y_stop y = None \<Longrightarrow> y_outbox y = [] \<Longrightarrow> y_raise y = None \<Longrightarrow> y_pending y \<le> 0 \<Longrightarrow>
     par_step w opts emitf g env y (y\<lparr>y_stop := Some (par_result env y, None)\<rparr>)"
| return: "live y \<Longrightarrow> y_stop y = Some ret \<Longrightarrow> y_exited y = workers opts \<Longrightarrow>
     par_step w opts emitf g env y (y\<lparr>y_returned := Some ret\<rparr>)"

inductive_cases par_stepE: "par_step w opts emitf g env y y'"

lemmas par_step_cases = par_stepE
  [consumes 1, case_names send take leave execute deliver receive canceled fail complete return]

end
