(* ===== verification/Parallel_Correct.thy ===== *)
theory Parallel_Correct
  imports Runtime_Parallel
begin

section \<open>Correctness of the parallel executor\<close>

text \<open>
  Invariants of the system of main goroutine, workers and channels for every interleaving: the pending
  counter is the number of outstanding items, only reachable nodes are executed, a completed run has
  left nothing undone. Then when the system cannot get stuck, and executions that show where it can:
  a fan-out that is too wide, and a cycle of merge nodes that \<open>MaxHops\<close> does not stop.
\<close>

definition outstanding :: "System \<Rightarrow> nat" where
  "outstanding y = length (y_outbox y) + length (y_work y) + length (y_running y) + length (y_blocked y)
     + length (y_results y)"

definition item_ids :: "System \<Rightarrow> string set" where
  "item_ids y = wi_nodeID ` (set (y_outbox y) \<union> set (y_work y) \<union> set (y_running y))
     \<union> nr_nodeID ` (set (y_blocked y) \<union> set (y_results y))"

definition par_inv :: "'s RunOptions \<Rightarrow> BasicGraph \<Rightarrow> System \<Rightarrow> bool" where
  "par_inv opts g y \<longleftrightarrow>
     (\<not> y_crashed y \<and> y_raise y = None \<longrightarrow> y_pending y = int (outstanding y)) \<and>
     length (y_work y) \<le> chan_cap opts \<and> length (y_results y) \<le> chan_cap opts \<and>
     length (y_running y) + length (y_blocked y) + y_exited y \<le> workers opts \<and>
     item_ids y \<subseteq> reach_from (Successors g) (Entry g)"

text \<open>The items that handling a result schedules are for successors of its node.\<close>

lemma scheduleMerge_item:
  "scheduleMergeSuccessor g i n mc e opts p = (Inr (Some item), p') \<Longrightarrow> wi_nodeID item = i"
  by (auto simp: scheduleMergeSuccessor_def Let_def split: prod.splits option.splits sum.splits if_splits)

lemma schedule_items:
  assumes "scheduleParallelSuccessors g e opts succs p = (items, err, p')"
  shows "wi_nodeID ` set items \<subseteq> set succs"
  using assms
proof (induction g e opts succs p arbitrary: items err p' rule: scheduleParallelSuccessors.induct)
  case (2 g e opts i succs p)
  show ?case
  proof (cases "NodeByID g i")
    case None
    with 2 show ?thesis by auto
  next
    case (Some n)
    show ?thesis
    proof (cases "n_merge n")
      case None
      with Some 2(2)[OF Some None] 2(3)[OF Some None] 2(5) show ?thesis
        by (fastforce split: prod.splits if_splits)
    next
      case (Some mc)
      with \<open>NodeByID g i = Some n\<close> 2(4)[OF \<open>NodeByID g i = Some n\<close> Some] 2(5) show ?thesis
        by (fastforce split: prod.splits sum.splits option.splits dest: scheduleMerge_item)
    qed
  qed
qed auto

lemma handle_items:
  assumes "handleParallelResult opts emitf g r p em = Some (e, items, err, p', em')" "graph_ok g"
  shows "wi_nodeID ` set items \<subseteq> set (Successors g (nr_nodeID r))"
proof -
  have "wi_nodeID ` set items \<subseteq> set succs \<and> set succs \<subseteq> set (Successors g (nr_nodeID r))"
    if "NodeByID g (nr_nodeID r) = Some node" "determineSuccessors emitf g node e1 em = Some (succs, e2, em2)"
      "scheduleParallelSuccessors g e2 opts succs p1 = (items, err, p')" for node e1 succs e2 em2 p1
    using schedule_items[OF that(3)] determineSuccessors_subset[OF that(2)] ok_node_ID[OF assms(2) that(1)] by simp
  with assms(1) show ?thesis
    by (fastforce simp: handleParallelResult_def split: prod.splits sum.splits option.splits)
qed


subsection \<open>The invariant\<close>

lemma par_inv_init: "2 \<le> Concurrency opts \<Longrightarrow> par_inv opts g (par_init g env em)"
  by (auto simp: par_inv_def par_init_def outstanding_def item_ids_def)

lemma par_invD:
  assumes "par_inv opts g y"
  shows "\<not> y_crashed y \<Longrightarrow> y_raise y = None \<Longrightarrow> y_pending y = int (outstanding y)"
    "length (y_work y) \<le> chan_cap opts" "length (y_results y) \<le> chan_cap opts"
    "length (y_running y) + length (y_blocked y) + y_exited y \<le> workers opts"
    "item_ids y \<subseteq> reach_from (Successors g) (Entry g)"
  using assms by (simp_all add: par_inv_def)

lemma par_execute_frame:
  assumes "y' = par_execute emitf g item y"
  shows "y_p y' = y_p y" "y_outbox y' = y_outbox y" "y_raise y' = y_raise y" "y_work y' = y_work y"
    "y_running y' = y_running y" "y_results y' = y_results y" "y_pending y' = y_pending y" "y_final y' = y_final y"
    "y_stop y' = y_stop y" "y_returned y' = y_returned y" "y_exited y' = y_exited y" "y_calls y \<le> y_calls y'"
    "y_crashed y' \<or> (\<exists>r. y_blocked y' = y_blocked y @ [\<lparr>nr_nodeID = wi_nodeID item, nr_result = r\<rparr>])"
    "length (y_blocked y') \<le> Suc (length (y_blocked y))"
    "nr_nodeID ` set (y_blocked y') \<subseteq> insert (wi_nodeID item) (nr_nodeID ` set (y_blocked y))"
  unfolding assms par_execute_def by (auto split: option.split prod.split)

lemma par_receive_frame:
  assumes "y' = par_receive opts emitf g env r y"
  shows "y_work y' = y_work y" "y_running y' = y_running y" "y_blocked y' = y_blocked y"
    "y_results y' = y_results y" "y_stop y' = y_stop y" "y_returned y' = y_returned y" "y_calls y' = y_calls y"
    "y_exited y' = y_exited y"
  unfolding assms par_receive_def by (simp_all add: Let_def split: option.split prod.split)

lemma par_receive_cases:
  obtains (crash) "par_receive opts emitf g env r y = y\<lparr>y_crashed := True\<rparr>"
  | (handled) e items err p em where
      "handleParallelResult opts emitf g r (y_p y) (y_em y) = Some (e, items, err, p, em)"
      "y_outbox (par_receive opts emitf g env r y) = items" "y_raise (par_receive opts emitf g env r y) = err"
      "y_crashed (par_receive opts emitf g env r y) = y_crashed y"
      "err = None \<Longrightarrow> y_pending (par_receive opts emitf g env r y) = y_pending y - 1 + int (length items)"
proof (cases "handleParallelResult opts emitf g r (y_p y) (y_em y)")
  case None
  with crash show thesis by (simp add: par_receive_def)
next
  case (Some x)
  obtain e items err p em where "x = (e, items, err, p, em)" by (cases x) auto
  with Some handled show thesis by (simp add: par_receive_def Let_def)
qed

lemma par_inv_step:
  assumes "graph_ok g" "par_step w opts emitf g env y y'" "par_inv opts g y"
  shows "par_inv opts g y'"
  using assms(2)
proof (cases rule: par_step_cases)
  case (execute xs item ys)
  let ?y = "y\<lparr>y_running := xs @ ys\<rparr>"
  note f = par_execute_frame[OF execute(1)]
  have "wi_nodeID item \<in> reach_from (Successors g) (Entry g)"
    using par_invD(5)[OF assms(3)] execute(3) by (auto simp: item_ids_def)
  then have "nr_nodeID ` set (y_blocked y') \<subseteq> reach_from (Successors g) (Entry g)"
    using subset_trans[OF f(15)] par_invD(5)[OF assms(3)] by (simp add: item_ids_def image_Un)
  then have "item_ids y' \<subseteq> reach_from (Successors g) (Entry g)"
    using f par_invD(5)[OF assms(3)] execute(3) by (simp add: item_ids_def image_Un)
  moreover have "y_pending y' = int (outstanding y')" if "\<not> y_crashed y'" "y_raise y' = None"
  proof -
    have "length (y_blocked y') = Suc (length (y_blocked y))" using f(13) that(1) by auto
    moreover have "y_pending y = int (outstanding y)"
      using par_invD(1)[OF assms(3)] execute(2) that(2) f(3) by (simp add: live_def)
    ultimately show ?thesis using f execute(3) by (simp add: outstanding_def)
  qed
  ultimately show ?thesis using f par_invD(2-4)[OF assms(3)] execute(3) unfolding par_inv_def by auto
next
  case (receive r rs)
  let ?y = "y\<lparr>y_results := rs\<rparr>"
  note f = par_receive_frame[OF receive(1)]
  have r: "nr_nodeID r \<in> reach_from (Successors g) (Entry g)"
    using par_invD(5)[OF assms(3)] receive(7) by (auto simp: item_ids_def)
  have pend: "y_pending y = int (outstanding y)"
    using par_invD(1)[OF assms(3)] receive(2,5) by (simp add: live_def)
  show ?thesis
  proof (cases rule: par_receive_cases[of opts emitf g env r ?y])
    case crash
    with receive par_invD[OF assms(3)] show ?thesis by (auto simp: par_inv_def item_ids_def)
  next
    case (handled e items err p em)
    note h = handled(2-5)[folded receive(1)]
    have "wi_nodeID ` set items \<subseteq> reach_from (Successors g) (Entry g)"
      using handle_items[OF handled(1) assms(1)] r reach_from_step by fast
    then have "item_ids y' \<subseteq> reach_from (Successors g) (Entry g)"
      using f h(1) par_invD(5)[OF assms(3)] receive(7) unfolding item_ids_def by auto
    moreover have "y_pending y' = int (outstanding y')" if "y_raise y' = None"
      using h that f pend receive(4,7) by (simp add: outstanding_def)
    ultimately show ?thesis using f par_invD(2-4)[OF assms(3)] receive(7) unfolding par_inv_def by auto
  qed
qed (use par_invD[OF assms(3)] in \<open>auto simp: par_inv_def item_ids_def outstanding_def live_def\<close>)

definition par_reach :: "World \<Rightarrow> 's RunOptions \<Rightarrow> emit_fn \<Rightarrow> BasicGraph \<Rightarrow> Envelope \<Rightarrow> Emitter \<Rightarrow> System \<Rightarrow> bool" where
  "par_reach w opts emitf g env em y \<longleftrightarrow> (par_step w opts emitf g env)\<^sup>*\<^sup>* (par_init g env em) y"

lemma par_reach_inv:
  assumes "graph_ok g" "2 \<le> Concurrency opts" "par_reach w opts emitf g env em y"
  shows "par_inv opts g y"
  using assms(3) unfolding par_reach_def
  by (induction rule: rtranclp_induct) (auto intro: par_inv_init[OF assms(2)] par_inv_step[OF assms(1)])



subsection \<open>Progress\<close>

lemma outstanding_zero: "outstanding y = 0 \<longleftrightarrow> y_outbox y = [] \<and> y_work y = [] \<and> y_running y = [] \<and>
    y_blocked y = [] \<and> y_results y = []"
  by (auto simp: outstanding_def)

lemma par_step_worker:
  assumes "live y" "y_running y \<noteq> [] \<or> (y_blocked y \<noteq> [] \<and> length (y_results y) < chan_cap opts) \<or>
      (y_work y \<noteq> [] \<and> length (y_running y) + length (y_blocked y) + y_exited y < workers opts)"
  shows "\<exists>y'. par_step w opts emitf g env y y'"
proof -
  consider item ys where "y_running y = [] @ item # ys" | r ys where "y_blocked y = [] @ r # ys" "length (y_results y) < chan_cap opts"
    | item items where "y_work y = item # items" "length (y_running y) + length (y_blocked y) + y_exited y < workers opts"
    using assms(2) by (auto simp: neq_Nil_conv)
  then show ?thesis
  proof cases
    case (1 item ys)
    from par_step.execute[OF assms(1) 1] show ?thesis by blast
  next
    case (2 r ys)
    from par_step.deliver[OF assms(1) 2] show ?thesis by blast
  next
    case (3 item items)
    from par_step.take[OF assms(1) 3] show ?thesis by blast
  qed
qed

text \<open>Workers return only after the context or the main goroutine has told them to.\<close>

definition exit_inv :: "World \<Rightarrow> System \<Rightarrow> bool" where
  "exit_inv w y \<longleftrightarrow> (0 < y_exited y \<longrightarrow> y_stop y \<noteq> None \<or> w_ctxDone w (y_calls y))"

lemma exit_inv_step:
  assumes "\<forall>m n. m \<le> n \<longrightarrow> w_ctxDone w m \<longrightarrow> w_ctxDone w n" "par_step w opts emitf g env y y'" "exit_inv w y"
  shows "exit_inv w y'"
  using assms(2)
proof (cases rule: par_step_cases)
  case (execute xs item ys)
  note f = par_execute_frame[OF execute(1)]
  have "y_calls y \<le> y_calls y'" using f(12) by simp
  with f(9,11) assms(1,3) show ?thesis unfolding exit_inv_def by auto
next
  case (receive r rs)
  with par_receive_frame[OF receive(1)] assms(3) show ?thesis by (auto simp: exit_inv_def)
qed (use assms(3) in \<open>auto simp: exit_inv_def\<close>)

lemma exit_inv_reach:
  assumes "\<forall>m n. m \<le> n \<longrightarrow> w_ctxDone w m \<longrightarrow> w_ctxDone w n" "par_reach w opts emitf g env em y"
  shows "exit_inv w y"
  using assms(2) unfolding par_reach_def
proof (induction rule: rtranclp_induct)
  case base
  show ?case by (simp add: exit_inv_def par_init_def)
next
  case (step y z)
  show ?case by (rule exit_inv_step[OF assms(1) step.hyps(2) step.IH])
qed

text \<open>While the main goroutine waits for the workers: they return one after the other, unless one cannot send its result.\<close>

lemma stopping_moves:
  assumes "par_inv opts g y" "live y" "y_stop y = Some ret" "y_running y = []" "y_blocked y = []"
  shows "\<exists>y'. par_step w opts emitf g env y y'"
proof (cases "y_exited y = workers opts")
  case True
  from par_step.return[OF assms(2,3) True] show ?thesis by blast
next
  case False
  then have "length (y_running y) + length (y_blocked y) + y_exited y < workers opts"
    using par_invD(4)[OF assms(1)] assms(4,5) by simp
  with par_step.leave[OF assms(2)] assms(3) show ?thesis by (metis option.discI)
qed

text \<open>While it receives: a result, a cancellation or the end of the work.\<close>

lemma receiving_moves:
  assumes "par_inv opts g y" "exit_inv w y" "live y" "y_stop y = None" "y_outbox y = []" "y_running y = []"
    and "y_results y = [] \<Longrightarrow> y_blocked y = []" "y_work y \<noteq> [] \<Longrightarrow> length (y_blocked y) + y_exited y = workers opts" "0 < workers opts"
  shows "\<exists>y'. par_step w opts emitf g env y y'"
proof (cases "y_raise y")
  case (Some err)
  from par_step.fail[OF assms(3-5) Some] show ?thesis by blast
next
  case None
  then have pend: "y_pending y = int (outstanding y)" using par_invD(1)[OF assms(1)] assms(3) by (simp add: live_def)
  consider (result) r rs where "y_results y = r # rs" | (work) "y_results y = []" "y_work y \<noteq> []" | (finished) "y_results y = []" "y_work y = []"
    by (meson neq_Nil_conv)
  then show ?thesis
  proof cases
    case result
    then have "0 < y_pending y" using pend by (simp add: outstanding_def)
    with par_step.receive[OF assms(3-5) None _ result] show ?thesis by blast
  next
    case work
    then have "0 < y_exited y" using assms(7-9) by simp
    then have "w_ctxDone w (y_calls y)" using assms(2,4) by (simp add: exit_inv_def)
    moreover have "0 < y_pending y" using pend work(2) by (cases "y_work y") (simp_all add: outstanding_def)
    ultimately show ?thesis using par_step.canceled[OF assms(3-5) None] by blast
  next
    case finished
    then have "y_pending y \<le> 0" using pend assms(5-7) by (simp add: outstanding_def)
    with par_step.complete[OF assms(3-5) None] show ?thesis by blast
  qed
qed

text \<open>
  C6: The parallel executor does not get stuck while it has few enough items in flight. Take a consistent
  graph, at least two workers and a context that stays done once it is done. In every reachable state of a run that has neither returned nor panicked, some goroutine can move, provided at most
  \<open>5 * Concurrency\<close> items, less one for each worker that has returned, are outstanding while the main goroutine is running,
  at most \<open>2 * Concurrency\<close> when it is waiting for the workers to stop, and provided not all workers have returned
  while it still has items to send. (Before the main goroutine stops them, workers return only when the context is done.)
\<close>

theorem parallel_progress:
  assumes "graph_ok g" "2 \<le> Concurrency opts" "\<forall>m n. m \<le> n \<longrightarrow> w_ctxDone w m \<longrightarrow> w_ctxDone w n"
    and "par_reach w opts emitf g env em y" "live y"
    and "int (outstanding y) \<le> (if y_stop y = None then 5 * Concurrency opts - int (y_exited y) else 2 * Concurrency opts)"
    and "y_stop y = None \<longrightarrow> y_outbox y \<noteq> [] \<longrightarrow> int (y_exited y) < Concurrency opts"
  shows "\<exists>y'. par_step w opts emitf g env y y'"
proof (rule ccontr)
  assume stuck: "\<not> ?thesis"
  note par = par_reach_inv[OF assms(1,2,4)] and ex = exit_inv_reach[OF assms(3,4)]
  note inv = par_invD[OF par]
  have caps: "chan_cap opts = 2 * workers opts" "int (workers opts) = Concurrency opts" "0 < workers opts"
    using assms(2) by (simp_all add: chan_cap_def workers_def)
  have run: "y_running y = []" and blk: "y_blocked y \<noteq> [] \<Longrightarrow> length (y_results y) = chan_cap opts"
    and wrk: "y_work y \<noteq> [] \<Longrightarrow> length (y_blocked y) + y_exited y = workers opts"
    using par_step_worker[OF assms(5), of opts w emitf g env] stuck inv(3,4) by fastforce+
  show False
  proof (cases "y_stop y")
    case (Some ret)
    with stuck stopping_moves[OF par assms(5) Some run] have "y_blocked y \<noteq> []" by blast
    moreover from this obtain r rs where "y_blocked y = r # rs" by (auto simp: neq_Nil_conv)
    ultimately show False using blk caps assms(6) Some by (simp add: outstanding_def)
  next
    case None
    show False
    proof (cases "y_outbox y")
      case (Cons item items)
      from stuck par_step.send[OF assms(5) None Cons] inv(2) have full: "length (y_work y) = chan_cap opts"
        by (metis le_neq_implies_less)
      with caps have "y_work y \<noteq> []" by auto
      with wrk have w: "length (y_blocked y) + y_exited y = workers opts" by blast
      with assms(7) None Cons caps(2) have "y_blocked y \<noteq> []" by auto
      with blk full w Cons caps assms(6) None show False by (simp add: outstanding_def)
    next
      case Nil
      have "y_blocked y = []" if "y_results y = []" using blk caps that by fastforce
      from receiving_moves[OF par ex assms(5) None Nil run this wrk caps(3)] stuck show False by blast
    qed
  qed
qed



subsection \<open>What a completed run has done\<close>

lemma record_frame [simp]:
  "recordedErrors (resetNode i e p) = recordedErrors p" "recordedErrors (markNodeCompleted i e p) = recordedErrors p"
  "recordedErrors (snd (canScheduleSuccessor i m p)) = recordedErrors p"
  "recordedErrors (snd (addMergeInput i e k p)) = recordedErrors p"
  "recordedErrors (snd (snd (incrementHop i p))) = recordedErrors p"
  by (simp_all add: resetNode_def markNodeCompleted_def canScheduleSuccessor_def addMergeInput_def incrementHop_def Let_def)

lemma scheduleMerge_errors:
  assumes "\<not> ContinueOnError opts"
  shows "recordedErrors (snd (scheduleMergeSuccessor g i n mc e opts p)) = recordedErrors p"
proof -
  obtain r p1 where a: "addMergeInput i e (if mc_ExpectedInputs mc = 0 then int (length (Predecessors g i))
      else mc_ExpectedInputs mc) p = (r, p1)" by fastforce
  then have "recordedErrors p1 = recordedErrors p" by (metis record_frame(4) snd_conv)
  with a assms show ?thesis
    by (simp add: scheduleMergeSuccessor_def Let_def split: option.split sum.split)
qed

lemma schedule_errors:
  assumes "\<not> ContinueOnError opts"
  shows "recordedErrors (snd (snd (scheduleParallelSuccessors g e opts succs p))) = recordedErrors p"
  using assms
proof (induction g e opts succs p rule: scheduleParallelSuccessors.induct)
  case (2 g e opts i succs p)
  show ?case
  proof (cases "NodeByID g i")
    case None
    with 2 show ?thesis by simp
  next
    case s: (Some n)
    show ?thesis
    proof (cases "n_merge n")
      case None
      obtain can p1 where c: "canScheduleSuccessor i (MaxHops opts) p = (can, p1)" by fastforce
      then have "recordedErrors p1 = recordedErrors p" by (metis record_frame(3) snd_conv)
      with 2(2)[OF s None c[symmetric]] 2(3)[OF s None c[symmetric]] s None c 2(5) show ?thesis
        by (cases can) (simp_all add: split_def)
    next
      case (Some mc)
      obtain r p1 where m: "scheduleMergeSuccessor g i n mc e opts p = (r, p1)" by fastforce
      with scheduleMerge_errors[OF 2(5), of g i n mc e p] have p1: "recordedErrors p1 = recordedErrors p" by simp
      show ?thesis
      proof (cases r)
        case (Inr sch)
        from 2(4)[OF s Some m[symmetric] Inr 2(5)] p1 m s Some Inr show ?thesis by (simp add: split_def)
      qed (use p1 m s Some in simp)
    qed
  qed
qed simp

lemma handle_errors:
  assumes "\<not> ContinueOnError opts" "handleParallelResult opts emitf g r p em = Some (e, items, err, p', em')"
  shows "recordedErrors p' = recordedErrors p"
proof -
  obtain a pe p1 where i: "incrementHop (nr_nodeID r) p = (a, pe, p1)" by (rule prod_cases3)
  then have p1: "recordedErrors p1 = recordedErrors p" by (metis record_frame(5) snd_conv)
  have "recordedErrors p3 = recordedErrors p2"
    if "scheduleParallelSuccessors g e2 opts ss (markNodeCompleted j e2 p2) = (its, er, p3)" for e2 ss j p2 its er p3
    using schedule_errors[OF assms(1), of g e2 ss "markNodeCompleted j e2 p2"] that by simp
  with assms i p1 show ?thesis
    by (auto simp: handleParallelResult_def resolveParallelResultEnvelope_def split: sum.splits option.splits prod.splits)
qed

definition stop_inv :: "'s RunOptions \<Rightarrow> Envelope \<Rightarrow> System \<Rightarrow> bool" where
  "stop_inv opts env y \<longleftrightarrow>
     (\<not> y_crashed y \<longrightarrow> (\<forall>res. y_stop y = Some (res, None) \<longrightarrow> outstanding y = 0 \<and> res = par_result env y)) \<and>
     (y_returned y \<noteq> None \<longrightarrow> y_returned y = y_stop y \<and> \<not> y_crashed y) \<and>
     (\<not> ContinueOnError opts \<longrightarrow> recordedErrors (y_p y) = [])"

lemma stop_inv_step:
  assumes "graph_ok g" "par_step w opts emitf g env y y'" "par_inv opts g y" "stop_inv opts env y"
  shows "stop_inv opts env y'"
  using assms(2)
proof (cases rule: par_step_cases)
  case (execute xs item ys)
  have "\<not> (\<exists>res. y_stop y = Some (res, None))"
    using assms(4) execute(2,3) by (auto simp: stop_inv_def live_def outstanding_def)
  then show ?thesis using par_execute_frame[OF execute(1)] assms(4) execute(2)
    by (auto simp: stop_inv_def live_def)
next
  case (receive r rs)
  note f = par_receive_frame[OF receive(1)]
  have "recordedErrors (y_p y') = []" if "\<not> ContinueOnError opts"
    using that assms(4) handle_errors[OF that, of emitf g r "y_p y" "y_em y"] receive(1)
    by (auto simp: par_receive_def stop_inv_def Let_def split: option.splits prod.splits)
  then show ?thesis using f receive(2,3) by (simp add: stop_inv_def live_def)
next
  case complete
  have "outstanding y = 0" using par_invD(1)[OF assms(3)] complete by (simp add: live_def)
  moreover have "outstanding y' = outstanding y" "par_result env y' = par_result env y"
    by (simp_all add: complete(1) outstanding_def par_result_def)
  ultimately show ?thesis using assms(4) complete by (simp add: stop_inv_def live_def)
qed (use assms(4) in \<open>auto simp: stop_inv_def live_def outstanding_def par_result_def\<close>)

lemma fold_AppendError: "Errors (fold AppendError es e) = Errors e @ es"
  by (induction es arbitrary: e) auto

text \<open>
  C7: When the parallel executor returns without an error, nothing it scheduled is left undone: no item is
  unsent, queued or executing, and no result is unread. The errors of the returned envelope end with
  the recorded ones, and there are none of these unless \<open>ContinueOnError\<close> is set.
\<close>

theorem parallel_completed:
  assumes "graph_ok g" "2 \<le> Concurrency opts" "par_reach w opts emitf g env em y"
    and "y_returned y = Some (res, None)"
  shows "outstanding y = 0 \<and> (\<exists>e. res = Some e \<and>
      Errors e = Errors (case y_final y of None \<Rightarrow> env | Some e \<Rightarrow> e) @ recordedErrors (y_p y)) \<and>
    (\<not> ContinueOnError opts \<longrightarrow> recordedErrors (y_p y) = [])"
proof -
  have "par_inv opts g y \<and> stop_inv opts env y"
    using assms(3) unfolding par_reach_def
  proof (induction rule: rtranclp_induct)
    case base
    have "stop_inv opts env (par_init g env em)"
      by (simp add: stop_inv_def par_init_def newParallelState_def)
    with par_inv_init[OF assms(2)] show ?case by blast
  next
    case (step y y')
    then show ?case using par_inv_step[OF assms(1)] stop_inv_step[OF assms(1)] by blast
  qed
  then have inv: "stop_inv opts env y" by blast
  then have "y_stop y = Some (res, None)" "\<not> y_crashed y" using assms(4) by (simp_all add: stop_inv_def)
  with inv have "outstanding y = 0" "res = par_result env y" "\<not> ContinueOnError opts \<longrightarrow> recordedErrors (y_p y) = []"
    unfolding stop_inv_def by blast+
  then show ?thesis by (simp add: par_result_def appendRecordedErrors_def fold_AppendError)
qed



subsection \<open>Executions\<close>

text \<open>A schedule chooses which goroutine moves next.\<close>

datatype choice = CSend | CTake | CLeave | CExecute | CDeliver | CReceive | CStop | CReturn

fun par_do :: "'s RunOptions \<Rightarrow> emit_fn \<Rightarrow> BasicGraph \<Rightarrow> Envelope \<Rightarrow> choice \<Rightarrow> System \<Rightarrow> System option" where
  "par_do opts emitf g env CSend y = (case y_outbox y of
       item # items \<Rightarrow> if live y \<and> y_stop y = None \<and> length (y_work y) < chan_cap opts
                       then Some (y\<lparr>y_outbox := items, y_work := y_work y @ [item]\<rparr>) else None
     | [] \<Rightarrow> None)"
| "par_do opts emitf g env CTake y = (case y_work y of
       item # items \<Rightarrow> if live y \<and> length (y_running y) + length (y_blocked y) + y_exited y < workers opts
                       then Some (y\<lparr>y_work := items, y_running := y_running y @ [item]\<rparr>) else None
     | [] \<Rightarrow> None)"
| "par_do opts emitf g env CLeave y =
     (if live y \<and> y_stop y \<noteq> None \<and> length (y_running y) + length (y_blocked y) + y_exited y < workers opts
      then Some (y\<lparr>y_exited := Suc (y_exited y)\<rparr>) else None)"
| "par_do opts emitf g env CExecute y = (case y_running y of
       item # items \<Rightarrow> if live y then Some (par_execute emitf g item (y\<lparr>y_running := items\<rparr>)) else None
     | [] \<Rightarrow> None)"
| "par_do opts emitf g env CDeliver y = (case y_blocked y of
       r # rs \<Rightarrow> if live y \<and> length (y_results y) < chan_cap opts
                 then Some (y\<lparr>y_blocked := rs, y_results := y_results y @ [r]\<rparr>) else None
     | [] \<Rightarrow> None)"
| "par_do opts emitf g env CReceive y = (case y_results y of
       r # rs \<Rightarrow> if live y \<and> y_stop y = None \<and> y_outbox y = [] \<and> y_raise y = None \<and> 0 < y_pending y
                 then Some (par_receive opts emitf g env r (y\<lparr>y_results := rs\<rparr>)) else None
     | [] \<Rightarrow> None)"
| "par_do opts emitf g env CStop y =
     (if live y \<and> y_stop y = None \<and> y_outbox y = [] then
        (case y_raise y of
           Some err \<Rightarrow> Some (y\<lparr>y_stop := Some (Some env, Some err)\<rparr>)
         | None \<Rightarrow> if y_pending y \<le> 0 then Some (y\<lparr>y_stop := Some (par_result env y, None)\<rparr>) else None)
      else None)"
| "par_do opts emitf g env CReturn y = (case y_stop y of
       Some ret \<Rightarrow> if live y \<and> y_exited y = workers opts then Some (y\<lparr>y_returned := Some ret\<rparr>) else None
     | None \<Rightarrow> None)"

fun par_run :: "'s RunOptions \<Rightarrow> emit_fn \<Rightarrow> BasicGraph \<Rightarrow> Envelope \<Rightarrow> choice list \<Rightarrow> System \<Rightarrow> System option" where
  "par_run opts emitf g env [] y = Some y"
| "par_run opts emitf g env (c # cs) y = (case par_do opts emitf g env c y of
       None \<Rightarrow> None
     | Some y' \<Rightarrow> par_run opts emitf g env cs y')"

lemma par_do_step:
  assumes "par_do opts emitf g env c y = Some y'" shows "par_step w opts emitf g env y y'"
proof (cases c)
  case CExecute
  with assms obtain item items where "live y" "y_running y = [] @ item # items"
      "y' = par_execute emitf g item (y\<lparr>y_running := [] @ items\<rparr>)"
    by (auto split: list.splits if_splits)
  then show ?thesis using par_step.execute by metis
next
  case CDeliver
  with assms obtain r rs where "live y" "y_blocked y = [] @ r # rs" "length (y_results y) < chan_cap opts"
      "y' = y\<lparr>y_blocked := [] @ rs, y_results := y_results y @ [r]\<rparr>"
    by (auto split: list.splits if_splits)
  then show ?thesis using par_step.deliver by metis
qed (use assms in \<open>auto split: list.splits if_splits option.splits intro: par_step.intros\<close>)

lemma par_run_steps:
  "par_run opts emitf g env cs y = Some y' \<Longrightarrow> (par_step w opts emitf g env)\<^sup>*\<^sup>* y y'"
  by (induction cs arbitrary: y)
    (auto split: option.splits dest!: par_do_step[of opts emitf g env _ _ _ w] intro: converse_rtranclp_into_rtranclp)

text \<open>Main goroutine and workers wait for each other: both channels are full.\<close>

definition deadlocked :: "'s RunOptions \<Rightarrow> System \<Rightarrow> bool" where
  "deadlocked opts y \<longleftrightarrow> live y \<and> y_stop y = None \<and> y_outbox y \<noteq> [] \<and> chan_cap opts \<le> length (y_work y) \<and>
     y_running y = [] \<and> workers opts \<le> length (y_blocked y) \<and> chan_cap opts \<le> length (y_results y)"

lemma deadlocked_stuck: "deadlocked opts y \<Longrightarrow> \<not> par_step w opts emitf g env y y'"
  by (auto simp: deadlocked_def elim!: par_stepE)

definition fan_graph :: "nat \<Rightarrow> BasicGraph" where
  "fan_graph n = (let leaves = map (\<lambda>i. CHR ''n'' # show_nat i) [0..<n]
     in noop_graph (''a'' # leaves) (map (\<lambda>l. (''a'', l)) leaves) ''a'')"

definition two_workers :: "unit RunOptions" where
  "two_workers = DefaultRunOptions\<lparr>Concurrency := 2\<rparr>"

text \<open>The entry runs; then the workers keep executing while the main goroutine sends the leaves.\<close>

definition fan_schedule :: "choice list" where
  "fan_schedule = [CSend, CTake, CExecute, CDeliver, CReceive]
     @ concat (replicate 4 [CSend, CTake, CExecute, CDeliver])
     @ concat (replicate 2 [CSend, CTake, CExecute]) @ replicate 4 CSend"

text \<open>
  C40: The parallel executor can deadlock on a wide fan-out. With two workers and an entry node with 11
  successors there is an execution after which the main goroutine waits for room in the work channel, both
  workers wait for room in the result channel, and no goroutine can ever move again, although the run has
  neither returned nor panicked and the context's cancellation is not consulted.
\<close>

theorem parallel_deadlock:
  "\<exists>y. par_reach w two_workers emit (fan_graph 11) NewEnvelope new_emitter y \<and> live y \<and>
     (\<nexists>y'. par_step w two_workers emit (fan_graph 11) NewEnvelope y y')"
proof -
  have "case par_run two_workers emit (fan_graph 11) NewEnvelope fan_schedule
      (par_init (fan_graph 11) NewEnvelope new_emitter) of None \<Rightarrow> False | Some y \<Rightarrow> deadlocked two_workers y"
    by code_simp
  then obtain y where y: "par_run two_workers emit (fan_graph 11) NewEnvelope fan_schedule
      (par_init (fan_graph 11) NewEnvelope new_emitter) = Some y" "deadlocked two_workers y"
    by (auto split: option.splits)
  with par_run_steps[OF y(1)] deadlocked_stuck show ?thesis
    unfolding par_reach_def by (fastforce simp: deadlocked_def)
qed


definition demo_schedule :: "choice list" where
  "demo_schedule = concat (replicate 2 [CSend, CTake, CExecute, CDeliver, CReceive]) @ [CStop, CLeave, CLeave, CReturn]"

lemma demo_parallel_run:
  "case par_run two_workers emit demo_graph NewEnvelope demo_schedule (par_init demo_graph NewEnvelope new_emitter) of
     None \<Rightarrow> False | Some y \<Rightarrow> case y_returned y of Some (Some e, None) \<Rightarrow> True | _ \<Rightarrow> False"
  by code_simp

theorem parallel_completed_witness:
  "\<exists>y e. par_reach demo_world two_workers emit demo_graph NewEnvelope new_emitter y \<and>
     y_returned y = Some (Some e, None) \<and> outstanding y = 0"
proof -
  obtain y e where y: "par_run two_workers emit demo_graph NewEnvelope demo_schedule
      (par_init demo_graph NewEnvelope new_emitter) = Some y" "y_returned y = Some (Some e, None)"
    using demo_parallel_run by (auto split: option.splits prod.splits)
  have r: "par_reach demo_world two_workers emit demo_graph NewEnvelope new_emitter y"
    using par_run_steps[OF y(1)] by (simp add: par_reach_def)
  have "2 \<le> Concurrency two_workers" by (simp add: two_workers_def)
  from parallel_completed[OF demo_facts(1) this r y(2)] r y(2) show ?thesis by blast
qed

theorem parallel_progress_witness:
  "\<exists>y'. par_step demo_world two_workers emit demo_graph NewEnvelope (par_init demo_graph NewEnvelope new_emitter) y'"
  by (rule parallel_progress[OF demo_facts(1), where em = new_emitter])
    (simp_all add: two_workers_def par_reach_def par_init_def live_def outstanding_def demo_world_def)

text \<open>
  A cancellation can leave the main goroutine waiting for ever. With two workers and an entry node with 5 successors: when
  the context ends after the entry node has run, both workers return, the main goroutine fills the work channel and waits for
  room that no one makes; it would see the cancellation only after its last send.
\<close>

definition left_alone :: "'s RunOptions \<Rightarrow> System \<Rightarrow> bool" where
  "left_alone opts y \<longleftrightarrow> live y \<and> y_stop y = None \<and> y_outbox y \<noteq> [] \<and> chan_cap opts \<le> length (y_work y) \<and>
     y_running y = [] \<and> y_blocked y = [] \<and> workers opts \<le> y_exited y"

lemma left_alone_stuck: "left_alone opts y \<Longrightarrow> \<not> par_step w opts emitf g env y y'"
  by (auto simp: left_alone_def elim!: par_stepE)

definition start_fan :: "choice list" where
  "start_fan = [CSend, CTake, CExecute, CDeliver, CReceive]"

theorem parallel_cancel_deadlock:
  assumes "w_ctxDone w 1"
  shows "\<exists>y. par_reach w two_workers emit (fan_graph 5) NewEnvelope new_emitter y \<and> live y \<and>
     (\<nexists>y'. par_step w two_workers emit (fan_graph 5) NewEnvelope y y')"
proof -
  let ?step = "par_step w two_workers emit (fan_graph 5) NewEnvelope" and ?run = "par_run two_workers emit (fan_graph 5) NewEnvelope"
  have "case ?run start_fan (par_init (fan_graph 5) NewEnvelope new_emitter) of None \<Rightarrow> False
    | Some y \<Rightarrow> live y \<and> y_calls y = 1 \<and> length (y_running y) + length (y_blocked y) + y_exited y = 0 \<and>
        (case ?run (replicate 4 CSend) (y\<lparr>y_exited := 2\<rparr>) of None \<Rightarrow> False | Some z \<Rightarrow> left_alone two_workers z)"
    by code_simp
  then obtain y z where y: "?run start_fan (par_init (fan_graph 5) NewEnvelope new_emitter) = Some y" "live y" "y_calls y = 1"
      "length (y_running y) + length (y_blocked y) + y_exited y = 0"
    and z: "?run (replicate 4 CSend) (y\<lparr>y_exited := 2\<rparr>) = Some z" "left_alone two_workers z"
    by (auto split: option.splits)
  let ?y1 = "y\<lparr>y_exited := 1\<rparr>"
  have two: "workers two_workers = 2" by (simp add: workers_def two_workers_def)
  have "?step y (y\<lparr>y_exited := Suc (y_exited y)\<rparr>)"
    by (rule par_step.leave) (use y assms two in simp_all)
  moreover have "?step ?y1 (?y1\<lparr>y_exited := Suc (y_exited ?y1)\<rparr>)"
    by (rule par_step.leave) (use y assms two in \<open>simp_all add: live_def\<close>)
  ultimately have "?step y ?y1" "?step ?y1 (y\<lparr>y_exited := 2\<rparr>)" using y(4) by (simp_all add: numeral_2_eq_2)
  then have "?step\<^sup>*\<^sup>* y (y\<lparr>y_exited := 2\<rparr>)" by (meson converse_rtranclp_into_rtranclp rtranclp.rtrancl_refl)
  then have "?step\<^sup>*\<^sup>* (par_init (fan_graph 5) NewEnvelope new_emitter) z"
    using par_run_steps[OF y(1), of w] par_run_steps[OF z(1), of w] by (meson rtranclp_trans)
  then show ?thesis using left_alone_stuck[OF z(2)] z(2) unfolding par_reach_def left_alone_def by blast
qed


subsection \<open>Continuing after an error\<close>

definition fail_node :: "string \<Rightarrow> Node" where
  "fail_node i = NewFuncNode i (Some (\<lambda>_ env. \<lparr>ro_env = env, ro_result = Inl ''boom'', ro_events = []\<rparr>))"

definition failing_graph :: BasicGraph where
  "failing_graph = graph_of [NewNoopNode ''a'', fail_node ''b'', NewNoopNode ''c'']
     [(''a'', ''b''), (''b'', ''c'')] ''a''"

text \<open>
  With \<open>ContinueOnError\<close>, the two executors treat a failing node in the middle of a chain
  differently. The sequential one records the error and executes the rest. The parallel one has no
  envelope for a node that has not completed before: it goes on with nil and panics.
\<close>

theorem parallel_continue_panics:
  "(case executeGraphSequential demo_world (two_workers\<lparr>ContinueOnError := True\<rparr>) emit failing_graph NewEnvelope ((), new_emitter) of
      Some (Some e, None, _, em) \<Rightarrow> map ne_NodeID (Errors e) = [''b''] \<and> ids_of EventNodeStarted em = [''a'', ''b'', ''c'']
    | _ \<Rightarrow> False) \<and>
   (\<exists>y. par_reach demo_world (two_workers\<lparr>ContinueOnError := True\<rparr>) emit failing_graph NewEnvelope new_emitter y \<and> y_crashed y)"
proof
  let ?o = "two_workers\<lparr>ContinueOnError := True\<rparr>"
  show "case executeGraphSequential demo_world ?o emit failing_graph NewEnvelope ((), new_emitter) of
      Some (Some e, None, _, em) \<Rightarrow> map ne_NodeID (Errors e) = [''b''] \<and> ids_of EventNodeStarted em = [''a'', ''b'', ''c'']
    | _ \<Rightarrow> False"
    by code_simp
  have "case par_run ?o emit failing_graph NewEnvelope (concat (replicate 2 [CSend, CTake, CExecute, CDeliver, CReceive]))
      (par_init failing_graph NewEnvelope new_emitter) of None \<Rightarrow> False | Some y \<Rightarrow> y_crashed y"
    by code_simp
  then obtain y where "par_run ?o emit failing_graph NewEnvelope (concat (replicate 2 [CSend, CTake, CExecute, CDeliver, CReceive]))
      (par_init failing_graph NewEnvelope new_emitter) = Some y" "y_crashed y"
    by (auto split: option.splits)
  then show "\<exists>y. par_reach demo_world ?o emit failing_graph NewEnvelope new_emitter y \<and> y_crashed y"
    using par_run_steps unfolding par_reach_def by blast
qed


subsection \<open>A cycle that MaxHops does not stop\<close>

definition merge_node :: "string \<Rightarrow> Node" where
  "merge_node i = (NewNoopNode i)\<lparr>n_Kind := NodeKindMerge,
     n_merge := Some \<lparr>mc_ExpectedInputs = 0, mc_MergeInputs = None\<rparr>\<rparr>"

definition loop_graph :: BasicGraph where
  "loop_graph = graph_of [merge_node ''m''] [(''m'', ''m'')] ''m''"

lemma loop_graph_facts:
  "NodeByID loop_graph ''m'' = Some (merge_node ''m'')" "Successors loop_graph ''m'' = [''m'']"
  "Predecessors loop_graph ''m'' = [''m'']" "Entry loop_graph = ''m''"
  by (simp_all add: loop_graph_def graph_of_def graph_op_defs merge_node_def NodeByID_def Successors_def
      Predecessors_def Entry_def)

definition loop_state :: "nat \<Rightarrow> System \<Rightarrow> bool" where
  "loop_state n y \<longleftrightarrow> live y \<and> y_stop y = None \<and> y_raise y = None \<and> y_work y = [] \<and> y_running y = [] \<and>
     y_blocked y = [] \<and> y_results y = [] \<and> y_exited y = 0 \<and> y_pending y = 1 \<and> y_calls y = n \<and>
     y_outbox y = [\<lparr>wi_nodeID = ''m'', wi_envelope = Some NewEnvelope\<rparr>] \<and>
     inputs_at (y_p y) ''m'' = replicate n (Some NewEnvelope)"

lemma NewEnvelope_no_redirect: "GetVar NewEnvelope k = None"
  by (simp add: NewEnvelope_def GetVar_def)

lemma merge_node_simps [simp]:
  "n_ID (merge_node i) = i" "n_isRouter (merge_node i) = False"
  "n_merge (merge_node i) = Some \<lparr>mc_ExpectedInputs = 0, mc_MergeInputs = None\<rparr>"
  "n_Run (merge_node i) c env = \<lparr>ro_env = env, ro_result = Inr (Some env), ro_events = []\<rparr>"
  by (simp_all add: merge_node_def NewNoopNode_def)

lemma inputs_frame [simp]:
  "inputs_at (markNodeCompleted i e p) j = inputs_at p j" "inputs_at (resetNode i e p) j = inputs_at p j"
  "inputs_at (p\<lparr>states := s\<rparr>) j = inputs_at p j"
  by (simp_all add: markNodeCompleted_def resetNode_def inputs_at_def)

lemma loop_step:
  assumes "loop_state n y"
  shows "\<exists>y'. par_run two_workers emit loop_graph NewEnvelope [CSend, CTake, CExecute, CDeliver, CReceive] y = Some y' \<and>
    loop_state (Suc n) y'"
proof -
  have "hd (replicate n (Some NewEnvelope) @ [Some NewEnvelope]) = Some NewEnvelope" by (cases n) simp_all
  moreover have "mget (mergeInputs (p\<lparr>mergeInputs := mput i xs (mergeInputs p)\<rparr>)) i = Some xs" for p i xs by simp
  ultimately show ?thesis using assms
    by (simp add: loop_state_def live_def two_workers_def DefaultRunOptions_def chan_cap_def workers_def
        par_execute_def par_receive_def loop_graph_facts executeNode_emit handleParallelResult_def incrementHop_def
        Let_def resolveParallelResultEnvelope_def determineSuccessors_def gate_redirect_def NewEnvelope_no_redirect
        scheduleMergeSuccessor_def addMergeInput_def inputs_at_def replicate_append_same
        markNodeCompleted_def resetNode_def)
qed

text \<open>
  \<open>MaxHops\<close> does not bound a parallel run through merge nodes. A merge node with an edge to itself is
  executed any number of times, although \<open>MaxHops\<close> is 100: its hop count is reset whenever it is
  scheduled, and its collected inputs are never cleared, so every arrival fires it again.
\<close>

theorem parallel_cycle_unbounded:
  "MaxHops two_workers = 100 \<and>
   (\<forall>n. \<exists>y. par_reach w two_workers emit loop_graph NewEnvelope new_emitter y \<and> live y \<and> y_calls y = n)"
proof (intro conjI allI)
  show "MaxHops two_workers = 100" by (simp add: two_workers_def DefaultRunOptions_def)
  fix n
  have "\<exists>y. par_reach w two_workers emit loop_graph NewEnvelope new_emitter y \<and> loop_state n y"
  proof (induction n)
    case 0
    have "loop_state 0 (par_init loop_graph NewEnvelope new_emitter)"
      by (simp add: loop_state_def par_init_def live_def loop_graph_facts inputs_at_def newParallelState_def)
    then show ?case unfolding par_reach_def by blast
  next
    case (Suc n)
    then obtain y where y: "par_reach w two_workers emit loop_graph NewEnvelope new_emitter y" "loop_state n y" by blast
    from loop_step[OF y(2)] obtain y' where y': "par_run two_workers emit loop_graph NewEnvelope
        [CSend, CTake, CExecute, CDeliver, CReceive] y = Some y'" "loop_state (Suc n) y'" by blast
    with y(1) par_run_steps[OF y'(1)] show ?case unfolding par_reach_def by (meson rtranclp_trans)
  qed
  then show "\<exists>y. par_reach w two_workers emit loop_graph NewEnvelope new_emitter y \<and> live y \<and> y_calls y = n"
    by (auto simp: loop_state_def)
qed


subsection \<open>Merge nodes are barriers\<close>

text \<open>The results of predecessors arriving one after the other at a merge node.\<close>

fun arrivals :: "BasicGraph \<Rightarrow> string \<Rightarrow> Node \<Rightarrow> MergeCap \<Rightarrow> 's RunOptions \<Rightarrow> Envelope option list \<Rightarrow> parallelState \<Rightarrow>
    (run_error + workItem option) list \<times> parallelState" where
  "arrivals g i n mc opts [] p = ([], p)"
| "arrivals g i n mc opts (e # es) p = (case scheduleMergeSuccessor g i n mc e opts p of (r, p1) \<Rightarrow>
     (case arrivals g i n mc opts es p1 of (rs, p2) \<Rightarrow> (r # rs, p2)))"

text \<open>What the last arrival schedules: the merge of all inputs in the order of their arrival.\<close>

definition fired :: "string \<Rightarrow> MergeCap \<Rightarrow> 's RunOptions \<Rightarrow> Envelope option list \<Rightarrow> run_error + workItem option" where
  "fired i mc opts inputs = (case mc_MergeInputs mc of
       None \<Rightarrow> Inr (Some \<lparr>wi_nodeID = i, wi_envelope = hd inputs\<rparr>)
     | Some merger \<Rightarrow> (case merger inputs of
           Inr merged \<Rightarrow> Inr (Some \<lparr>wi_nodeID = i, wi_envelope = merged\<rparr>)
         | Inl err \<Rightarrow> if ContinueOnError opts then Inr (Some \<lparr>wi_nodeID = i, wi_envelope = hd inputs\<rparr>)
                     else Inl (ErrMergeFailed i err)))"

definition expected :: "BasicGraph \<Rightarrow> string \<Rightarrow> MergeCap \<Rightarrow> int" where
  "expected g i mc = (if mc_ExpectedInputs mc = 0 then int (length (Predecessors g i)) else mc_ExpectedInputs mc)"

lemma merge_waits:
  assumes "int (Suc (length (inputs_at p i))) < expected g i mc"
  shows "\<exists>p1. scheduleMergeSuccessor g i n mc e opts p = (Inr None, p1) \<and> inputs_at p1 i = inputs_at p i @ [e]"
  using assms by (auto simp: scheduleMergeSuccessor_def addMergeInput_def Let_def expected_def inputs_at_def)

lemma merge_fires:
  assumes "expected g i mc \<le> int (Suc (length (inputs_at p i)))"
  shows "fst (scheduleMergeSuccessor g i n mc e opts p) = fired i mc opts (inputs_at p i @ [e])"
  using assms
  by (auto simp: scheduleMergeSuccessor_def addMergeInput_def Let_def expected_def fired_def split: option.split sum.split)

lemma arrivals_from:
  assumes "es \<noteq> []" "int (length (inputs_at p i @ es)) = expected g i mc"
  shows "fst (arrivals g i n mc opts es p) = replicate (length es - 1) (Inr None) @ [fired i mc opts (inputs_at p i @ es)]"
  using assms
proof (induction es arbitrary: p)
  case (Cons e es)
  show ?case
  proof (cases "es = []")
    case True
    with Cons.prems merge_fires[of g i mc p n e opts] show ?thesis by (simp add: split_def)
  next
    case False
    then have "int (Suc (length (inputs_at p i))) < expected g i mc"
      using Cons.prems(2) by (cases es) auto
    from merge_waits[OF this, of n e opts] obtain p1 where
      p1: "scheduleMergeSuccessor g i n mc e opts p = (Inr None, p1)" "inputs_at p1 i = inputs_at p i @ [e]" by blast
    with Cons.IH[of p1] Cons.prems(2) False have
      "fst (arrivals g i n mc opts es p1) = replicate (length es - 1) (Inr None) @ [fired i mc opts (inputs_at p i @ e # es)]"
      by simp
    moreover have "replicate (length es) x = x # replicate (length es - 1) x" for x :: "run_error + workItem option"
      using False by (cases es) auto
    ultimately show ?thesis using p1(1) by (simp add: split_def)
  qed
qed simp

text \<open>
  C8: A merge node is a barrier. While fewer inputs than expected have arrived (its configured number, or
  the number of its predecessors), nothing is scheduled; the arrival that completes them schedules the
  node exactly once, with the merge of all inputs in the order of their arrival, and with the documented
  fallback or error when merging fails.
\<close>

theorem merge_barrier:
  assumes "es \<noteq> []" "int (length es) = expected g i mc" "inputs_at p i = []"
  shows "fst (arrivals g i n mc opts es p) = replicate (length es - 1) (Inr None) @ [fired i mc opts es]"
  using arrivals_from[of es p i g mc n opts] assms by simp

theorem merge_barrier_witness:
  "fst (arrivals demo_graph ''m'' (merge_node ''m'') \<lparr>mc_ExpectedInputs = 2, mc_MergeInputs = None\<rparr> two_workers
      [Some NewEnvelope, None] (newParallelState ''a'' NewEnvelope))
    = [Inr None, Inr (Some \<lparr>wi_nodeID = ''m'', wi_envelope = Some NewEnvelope\<rparr>)]"
  using merge_barrier[of "[Some NewEnvelope, None]" demo_graph "''m''" "\<lparr>mc_ExpectedInputs = 2, mc_MergeInputs = None\<rparr>"
      "newParallelState ''a'' NewEnvelope" "merge_node ''m''" two_workers]
  by (simp add: expected_def fired_def inputs_at_def newParallelState_def numeral_2_eq_2)

end
