(* ===== verification/Expr_Lexer.thy ===== *)
theory Expr_Lexer
  imports PF_Values
begin

section \<open>Condition expressions: the lexer\<close>

text \<open>
  \<open>nodes/conditional/expr/lexer.go\<close>. The lexer state (source, position, tokens so far) is the rest of
  the source, the position and the tokens. Text is bytes; \<open>DecodeRuneInString\<close> decodes UTF-8 as Go's
  does. The letter, digit and space tables of Go's package \<open>unicode\<close> are exact for ASCII and the
  argument \<open>uc\<close> beyond it.
\<close>

datatype TokenKind =
    TokenIdent | TokenNumber | TokenString
  | TokenEq | TokenNeq | TokenGt | TokenGte | TokenLt | TokenLte | TokenAnd | TokenOr | TokenNot | TokenNullCoal
  | TokenIn | TokenHas | TokenContains | TokenStartsWith | TokenEndsWith | TokenMatches
  | TokenDot | TokenLBracket | TokenRBracket | TokenLParen | TokenRParen | TokenComma
  | TokenTrue | TokenFalse | TokenNull | TokenEOF

datatype Token = Token (Kind: TokenKind) (Value: string) (Pos: nat)

datatype lex_error = UnexpectedChar nat nat | UnterminatedString nat

definition keyword_table :: "TokenKind gomap" where
  "keyword_table = [(''in'', TokenIn), (''has'', TokenHas), (''contains'', TokenContains),
     (''startsWith'', TokenStartsWith), (''endsWith'', TokenEndsWith), (''matches'', TokenMatches),
     (''true'', TokenTrue), (''false'', TokenFalse), (''null'', TokenNull)]"


subsection \<open>Runes\<close>

record unicode =
  uc_IsLetter :: "nat \<Rightarrow> bool"
  uc_IsDigit :: "nat \<Rightarrow> bool"
  uc_IsSpace :: "nat \<Rightarrow> bool"

definition cont_in :: "nat \<Rightarrow> nat \<Rightarrow> char \<Rightarrow> bool" where
  "cont_in lo hi c \<longleftrightarrow> lo \<le> byte c \<and> byte c \<le> hi"

definition RuneError :: nat where "RuneError = 65533"

definition DecodeRune :: "string \<Rightarrow> nat \<times> nat" where
  "DecodeRune s = (case s of
       [] \<Rightarrow> (RuneError, 0)
     | c # t \<Rightarrow>
         (let b0 = byte c in
          if b0 < 128 then (b0, 1)
          else if b0 < 194 \<or> 244 < b0 then (RuneError, 1)
          else if b0 < 224 then (case t of
              c1 # _ \<Rightarrow> if cont_in 128 191 c1 then ((b0 mod 32) * 64 + byte c1 mod 64, 2) else (RuneError, 1)
            | _ \<Rightarrow> (RuneError, 1))
          else if b0 < 240 then (case t of
              c1 # c2 # _ \<Rightarrow>
                if cont_in (if b0 = 224 then 160 else 128) (if b0 = 237 then 159 else 191) c1 \<and> cont_in 128 191 c2
                then ((b0 mod 16) * 4096 + (byte c1 mod 64) * 64 + byte c2 mod 64, 3) else (RuneError, 1)
            | _ \<Rightarrow> (RuneError, 1))
          else (case t of
              c1 # c2 # c3 # _ \<Rightarrow>
                if cont_in (if b0 = 240 then 144 else 128) (if b0 = 244 then 143 else 191) c1
                   \<and> cont_in 128 191 c2 \<and> cont_in 128 191 c3
                then ((b0 mod 8) * 262144 + (byte c1 mod 64) * 4096 + (byte c2 mod 64) * 64 + byte c3 mod 64, 4)
                else (RuneError, 1)
            | _ \<Rightarrow> (RuneError, 1))))"

lemma DecodeRune_size:
  "s \<noteq> [] \<Longrightarrow> 0 < snd (DecodeRune s)" "snd (DecodeRune s) \<le> length s"
  by (auto simp: DecodeRune_def Let_def split: list.split)

lemma DecodeRune_ascii: "byte c < 128 \<Longrightarrow> DecodeRune (c # s) = (byte c, 1)"
  by (simp add: DecodeRune_def)

definition is_digit :: "nat \<Rightarrow> bool" where
  "is_digit ch \<longleftrightarrow> 48 \<le> ch \<and> ch \<le> 57"

definition IsLetter :: "unicode \<Rightarrow> nat \<Rightarrow> bool" where
  "IsLetter uc ch = (if ch < 128 then 65 \<le> ch \<and> ch \<le> 90 \<or> 97 \<le> ch \<and> ch \<le> 122 else uc_IsLetter uc ch)"

definition IsDigit :: "unicode \<Rightarrow> nat \<Rightarrow> bool" where
  "IsDigit uc ch = (if ch < 128 then is_digit ch else uc_IsDigit uc ch)"

definition IsSpace :: "unicode \<Rightarrow> nat \<Rightarrow> bool" where
  "IsSpace uc ch = (if ch < 128 then 9 \<le> ch \<and> ch \<le> 13 \<or> ch = 32 else uc_IsSpace uc ch)"

definition isIdentStart :: "unicode \<Rightarrow> nat \<Rightarrow> bool" where
  "isIdentStart uc ch \<longleftrightarrow> ch = 95 \<or> IsLetter uc ch"

definition isIdentPart :: "unicode \<Rightarrow> nat \<Rightarrow> bool" where
  "isIdentPart uc ch \<longleftrightarrow> ch = 95 \<or> IsLetter uc ch \<or> IsDigit uc ch"

text \<open>The number of bytes at the front that are runes of a class.\<close>

function rune_span :: "(nat \<Rightarrow> bool) \<Rightarrow> string \<Rightarrow> nat" where
  "rune_span P s = (if s = [] then 0
     else if P (fst (DecodeRune s)) then snd (DecodeRune s) + rune_span P (drop (snd (DecodeRune s)) s) else 0)"
  by pat_completeness auto
termination
  by (relation "measure (\<lambda>(P, s). length s)") (auto simp: DecodeRune_size)

declare rune_span.simps [simp del]

lemma rune_span_le: "rune_span P s \<le> length s"
proof (induction P s rule: rune_span.induct)
  case (1 P s)
  then show ?case using DecodeRune_size(2)[of s] by (subst rune_span.simps) auto
qed

lemma rune_span_pos: "s \<noteq> [] \<Longrightarrow> P (fst (DecodeRune s)) \<Longrightarrow> 0 < rune_span P s"
  by (subst rune_span.simps) (simp add: DecodeRune_size)


subsection \<open>Tokens\<close>

definition skipWhitespace :: "unicode \<Rightarrow> string \<Rightarrow> nat" where
  "skipWhitespace uc s = rune_span (IsSpace uc) s"

definition peekNext :: "string \<Rightarrow> char" where
  "peekNext s = (case s of _ # c # _ \<Rightarrow> c | _ \<Rightarrow> CHR 0x00)"

definition doubleCharToken :: "string \<Rightarrow> TokenKind option" where
  "doubleCharToken s = (case s of [] \<Rightarrow> None | c # _ \<Rightarrow>
       if c = CHR ''='' \<and> peekNext s = CHR ''='' then Some TokenEq
       else if c = CHR ''!'' \<and> peekNext s = CHR ''='' then Some TokenNeq
       else if c = CHR ''>'' \<and> peekNext s = CHR ''='' then Some TokenGte
       else if c = CHR ''<'' \<and> peekNext s = CHR ''='' then Some TokenLte
       else if c = CHR ''&'' \<and> peekNext s = CHR ''&'' then Some TokenAnd
       else if c = CHR ''|'' \<and> peekNext s = CHR ''|'' then Some TokenOr
       else if c = CHR ''?'' \<and> peekNext s = CHR ''?'' then Some TokenNullCoal
       else None)"

definition singleCharToken :: "string \<Rightarrow> TokenKind option" where
  "singleCharToken s = (case s of [] \<Rightarrow> None | c # _ \<Rightarrow>
       if c = CHR ''>'' then Some TokenGt
       else if c = CHR ''<'' then Some TokenLt
       else if c = CHR ''!'' then Some TokenNot
       else if c = CHR ''.'' then Some TokenDot
       else if c = CHR ''['' then Some TokenLBracket
       else if c = CHR '']'' then Some TokenRBracket
       else if c = CHR ''('' then Some TokenLParen
       else if c = CHR '')'' then Some TokenRParen
       else if c = CHR '','' then Some TokenComma
       else None)"

text \<open>The loop of \<open>lexString\<close> after the opening quote: the value and the bytes consumed.\<close>

definition escape_bytes :: "char \<Rightarrow> string" where
  "escape_bytes esc =
     (if esc = CHR 0x22 \<or> esc = CHR 0x5C \<or> esc = CHR ''/'' then [esc]
      else if esc = CHR ''n'' then [CHR 0x0A]
      else if esc = CHR ''t'' then [CHR 0x09]
      else if esc = CHR ''r'' then [CHR 0x0D]
      else [CHR 0x5C, esc])"

fun lexStringBody :: "string \<Rightarrow> string \<Rightarrow> nat \<Rightarrow> (string \<times> nat) option" where
  "lexStringBody sb [] n = None"
| "lexStringBody sb [ch] n = (if ch = CHR 0x22 then Some (sb, Suc n) else None)"
| "lexStringBody sb (ch # esc # s) n =
     (if ch = CHR 0x5C then lexStringBody (sb @ escape_bytes esc) s (n + 2)
      else if ch = CHR 0x22 then Some (sb, Suc n)
      else lexStringBody (sb @ [ch]) (esc # s) (Suc n))"

definition digit_span :: "string \<Rightarrow> nat" where
  "digit_span s = length (takeWhile (\<lambda>c. is_digit (byte c)) s)"

definition sign_span :: "string \<Rightarrow> nat" where
  "sign_span s = (case s of c # _ \<Rightarrow> if c = CHR ''-'' then 1 else 0 | [] \<Rightarrow> 0)"

definition fraction_span :: "string \<Rightarrow> nat" where
  "fraction_span s = (case s of c # t \<Rightarrow> if c = CHR ''.'' then 1 + digit_span t else 0 | [] \<Rightarrow> 0)"

definition lexNumber :: "string \<Rightarrow> nat" where
  "lexNumber s =
     (let n0 = sign_span s;
          n1 = n0 + digit_span (drop n0 s)
      in n1 + fraction_span (drop n1 s))"

definition lexIdent :: "unicode \<Rightarrow> string \<Rightarrow> nat" where
  "lexIdent uc s = rune_span (isIdentPart uc) s"

definition ident_kind :: "string \<Rightarrow> TokenKind" where
  "ident_kind word = (case mget keyword_table word of Some kw \<Rightarrow> kw | None \<Rightarrow> TokenIdent)"

definition isNegativeNumber :: "Token list \<Rightarrow> bool" where
  "isNegativeNumber tokens = (if tokens = [] then True
     else Kind (last tokens) \<in> {TokenEq, TokenNeq, TokenGt, TokenGte, TokenLt, TokenLte, TokenAnd, TokenOr,
       TokenNot, TokenNullCoal, TokenLParen, TokenLBracket, TokenComma, TokenIn, TokenHas, TokenContains,
       TokenStartsWith, TokenEndsWith, TokenMatches})"

text \<open>One round of \<open>lexAll\<close> at a non-space: the token and the bytes consumed.\<close>

definition lexToken :: "unicode \<Rightarrow> Token list \<Rightarrow> nat \<Rightarrow> string \<Rightarrow> lex_error + Token \<times> nat" where
  "lexToken uc tokens pos s =
     (let ch = fst (DecodeRune s) in
      case doubleCharToken s of Some k \<Rightarrow> Inr (Token k (take 2 s) pos, 2)
      | None \<Rightarrow> (case singleCharToken s of Some k \<Rightarrow> Inr (Token k (take 1 s) pos, 1)
      | None \<Rightarrow>
          if ch = 34 then
            (case lexStringBody [] (drop 1 s) 1 of
               None \<Rightarrow> Inl (UnterminatedString pos)
             | Some (v, n) \<Rightarrow> Inr (Token TokenString v pos, n))
          else if is_digit ch \<or> ch = 45 \<and> isNegativeNumber tokens then
            Inr (Token TokenNumber (take (lexNumber s) s) pos, lexNumber s)
          else if isIdentStart uc ch then
            Inr (Token (ident_kind (take (lexIdent uc s) s)) (take (lexIdent uc s) s) pos, lexIdent uc s)
          else Inl (UnexpectedChar ch pos)))"

lemma lexStringBody_bound:
  "lexStringBody sb s n = Some (v, m) \<Longrightarrow> n < m \<and> m \<le> n + length s"
  by (induction sb s n rule: lexStringBody.induct) (fastforce split: if_splits)+

lemma span_le:
  "digit_span s \<le> length s" "sign_span s \<le> length s" "fraction_span s \<le> length s"
proof -
  show d: "digit_span s \<le> length s" for s by (simp add: digit_span_def length_takeWhile_le)
  show "sign_span s \<le> length s" by (simp add: sign_span_def split: list.split)
  show "fraction_span s \<le> length s" using d by (simp add: fraction_span_def split: list.split)
qed

lemma add_span_le:
  fixes f :: "'a list \<Rightarrow> nat"
  assumes "\<And>s. f s \<le> length s" "n \<le> length s" shows "n + f (drop n s) \<le> length s"
  using assms(1)[of "drop n s"] assms(2) by simp

lemma lexNumber_le: "lexNumber s \<le> length s"
  unfolding lexNumber_def Let_def by (intro add_span_le span_le)

lemma mod_window: "k * m \<le> b \<Longrightarrow> b < k * m + m \<Longrightarrow> b mod m = b - k * m" for b :: nat
  by (metis add_diff_cancel_left' le_Suc_ex mod_less mod_mult_self3 nat_add_left_cancel_less)

lemma lead_bits:
  "194 \<le> (b::nat) \<Longrightarrow> b < 224 \<Longrightarrow> 2 \<le> b mod 32"
  "224 < b \<Longrightarrow> b < 240 \<Longrightarrow> 1 \<le> b mod 16"
  "240 < b \<Longrightarrow> b \<le> 244 \<Longrightarrow> 1 \<le> b mod 8"
  "160 \<le> b \<Longrightarrow> b \<le> 191 \<Longrightarrow> 32 \<le> b mod 64"
  "144 \<le> b \<Longrightarrow> b \<le> 191 \<Longrightarrow> 16 \<le> b mod 64"
  using mod_window[of 6 32 b] mod_window[of 14 16 b] mod_window[of 30 8 b] mod_window[of 2 64 b] by simp_all

lemma DecodeRune_multi:
  assumes "128 \<le> byte c" shows "128 \<le> fst (DecodeRune (c # s))"
proof -
  have e: "128 \<le> RuneError" by (simp add: RuneError_def)
  consider "byte c < 194 \<or> 244 < byte c" | "194 \<le> byte c" "byte c < 224"
    | "224 \<le> byte c" "byte c < 240" | "240 \<le> byte c" "byte c \<le> 244" by linarith
  then show ?thesis
  proof cases
    case 1 with assms e show ?thesis by (simp add: DecodeRune_def Let_def)
  next
    case 2 with e lead_bits(1)[OF 2] show ?thesis by (auto simp: DecodeRune_def Let_def split: list.split)
  next
    case 3
    have "224 < byte c \<Longrightarrow> 1 \<le> byte c mod 16" using 3 by (intro lead_bits(2))
    with 3 e lead_bits(4)[of "byte (hd s)"] show ?thesis
      by (cases "byte c = 224") (auto simp: DecodeRune_def Let_def cont_in_def split: list.split)
  next
    case 4
    have "240 < byte c \<Longrightarrow> 1 \<le> byte c mod 8" using 4 by (intro lead_bits(3))
    with 4 e lead_bits(5)[of "byte (hd s)"] show ?thesis
      by (cases "byte c = 240") (auto simp: DecodeRune_def Let_def cont_in_def split: list.split)
  qed
qed

lemma DecodeRune_small: "fst (DecodeRune (c # s)) < 128 \<Longrightarrow> byte c = fst (DecodeRune (c # s))"
  using DecodeRune_multi[of c s] by (cases "byte c < 128") (simp_all add: DecodeRune_ascii)

lemma lexNumber_pos:
  assumes "is_digit (fst (DecodeRune s)) \<or> fst (DecodeRune s) = 45" shows "0 < lexNumber s"
proof (cases s)
  case Nil
  with assms show ?thesis by (simp add: DecodeRune_def RuneError_def is_digit_def)
next
  case (Cons c t)
  from assms have "fst (DecodeRune (c # t)) < 128" unfolding Cons by (auto simp: is_digit_def)
  then have "byte c = fst (DecodeRune s)" unfolding Cons by (rule DecodeRune_small)
  moreover have "byte CHR ''-'' = 45" by (simp add: byte_def)
  ultimately have "c = CHR ''-'' \<or> is_digit (byte c)" using assms unfolding byte_def by (metis of_char_eq_iff)
  then show ?thesis using Cons by (auto simp: lexNumber_def Let_def digit_span_def sign_span_def)
qed

lemma lexToken_bound:
  assumes "s \<noteq> []" "lexToken uc tokens pos s = Inr (t, k)"
  shows "0 < k \<and> k \<le> length s"
proof -
  consider (two) k2 where "doubleCharToken s = Some k2" "k = 2"
    | (one) k1 where "k = 1"
    | (str) v where "lexStringBody [] (drop 1 s) 1 = Some (v, k)"
    | (num) "is_digit (fst (DecodeRune s)) \<or> fst (DecodeRune s) = 45" "k = lexNumber s"
    | (id) "isIdentStart uc (fst (DecodeRune s))" "k = lexIdent uc s"
    using assms(2) unfolding lexToken_def Let_def
    by (auto split: option.splits if_splits)
  then show ?thesis
  proof cases
    case two
    then show ?thesis
      by (auto simp: doubleCharToken_def peekNext_def split: list.splits if_splits)
  next
    case str
    then show ?thesis using lexStringBody_bound[OF str] assms(1) by (cases s) auto
  next
    case num then show ?thesis using lexNumber_pos lexNumber_le by simp
  next
    case id
    then have "isIdentPart uc (fst (DecodeRune s))" by (auto simp: isIdentStart_def isIdentPart_def)
    with id assms(1) show ?thesis by (simp add: lexIdent_def rune_span_pos rune_span_le)
  qed (use assms(1) in \<open>cases s; simp\<close>)
qed

function lexAll :: "unicode \<Rightarrow> Token list \<Rightarrow> nat \<Rightarrow> string \<Rightarrow> lex_error + Token list" where
  "lexAll uc tokens pos s =
     (let n = skipWhitespace uc s in
      if drop n s = [] then Inr (tokens @ [Token TokenEOF [] (pos + n)])
      else case lexToken uc tokens (pos + n) (drop n s) of
             Inl e \<Rightarrow> Inl e
           | Inr (t, k) \<Rightarrow> lexAll uc (tokens @ [t]) (pos + n + k) (drop k (drop n s)))"
  by pat_completeness auto
termination
proof (relation "measure (\<lambda>(uc, tokens, pos, s). length s)", goal_cases)
  case (2 uc tokens pos s n r t k)
  then show ?case using lexToken_bound[of "drop n s" uc tokens "pos + n" t k] by (auto simp del: drop_drop)
qed simp

declare lexAll.simps [simp del]

definition Lex :: "unicode \<Rightarrow> string \<Rightarrow> lex_error + Token list" where
  "Lex uc src = lexAll uc [] 0 src"


subsection \<open>What the tokens say about the source\<close>

lemma lexToken_text:
  assumes "s \<noteq> []" "lexToken uc tokens pos s = Inr (t, k)"
  shows "Pos t = pos" "Kind t \<noteq> TokenEOF" "Kind t \<noteq> TokenString \<Longrightarrow> Value t = take k s"
    "Kind t = TokenString \<Longrightarrow> hd s = CHR 0x22"
proof -
  have kw: "ident_kind w \<noteq> TokenEOF \<and> ident_kind w \<noteq> TokenString" for w
    by (auto simp: ident_kind_def keyword_table_def)
  have two: "doubleCharToken s \<noteq> Some TokenEOF" "doubleCharToken s \<noteq> Some TokenString"
    by (auto simp: doubleCharToken_def split: list.split)
  have one: "singleCharToken s \<noteq> Some TokenEOF" "singleCharToken s \<noteq> Some TokenString"
    by (auto simp: singleCharToken_def split: list.split)
  show "Pos t = pos" "Kind t \<noteq> TokenEOF" "Kind t \<noteq> TokenString \<Longrightarrow> Value t = take k s"
    using assms(2) kw two one unfolding lexToken_def Let_def by (auto split: option.splits if_splits)
  assume "Kind t = TokenString"
  with assms(2) kw two one have "fst (DecodeRune s) = 34"
    unfolding lexToken_def Let_def by (auto split: option.splits if_splits)
  then show "hd s = CHR 0x22"
    using DecodeRune_small[of "hd s" "tl s"] assms(1) by (intro char_of_byte) (simp add: byte_def)
qed

definition tokens_at :: "string \<Rightarrow> nat \<Rightarrow> Token list \<Rightarrow> bool" where
  "tokens_at src pos ts \<longleftrightarrow> pos \<le> length src \<and> sorted_wrt (<) (map Pos ts) \<and>
     (\<forall>t \<in> set ts. Pos t < pos \<and> Kind t \<noteq> TokenEOF \<and>
        (if Kind t = TokenString then src ! Pos t = CHR 0x22
         else Value t \<noteq> [] \<and> take (length (Value t)) (drop (Pos t) src) = Value t))"

lemma tokens_at_step:
  assumes "tokens_at src pos ts" "pos + n < length src"
    and "lexToken uc ts (pos + n) (drop (pos + n) src) = Inr (t, k)"
  shows "tokens_at src (pos + n + k) (ts @ [t])"
proof -
  let ?s = "drop (pos + n) src"
  have ne: "?s \<noteq> []" using assms(2) by simp
  note k = lexToken_bound[OF ne assms(3)] and t = lexToken_text[OF ne assms(3)]
  have old: "\<And>t'. t' \<in> set ts \<Longrightarrow> Pos t' < pos" using assms(1) by (simp add: tokens_at_def)
  have "Kind t \<noteq> TokenString \<Longrightarrow> take (length (Value t)) ?s = Value t \<and> Value t \<noteq> []"
    using t(3) k ne by auto
  moreover have "Kind t = TokenString \<Longrightarrow> src ! (pos + n) = CHR 0x22"
    using t(4) assms(2) by (simp add: hd_drop_conv_nth)
  ultimately show ?thesis
    using assms(1) k t(1,2) old by (auto simp: tokens_at_def sorted_wrt_append trans_less_add1)
qed

lemma lexAll_tokens:
  "lexAll uc ts pos s = Inr ts' \<Longrightarrow> s = drop pos src \<Longrightarrow> tokens_at src pos ts \<Longrightarrow>
   \<exists>us. ts' = us @ [Token TokenEOF [] (length src)] \<and> tokens_at src (length src) us"
proof (induction uc ts pos s rule: lexAll.induct)
  case (1 uc ts pos s)
  define n where "n = skipWhitespace uc s"
  have n: "n \<le> length s" by (simp add: n_def skipWhitespace_def rune_span_le)
  have pos: "pos \<le> length src" using 1(4) by (simp add: tokens_at_def)
  show ?case
  proof (cases "drop n s = []")
    case True
    then have "pos + n = length src" using n pos 1(3) by simp
    moreover have "tokens_at src (pos + n) ts" using 1(4) calculation by (auto simp: tokens_at_def)
    ultimately show ?thesis using 1(2) True unfolding lexAll.simps[of uc ts pos s] by (auto simp: Let_def n_def)
  next
    case False
    with 1(2) obtain t k where t: "lexToken uc ts (pos + n) (drop n s) = Inr (t, k)"
        and r: "lexAll uc (ts @ [t]) (pos + n + k) (drop k (drop n s)) = Inr ts'"
      unfolding lexAll.simps[of uc ts pos s]
      by (auto simp: Let_def n_def[symmetric] simp del: drop_drop split: sum.splits)
    have "tokens_at src (pos + n + k) (ts @ [t])"
      by (rule tokens_at_step[OF 1(4), of n uc]) (use t False 1(3) in \<open>auto simp: add.commute\<close>)
    moreover have "drop k (drop n s) = drop (pos + n + k) src" using 1(3) by (simp add: ac_simps)
    ultimately show ?thesis using 1(1)[OF n_def False t refl r] by blast
  qed
qed

text \<open>
  The tokens of a source text are where they say. They end with the only \<open>EOF\<close> token, which is at the end
  of the text; the positions increase strictly; every token but a string literal is non-empty and is
  the text at its position, and a string literal starts with a quote.
\<close>

theorem Lex_tokens:
  assumes "Lex uc src = Inr ts"
  shows "\<exists>us. ts = us @ [Token TokenEOF [] (length src)] \<and> sorted_wrt (<) (map Pos ts) \<and>
    (\<forall>t \<in> set us. Kind t \<noteq> TokenEOF \<and> Pos t < length src \<and>
       (if Kind t = TokenString then src ! Pos t = CHR 0x22
        else Value t \<noteq> [] \<and> take (length (Value t)) (drop (Pos t) src) = Value t))"
proof -
  have "tokens_at src 0 []" by (simp add: tokens_at_def)
  then obtain us where "ts = us @ [Token TokenEOF [] (length src)]" "tokens_at src (length src) us"
    using lexAll_tokens assms unfolding Lex_def by (metis drop0)
  then show ?thesis by (auto simp: tokens_at_def sorted_wrt_append)
qed

definition ascii :: unicode where
  "ascii = \<lparr>uc_IsLetter = (\<lambda>_. False), uc_IsDigit = (\<lambda>_. False), uc_IsSpace = (\<lambda>_. False)\<rparr>"

theorem Lex_tokens_witness:
  "Lex ascii ''x.y >= -1'' = Inr [Token TokenIdent ''x'' 0, Token TokenDot ''.'' 1, Token TokenIdent ''y'' 2,
     Token TokenGte ''>='' 4, Token TokenNumber ''-1'' 7, Token TokenEOF [] 9] \<and>
   (\<exists>us. [Token TokenIdent ''x'' 0, Token TokenDot ''.'' 1, Token TokenIdent ''y'' 2,
     Token TokenGte ''>='' 4, Token TokenNumber ''-1'' 7, Token TokenEOF [] 9] = us @ [Token TokenEOF [] (length ''x.y >= -1'')])"
proof -
  have L: "Lex ascii ''x.y >= -1'' = Inr [Token TokenIdent ''x'' 0, Token TokenDot ''.'' 1, Token TokenIdent ''y'' 2,
     Token TokenGte ''>='' 4, Token TokenNumber ''-1'' 7, Token TokenEOF [] 9]" by code_simp
  show ?thesis using L Lex_tokens[OF L] by blast
qed


subsection \<open>Writing tokens\<close>

text \<open>A spelling of each token that the lexer reads back, and the texts a token may have.\<close>

definition escape_char :: "char \<Rightarrow> string" where
  "escape_char c = (if c = CHR 0x22 \<or> c = CHR 0x5C then [CHR 0x5C, c] else [c])"

definition quote :: "string \<Rightarrow> string" where
  "quote v = CHR 0x22 # concat (map escape_char v) @ [CHR 0x22]"

definition ident_char :: "char \<Rightarrow> bool" where
  "ident_char c \<longleftrightarrow> c = CHR ''_'' \<or> c \<in> set ''abcdefghijklmnopqrstuvwxyzABCDEFGHIJKLMNOPQRSTUVWXYZ''"

definition digit_char :: "char \<Rightarrow> bool" where
  "digit_char c \<longleftrightarrow> c \<in> set ''0123456789''"

definition is_word :: "string \<Rightarrow> bool" where
  "is_word v \<longleftrightarrow> v \<noteq> [] \<and> ident_char (hd v) \<and> (\<forall>c \<in> set v. ident_char c \<or> digit_char c)"

fun fixed_text :: "TokenKind \<Rightarrow> string" where
  "fixed_text TokenEq = ''==''" | "fixed_text TokenNeq = ''!=''" | "fixed_text TokenGt = ''>''"
| "fixed_text TokenGte = ''>=''" | "fixed_text TokenLt = ''<''" | "fixed_text TokenLte = ''<=''"
| "fixed_text TokenAnd = ''&&''" | "fixed_text TokenOr = ''||''" | "fixed_text TokenNot = ''!''"
| "fixed_text TokenNullCoal = ''??''" | "fixed_text TokenIn = ''in''" | "fixed_text TokenHas = ''has''"
| "fixed_text TokenContains = ''contains''" | "fixed_text TokenStartsWith = ''startsWith''"
| "fixed_text TokenEndsWith = ''endsWith''" | "fixed_text TokenMatches = ''matches''"
| "fixed_text TokenDot = ''.''" | "fixed_text TokenLBracket = ''[''" | "fixed_text TokenRBracket = '']''"
| "fixed_text TokenLParen = ''(''" | "fixed_text TokenRParen = '')''" | "fixed_text TokenComma = '',''"
| "fixed_text TokenTrue = ''true''" | "fixed_text TokenFalse = ''false''" | "fixed_text TokenNull = ''null''"
| "fixed_text _ = []"

definition lexeme_ok :: "TokenKind \<times> string \<Rightarrow> bool" where
  "lexeme_ok = (\<lambda>(k, v). case k of
       TokenIdent \<Rightarrow> is_word v \<and> mget keyword_table v = None
     | TokenNumber \<Rightarrow> v \<noteq> [] \<and> (\<forall>c \<in> set v. digit_char c)
     | TokenString \<Rightarrow> True
     | TokenEOF \<Rightarrow> False
     | _ \<Rightarrow> v = fixed_text k)"

definition spell :: "TokenKind \<times> string \<Rightarrow> string" where
  "spell = (\<lambda>(k, v). if k = TokenString then quote v else v)"

definition write_tokens :: "(TokenKind \<times> string) list \<Rightarrow> string" where
  "write_tokens ls = concat (map (\<lambda>l. spell l @ '' '') ls)"

lemma ident_char_byte: "ident_char c \<Longrightarrow> byte c < 128 \<and> isIdentStart uc (byte c) \<and> isIdentPart uc (byte c)"
  by (auto simp: ident_char_def isIdentStart_def isIdentPart_def IsLetter_def byte_def)

lemma digit_char_byte: "digit_char c \<Longrightarrow> byte c < 128 \<and> is_digit (byte c) \<and> isIdentPart uc (byte c)"
  by (auto simp: digit_char_def is_digit_def isIdentPart_def IsDigit_def IsLetter_def byte_def)

lemma no_operator:
  "ident_char c \<or> digit_char c \<or> c = CHR 0x22 \<Longrightarrow> doubleCharToken (c # s) = None \<and> singleCharToken (c # s) = None"
proof -
  assume "ident_char c \<or> digit_char c \<or> c = CHR 0x22"
  then have "c \<notin> set ''=!><&|?.[](),''" by (auto simp: ident_char_def digit_char_def)
  then show ?thesis by (simp add: doubleCharToken_def singleCharToken_def)
qed

lemma rune_span_prefix:
  assumes "\<forall>c \<in> set v. byte c < 128 \<and> Q (byte c)" "\<not> Q 32"
  shows "rune_span Q (v @ CHR '' '' # s) = length v"
  using assms(1)
proof (induction v)
  case Nil
  then show ?case using assms(2) by (subst rune_span.simps) (simp add: DecodeRune_ascii byte_def)
next
  case (Cons c v)
  then show ?case by (subst rune_span.simps) (simp add: DecodeRune_ascii)
qed

lemma digit_span_prefix: "\<forall>c \<in> set v. digit_char c \<Longrightarrow> digit_span (v @ CHR '' '' # s) = length v"
  using digit_char_byte by (simp add: digit_span_def takeWhile_append2) (simp add: is_digit_def byte_def)

lemma lexStringBody_plain:
  "c \<noteq> CHR 0x5C \<Longrightarrow> c \<noteq> CHR 0x22 \<Longrightarrow> s \<noteq> [] \<Longrightarrow> lexStringBody sb (c # s) n = lexStringBody (sb @ [c]) s (Suc n)"
  by (cases s) simp_all

lemma lexStringBody_quote:
  "lexStringBody sb (concat (map escape_char v) @ CHR 0x22 # s) n =
     Some (sb @ v, n + length (concat (map escape_char v)) + 1)"
proof (induction v arbitrary: sb n)
  case Nil
  then show ?case by (cases s) simp_all
next
  case (Cons c v)
  then show ?case by (auto simp: escape_char_def lexStringBody_plain escape_bytes_def)
qed

lemma lexToken_word:
  assumes "is_word v"
  shows "lexToken uc ts pos (v @ CHR '' '' # s) = Inr (Token (ident_kind v) v pos, length v)"
proof -
  obtain c w where v: "v = c # w" "ident_char c" using assms by (cases v) (auto simp: is_word_def)
  note b = ident_char_byte[OF v(2), of uc]
  have "\<not> is_digit (byte c)" "byte c \<noteq> 34" "byte c \<noteq> 45"
    using v(2) by (auto simp: ident_char_def is_digit_def byte_def)
  moreover have "\<forall>c \<in> set v. byte c < 128 \<and> isIdentPart uc (byte c)"
    using assms ident_char_byte digit_char_byte by (auto simp: is_word_def)
  then have "lexIdent uc (v @ CHR '' '' # s) = length v"
    unfolding lexIdent_def
    by (rule rune_span_prefix) (simp add: isIdentPart_def IsLetter_def IsDigit_def is_digit_def)
  ultimately show ?thesis using b no_operator[of c] v
    by (simp add: lexToken_def Let_def DecodeRune_ascii)
qed

lemma lexToken_digits:
  assumes "v \<noteq> []" "\<forall>c \<in> set v. digit_char c"
  shows "lexToken uc ts pos (v @ CHR '' '' # s) = Inr (Token TokenNumber v pos, length v)"
proof -
  obtain c w where v: "v = c # w" "digit_char c" using assms by (cases v) auto
  note b = digit_char_byte[OF v(2), of uc]
  have "byte c \<noteq> 34" "c \<noteq> CHR ''-''" using b v(2) by (auto simp: is_digit_def digit_char_def)
  moreover have "lexNumber (v @ CHR '' '' # s) = length v"
    using digit_span_prefix[OF assms(2)] calculation(2) v
    by (simp add: lexNumber_def sign_span_def fraction_span_def)
  ultimately show ?thesis using b no_operator[of c] v
    by (simp add: lexToken_def Let_def DecodeRune_ascii)
qed

lemma lexToken_quote:
  "lexToken uc ts pos (quote v @ s) = Inr (Token TokenString v pos, length (quote v))"
  using no_operator[of "CHR 0x22"] lexStringBody_quote[of "[]" v s 1]
  by (simp add: lexToken_def Let_def quote_def DecodeRune_ascii byte_def)

lemma keyword_word:
  "k \<in> {TokenIn, TokenHas, TokenContains, TokenStartsWith, TokenEndsWith, TokenMatches, TokenTrue, TokenFalse, TokenNull}
   \<Longrightarrow> is_word (fixed_text k) \<and> ident_kind (fixed_text k) = k"
  by (auto simp: is_word_def ident_char_def ident_kind_def keyword_table_def)

lemma lexToken_operator:
  "k \<in> {TokenEq, TokenNeq, TokenGt, TokenGte, TokenLt, TokenLte, TokenAnd, TokenOr, TokenNot, TokenNullCoal,
     TokenDot, TokenLBracket, TokenRBracket, TokenLParen, TokenRParen, TokenComma}
   \<Longrightarrow> lexToken uc ts pos (fixed_text k @ CHR '' '' # s) = Inr (Token k (fixed_text k) pos, length (fixed_text k))"
  by (auto simp: lexToken_def Let_def doubleCharToken_def singleCharToken_def peekNext_def)

lemma lexToken_spell:
  assumes "lexeme_ok (k, v)"
  shows "lexToken uc ts pos (spell (k, v) @ CHR '' '' # s) = Inr (Token k v pos, length (spell (k, v)))"
proof -
  consider "k = TokenIdent" | "k = TokenNumber" | "k = TokenString"
    | "v = fixed_text k" "k \<in> {TokenIn, TokenHas, TokenContains, TokenStartsWith, TokenEndsWith, TokenMatches, TokenTrue, TokenFalse, TokenNull}"
    | "v = fixed_text k" "k \<in> {TokenEq, TokenNeq, TokenGt, TokenGte, TokenLt, TokenLte, TokenAnd, TokenOr, TokenNot, TokenNullCoal,
     TokenDot, TokenLBracket, TokenRBracket, TokenLParen, TokenRParen, TokenComma}"
    using assms by (cases k) (simp_all add: lexeme_ok_def)
  then show ?thesis
  proof cases
    case 1 with assms show ?thesis by (simp add: lexeme_ok_def spell_def lexToken_word ident_kind_def)
  next
    case 2 with assms show ?thesis by (simp add: lexeme_ok_def spell_def lexToken_digits)
  next
    case 3 with assms show ?thesis by (simp add: spell_def lexToken_quote)
  next
    case 4 then show ?thesis using keyword_word[OF 4(2)] lexToken_word[of v uc ts pos s] by (auto simp: spell_def)
  next
    case 5 then show ?thesis using lexToken_operator[OF 5(2), of uc ts pos s] by (auto simp: spell_def)
  qed
qed

definition op_char :: "char \<Rightarrow> bool" where
  "op_char c \<longleftrightarrow> c \<in> set ''=!><&|?.[](),''"

lemma visible_char:
  "ident_char c \<or> digit_char c \<or> op_char c \<or> c = CHR 0x22 \<Longrightarrow> byte c < 128 \<and> \<not> IsSpace uc (byte c)"
  by (auto simp: ident_char_def digit_char_def op_char_def IsSpace_def byte_def)

lemma lexeme_start:
  assumes "lexeme_ok (k, v)" "k \<noteq> TokenString"
  shows "v \<noteq> [] \<and> (ident_char (hd v) \<or> digit_char (hd v) \<or> op_char (hd v))"
proof (cases k)
  case TokenIdent
  then show ?thesis using assms by (simp add: lexeme_ok_def is_word_def)
next
  case TokenNumber
  then show ?thesis using assms by (simp add: lexeme_ok_def)
qed (use assms in \<open>simp_all add: lexeme_ok_def ident_char_def op_char_def\<close>)

lemma spell_start:
  assumes "lexeme_ok l"
  shows "\<exists>c t. spell l = c # t \<and> byte c < 128 \<and> \<not> IsSpace uc (byte c)"
proof -
  obtain k v where l: "l = (k, v)" by (cases l)
  have "spell l \<noteq> [] \<and> (ident_char (hd (spell l)) \<or> digit_char (hd (spell l)) \<or> op_char (hd (spell l)) \<or> hd (spell l) = CHR 0x22)"
    using lexeme_start[of k v] assms unfolding l by (cases "k = TokenString") (auto simp: spell_def quote_def)
  then show ?thesis using visible_char[of "hd (spell l)" uc] by (metis list.collapse)
qed

definition lexeme :: "Token \<Rightarrow> TokenKind \<times> string" where
  "lexeme t = (Kind t, Value t)"

lemma skip_gap:
  assumes "lexeme_ok l" "gap \<in> {[], '' ''}"
  shows "skipWhitespace uc (gap @ spell l @ s) = length gap"
proof -
  obtain c t where c: "spell l = c # t" "byte c < 128" "\<not> IsSpace uc (byte c)" using spell_start[OF assms(1)] by blast
  have z: "rune_span (IsSpace uc) (spell l @ s) = 0" using c by (subst rune_span.simps) (simp add: DecodeRune_ascii)
  show ?thesis
  proof (cases "gap = []")
    case False
    then have g: "gap = '' ''" using assms(2) by simp
    show ?thesis unfolding g skipWhitespace_def using z
      by (subst rune_span.simps) (simp add: DecodeRune_ascii IsSpace_def byte_def)
  qed (use z in \<open>simp add: skipWhitespace_def\<close>)
qed

lemma lexAll_write:
  "\<forall>l \<in> set ls. lexeme_ok l \<Longrightarrow> gap \<in> {[], '' ''} \<Longrightarrow>
   \<exists>ts'. lexAll uc ts pos (gap @ write_tokens ls) = Inr ts' \<and> map lexeme ts' = map lexeme ts @ ls @ [(TokenEOF, [])]"
proof (induction ls arbitrary: ts pos gap)
  case Nil
  have "skipWhitespace uc '' '' = 1" unfolding skipWhitespace_def
    by (subst rune_span.simps) (simp add: DecodeRune_ascii IsSpace_def byte_def, simp add: rune_span.simps)
  then have "drop (skipWhitespace uc gap) gap = []" using Nil(2) by auto
  then show ?case by (subst lexAll.simps) (simp add: write_tokens_def Let_def lexeme_def)
next
  case (Cons l ls)
  obtain k v where l: "l = (k, v)" by (cases l)
  let ?rest = "CHR '' '' # write_tokens ls"
  have w: "write_tokens (l # ls) = spell l @ ?rest" by (simp add: write_tokens_def)
  have skip: "skipWhitespace uc (gap @ write_tokens (l # ls)) = length gap"
    unfolding w using Cons.prems by (intro skip_gap) auto
  have ne: "spell l \<noteq> []" using spell_start[of l uc] Cons.prems(1) by auto
  have tok: "lexToken uc ts (pos + length gap) (spell l @ ?rest) = Inr (Token k v (pos + length gap), length (spell l))"
    unfolding l by (rule lexToken_spell) (use Cons.prems(1) l in auto)
  obtain ts' where ts': "lexAll uc (ts @ [Token k v (pos + length gap)]) (pos + length gap + length (spell l)) ('' '' @ write_tokens ls) = Inr ts'"
      "map lexeme ts' = map lexeme ts @ (k, v) # ls @ [(TokenEOF, [])]"
    using Cons.IH[of "'' ''" "ts @ [Token k v (pos + length gap)]" "pos + length gap + length (spell l)"] Cons.prems
    by (auto simp: lexeme_def[of "Token _ _ _"])
  have "lexAll uc ts pos (gap @ write_tokens (l # ls)) = Inr ts'"
    using ne tok ts'(1) by (subst lexAll.simps) (simp add: Let_def skip, simp add: w)
  with ts'(2) show ?case by (auto simp: l)
qed

lemma Lex_write:
  assumes "\<forall>l \<in> set ls. lexeme_ok l"
  shows "\<exists>ts. Lex uc (write_tokens ls) = Inr ts \<and> map lexeme ts = ls @ [(TokenEOF, [])]"
  using lexAll_write[OF assms, of "[]" uc "[]" 0] by (simp add: Lex_def)

end
