(* ===== verification/Expr_Parser.thy ===== *)
theory Expr_Parser
  imports Expr_Lexer
begin

section \<open>Condition expressions: the parser\<close>

text \<open>
  \<open>nodes/conditional/expr/ast.go\<close>, \<open>parser.go\<close> and \<open>validate.go\<close>. The parser's position is the list of
  tokens still to read. The five functions for the left-associative binary operators have one shape and
  are \<open>parseLevel\<close> at a level. The recursion descends through the levels without reading a token, so
  the functions carry fuel; \<open>Parse\<close> gives them a fuel that is linear in the number of tokens and is shown to
  be enough. \<open>None\<close> is running out of fuel, \<open>Inl\<close> a parse error.
\<close>

datatype Expr =
    BinaryExpr Expr TokenKind Expr
  | UnaryExpr TokenKind Expr
  | LiteralExpr val
  | IdentExpr string
  | MemberExpr Expr string
  | IndexExpr Expr Expr
  | ArrayLiteral "Expr list"

datatype parse_error =
    LexError lex_error
  | UnexpectedToken TokenKind nat
  | ExpectedToken TokenKind TokenKind nat
  | InvalidNumber string nat

type_synonym 'a parsed = "(parse_error + 'a \<times> Token list) option"

definition current :: "Token list \<Rightarrow> Token" where
  "current ts = (case ts of [] \<Rightarrow> Token TokenEOF [] 0 | t # _ \<Rightarrow> t)"

definition advance :: "Token list \<Rightarrow> Token list" where
  "advance ts = tl ts"

definition expect :: "TokenKind \<Rightarrow> Token list \<Rightarrow> Token parsed" where
  "expect kind ts = (let tok = current ts in
     if Kind tok \<noteq> kind then Some (Inl (ExpectedToken kind (Kind tok) (Pos tok))) else Some (Inr (tok, advance ts)))"

definition pbind :: "'a parsed \<Rightarrow> ('a \<Rightarrow> Token list \<Rightarrow> 'b parsed) \<Rightarrow> 'b parsed" where
  "pbind m f = (case m of None \<Rightarrow> None | Some (Inl e) \<Rightarrow> Some (Inl e) | Some (Inr (a, ts)) \<Rightarrow> f a ts)"

definition isKeywordToken :: "TokenKind \<Rightarrow> bool" where
  "isKeywordToken kind \<longleftrightarrow> kind \<in> {TokenIn, TokenHas, TokenContains, TokenStartsWith, TokenEndsWith, TokenMatches,
     TokenTrue, TokenFalse, TokenNull}"

text \<open>\<open>strconv.ParseFloat\<close> on what \<open>lexNumber\<close> yields: an optional sign, digits, and an optional fraction.
  It fails without any digit and on overflow.\<close>

definition digits_value :: "string \<Rightarrow> int" where
  "digits_value s = foldl (\<lambda>a c. 10 * a + (int (byte c) - 48)) 0 s"

definition ParseFloat :: "string \<Rightarrow> f64 option" where
  "ParseFloat s =
     (let neg = (sign_span s = 1);
          u = drop (sign_span s) s;
          ip = take (digit_span u) u;
          fp = drop (digit_span u + 1) u;
          x = of_int (digits_value (ip @ fp)) / 10 ^ length fp
      in if ip = [] \<and> fp = [] then None
         else case round_f64 (if neg then - x else x) of F64 y \<Rightarrow> Some (F64 y) | _ \<Rightarrow> None)"

text \<open>The binary levels; \<open>LMem\<close> is \<open>parseMembership\<close>, the operand of the highest of them.\<close>

datatype level = LNull | LOr | LAnd | LEq | LCmp | LMem

fun level_ops :: "level \<Rightarrow> TokenKind list" where
  "level_ops LNull = [TokenNullCoal]"
| "level_ops LOr = [TokenOr]"
| "level_ops LAnd = [TokenAnd]"
| "level_ops LEq = [TokenEq, TokenNeq]"
| "level_ops LCmp = [TokenGt, TokenGte, TokenLt, TokenLte]"
| "level_ops LMem = [TokenIn, TokenHas, TokenContains, TokenStartsWith, TokenEndsWith, TokenMatches]"

fun operand_level :: "level \<Rightarrow> level" where
  "operand_level LNull = LOr"
| "operand_level LOr = LAnd"
| "operand_level LAnd = LEq"
| "operand_level LEq = LCmp"
| "operand_level LCmp = LMem"
| "operand_level LMem = LMem"

text \<open>The cases of \<open>parsePrimary\<close> that read one token.\<close>

definition parse_literal :: "Token list \<Rightarrow> Expr parsed" where
  "parse_literal ts =
     (let tok = current ts in
      case Kind tok of
        TokenNumber \<Rightarrow> (case ParseFloat (Value tok) of
            None \<Rightarrow> Some (Inl (InvalidNumber (Value tok) (Pos tok)))
          | Some v \<Rightarrow> Some (Inr (LiteralExpr (VF64 v), advance ts)))
      | TokenString \<Rightarrow> Some (Inr (LiteralExpr (VStr (Value tok)), advance ts))
      | TokenTrue \<Rightarrow> Some (Inr (LiteralExpr (VBool True), advance ts))
      | TokenFalse \<Rightarrow> Some (Inr (LiteralExpr (VBool False), advance ts))
      | TokenNull \<Rightarrow> Some (Inr (LiteralExpr VNil, advance ts))
      | TokenIdent \<Rightarrow> Some (Inr (IdentExpr (Value tok), advance ts))
      | k \<Rightarrow> Some (Inl (UnexpectedToken k (Pos tok))))"

text \<open>
  One function of the parser per nonterminal, loops included, each given the functions it calls as \<open>P\<close>.
\<close>

datatype nonterm =
    NLevel level | NLoop level Expr | NMembership | NUnary | NPostfix | NPostfixLoop Expr | NPrimary | NArray "Expr list"

fun parse_step :: "(nonterm \<Rightarrow> Token list \<Rightarrow> Expr parsed) \<Rightarrow> nonterm \<Rightarrow> Token list \<Rightarrow> Expr parsed" where
  "parse_step P (NLevel l) ts =
     (if l = LMem then P NMembership ts
      else pbind (P (NLevel (operand_level l)) ts) (\<lambda>left ts'. P (NLoop l left) ts'))"
| "parse_step P (NLoop l left) ts =
     (if Kind (current ts) \<in> set (level_ops l)
      then pbind (P (NLevel (operand_level l)) (advance ts))
             (\<lambda>right ts'. P (NLoop l (BinaryExpr left (Kind (current ts)) right)) ts')
      else Some (Inr (left, ts)))"
| "parse_step P NMembership ts =
     pbind (P NUnary ts) (\<lambda>left ts'.
       if Kind (current ts') \<in> set (level_ops LMem)
       then pbind (P NUnary (advance ts')) (\<lambda>right ts''. Some (Inr (BinaryExpr left (Kind (current ts')) right, ts'')))
       else Some (Inr (left, ts')))"
| "parse_step P NUnary ts =
     (if Kind (current ts) = TokenNot
      then pbind (P NUnary (advance ts)) (\<lambda>operand ts'. Some (Inr (UnaryExpr (Kind (current ts)) operand, ts')))
      else P NPostfix ts)"
| "parse_step P NPostfix ts = pbind (P NPrimary ts) (\<lambda>expr ts'. P (NPostfixLoop expr) ts')"
| "parse_step P (NPostfixLoop expr) ts =
     (if Kind (current ts) = TokenDot then
        (let tok = current (advance ts) in
         case expect TokenIdent (advance ts) of
           Some (Inr (name, ts')) \<Rightarrow> P (NPostfixLoop (MemberExpr expr (Value name))) ts'
         | Some (Inl err) \<Rightarrow>
             if isKeywordToken (Kind tok) then P (NPostfixLoop (MemberExpr expr (Value tok))) (advance (advance ts))
             else Some (Inl err)
         | None \<Rightarrow> None)
      else if Kind (current ts) = TokenLBracket then
        pbind (P (NLevel LNull) (advance ts)) (\<lambda>index ts'.
        pbind (expect TokenRBracket ts') (\<lambda>_ ts''. P (NPostfixLoop (IndexExpr expr index)) ts''))
      else Some (Inr (expr, ts)))"
| "parse_step P NPrimary ts =
     (if Kind (current ts) = TokenLParen then
        pbind (P (NLevel LNull) (advance ts)) (\<lambda>expr ts'.
        pbind (expect TokenRParen ts') (\<lambda>_ ts''. Some (Inr (expr, ts''))))
      else if Kind (current ts) = TokenLBracket then
        (if Kind (current (advance ts)) = TokenRBracket then Some (Inr (ArrayLiteral [], advance (advance ts)))
         else P (NArray []) (advance ts))
      else parse_literal ts)"
| "parse_step P (NArray elements) ts =
     pbind (P (NLevel LNull) ts) (\<lambda>elem ts'.
       if Kind (current ts') \<noteq> TokenComma
       then pbind (expect TokenRBracket ts') (\<lambda>_ ts''. Some (Inr (ArrayLiteral (elements @ [elem]), ts'')))
       else P (NArray (elements @ [elem])) (advance ts'))"

primrec parse_nt :: "nat \<Rightarrow> nonterm \<Rightarrow> Token list \<Rightarrow> Expr parsed" where
  "parse_nt 0 = (\<lambda>nt ts. None)"
| "parse_nt (Suc n) = (\<lambda>nt ts. parse_step (parse_nt n) nt ts)"

definition parseExpr :: "nat \<Rightarrow> Token list \<Rightarrow> Expr parsed" where
  "parseExpr n = parse_nt n (NLevel LNull)"

definition parse_fuel :: "Token list \<Rightarrow> nat" where
  "parse_fuel ts = 12 * length ts + 11"

definition parse_all :: "nat \<Rightarrow> Token list \<Rightarrow> Expr parsed" where
  "parse_all n tokens = pbind (parseExpr n tokens) (\<lambda>expr ts.
     if Kind (current ts) \<noteq> TokenEOF then Some (Inl (UnexpectedToken (Kind (current ts)) (Pos (current ts))))
     else Some (Inr (expr, ts)))"

definition Parse :: "unicode \<Rightarrow> string \<Rightarrow> (parse_error + Expr) option" where
  "Parse uc input = (case Lex uc input of
       Inl e \<Rightarrow> Some (Inl (LexError e))
     | Inr tokens \<Rightarrow> map_option (map_sum id fst) (parse_all (parse_fuel tokens) tokens))"

definition ValidateSyntax :: "unicode \<Rightarrow> string \<Rightarrow> parse_error option option" where
  "ValidateSyntax uc expression = map_option (\<lambda>r. case r of Inl e \<Rightarrow> Some e | Inr _ \<Rightarrow> None) (Parse uc expression)"


subsection \<open>The parser reads on and ends\<close>

lemma pbind_Inr: "pbind m f = Some (Inr r) \<longleftrightarrow> (\<exists>a ts. m = Some (Inr (a, ts)) \<and> f a ts = Some (Inr r))"
  by (auto simp: pbind_def split: option.split sum.split)

lemma pbind_None: "pbind m f = None \<longleftrightarrow> m = None \<or> (\<exists>a ts. m = Some (Inr (a, ts)) \<and> f a ts = None)"
  by (auto simp: pbind_def split: option.split sum.split)

lemma pbind_Some [simp]: "pbind (Some (Inr (a, ts))) f = f a ts" "pbind (Some (Inl e)) f = Some (Inl e)"
  by (simp_all add: pbind_def)

lemma expect_Inr: "expect k ts = Some (Inr (t, ts')) \<longleftrightarrow> Kind (current ts) = k \<and> t = current ts \<and> ts' = advance ts"
  by (auto simp: expect_def Let_def)

lemma expect_Some: "expect k ts \<noteq> None"
  by (simp add: expect_def Let_def)

lemma advance_less: "Kind (current ts) \<noteq> TokenEOF \<Longrightarrow> length (advance ts) < length ts"
  by (cases ts) (simp_all add: current_def advance_def)

lemma advance_le: "length (advance ts) \<le> length ts"
  by (simp add: advance_def)

lemma op_not_eof: "k \<in> set (level_ops l) \<Longrightarrow> k \<noteq> TokenEOF"
  by (cases l) auto

lemma parse_literal_reads:
  "parse_literal ts = Some (Inr (e, ts')) \<Longrightarrow> ts' = advance ts \<and> Kind (current ts) \<noteq> TokenEOF"
  by (auto simp: parse_literal_def Let_def split: TokenKind.splits option.splits)

lemma parse_literal_Some: "parse_literal ts \<noteq> None"
  by (auto simp: parse_literal_def Let_def split: TokenKind.splits option.splits)

definition reads :: "nonterm \<Rightarrow> Token list \<Rightarrow> Token list \<Rightarrow> bool" where
  "reads nt ts ts' \<longleftrightarrow> (case nt of NLoop _ _ \<Rightarrow> length ts' \<le> length ts | NPostfixLoop _ \<Rightarrow> length ts' \<le> length ts
     | _ \<Rightarrow> length ts' < length ts)"

lemma parse_step_reads:
  assumes P: "\<And>nt ts e ts'. P nt ts = Some (Inr (e, ts')) \<Longrightarrow> reads nt ts ts'"
    and r: "parse_step P nt ts = Some (Inr (e, ts'))"
  shows "reads nt ts ts'"
proof (cases nt)
  case (NLevel l)
  then show ?thesis using r by (auto simp: pbind_Inr reads_def split: if_splits dest!: P)
next
  case (NLoop l left)
  show ?thesis
  proof (cases "Kind (current ts) \<in> set (level_ops l)")
    case True
    then have "length (advance ts) < length ts" by (intro advance_less op_not_eof)
    with True NLoop r show ?thesis by (auto simp: pbind_Inr reads_def dest!: P)
  qed (use NLoop r in \<open>simp add: reads_def\<close>)
next
  case NMembership
  with r obtain left ts1 where u: "P NUnary ts = Some (Inr (left, ts1))" and
      m: "(if Kind (current ts1) \<in> set (level_ops LMem)
       then pbind (P NUnary (advance ts1)) (\<lambda>right ts''. Some (Inr (BinaryExpr left (Kind (current ts1)) right, ts'')))
       else Some (Inr (left, ts1))) = Some (Inr (e, ts'))" by (auto simp: pbind_Inr)
  have "length ts1 < length ts" using P[OF u] by (simp add: reads_def)
  moreover have "length ts' \<le> length ts1"
    using m advance_le[of ts1] by (auto simp: pbind_Inr reads_def split: if_splits dest!: P)
  ultimately show ?thesis using NMembership by (simp add: reads_def)
next
  case NUnary
  then show ?thesis using r advance_le[of ts] by (auto simp: pbind_Inr reads_def split: if_splits dest!: P)
next
  case NPostfix
  then show ?thesis using r by (auto simp: pbind_Inr reads_def dest!: P)
next
  case (NPostfixLoop expr)
  then show ?thesis using r
    by (auto simp: pbind_Inr reads_def Let_def expect_Inr advance_def split: if_splits option.splits sum.splits dest!: P)
next
  case NPrimary
  then show ?thesis using r advance_less[of ts]
    by (auto simp: pbind_Inr reads_def expect_Inr advance_def split: if_splits dest!: P parse_literal_reads)
next
  case (NArray elements)
  then show ?thesis using r
    by (auto simp: pbind_Inr reads_def expect_Inr advance_def split: if_splits dest!: P)
qed

lemma parse_nt_reads: "parse_nt n nt ts = Some (Inr (e, ts')) \<Longrightarrow> reads nt ts ts'"
proof (induction n arbitrary: nt ts e ts')
  case (Suc n)
  then show ?case using parse_step_reads[of "parse_nt n" nt ts e ts'] by simp
qed simp

text \<open>Fuel: 12 for every token, and the height of the nonterminal above the tokens.\<close>

fun rank :: "nonterm \<Rightarrow> nat" where
  "rank (NLevel LNull) = 10" | "rank (NLevel LOr) = 9" | "rank (NLevel LAnd) = 8" | "rank (NLevel LEq) = 7"
| "rank (NLevel LCmp) = 6" | "rank (NLevel LMem) = 5" | "rank NMembership = 4" | "rank NUnary = 3"
| "rank NPostfix = 2" | "rank NPrimary = 1" | "rank (NLoop _ _) = 1" | "rank (NPostfixLoop _) = 1" | "rank (NArray _) = 11"

lemma rank_bounds: "rank nt \<le> 11" "0 < rank nt" by (cases nt rule: rank.cases; simp)+

lemma rank_operand: "l \<noteq> LMem \<Longrightarrow> rank (NLevel (operand_level l)) < rank (NLevel l)" by (cases l) auto

definition returns :: "'a option \<Rightarrow> bool" where
  "returns m \<longleftrightarrow> m \<noteq> None"

lemma pbind_ok:
  "returns m \<Longrightarrow> (\<And>a us. m = Some (Inr (a, us)) \<Longrightarrow> returns (f a us)) \<Longrightarrow> returns (pbind m f)"
  by (auto simp: returns_def pbind_def split: sum.split)

lemma returns_Some [simp]: "returns (Some x)" "returns (expect k ts)" "returns (parse_literal ts)"
  using expect_Some parse_literal_Some by (auto simp: returns_def)

lemma returns_if: "(c \<Longrightarrow> returns a) \<Longrightarrow> (\<not> c \<Longrightarrow> returns b) \<Longrightarrow> returns (if c then a else b)"
  by simp

text \<open>A step returns if the calls do that have read a token or are for a lower nonterminal.\<close>

lemma parse_step_Some:
  assumes P: "\<And>nt ts e ts'. P nt ts = Some (Inr (e, ts')) \<Longrightarrow> reads nt ts ts'"
    and short: "\<And>nt' us. length us < length ts \<Longrightarrow> returns (P nt' us)"
    and low: "\<And>nt'. rank nt' < rank nt \<Longrightarrow> returns (P nt' ts)"
  shows "returns (parse_step P nt ts)"
proof -
  have read: "length us < length ts" if "P nt' ts = Some (Inr (e, us))" "\<And>l e. nt' \<noteq> NLoop l e" "\<And>e. nt' \<noteq> NPostfixLoop e" for nt' e us
    using P[OF that(1)] that(2,3) by (cases nt') (auto simp: reads_def)
  have read1: "length us \<le> length vs" if "P nt' vs = Some (Inr (e, us))" for nt' e us vs
    using P[OF that(1)] by (cases nt') (auto simp: reads_def)
  have tok: "length (advance us) < length ts" if "Kind (current us) \<noteq> TokenEOF" "length us \<le> length ts" for us
    using advance_less[OF that(1)] that(2) by simp
  have tok2: "length (advance us) < length ts" if "length us < length ts" for us using advance_le[of us] that by simp
  show ?thesis
  proof (cases nt)
    case (NLevel l)
    show ?thesis
    proof (cases "l = LMem")
      case False
      then have "returns (P (NLevel (operand_level l)) ts)" using NLevel by (intro low) (simp add: rank_operand)
      with False NLevel read show ?thesis by (auto intro!: pbind_ok short)
    qed (use NLevel low[of NMembership] in simp)
  next
    case (NLoop l left)
    show ?thesis
    proof (cases "Kind (current ts) \<in> set (level_ops l)")
      case True
      from tok[of ts] op_not_eof[OF True] have "length (advance ts) < length ts" by simp
      with True NLoop show ?thesis
        by (auto intro!: pbind_ok short dest!: read1)
    qed (use NLoop in simp)
  next
    case NMembership
    have "returns (P NUnary (advance us))" if "P NUnary ts = Some (Inr (e, us))" for e us
      by (rule short[OF tok2[OF read[OF that]]]) simp_all
    with NMembership low[of NUnary] show ?thesis by (auto intro!: pbind_ok)
  next
    case NUnary
    with tok[of ts] low[of NPostfix] show ?thesis by (auto intro!: pbind_ok short)
  next
    case NPostfix
    with low[of NPrimary] read show ?thesis by (auto intro!: pbind_ok short)
  next
    case (NPostfixLoop expr)
    show ?thesis
    proof (cases "Kind (current ts) = TokenDot \<or> Kind (current ts) = TokenLBracket")
      case True
      with tok[of ts] have t: "length (advance ts) < length ts" by auto
      note t2 = tok2[OF t]
      have "length us \<le> length (advance ts) \<Longrightarrow> length (advance us) < length ts" for us
        using t advance_le[of us] by simp
      with True NPostfixLoop t t2 expect_Some[of TokenIdent "advance ts"] show ?thesis
        by (auto simp: Let_def expect_Inr intro!: pbind_ok short split: option.splits sum.splits dest!: read1)
    qed (use NPostfixLoop in simp)
  next
    case NPrimary
    with tok[of ts] show ?thesis
      by (auto intro!: pbind_ok short)
  next
    case (NArray elements)
    have "returns (P nt' (advance us))" if "P (NLevel LNull) ts = Some (Inr (e, us))" for e us nt'
      by (rule short[OF tok2[OF read[OF that]]]) simp_all
    with NArray low[of "NLevel LNull"] show ?thesis by (auto intro!: pbind_ok)
  qed
qed

lemma parse_nt_fuel: "12 * length ts + rank nt \<le> n \<Longrightarrow> returns (parse_nt n nt ts)"
proof (induction n arbitrary: nt ts)
  case 0
  then show ?case using rank_bounds(2)[of nt] by simp
next
  case (Suc n)
  have "returns (parse_nt n nt' us)" if "length us < length ts" for nt' us
    using Suc.prems that rank_bounds(1)[of nt'] rank_bounds(2)[of nt] by (intro Suc.IH) simp
  moreover have "returns (parse_nt n nt' ts)" if "rank nt' < rank nt" for nt'
    using Suc.prems that by (intro Suc.IH) simp
  ultimately show ?case using parse_step_Some[of "parse_nt n" ts nt] parse_nt_reads by simp
qed

lemma Parse_returns: "\<exists>r. Parse uc input = Some r"
proof -
  have "parse_all (parse_fuel tokens) tokens \<noteq> None" for tokens
    using parse_nt_fuel[of tokens "NLevel LNull" "parse_fuel tokens"]
    by (simp add: parse_all_def parseExpr_def parse_fuel_def pbind_None returns_def)
  then show ?thesis by (simp add: Parse_def split: sum.split)
qed

text \<open>
  Parsing always returns. For every input the lexer ends, and the recursive descent, loops included, comes
  back with an expression or an error within a number of nested calls that is linear in the number of
  tokens: the fuel \<open>Parse\<close> provides never runs out.
\<close>

theorem Parse_total: "Parse uc input \<noteq> None"
  using Parse_returns[of uc input] by auto

text \<open>More fuel does not change a result.\<close>

definition refines_to :: "'a option \<Rightarrow> 'a option \<Rightarrow> bool" where
  "refines_to m m' \<longleftrightarrow> (\<forall>r. m = Some r \<longrightarrow> m' = Some r)"

lemma refines_to_intros:
  "refines_to m m"
  "(c \<Longrightarrow> refines_to a a') \<Longrightarrow> (\<not> c \<Longrightarrow> refines_to b b') \<Longrightarrow> refines_to (if c then a else b) (if c then a' else b')"
  by (auto simp: refines_to_def)

lemma refines_to_pbind:
  "refines_to m m' \<Longrightarrow> (\<And>a ts. refines_to (f a ts) (f' a ts)) \<Longrightarrow> refines_to (pbind m f) (pbind m' f')"
  by (auto simp: refines_to_def pbind_def split: option.splits sum.splits)

lemma parse_step_mono:
  assumes "\<And>nt ts. refines_to (P nt ts) (Q nt ts)"
  shows "refines_to (parse_step P nt ts) (parse_step Q nt ts)"
  by (cases nt)
    (auto simp: Let_def simp del: level_ops.simps
      intro!: refines_to_pbind refines_to_intros(1) assms split: option.split sum.split)

lemma parse_nt_mono: "n \<le> m \<Longrightarrow> refines_to (parse_nt n nt ts) (parse_nt m nt ts)"
proof (induction n arbitrary: m nt ts)
  case 0
  then show ?case by (simp add: refines_to_def)
next
  case (Suc n)
  then obtain k where k: "m = Suc k" "n \<le> k" by (cases m) simp_all
  then show ?case by (simp add: parse_step_mono Suc.IH)
qed


subsection \<open>The grammar the parser implements\<close>

inductive derives :: "nonterm \<Rightarrow> Token list \<Rightarrow> Expr \<Rightarrow> Token list \<Rightarrow> bool" where
  d_mem: "derives NMembership ts e us \<Longrightarrow> derives (NLevel LMem) ts e us"
| d_level: "l \<noteq> LMem \<Longrightarrow> derives (NLevel (operand_level l)) ts a us \<Longrightarrow> derives (NLoop l a) us e vs \<Longrightarrow> derives (NLevel l) ts e vs"
| d_loop_op: "Kind t \<in> set (level_ops l) \<Longrightarrow> derives (NLevel (operand_level l)) ts b us \<Longrightarrow>
    derives (NLoop l (BinaryExpr a (Kind t) b)) us e vs \<Longrightarrow> derives (NLoop l a) (t # ts) e vs"
| d_loop_end: "Kind (current ts) \<notin> set (level_ops l) \<Longrightarrow> derives (NLoop l a) ts a ts"
| d_member_op: "derives NUnary ts a (t # us) \<Longrightarrow> Kind t \<in> set (level_ops LMem) \<Longrightarrow> derives NUnary us b vs \<Longrightarrow>
    derives NMembership ts (BinaryExpr a (Kind t) b) vs"
| d_member_end: "derives NUnary ts a us \<Longrightarrow> Kind (current us) \<notin> set (level_ops LMem) \<Longrightarrow> derives NMembership ts a us"
| d_not: "Kind t = TokenNot \<Longrightarrow> derives NUnary ts a us \<Longrightarrow> derives NUnary (t # ts) (UnaryExpr TokenNot a) us"
| d_unary: "Kind (current ts) \<noteq> TokenNot \<Longrightarrow> derives NPostfix ts a us \<Longrightarrow> derives NUnary ts a us"
| d_postfix: "derives NPrimary ts a us \<Longrightarrow> derives (NPostfixLoop a) us e vs \<Longrightarrow> derives NPostfix ts e vs"
| d_dot: "Kind t = TokenDot \<Longrightarrow> Kind p = TokenIdent \<or> isKeywordToken (Kind p) \<Longrightarrow>
    derives (NPostfixLoop (MemberExpr a (Value p))) ts e us \<Longrightarrow> derives (NPostfixLoop a) (t # p # ts) e us"
| d_index: "Kind t = TokenLBracket \<Longrightarrow> derives (NLevel LNull) ts i (c # us) \<Longrightarrow> Kind c = TokenRBracket \<Longrightarrow>
    derives (NPostfixLoop (IndexExpr a i)) us e vs \<Longrightarrow> derives (NPostfixLoop a) (t # ts) e vs"
| d_postfix_end: "Kind (current ts) \<noteq> TokenDot \<Longrightarrow> Kind (current ts) \<noteq> TokenLBracket \<Longrightarrow> derives (NPostfixLoop a) ts a ts"
| d_paren: "Kind t = TokenLParen \<Longrightarrow> derives (NLevel LNull) ts e (c # us) \<Longrightarrow> Kind c = TokenRParen \<Longrightarrow> derives NPrimary (t # ts) e us"
| d_empty: "Kind t = TokenLBracket \<Longrightarrow> Kind c = TokenRBracket \<Longrightarrow> derives NPrimary (t # c # ts) (ArrayLiteral []) ts"
| d_array: "Kind t = TokenLBracket \<Longrightarrow> Kind (current ts) \<noteq> TokenRBracket \<Longrightarrow> derives (NArray []) ts e us \<Longrightarrow> derives NPrimary (t # ts) e us"
| d_literal: "parse_literal ts = Some (Inr (e, us)) \<Longrightarrow> derives NPrimary ts e us"
| d_elem: "derives (NLevel LNull) ts x (c # us) \<Longrightarrow> Kind c = TokenComma \<Longrightarrow> derives (NArray (xs @ [x])) us e vs \<Longrightarrow> derives (NArray xs) ts e vs"
| d_last: "derives (NLevel LNull) ts x (c # us) \<Longrightarrow> Kind c = TokenRBracket \<Longrightarrow> derives (NArray xs) ts (ArrayLiteral (xs @ [x])) us"

lemma current_Cons [simp]: "current (t # ts) = t" "advance (t # ts) = ts"
  by (simp_all add: current_def advance_def)

lemma expect_Cons [simp]: "Kind t = k \<Longrightarrow> expect k (t # ts) = Some (Inr (t, ts))"
  by (simp add: expect_def)

lemma parse_literal_kind:
  "parse_literal ts = Some (Inr r) \<Longrightarrow> Kind (current ts) \<noteq> TokenLParen \<and> Kind (current ts) \<noteq> TokenLBracket"
  by (auto simp: parse_literal_def Let_def)

lemma parse_common:
  assumes "\<exists>n. parse_nt n nt ts = Some r" "\<exists>n. parse_nt n nt' ts' = Some r'"
  obtains n where "parse_nt n nt ts = Some r" "parse_nt n nt' ts' = Some r'"
proof -
  obtain a b where "parse_nt a nt ts = Some r" "parse_nt b nt' ts' = Some r'" using assms by blast
  then show thesis
    using that[of "max a b"] parse_nt_mono[of a "max a b" nt ts] parse_nt_mono[of b "max a b" nt' ts']
    by (simp add: refines_to_def)
qed

lemma parse_two:
  assumes "\<exists>n. parse_nt n nt ts = Some r" "\<exists>n. parse_nt n nt' ts' = Some r'"
    and "\<And>n. parse_nt n nt ts = Some r \<Longrightarrow> parse_nt n nt' ts' = Some r' \<Longrightarrow> parse_step (parse_nt n) nt'' ts'' = Some r''"
  shows "\<exists>n. parse_nt n nt'' ts'' = Some r''"
proof -
  obtain n where "parse_nt n nt ts = Some r" "parse_nt n nt' ts' = Some r'" using parse_common assms(1,2) .
  then have "parse_nt (Suc n) nt'' ts'' = Some r''" using assms(3) by simp
  then show ?thesis by blast
qed

lemma parse_one:
  assumes "\<exists>n. parse_nt n nt ts = Some r"
    and "\<And>n. parse_nt n nt ts = Some r \<Longrightarrow> parse_step (parse_nt n) nt'' ts'' = Some r''"
  shows "\<exists>n. parse_nt n nt'' ts'' = Some r''"
  using parse_two[OF assms(1,1), of nt'' ts'' r''] assms(2) by blast

lemma parse_zero:
  assumes "\<And>P. parse_step P nt ts = Some r" shows "\<exists>n. parse_nt n nt ts = Some r"
  using assms by (intro exI[of _ 1]) simp

lemma derives_parse: "derives nt ts e us \<Longrightarrow> \<exists>n. parse_nt n nt ts = Some (Inr (e, us))"
proof (induction rule: derives.induct)
  case (d_mem ts e us)
  then show ?case by (elim parse_one) simp
next
  case (d_level l ts a us e vs)
  from d_level(4,5) show ?case by (rule parse_two) (simp add: d_level(1))
next
  case (d_loop_op t l ts b us a e vs)
  from d_loop_op(4,5) show ?case by (rule parse_two) (simp add: d_loop_op(1))
next
  case (d_loop_end ts l a)
  then show ?case by (intro parse_zero) simp
next
  case (d_member_op ts a t us b vs)
  from d_member_op(4,5) show ?case by (rule parse_two) (use d_member_op(2) in simp)
next
  case (d_member_end ts a us)
  from d_member_end(3) show ?case by (rule parse_one) (use d_member_end(2) in simp)
next
  case (d_not t ts a us)
  from d_not(3) show ?case by (rule parse_one) (simp add: d_not(1))
next
  case (d_unary ts a us)
  from d_unary(3) show ?case by (rule parse_one) (simp add: d_unary(1))
next
  case (d_postfix ts a us e vs)
  from d_postfix(3,4) show ?case by (rule parse_two) simp
next
  case (d_dot t p a ts e us)
  from d_dot(4) show ?case by (rule parse_one) (use d_dot(1,2) in \<open>auto simp: expect_def Let_def\<close>)
next
  case (d_index t ts i c us a e vs)
  from d_index(5,6) show ?case by (rule parse_two) (use d_index(1,3) in simp)
next
  case (d_postfix_end ts a)
  then show ?case by (intro parse_zero) simp
next
  case (d_paren t ts e c us)
  from d_paren(4) show ?case by (rule parse_one) (use d_paren(1,3) in simp)
next
  case (d_empty t c ts)
  then show ?case by (intro parse_zero) simp
next
  case (d_array t ts e us)
  from d_array(4) show ?case by (rule parse_one) (use d_array(1,2) in simp)
next
  case (d_literal ts e us)
  then show ?case using parse_literal_kind by (intro parse_zero) fastforce
next
  case (d_elem ts x c us xs e vs)
  from d_elem(4,5) show ?case by (rule parse_two) (use d_elem(2) in simp)
next
  case (d_last ts x c us xs)
  from d_last(3) show ?case by (rule parse_one) (use d_last(2) in simp)
qed

lemma derives_Parse:
  assumes "Lex uc input = Inr tokens" "derives (NLevel LNull) tokens e us" "Kind (current us) = TokenEOF"
  shows "Parse uc input = Some (Inr e)"
proof -
  let ?n = "parse_fuel tokens"
  obtain r where r: "parse_nt ?n (NLevel LNull) tokens = Some r"
    using parse_nt_fuel[of tokens "NLevel LNull" ?n] by (auto simp: returns_def parse_fuel_def)
  then obtain n where "parse_nt n (NLevel LNull) tokens = Some r" "parse_nt n (NLevel LNull) tokens = Some (Inr (e, us))"
    using derives_parse[OF assms(2)] by (metis parse_common)
  then show ?thesis using r assms(1,3) by (auto simp: Parse_def parse_all_def parseExpr_def)
qed

end
