(* ===== verification/Expr_Roundtrip.thy ===== *)
theory Expr_Roundtrip
  imports Expr_Parser
begin

section \<open>Condition expressions: precedence, and printing followed by parsing\<close>

text \<open>
  A printer that writes parentheses only where the precedence table of \<open>parser.go\<close> needs them. The table
  is written out here on its own, and \<open>op_in_level\<close> relates it to the parser's levels. Parsing
  what it writes gives the expression back, which fixes the parser's precedence and associativity.
\<close>

text \<open>
  The precedence table in the comment of \<open>parser.go\<close>, written out: the printer below reads this table and
  never the parser's own functions, so that the two can disagree.
\<close>

fun op_level :: "TokenKind \<Rightarrow> nat" where
  "op_level TokenNullCoal = 1"
| "op_level TokenOr = 2"
| "op_level TokenAnd = 3"
| "op_level TokenEq = 4"
| "op_level TokenNeq = 4"
| "op_level TokenLt = 5"
| "op_level TokenGt = 5"
| "op_level TokenLte = 5"
| "op_level TokenGte = 5"
| "op_level TokenIn = 6"
| "op_level TokenHas = 6"
| "op_level TokenContains = 6"
| "op_level TokenStartsWith = 6"
| "op_level TokenEndsWith = 6"
| "op_level TokenMatches = 6"
| "op_level _ = 0"

fun prec :: "Expr \<Rightarrow> nat" where
  "prec (BinaryExpr _ op _) = op_level op"
| "prec (UnaryExpr _ _) = 7"
| "prec _ = 8"

type_synonym lexemes = "(TokenKind \<times> string) list"

definition fixed :: "TokenKind \<Rightarrow> TokenKind \<times> string" where
  "fixed k = (k, fixed_text k)"

definition parens :: "lexemes \<Rightarrow> lexemes" where
  "parens x = fixed TokenLParen # x @ [fixed TokenRParen]"

definition at_least :: "nat \<Rightarrow> Expr \<Rightarrow> lexemes \<Rightarrow> lexemes" where
  "at_least j e x = (if prec e < j then parens x else x)"

fun literal_lexeme :: "val \<Rightarrow> TokenKind \<times> string" where
  "literal_lexeme (VBool True) = fixed TokenTrue"
| "literal_lexeme (VBool False) = fixed TokenFalse"
| "literal_lexeme (VStr s) = (TokenString, s)"
| "literal_lexeme (VF64 (F64 x)) = (TokenNumber, show_nat (nat \<lfloor>x\<rfloor>))"
| "literal_lexeme _ = fixed TokenNull"

fun commas :: "lexemes list \<Rightarrow> lexemes" where
  "commas [] = []"
| "commas [x] = x"
| "commas (x # y # ys) = x @ fixed TokenComma # commas (y # ys)"

fun print_expr :: "Expr \<Rightarrow> lexemes" where
  "print_expr (BinaryExpr a op b) =
     (let k = op_level op in
      at_least (if k = 6 then 7 else k) a (print_expr a) @ fixed op # at_least (Suc k) b (print_expr b))"
| "print_expr (UnaryExpr op a) = fixed op # at_least 7 a (print_expr a)"
| "print_expr (LiteralExpr v) = [literal_lexeme v]"
| "print_expr (IdentExpr x) = [(TokenIdent, x)]"
| "print_expr (MemberExpr a p) = at_least 8 a (print_expr a) @ [fixed TokenDot, (ident_kind p, p)]"
| "print_expr (IndexExpr a i) = at_least 8 a (print_expr a) @ fixed TokenLBracket # print_expr i @ [fixed TokenRBracket]"
| "print_expr (ArrayLiteral xs) = fixed TokenLBracket # commas (map print_expr xs) @ [fixed TokenRBracket]"

text \<open>What has a spelling: numbers are natural numbers below 2 to the 53; strings are arbitrary.\<close>

fun printable_literal :: "val \<Rightarrow> bool" where
  "printable_literal (VF64 (F64 x)) = (0 \<le> x \<and> x < 2 ^ 53 \<and> x = of_int \<lfloor>x\<rfloor>)"
| "printable_literal VNil = True"
| "printable_literal (VBool _) = True"
| "printable_literal (VStr _) = True"
| "printable_literal _ = False"

fun printable :: "Expr \<Rightarrow> bool" where
  "printable (BinaryExpr a op b) = (op_level op \<noteq> 0 \<and> printable a \<and> printable b)"
| "printable (UnaryExpr op a) = (op = TokenNot \<and> printable a)"
| "printable (LiteralExpr v) = printable_literal v"
| "printable (IdentExpr x) = (is_word x \<and> mget keyword_table x = None)"
| "printable (MemberExpr a p) = (printable a \<and> is_word p)"
| "printable (IndexExpr a i) = (printable a \<and> printable i)"
| "printable (ArrayLiteral xs) = (\<forall>x \<in> set xs. printable x)"

definition print_source :: "Expr \<Rightarrow> string" where
  "print_source e = write_tokens (print_expr e)"


subsection \<open>Numbers\<close>

lemma digit_char_48: "d < 10 \<Longrightarrow> digit_char (char_of (48 + d)) \<and> byte (char_of (48 + d)) = 48 + d" for d :: nat
proof -
  assume "d < 10"
  then have "d \<in> set [0, 1, 2, 3, 4, 5, 6, 7, 8, 9]" by auto
  then show ?thesis by (auto simp: digit_char_def byte_def char_of_def bit_0)
qed

lemma show_nat_digits: "show_nat n \<noteq> [] \<and> (\<forall>c \<in> set (show_nat n). digit_char c) \<and> digits_value (show_nat n) = int n"
proof (induction n rule: show_nat.induct)
  case (1 n)
  show ?case
  proof (cases "n < 10")
    case True
    then show ?thesis using digit_char_48[of n] by (simp add: show_nat.simps[of n] digits_value_def)
  next
    case False
    have "digit_char (char_of (48 + n mod 10)) \<and> byte (char_of (48 + n mod 10)) = 48 + n mod 10" by (rule digit_char_48) simp
    moreover have "10 * int (n div 10) + int (n mod 10) = int n" by presburger
    ultimately show ?thesis using 1[OF False] False by (simp add: show_nat.simps[of n] digits_value_def)
  qed
qed

lemma ParseFloat_show_nat:
  assumes "n < 2 ^ 53" shows "ParseFloat (show_nat n) = Some (F64 (of_nat n))"
proof -
  obtain c w where s: "show_nat n = c # w" "digit_char c" using show_nat_digits[of n] by (cases "show_nat n") auto
  have "c \<noteq> CHR ''-''" using s(2) by (auto simp: digit_char_def)
  then have sign: "sign_span (show_nat n) = 0" using s(1) by (simp add: sign_span_def)
  have span: "digit_span (show_nat n) = length (show_nat n)"
    using show_nat_digits[of n] digit_char_byte by (auto simp: digit_span_def takeWhile_eq_all_conv[THEN iffD2])
  have r: "round_f64 (of_int (int n)) = F64 (of_int (int n))"
    using f64_of_int_exact[of "int n"] assms by (simp add: f64_of_int_def)
  show ?thesis using show_nat_digits[of n] r by (simp add: ParseFloat_def Let_def sign span)
qed


subsection \<open>Deriving what is printed\<close>

fun lvl :: "nat \<Rightarrow> nonterm" where
  "lvl j = (if j = 1 then NLevel LNull else if j = 2 then NLevel LOr else if j = 3 then NLevel LAnd
     else if j = 4 then NLevel LEq else if j = 5 then NLevel LCmp else if j = 6 then NLevel LMem
     else if j = 7 then NUnary else NPostfix)"

fun lev :: "nat \<Rightarrow> level" where
  "lev j = (if j = 1 then LNull else if j = 2 then LOr else if j = 3 then LAnd else if j = 4 then LEq else LCmp)"

definition stop :: "nat \<Rightarrow> TokenKind \<Rightarrow> bool" where
  "stop j k \<longleftrightarrow> op_level k \<le> j \<and> (j = 6 \<longrightarrow> op_level k \<noteq> 6) \<and> (j < 8 \<longrightarrow> k \<noteq> TokenDot \<and> k \<noteq> TokenLBracket)"

text \<open>How parsing at a level goes on after a complete expression.\<close>

definition cont :: "nat \<Rightarrow> Expr \<Rightarrow> Token list \<Rightarrow> Expr \<Rightarrow> Token list \<Rightarrow> bool" where
  "cont j e rest e' us \<longleftrightarrow>
     (if j \<le> 5 then derives (NLoop (lev j) e) rest e' us
      else if j = 8 then derives (NPostfixLoop e) rest e' us else e' = e \<and> us = rest)"

definition parses_at :: "nat \<Rightarrow> lexemes \<Rightarrow> Expr \<Rightarrow> bool" where
  "parses_at j x e \<longleftrightarrow> (\<forall>ts rest e' us. map lexeme ts = x \<longrightarrow> stop j (Kind (current rest)) \<longrightarrow>
     cont j e rest e' us \<longrightarrow> derives (lvl j) (ts @ rest) e' us)"

lemma parses_atI:
  "(\<And>ts rest e' us. map lexeme ts = x \<Longrightarrow> stop j (Kind (current rest)) \<Longrightarrow> cont j e rest e' us \<Longrightarrow>
      derives (lvl j) (ts @ rest) e' us) \<Longrightarrow> parses_at j x e"
  by (simp add: parses_at_def)

lemma parses_atD:
  "parses_at j x e \<Longrightarrow> map lexeme ts = x \<Longrightarrow> stop j (Kind (current rest)) \<Longrightarrow> cont j e rest e' us \<Longrightarrow>
   derives (lvl j) (ts @ rest) e' us"
  by (simp add: parses_at_def)

lemma op_in_level: "1 \<le> j \<Longrightarrow> j \<le> 5 \<Longrightarrow> k \<in> set (level_ops (lev j)) \<longleftrightarrow> op_level k = j"
proof -
  assume "1 \<le> j" "j \<le> 5"
  then have "j \<in> {1, 2, 3, 4, 5}" by auto
  then show ?thesis by (cases k) auto
qed

lemma op_in_mem: "k \<in> set (level_ops LMem) \<longleftrightarrow> op_level k = 6"
  by (cases k) auto

lemma op_kinds: "op_level k \<noteq> 0 \<Longrightarrow> k \<noteq> TokenDot \<and> k \<noteq> TokenLBracket \<and> k \<noteq> TokenNot"
  by (cases k) auto

lemma op_level_le: "op_level k \<le> 6"
  by (cases k) simp_all

text \<open>When nothing that binds tighter follows, the expression is complete at the next level.\<close>

lemma cont_end:
  assumes "1 \<le> j" "j \<le> 8" "stop j (Kind (current rest))" "j \<le> 5 \<Longrightarrow> op_level (Kind (current rest)) \<noteq> j"
    and "j = 8 \<Longrightarrow> Kind (current rest) \<noteq> TokenDot \<and> Kind (current rest) \<noteq> TokenLBracket"
  shows "cont j e rest e rest"
  using assms op_in_level[of j] by (auto simp: cont_def simp del: lev.simps level_ops.simps intro!: d_loop_end d_postfix_end)

lemma parses_at_down:
  assumes "1 \<le> j" "j < 8" "parses_at (Suc j) x e" "j = 7 \<Longrightarrow> x \<noteq> [] \<and> fst (hd x) \<noteq> TokenNot"
  shows "parses_at j x e"
proof (rule parses_atI)
  fix ts rest e' us
  assume ts: "map lexeme ts = x" and stop: "stop j (Kind (current rest))" and c: "cont j e rest e' us"
  have s: "stop (Suc j) (Kind (current rest))" using stop op_level_le[of "Kind (current rest)"] by (auto simp: stop_def)
  have "cont (Suc j) e rest e rest"
    using assms(1,2) stop s by (intro cont_end) (auto simp: stop_def)
  with parses_atD[OF assms(3) ts s] have d: "derives (lvl (Suc j)) (ts @ rest) e rest" by blast
  consider "j \<in> {1, 2, 3, 4, 5}" | "j = 6" | "j = 7" using assms(1,2) by fastforce
  then show "derives (lvl j) (ts @ rest) e' us"
  proof cases
    case 1
    then have "lvl j = NLevel (lev j)" "lvl (Suc j) = NLevel (operand_level (lev j))" "lev j \<noteq> LMem" by auto
    with d c 1 show ?thesis by (auto simp: cont_def simp del: lvl.simps lev.simps intro: d_level)
  next
    case 2
    have "derives NMembership (ts @ rest) e rest"
      using d stop 2 by (intro d_member_end) (auto simp: op_in_mem stop_def simp del: level_ops.simps)
    with c 2 show ?thesis by (simp add: cont_def d_mem)
  next
    case 3
    have "Kind (current (ts @ rest)) \<noteq> TokenNot" using assms(4) 3 ts by (cases ts) (auto simp: lexeme_def)
    with d c 3 show ?thesis by (auto simp: cont_def intro: d_unary)
  qed
qed

lemma parses_at_lower:
  assumes "parses_at k x e" "j \<le> k" "1 \<le> j" "k \<le> 8" "k = 8 \<Longrightarrow> x \<noteq> [] \<and> fst (hd x) \<noteq> TokenNot"
  shows "parses_at j x e"
  using assms(2,3)
proof (induction j rule: inc_induct)
  case base
  show ?case by (rule assms(1))
next
  case (step n)
  have "n = 7 \<Longrightarrow> k = 8" using step(1,2) assms(4) by linarith
  then have head: "n = 7 \<Longrightarrow> x \<noteq> [] \<and> fst (hd x) \<noteq> TokenNot" using assms(5) by blast
  have lt: "n < 8" using step(2) assms(4) by linarith
  have "parses_at (Suc n) x e" by (rule step.IH) simp
  then show ?case by (rule parses_at_down[OF step.prems lt _ head])
qed

lemma parses_at_parens:
  assumes "parses_at 1 x e" shows "parses_at 8 (parens x) e"
proof (rule parses_atI)
  fix ts rest e' us
  assume ts: "map lexeme ts = parens x" and c: "cont 8 e rest e' us"
  then obtain t ys d where ts': "ts = t # ys @ [d]" "Kind t = TokenLParen" "Kind d = TokenRParen" "map lexeme ys = x"
    by (auto simp: parens_def map_eq_append_conv map_eq_Cons_conv lexeme_def fixed_def)
  have "stop 1 (Kind (current (d # rest)))" using ts'(3) by (simp add: stop_def)
  moreover have "cont 1 e (d # rest) e (d # rest)" using calculation ts'(3) by (intro cont_end) simp_all
  ultimately have "derives (lvl 1) (ys @ d # rest) e (d # rest)" by (rule parses_atD[OF assms ts'(4)])
  with ts' c show "derives (lvl 8) (ts @ rest) e' us" by (auto simp: cont_def intro: d_postfix d_paren)
qed

text \<open>The first token of an expression that is printed at the highest level is not \<open>!\<close>.\<close>

lemma parens_head: "parens x \<noteq> []" "fst (hd (parens x)) \<noteq> TokenNot"
  by (simp_all add: parens_def fixed_def)

lemma parses_at_least:
  assumes "parses_at (prec e) (print_expr e) e" "1 \<le> j" "j \<le> 8" "1 \<le> prec e" "prec e \<le> 8"
    and "prec e = 8 \<Longrightarrow> print_expr e \<noteq> [] \<and> fst (hd (print_expr e)) \<noteq> TokenNot"
  shows "parses_at j (at_least j e (print_expr e)) e"
proof (cases "prec e < j")
  case True
  have "parses_at 1 (print_expr e) e" using assms by (intro parses_at_lower[OF assms(1)]) auto
  then have "parses_at j (parens (print_expr e)) e"
    using assms(2,3) parens_head by (intro parses_at_lower[OF parses_at_parens]) auto
  with True show ?thesis by (simp add: at_least_def)
next
  case False
  then have "parses_at j (print_expr e) e" using assms by (intro parses_at_lower[OF assms(1)]) auto
  with False show ?thesis by (simp add: at_least_def)
qed

lemma lexemes_split:
  assumes "map lexeme ts = x @ fixed op # y"
  obtains ta t tb where "ts = ta @ t # tb" "map lexeme ta = x" "Kind t = op" "map lexeme tb = y"
  using assms by (auto simp: map_eq_append_conv map_eq_Cons_conv lexeme_def[of "_ :: Token"] fixed_def)

lemma parses_at_binary:
  assumes a: "parses_at (op_level op) x a" and b: "parses_at (Suc (op_level op)) y b"
    and k: "1 \<le> op_level op" "op_level op \<le> 5"
  shows "parses_at (op_level op) (x @ fixed op # y) (BinaryExpr a op b)"
proof (rule parses_atI)
  fix ts rest e' us
  let ?k = "op_level op"
  assume ts: "map lexeme ts = x @ fixed op # y" and s: "stop ?k (Kind (current rest))" and c: "cont ?k (BinaryExpr a op b) rest e' us"
  obtain ta t tb where t: "ts = ta @ t # tb" "map lexeme ta = x" "Kind t = op" "map lexeme tb = y"
    by (rule lexemes_split[OF ts])
  have s': "stop (Suc ?k) (Kind (current rest))" using s k by (auto simp: stop_def)
  have "cont (Suc ?k) b rest b rest" using k s s' by (intro cont_end) (auto simp: stop_def)
  then have d: "derives (lvl (Suc ?k)) (tb @ rest) b rest" by (rule parses_atD[OF b t(4) s'])
  have "?k \<in> {1, 2, 3, 4, 5}" using k by auto
  then have l: "lvl (Suc ?k) = NLevel (operand_level (lev ?k))" by auto
  have "derives (NLoop (lev ?k) a) (t # tb @ rest) e' us"
    using d c k op_in_level[of ?k op] t(3) unfolding l by (intro d_loop_op) (simp_all add: cont_def del: lev.simps level_ops.simps)
  then have "cont ?k a (t # tb @ rest) e' us" using k by (simp add: cont_def)
  moreover have "stop ?k (Kind (current (t # tb @ rest)))" using t(3) k op_kinds[of op] by (simp add: stop_def)
  ultimately show "derives (lvl ?k) (ts @ rest) e' us" using parses_atD[OF a t(2)] t(1) by fastforce
qed

lemma parses_at_member_op:
  assumes a: "parses_at 7 x a" and b: "parses_at 7 y b" and k: "op_level op = 6"
  shows "parses_at 6 (x @ fixed op # y) (BinaryExpr a op b)"
proof (rule parses_atI)
  fix ts rest e' us
  assume ts: "map lexeme ts = x @ fixed op # y" and s: "stop 6 (Kind (current rest))" and c: "cont 6 (BinaryExpr a op b) rest e' us"
  obtain ta t tb where t: "ts = ta @ t # tb" "map lexeme ta = x" "Kind t = op" "map lexeme tb = y"
    by (rule lexemes_split[OF ts])
  have "derives (lvl 7) (tb @ rest) b rest" by (rule parses_atD[OF b t(4)]) (use s in \<open>auto simp: stop_def cont_def\<close>)
  moreover have "derives (lvl 7) (ta @ t # tb @ rest) a (t # tb @ rest)"
    by (rule parses_atD[OF a t(2)]) (use t(3) k op_kinds[of op] in \<open>auto simp: stop_def cont_def\<close>)
  moreover have "Kind t \<in> set (level_ops LMem)" using t(3) k by (simp only: op_in_mem)
  ultimately have "derives NMembership (ta @ t # tb @ rest) (BinaryExpr a (Kind t) b) rest" by (auto intro: d_member_op)
  then show "derives (lvl 6) (ts @ rest) e' us" using c t(1,3) by (auto simp: cont_def intro: d_mem)
qed

lemma parses_at_not:
  assumes "parses_at 7 x a" shows "parses_at 7 (fixed TokenNot # x) (UnaryExpr TokenNot a)"
proof (rule parses_atI)
  fix ts rest e' us
  assume ts: "map lexeme ts = fixed TokenNot # x" and s: "stop 7 (Kind (current rest))" and c: "cont 7 (UnaryExpr TokenNot a) rest e' us"
  then obtain t tb where t: "ts = t # tb" "Kind t = TokenNot" "map lexeme tb = x"
    by (auto simp: map_eq_Cons_conv lexeme_def fixed_def)
  have "derives (lvl 7) (tb @ rest) a rest" by (rule parses_atD[OF assms t(3) s]) (simp add: cont_def)
  with t c show "derives (lvl 7) (ts @ rest) e' us" by (auto simp: cont_def intro: d_not)
qed

lemma parses_at_dot:
  assumes "parses_at 8 x a" "is_word p"
  shows "parses_at 8 (x @ [fixed TokenDot, (ident_kind p, p)]) (MemberExpr a p)"
proof (rule parses_atI)
  fix ts rest e' us
  assume ts: "map lexeme ts = x @ [fixed TokenDot, (ident_kind p, p)]" and c: "cont 8 (MemberExpr a p) rest e' us"
  obtain ta t tb where t: "ts = ta @ t # tb" "map lexeme ta = x" "Kind t = TokenDot" "map lexeme tb = [(ident_kind p, p)]"
    by (rule lexemes_split[OF ts])
  then obtain q where q: "tb = [q]" "Kind q = ident_kind p" "Value q = p" by (auto simp: map_eq_Cons_conv lexeme_def)
  have "ident_kind p = TokenIdent \<or> isKeywordToken (ident_kind p)"
    by (auto simp: ident_kind_def keyword_table_def isKeywordToken_def)
  then have "cont 8 a (t # q # rest) e' us" using c t(3) q by (auto simp: cont_def intro: d_dot)
  then show "derives (lvl 8) (ts @ rest) e' us"
    using parses_atD[OF assms(1) t(2), of "t # q # rest" e' us] op_level_le t(1,3) q(1) by (simp add: stop_def)
qed

lemma parses_at_index:
  assumes "parses_at 8 x a" "parses_at 1 y i"
  shows "parses_at 8 (x @ fixed TokenLBracket # y @ [fixed TokenRBracket]) (IndexExpr a i)"
proof (rule parses_atI)
  fix ts rest e' us
  assume ts: "map lexeme ts = x @ fixed TokenLBracket # y @ [fixed TokenRBracket]" and c: "cont 8 (IndexExpr a i) rest e' us"
  obtain ta t tb where t: "ts = ta @ t # tb" "map lexeme ta = x" "Kind t = TokenLBracket" "map lexeme tb = y @ [fixed TokenRBracket]"
    by (rule lexemes_split[OF ts])
  obtain ti d tx where "tb = ti @ d # tx" "map lexeme ti = y" "Kind d = TokenRBracket" "map lexeme tx = []"
    by (rule lexemes_split[OF t(4)])
  then have d: "tb = ti @ [d]" "map lexeme ti = y" "Kind d = TokenRBracket" by auto
  have s: "stop 1 (Kind (current (d # rest)))" using d(3) by (simp add: stop_def)
  have "cont 1 i (d # rest) i (d # rest)" using s d(3) by (intro cont_end) simp_all
  then have "derives (lvl 1) (ti @ d # rest) i (d # rest)" by (rule parses_atD[OF assms(2) d(2) s])
  then have "cont 8 a (t # ti @ d # rest) e' us" using c t(3) d(3) by (auto simp: cont_def intro: d_index)
  then show "derives (lvl 8) (ts @ rest) e' us"
    using parses_atD[OF assms(1) t(2), of "t # ti @ d # rest" e' us] t(1,3) d(1) by (simp add: stop_def)
qed

lemma array_derives:
  assumes "xs \<noteq> []" "\<forall>x \<in> set xs. parses_at 1 (print_expr x) x"
    and "map lexeme ts = commas (map print_expr xs)" "Kind d = TokenRBracket"
  shows "derives (NArray acc) (ts @ d # rest) (ArrayLiteral (acc @ xs)) rest"
proof -
  have elem: "derives (NLevel LNull) (ts @ d # rest) x (d # rest)"
    if "parses_at 1 (print_expr x) x" "map lexeme ts = print_expr x" "Kind d \<in> {TokenRBracket, TokenComma}" for x ts d rest
  proof -
    have s: "stop 1 (Kind (current (d # rest)))" using that(3) by (auto simp: stop_def)
    have "cont 1 x (d # rest) x (d # rest)" using s that(3) by (intro cont_end) auto
    then show ?thesis using parses_atD[OF that(1,2) s] by fastforce
  qed
  show ?thesis using assms
  proof (induction "map print_expr xs" arbitrary: xs acc ts rule: commas.induct)
    case (2 y)
    then obtain x where x: "xs = [x]" "y = print_expr x" by auto
    with 2 show ?case using elem[of x ts d rest] by (auto intro: d_last)
  next
    case (3 y z zs)
    then obtain x w ws where x: "xs = x # w # ws" "y = print_expr x" "z = print_expr w" "zs = map print_expr ws" by auto
    have ts: "map lexeme ts = print_expr x @ fixed TokenComma # commas (map print_expr (w # ws))" using 3(5) x by simp
    obtain ta t tb where t: "ts = ta @ t # tb" "map lexeme ta = print_expr x" "Kind t = TokenComma"
        "map lexeme tb = commas (map print_expr (w # ws))"
      by (rule lexemes_split[OF ts])
    have "derives (NArray (acc @ [x])) (tb @ d # rest) (ArrayLiteral ((acc @ [x]) @ w # ws)) rest"
      using 3(1)[of "w # ws" tb "acc @ [x]"] 3(4,6) x t(4) by simp
    moreover have "derives (NLevel LNull) (ta @ t # tb @ d # rest) x (t # tb @ d # rest)"
      using elem[of x ta t] 3(4) x(1) t(2,3) by simp
    ultimately show ?case using t(1,3) x(1) by (auto intro: d_elem)
  qed simp
qed

lemma parses_at_primary:
  assumes "\<And>ts rest. map lexeme ts = x \<Longrightarrow> derives NPrimary (ts @ rest) e rest"
  shows "parses_at 8 x e"
  using assms by (intro parses_atI) (auto simp: cont_def intro: d_postfix)

lemma op_level_less: "op_level k < 8"
  using op_level_le[of k] by simp

lemma prec_le: "prec e \<le> 8"
  using op_level_less by (cases e) (auto intro: less_imp_le)

lemma prec_pos: "printable e \<Longrightarrow> 1 \<le> prec e"
  by (cases e) auto

definition starts :: "lexemes \<Rightarrow> TokenKind set \<Rightarrow> bool" where
  "starts x K \<longleftrightarrow> x \<noteq> [] \<and> fst (hd x) \<notin> K"

lemma literal_kind: "fst (literal_lexeme v) \<in> {TokenTrue, TokenFalse, TokenString, TokenNumber, TokenNull}"
  by (cases v rule: literal_lexeme.cases) (simp_all add: fixed_def)

lemma starts_at_least:
  "starts x {TokenRBracket} \<Longrightarrow> starts (at_least j e x) {TokenRBracket}"
  "(prec e = 8 \<Longrightarrow> starts x {TokenNot, TokenRBracket}) \<Longrightarrow> starts (at_least 8 e x) {TokenNot, TokenRBracket}"
  using prec_le[of e] by (auto simp: starts_def at_least_def parens_def fixed_def)

lemma starts_append: "starts x K \<Longrightarrow> starts (x @ y) K"
  by (auto simp: starts_def)

lemma print_head:
  "printable e \<Longrightarrow> starts (print_expr e) {TokenRBracket} \<and> (prec e = 8 \<longrightarrow> starts (print_expr e) {TokenNot, TokenRBracket})"
proof (induction e)
  case (BinaryExpr a op b)
  then show ?case using op_level_less[of op] by (simp add: Let_def starts_append starts_at_least)
next
  case (UnaryExpr op a)
  then show ?case by (simp add: starts_def fixed_def)
next
  case (LiteralExpr v)
  then show ?case using literal_kind[of v] by (auto simp: starts_def)
next
  case (IdentExpr x)
  then show ?case by (simp add: starts_def)
next
  case (MemberExpr a p)
  then show ?case by (simp add: starts_append starts_at_least)
next
  case (IndexExpr a i)
  then show ?case by (simp add: starts_append starts_at_least)
next
  case (ArrayLiteral xs)
  then show ?case by (simp add: starts_def fixed_def)
qed

text \<open>A printable literal is read back by \<open>parse_literal\<close>.\<close>

lemma literal_reads:
  assumes "printable_literal v" "lexeme t = literal_lexeme v"
  shows "parse_literal (t # rest) = Some (Inr (LiteralExpr v, rest))"
  using assms
proof (cases v rule: literal_lexeme.cases)
  case (4 x)
  have "0 \<le> x" "x < 2 ^ 53" "of_int \<lfloor>x\<rfloor> = x" using assms(1) 4 by simp_all
  then have n: "nat \<lfloor>x\<rfloor> < 2 ^ 53" "of_nat (nat \<lfloor>x\<rfloor>) = x"
    by (simp_all add: nat_less_iff floor_less_iff)
  show ?thesis using assms(2) 4 ParseFloat_show_nat[OF n(1)] n(2)
    by (simp add: parse_literal_def lexeme_def)
qed (auto simp: parse_literal_def lexeme_def fixed_def)

lemma print_parses: "printable e \<Longrightarrow> parses_at (prec e) (print_expr e) e"
proof (induction e)
  case (BinaryExpr a op b)
  let ?k = "op_level op"
  have at: "printable x \<Longrightarrow> parses_at (prec x) (print_expr x) x \<Longrightarrow> 1 \<le> j \<Longrightarrow> j \<le> 8 \<Longrightarrow> parses_at j (at_least j x (print_expr x)) x" for j x
    using prec_le[of x] prec_pos[of x] print_head[of x] by (intro parses_at_least) (auto simp: starts_def)
  have k: "1 \<le> ?k" "?k \<le> 6" using BinaryExpr.prems op_level_le by auto
  show ?case
  proof (cases "?k = 6")
    case True
    then show ?thesis using BinaryExpr at[of a 7] at[of b 7] parses_at_member_op by simp
  next
    case False
    then show ?thesis using BinaryExpr k at[of a ?k] at[of b "Suc ?k"] parses_at_binary by (simp add: Let_def)
  qed
next
  case (UnaryExpr op a)
  then show ?case
    using prec_le[of a] prec_pos[of a] print_head[of a] by (auto simp: starts_def intro!: parses_at_not parses_at_least)
next
  case (LiteralExpr v)
  have "derives NPrimary (ts @ rest) (LiteralExpr v) rest" if "map lexeme ts = [literal_lexeme v]" for ts rest
    using that LiteralExpr literal_reads by (auto simp: map_eq_Cons_conv intro!: d_literal)
  then show ?case by (simp add: parses_at_primary)
next
  case (IdentExpr x)
  have "derives NPrimary (ts @ rest) (IdentExpr x) rest" if "map lexeme ts = [(TokenIdent, x)]" for ts rest
    using that by (auto simp: map_eq_Cons_conv lexeme_def parse_literal_def intro!: d_literal)
  then show ?case by (simp add: parses_at_primary)
next
  case (MemberExpr a p)
  then show ?case
    using prec_le[of a] prec_pos[of a] print_head[of a] by (auto simp: starts_def intro!: parses_at_dot parses_at_least)
next
  case (IndexExpr a i)
  have "parses_at 1 (print_expr i) i"
    using IndexExpr prec_le[of i] prec_pos[of i] print_head[of i] by (intro parses_at_lower[OF IndexExpr.IH(2)]) (auto simp: starts_def)
  with IndexExpr show ?case
    using prec_le[of a] prec_pos[of a] print_head[of a] by (auto simp: starts_def intro!: parses_at_index parses_at_least)
next
  case (ArrayLiteral xs)
  have elems: "\<forall>x \<in> set xs. parses_at 1 (print_expr x) x"
  proof
    fix x assume x: "x \<in> set xs"
    show "parses_at 1 (print_expr x) x"
      using ArrayLiteral.prems x prec_le[of x] prec_pos[of x] print_head[of x]
      by (intro parses_at_lower[OF ArrayLiteral.IH[OF x]]) (auto simp: starts_def)
  qed
  have "derives NPrimary (ts @ rest) (ArrayLiteral xs) rest"
    if ts: "map lexeme ts = fixed TokenLBracket # commas (map print_expr xs) @ [fixed TokenRBracket]" for ts rest
  proof -
    obtain t ys d where t: "ts = t # ys @ [d]" "Kind t = TokenLBracket" "Kind d = TokenRBracket" "map lexeme ys = commas (map print_expr xs)"
      using ts by (auto simp: map_eq_append_conv map_eq_Cons_conv lexeme_def[of "_ :: Token"] fixed_def)
    show ?thesis
    proof (cases xs)
      case Nil
      with t show ?thesis by (auto intro: d_empty)
    next
      case (Cons x ws)
      have "starts (commas (map print_expr xs)) {TokenRBracket}"
        using print_head[of x] ArrayLiteral.prems Cons by (cases ws) (auto intro: starts_append)
      then have "Kind (current (ys @ d # rest)) \<noteq> TokenRBracket"
        unfolding t(4)[symmetric] by (cases ys) (auto simp: starts_def lexeme_def)
      with t array_derives[OF _ elems t(4,3), of "[]" rest] Cons show ?thesis by (auto intro: d_array)
    qed
  qed
  then show ?case by (simp add: parses_at_primary)
qed


subsection \<open>Printing, lexing and parsing\<close>

lemma fixed_ok: "k \<notin> {TokenIdent, TokenNumber, TokenString, TokenEOF} \<Longrightarrow> lexeme_ok (fixed k)"
  by (cases k) (simp_all add: lexeme_ok_def fixed_def)

lemma literal_ok: "lexeme_ok (literal_lexeme v)"
proof (cases v rule: literal_lexeme.cases)
  case (4 x)
  then show ?thesis using show_nat_digits[of "nat \<lfloor>x\<rfloor>"] by (simp add: lexeme_ok_def)
qed (simp_all add: fixed_ok, simp_all add: lexeme_ok_def)

lemma keyword_entry:
  "mget keyword_table p = Some k \<Longrightarrow> (k, p) = fixed k \<and> k \<notin> {TokenIdent, TokenNumber, TokenString, TokenEOF}"
  by (drule map_of_SomeD) (auto simp: keyword_table_def fixed_def)

lemma word_ok:
  assumes "is_word p" shows "lexeme_ok (ident_kind p, p)"
proof (cases "mget keyword_table p")
  case None
  with assms show ?thesis by (simp add: ident_kind_def lexeme_ok_def)
next
  case (Some k)
  have "lexeme_ok (fixed k)" using keyword_entry[OF Some] by (intro fixed_ok) simp
  with Some keyword_entry[OF Some] show ?thesis by (simp add: ident_kind_def)
qed

lemma op_fixed_ok: "op_level k \<noteq> 0 \<Longrightarrow> lexeme_ok (fixed k)"
  by (rule fixed_ok) auto

lemma at_least_ok: "list_all lexeme_ok (at_least j e x) = list_all lexeme_ok x"
  by (simp add: at_least_def parens_def fixed_ok)

lemma commas_ok: "\<forall>x \<in> set ls. list_all lexeme_ok x \<Longrightarrow> list_all lexeme_ok (commas ls)"
  by (induction ls rule: commas.induct) (simp_all add: fixed_ok)

lemma print_ok: "printable e \<Longrightarrow> list_all lexeme_ok (print_expr e)"
proof (induction e)
  case (IdentExpr x)
  then show ?case by (simp add: lexeme_ok_def)
next
  case (ArrayLiteral xs)
  then show ?case by (simp add: fixed_ok commas_ok)
qed (simp_all add: Let_def at_least_ok fixed_ok op_fixed_ok word_ok literal_ok)

text \<open>
  C39: Parsing reads back what is printed. Every expression over the documented operators, written with
  parentheses only where the precedence table in the parser's comment (\<open>??\<close>, \<open>||\<close>, \<open>&&\<close>, equality,
  comparison, membership, \<open>!\<close>, postfix) and left associativity need them (membership operators do not
  chain: such an operand is parenthesised), with any strings and natural numbers below 2 to the 53 as
  literals and with keywords allowed as property names, is parsed to the same expression.
\<close>

theorem Parse_print:
  assumes "printable e" shows "Parse uc (print_source e) = Some (Inr e)"
proof -
  obtain tokens where t: "Lex uc (print_source e) = Inr tokens" "map lexeme tokens = print_expr e @ [(TokenEOF, [])]"
    using Lex_write[of "print_expr e" uc] print_ok[OF assms] by (auto simp: print_source_def list_all_iff)
  then obtain ts eof where ts: "tokens = ts @ [eof]" "map lexeme ts = print_expr e" "Kind eof = TokenEOF"
    by (auto simp: map_eq_append_conv map_eq_Cons_conv lexeme_def[of "_ :: Token"])
  have "parses_at 1 (print_expr e) e"
    using assms prec_le[of e] prec_pos[of e] print_head[of e]
    by (intro parses_at_lower[OF print_parses[OF assms]]) (auto simp: starts_def)
  moreover have s: "stop 1 (Kind (current [eof]))" using ts(3) by (simp add: stop_def)
  moreover have "cont 1 e [eof] e [eof]" using s ts(3) by (intro cont_end) simp_all
  ultimately have "derives (lvl 1) (ts @ [eof]) e [eof]" using parses_atD ts(2) by blast
  with t(1) ts show ?thesis by (intro derives_Parse[of uc _ tokens e "[eof]"]) auto
qed

definition demo_expr :: Expr where
  "demo_expr = BinaryExpr (BinaryExpr (IdentExpr ''a'') TokenOr (IdentExpr ''b'')) TokenAnd
     (UnaryExpr TokenNot (BinaryExpr (MemberExpr (IdentExpr ''c'') ''in'') TokenGt (LiteralExpr (VF64 (F64 10)))))"

theorem Parse_print_witness:
  "print_source demo_expr = ''( a || b ) && ! ( c . in > 10 ) '' \<and>
   Parse ascii ''( a || b ) && ! ( c . in > 10 ) '' = Some (Inr demo_expr)"
proof -
  have p: "print_source demo_expr = ''( a || b ) && ! ( c . in > 10 ) ''" by code_simp
  have "printable demo_expr" by code_simp
  from Parse_print[OF this, of ascii] p show ?thesis by simp
qed

end
