(* ===== verification/Expr_Eval.thy ===== *)
theory Expr_Eval
  imports Expr_Parser
begin

section \<open>Condition expressions: the evaluator\<close>

text \<open>
  \<open>nodes/conditional/expr/eval.go\<close>. The package-level \<open>regexCache\<close> is explicit state: the
  compiled patterns so far. The regular expression engine of Go's package \<open>regexp\<close> is the argument \<open>rx\<close>,
  which gives the error or the matcher of a pattern. \<open>reflect.DeepEqual\<close> is \<open>deepEqual\<close> on the dynamic
  values; its shortcut for identical backing arrays, which only matters for values that contain NaN, is left out.
\<close>

type_synonym regex_engine = "string \<Rightarrow> string + (string \<Rightarrow> bool)"
type_synonym regex_cache = "(string \<Rightarrow> bool) gomap"

datatype eval_error = UnknownUnary TokenKind | UnknownBinary TokenKind | InvalidIndexType val | InvalidRegex string string


subsection \<open>Coercions and equality\<close>

text \<open>A single artifact or message as a dynamic value, as reading an element of a slice gives it.\<close>

definition meta_val :: "(string \<times> val) list option \<Rightarrow> val" where
  "meta_val m = (case m of None \<Rightarrow> VNilMap | Some m \<Rightarrow> VMap m)"

definition artifact_val :: "artifact \<Rightarrow> val" where
  "artifact_val a = VStruct ''core.Artifact'' [(''ID'', VStr (art_ID a)), (''Type'', VStr (art_Type a)),
     (''MimeType'', VStr (art_MimeType a)), (''Text'', VStr (art_Text a)),
     (''Bytes'', VStruct ''[]byte'' [(''data'', VStr (art_Bytes a))]), (''URI'', VStr (art_URI a)),
     (''Meta'', meta_val (art_Meta a))]"

definition message_val :: "message \<Rightarrow> val" where
  "message_val m = VStruct ''core.Message'' [(''Role'', VStr (msg_Role m)), (''Content'', VStr (msg_Content m)),
     (''Name'', VStr (msg_Name m)), (''Meta'', meta_val (msg_Meta m))]"

text \<open>\<open>reflect.ValueOf(v).Len()\<close> for slices and maps, and the elements of a slice.\<close>

fun slice_elems :: "val \<Rightarrow> val list option" where
  "slice_elems (VList xs) = Some xs"
| "slice_elems (VStrs ss) = Some (map VStr ss)"
| "slice_elems (VMaps ms) = Some (map VMap ms)"
| "slice_elems (VArts as) = Some (map artifact_val as)"
| "slice_elems (VMsgs ms) = Some (map message_val ms)"
| "slice_elems _ = None"

definition IsTruthy :: "val \<Rightarrow> bool" where
  "IsTruthy val = (case val of
       VNil \<Rightarrow> False
     | VBool v \<Rightarrow> v
     | VF64 v \<Rightarrow> \<not> f64_eq v (F64 0)
     | VInt v \<Rightarrow> v \<noteq> 0
     | VStr v \<Rightarrow> v \<noteq> []
     | _ \<Rightarrow> (case slice_elems val of
           Some xs \<Rightarrow> length xs > 0
         | None \<Rightarrow> (case as_map val of Some m \<Rightarrow> length m > 0 | None \<Rightarrow> True)))"

definition toFloat64 :: "val \<Rightarrow> f64 option" where
  "toFloat64 val = (case val of
       VF64 v \<Rightarrow> Some v
     | VF32 v \<Rightarrow> Some v
     | VInt v \<Rightarrow> Some (f64_of_int v)
     | VInt64 v \<Rightarrow> Some (f64_of_int v)
     | VInt32 v \<Rightarrow> Some (f64_of_int v)
     | _ \<Rightarrow> None)"

text \<open>Equality of maps: as many entries, and every key of the one is in the other with an equal value.\<close>

definition map_agree :: "(string \<times> (val \<Rightarrow> bool)) list \<Rightarrow> (string \<times> val) list \<Rightarrow> bool" where
  "map_agree ps m \<longleftrightarrow> length ps = length m \<and>
     list_all (\<lambda>(k, p). case mget m k of None \<Rightarrow> False | Some v \<Rightarrow> p v) ps"

definition opt_agree :: "(string \<times> (val \<Rightarrow> bool)) list option \<Rightarrow> (string \<times> val) list option \<Rightarrow> bool" where
  "opt_agree ps m = (case (ps, m) of (None, None) \<Rightarrow> True | (Some ps, Some m) \<Rightarrow> map_agree ps m | _ \<Rightarrow> False)"

definition opt_f64_eq :: "f64 option \<Rightarrow> f64 option \<Rightarrow> bool" where
  "opt_f64_eq a b = (case (a, b) of (None, None) \<Rightarrow> True | (Some x, Some y) \<Rightarrow> f64_eq x y | _ \<Rightarrow> False)"

definition apply_to :: "('a \<Rightarrow> bool) \<Rightarrow> 'a \<Rightarrow> bool" where
  "apply_to p x = p x"

primrec deepEqual :: "val \<Rightarrow> val \<Rightarrow> bool"
  and artifact_equal :: "artifact \<Rightarrow> artifact \<Rightarrow> bool"
  and message_equal :: "message \<Rightarrow> message \<Rightarrow> bool"
  and decision_equal :: "route_decision \<Rightarrow> route_decision \<Rightarrow> bool" where
  "deepEqual VNil = (\<lambda>b. b = VNil)"
| "deepEqual (VBool x) = (\<lambda>b. b = VBool x)"
| "deepEqual (VInt x) = (\<lambda>b. b = VInt x)"
| "deepEqual (VInt32 x) = (\<lambda>b. b = VInt32 x)"
| "deepEqual (VInt64 x) = (\<lambda>b. b = VInt64 x)"
| "deepEqual (VF32 x) = (\<lambda>b. case b of VF32 y \<Rightarrow> f64_eq x y | _ \<Rightarrow> False)"
| "deepEqual (VF64 x) = (\<lambda>b. case b of VF64 y \<Rightarrow> f64_eq x y | _ \<Rightarrow> False)"
| "deepEqual (VStr x) = (\<lambda>b. b = VStr x)"
| "deepEqual (VList xs) = (\<lambda>b. case b of VList ys \<Rightarrow> list_all2 apply_to (map deepEqual xs) ys | _ \<Rightarrow> False)"
| "deepEqual (VStrs xs) = (\<lambda>b. b = VStrs xs)"
| "deepEqual VNilMap = (\<lambda>b. b = VNilMap)"
| "deepEqual (VMap m) = (\<lambda>b. case b of VMap m' \<Rightarrow> map_agree (map (map_prod id deepEqual) m) m' | _ \<Rightarrow> False)"
| "deepEqual (VMaps ms) = (\<lambda>b. case b of VMaps ms' \<Rightarrow>
     list_all2 map_agree (map (map (map_prod id deepEqual)) ms) ms' | _ \<Rightarrow> False)"
| "deepEqual (VArts as) = (\<lambda>b. case b of VArts bs \<Rightarrow> list_all2 apply_to (map artifact_equal as) bs | _ \<Rightarrow> False)"
| "deepEqual (VMsgs ms) = (\<lambda>b. case b of VMsgs ms' \<Rightarrow> list_all2 apply_to (map message_equal ms) ms' | _ \<Rightarrow> False)"
| "deepEqual (VDecision d) = (\<lambda>b. case b of VDecision d' \<Rightarrow> decision_equal d d' | _ \<Rightarrow> False)"
| "deepEqual (VStruct n fs) = (\<lambda>b. case b of VStruct n' fs' \<Rightarrow> n = n' \<and> map_agree (map (map_prod id deepEqual) fs) fs' | _ \<Rightarrow> False)"
| "artifact_equal (Artifact i ty mime tx by uri meta) = (\<lambda>b. art_ID b = i \<and> art_Type b = ty \<and> art_MimeType b = mime \<and>
     art_Text b = tx \<and> art_Bytes b = by \<and> art_URI b = uri \<and> opt_agree (map_option (map (map_prod id deepEqual)) meta) (art_Meta b))"
| "message_equal (Message role content name meta) = (\<lambda>b. msg_Role b = role \<and> msg_Content b = content \<and> msg_Name b = name \<and>
     opt_agree (map_option (map (map_prod id deepEqual)) meta) (msg_Meta b))"
| "decision_equal (RouteDecision targets reason conf meta) = (\<lambda>b. rd_Targets b = targets \<and> rd_Reason b = reason \<and>
     opt_f64_eq conf (rd_Confidence b) \<and> opt_agree (map_option (map (map_prod id deepEqual)) meta) (rd_Meta b))"

definition isEqual :: "val \<Rightarrow> val \<Rightarrow> bool" where
  "isEqual a b = (case (toFloat64 a, toFloat64 b) of
       (Some af, Some bf) \<Rightarrow> f64_eq af bf
     | _ \<Rightarrow> deepEqual a b)"

definition compareNumeric :: "val \<Rightarrow> val \<Rightarrow> int option" where
  "compareNumeric a b = (case (toFloat64 a, toFloat64 b) of
       (Some af, Some bf) \<Rightarrow> Some (if f64_lt af bf then - 1 else if f64_lt bf af then 1 else 0)
     | _ \<Rightarrow> (case (as_str a, as_str b) of
           (Some x, Some y) \<Rightarrow> Some (str_compare x y)
         | _ \<Rightarrow> None))"

definition evalNumericComparison :: "TokenKind \<Rightarrow> val \<Rightarrow> val \<Rightarrow> bool" where
  "evalNumericComparison op left right = (case compareNumeric left right of
       None \<Rightarrow> False
     | Some cmp \<Rightarrow>
         if op = TokenGt then cmp > 0
         else if op = TokenGte then cmp \<ge> 0
         else if op = TokenLt then cmp < 0
         else if op = TokenLte then cmp \<le> 0
         else False)"


subsection \<open>Access and membership\<close>

definition getLength :: "val \<Rightarrow> val" where
  "getLength obj = (case obj of
       VStr v \<Rightarrow> VF64 (f64_of_int (int (length v)))
     | _ \<Rightarrow> (case slice_elems obj of
           Some xs \<Rightarrow> VF64 (f64_of_int (int (length xs)))
         | None \<Rightarrow> (case as_map obj of
               Some m \<Rightarrow> VF64 (f64_of_int (int (length m)))
             | None \<Rightarrow> VNil)))"

definition accessMember :: "val \<Rightarrow> string \<Rightarrow> val" where
  "accessMember obj prop =
     (if obj = VNil then VNil
      else if prop = ''length'' then getLength obj
      else case as_map obj of
             Some m \<Rightarrow> (case mget m prop of Some v \<Rightarrow> v | None \<Rightarrow> VNil)
           | None \<Rightarrow> VNil)"

definition accessIndex :: "val \<Rightarrow> val \<Rightarrow> eval_error + val" where
  "accessIndex obj idx =
     (if obj = VNil then Inr VNil
      else case as_str idx of
        Some key \<Rightarrow> Inr (accessMember obj key)
      | None \<Rightarrow> (case toFloat64 idx of
            None \<Rightarrow> Inl (InvalidIndexType idx)
          | Some i \<Rightarrow>
              let index = int_of_f64 i in
              (case slice_elems obj of
                 Some xs \<Rightarrow> Inr (if index < 0 \<or> index \<ge> int (length xs) then VNil else xs ! nat index)
               | None \<Rightarrow> Inr VNil)))"

definition checkIn :: "val \<Rightarrow> val \<Rightarrow> bool" where
  "checkIn left right = (case slice_elems right of None \<Rightarrow> False | Some xs \<Rightarrow> list_ex (isEqual left) xs)"

definition checkHas :: "val \<Rightarrow> val \<Rightarrow> bool" where
  "checkHas left right = (case as_str right of
       None \<Rightarrow> False
     | Some key \<Rightarrow> (case as_map left of None \<Rightarrow> False | Some m \<Rightarrow> mget m key \<noteq> None))"

definition both_str :: "(string \<Rightarrow> string \<Rightarrow> bool) \<Rightarrow> val \<Rightarrow> val \<Rightarrow> bool" where
  "both_str f left right = (case (as_str left, as_str right) of (Some ls, Some rs) \<Rightarrow> f ls rs | _ \<Rightarrow> False)"

definition checkContains :: "val \<Rightarrow> val \<Rightarrow> bool" where "checkContains = both_str str_contains"
definition checkStartsWith :: "val \<Rightarrow> val \<Rightarrow> bool" where "checkStartsWith = both_str has_prefix"
definition checkEndsWith :: "val \<Rightarrow> val \<Rightarrow> bool" where "checkEndsWith = both_str has_suffix"

definition checkMatches :: "regex_engine \<Rightarrow> val \<Rightarrow> val \<Rightarrow> regex_cache \<Rightarrow> (eval_error + bool) \<times> regex_cache" where
  "checkMatches rx left right cache = (case (as_str left, as_str right) of
       (Some ls, Some rs) \<Rightarrow>
         (case mget cache rs of
            Some re \<Rightarrow> (Inr (re ls), cache)
          | None \<Rightarrow> (case rx rs of
                Inl err \<Rightarrow> (Inl (InvalidRegex rs err), cache)
              | Inr re \<Rightarrow> (Inr (re ls), mput rs re cache)))
     | _ \<Rightarrow> (Inr False, cache))"

definition evalBinaryValues :: "regex_engine \<Rightarrow> TokenKind \<Rightarrow> val \<Rightarrow> val \<Rightarrow> regex_cache \<Rightarrow> (eval_error + val) \<times> regex_cache" where
  "evalBinaryValues rx op left right cache =
     (if op = TokenEq then (Inr (VBool (isEqual left right)), cache)
      else if op = TokenNeq then (Inr (VBool (\<not> isEqual left right)), cache)
      else if op \<in> {TokenGt, TokenGte, TokenLt, TokenLte} then (Inr (VBool (evalNumericComparison op left right)), cache)
      else if op = TokenIn then (Inr (VBool (checkIn left right)), cache)
      else if op = TokenHas then (Inr (VBool (checkHas left right)), cache)
      else if op = TokenContains then (Inr (VBool (checkContains left right)), cache)
      else if op = TokenStartsWith then (Inr (VBool (checkStartsWith left right)), cache)
      else if op = TokenEndsWith then (Inr (VBool (checkEndsWith left right)), cache)
      else if op = TokenMatches then map_prod (map_sum id VBool) id (checkMatches rx left right cache)
      else (Inl (UnknownBinary op), cache))"


subsection \<open>Evaluation\<close>

text \<open>A step of evaluation: an error ends it, the cache goes on.\<close>

definition ebind :: "(eval_error + 'a) \<times> regex_cache \<Rightarrow> ('a \<Rightarrow> regex_cache \<Rightarrow> (eval_error + 'b) \<times> regex_cache) \<Rightarrow>
    (eval_error + 'b) \<times> regex_cache" where
  "ebind m f = (case m of (Inl e, cache) \<Rightarrow> (Inl e, cache) | (Inr a, cache) \<Rightarrow> f a cache)"

lemma ebind_cong [fundef_cong]:
  "m = m' \<Longrightarrow> (\<And>a cache. m' = (Inr a, cache) \<Longrightarrow> f a cache = f' a cache) \<Longrightarrow> ebind m f = ebind m' f'"
  by (auto simp: ebind_def split: prod.split sum.split)

text \<open>The result the left operand of \<open>&&\<close>, \<open>||\<close> or \<open>??\<close> decides on its own, and what the right one gives otherwise.\<close>

definition is_short_circuit :: "TokenKind \<Rightarrow> bool" where
  "is_short_circuit op \<longleftrightarrow> op = TokenAnd \<or> op = TokenOr \<or> op = TokenNullCoal"

definition decided :: "TokenKind \<Rightarrow> val \<Rightarrow> val option" where
  "decided op left =
     (if op = TokenAnd then (if \<not> IsTruthy left then Some (VBool False) else None)
      else if op = TokenOr then (if IsTruthy left then Some (VBool True) else None)
      else (if left \<noteq> VNil then Some left else None))"

definition short_result :: "TokenKind \<Rightarrow> val \<Rightarrow> val" where
  "short_result op right = (if op = TokenNullCoal then right else VBool (IsTruthy right))"

fun eval :: "regex_engine \<Rightarrow> val gomap \<Rightarrow> Expr \<Rightarrow> regex_cache \<Rightarrow> (eval_error + val) \<times> regex_cache"
and eval_elements :: "regex_engine \<Rightarrow> val gomap \<Rightarrow> Expr list \<Rightarrow> regex_cache \<Rightarrow> (eval_error + val list) \<times> regex_cache"
where
  "eval rx vars (LiteralExpr v) cache = (Inr v, cache)"
| "eval rx vars (IdentExpr x) cache = (Inr (case mget vars x of Some v \<Rightarrow> v | None \<Rightarrow> VNil), cache)"
| "eval rx vars (MemberExpr obj prop) cache =
     ebind (eval rx vars obj cache) (\<lambda>v cache. (Inr (accessMember v prop), cache))"
| "eval rx vars (IndexExpr obj idx) cache =
     ebind (eval rx vars obj cache) (\<lambda>v cache. ebind (eval rx vars idx cache) (\<lambda>i cache. (accessIndex v i, cache)))"
| "eval rx vars (ArrayLiteral elems) cache =
     ebind (eval_elements rx vars elems cache) (\<lambda>vs cache. (Inr (VList vs), cache))"
| "eval rx vars (UnaryExpr op operand) cache =
     ebind (eval rx vars operand cache) (\<lambda>v cache.
       (if op = TokenNot then Inr (VBool (\<not> IsTruthy v)) else Inl (UnknownUnary op), cache))"
| "eval rx vars (BinaryExpr l op r) cache =
     (if is_short_circuit op then
        ebind (eval rx vars l cache) (\<lambda>left cache. case decided op left of
            Some v \<Rightarrow> (Inr v, cache)
          | None \<Rightarrow> ebind (eval rx vars r cache) (\<lambda>right cache. (Inr (short_result op right), cache)))
      else
        ebind (eval rx vars l cache) (\<lambda>left cache.
        ebind (eval rx vars r cache) (\<lambda>right cache. evalBinaryValues rx op left right cache)))"
| "eval_elements rx vars [] cache = (Inr [], cache)"
| "eval_elements rx vars (e # es) cache =
     ebind (eval rx vars e cache) (\<lambda>v cache. ebind (eval_elements rx vars es cache) (\<lambda>vs cache. (Inr (v # vs), cache)))"

definition Eval :: "regex_engine \<Rightarrow> Expr \<Rightarrow> val gomap \<Rightarrow> regex_cache \<Rightarrow> (eval_error + val) \<times> regex_cache" where
  "Eval rx e vars cache = eval rx vars e cache"


subsection \<open>The cache does not matter\<close>

definition cache_ok :: "regex_engine \<Rightarrow> regex_cache \<Rightarrow> bool" where
  "cache_ok rx cache \<longleftrightarrow> (\<forall>p re. mget cache p = Some re \<longrightarrow> rx p = Inr re)"

definition same_result :: "regex_engine \<Rightarrow> 'a \<times> regex_cache \<Rightarrow> 'a \<times> regex_cache \<Rightarrow> bool" where
  "same_result rx m m' \<longleftrightarrow> fst m = fst m' \<and> cache_ok rx (snd m) \<and> cache_ok rx (snd m')"

lemma same_result_ebind:
  "same_result rx m m' \<Longrightarrow> (\<And>a c c'. cache_ok rx c \<Longrightarrow> cache_ok rx c' \<Longrightarrow> same_result rx (f a c) (f' a c')) \<Longrightarrow>
   same_result rx (ebind m f) (ebind m' f')"
proof -
  assume m: "same_result rx m m'" and f: "\<And>a c c'. cache_ok rx c \<Longrightarrow> cache_ok rx c' \<Longrightarrow> same_result rx (f a c) (f' a c')"
  obtain r c c' where "m = (r, c)" "m' = (r, c')" "cache_ok rx c" "cache_ok rx c'"
    using m by (cases m, cases m') (auto simp: same_result_def)
  with f show ?thesis by (cases r) (simp_all add: ebind_def, simp add: same_result_def)
qed

lemma same_result_pure: "cache_ok rx c \<Longrightarrow> cache_ok rx c' \<Longrightarrow> same_result rx (r, c) (r, c')"
  by (simp add: same_result_def)

lemma same_result_matches:
  assumes "cache_ok rx c" "cache_ok rx c'"
  shows "same_result rx (checkMatches rx l r c) (checkMatches rx l r c')"
proof -
  have "rx p = Inr re" if "mget c p = Some re \<or> mget c' p = Some re" for p re
    using assms that by (auto simp: cache_ok_def)
  then show ?thesis using assms
    by (auto simp: same_result_def checkMatches_def cache_ok_def split: option.splits sum.splits) (metis sum.inject(2))+
qed

lemma same_result_binary:
  assumes "cache_ok rx c" "cache_ok rx c'"
  shows "same_result rx (evalBinaryValues rx op l r c) (evalBinaryValues rx op l r c')"
  using assms same_result_matches[OF assms, of l r]
  by (simp add: evalBinaryValues_def same_result_def)

lemma eval_same_result:
  "cache_ok rx c \<Longrightarrow> cache_ok rx c' \<Longrightarrow> same_result rx (eval rx vars e c) (eval rx vars e c')"
proof (induction e arbitrary: c c')
  case (ArrayLiteral es)
  have "same_result rx (eval_elements rx vars es c) (eval_elements rx vars es c')"
    using ArrayLiteral
  proof (induction es arbitrary: c c')
    case (Cons e es)
    then show ?case by (auto intro!: same_result_ebind same_result_pure)
  qed (simp add: same_result_pure)
  then show ?case by (auto intro!: same_result_ebind same_result_pure)
qed (auto intro!: same_result_ebind same_result_pure same_result_binary split: option.split)

text \<open>
  C38: The cache of compiled patterns is invisible. From any cache whose entries are what the engine
  compiles, evaluation gives the result it gives with an empty cache, and leaves such a cache behind.
\<close>

theorem Eval_cache:
  assumes "cache_ok rx cache"
  shows "fst (Eval rx e vars cache) = fst (Eval rx e vars []) \<and> cache_ok rx (snd (Eval rx e vars cache))"
  using eval_same_result[OF assms, of "[]" vars e] by (simp add: Eval_def same_result_def cache_ok_def)

text \<open>A stand-in engine for the evaluations below: a pattern matches what contains it, and \<open>(\<close> does not compile.\<close>

definition toy_rx :: regex_engine where
  "toy_rx p = (if p = ''('' then Inl ''missing closing )'' else Inr (\<lambda>s. str_contains s p))"

theorem Eval_cache_witness:
  "fst (Eval toy_rx (BinaryExpr (IdentExpr ''x'') TokenMatches (LiteralExpr (VStr ''b''))) [(''x'', VStr ''abc'')]
     [(''b'', \<lambda>s. str_contains s ''b'')]) = Inr (VBool True)"
proof -
  have ok: "cache_ok toy_rx [(''b'', \<lambda>s. str_contains s ''b'')]" by (simp add: cache_ok_def toy_rx_def)
  show ?thesis using Eval_cache[OF ok, of "BinaryExpr (IdentExpr ''x'') TokenMatches (LiteralExpr (VStr ''b''))" "[(''x'', VStr ''abc'')]"]
    by (simp add: Eval_def ebind_def is_short_circuit_def evalBinaryValues_def checkMatches_def toy_rx_def has_prefix_def)
qed


subsection \<open>Errors of evaluation\<close>

text \<open>The operators the parser produces.\<close>

fun ops_known :: "Expr \<Rightarrow> bool" where
  "ops_known (BinaryExpr a op b) =
     (list_ex (\<lambda>l. op \<in> set (level_ops l)) [LNull, LOr, LAnd, LEq, LCmp, LMem] \<and> ops_known a \<and> ops_known b)"
| "ops_known (UnaryExpr op a) = (op = TokenNot \<and> ops_known a)"
| "ops_known (MemberExpr a _) = ops_known a"
| "ops_known (IndexExpr a i) = (ops_known a \<and> ops_known i)"
| "ops_known (ArrayLiteral es) = (\<forall>e \<in> set es. ops_known e)"
| "ops_known _ = True"

fun parts_known :: "nonterm \<Rightarrow> bool" where
  "parts_known (NLoop _ e) = ops_known e"
| "parts_known (NPostfixLoop e) = ops_known e"
| "parts_known (NArray es) = (\<forall>e \<in> set es. ops_known e)"
| "parts_known _ = True"

lemma level_known: "op \<in> set (level_ops l) \<Longrightarrow> list_ex (\<lambda>l. op \<in> set (level_ops l)) [LNull, LOr, LAnd, LEq, LCmp, LMem]"
  by (cases l) auto

lemma literal_known: "parse_literal ts = Some (Inr (e, us)) \<Longrightarrow> ops_known e"
  by (auto simp: parse_literal_def Let_def split: TokenKind.splits option.splits)

lemma parse_step_known:
  assumes P: "\<And>nt ts e us. P nt ts = Some (Inr (e, us)) \<Longrightarrow> parts_known nt \<Longrightarrow> ops_known e"
    and "parse_step P nt ts = Some (Inr (e, us))" "parts_known nt"
  shows "ops_known e"
proof (cases nt)
  case (NLoop l left)
  show ?thesis
  proof (cases "Kind (current ts) \<in> set (level_ops l)")
    case True
    then obtain right ts' where r: "P (NLevel (operand_level l)) (advance ts) = Some (Inr (right, ts'))"
        "P (NLoop l (BinaryExpr left (Kind (current ts)) right)) ts' = Some (Inr (e, us))"
      using assms(2) NLoop by (auto simp: pbind_Inr)
    have "ops_known right" by (rule P[OF r(1)]) simp
    then show ?thesis
      using P[OF r(2)] assms(3) NLoop level_known[OF True] by (simp only: parts_known.simps ops_known.simps simp_thms)
  qed (use assms NLoop in simp)
next
  case NMembership
  then show ?thesis using assms(2) level_known[of _ LMem]
    by (auto simp: pbind_Inr simp del: level_ops.simps split: if_splits dest!: P)
qed (use assms literal_known in \<open>fastforce simp: pbind_Inr Let_def split: if_splits option.splits sum.splits dest: P\<close>)+

lemma parse_nt_known: "parse_nt n nt ts = Some (Inr (e, us)) \<Longrightarrow> parts_known nt \<Longrightarrow> ops_known e"
proof (induction n arbitrary: nt ts e us)
  case (Suc n)
  show ?case by (rule parse_step_known[of "parse_nt n" nt ts e us]) (use Suc in auto)
qed simp

lemma Parse_known:
  assumes "Parse uc input = Some (Inr e)" shows "ops_known e"
proof -
  obtain tokens r where "parse_all (parse_fuel tokens) tokens = Some r" "map_sum id fst r = Inr e"
    using assms by (auto simp: Parse_def split: sum.splits)
  then obtain us where "parse_all (parse_fuel tokens) tokens = Some (Inr (e, us))" by (cases r) auto
  then show ?thesis by (auto simp: parse_all_def parseExpr_def pbind_Inr split: if_splits dest!: parse_nt_known)
qed

definition expected_error :: "regex_engine \<Rightarrow> eval_error \<Rightarrow> bool" where
  "expected_error rx err = (case err of InvalidIndexType _ \<Rightarrow> True | InvalidRegex p m \<Rightarrow> rx p = Inl m | _ \<Rightarrow> False)"

lemma ebind_Inl: "fst (ebind m f) = Inl err \<longleftrightarrow> fst m = Inl err \<or> (\<exists>a c. m = (Inr a, c) \<and> fst (f a c) = Inl err)"
  by (auto simp: ebind_def split: prod.splits sum.splits)

lemma binary_errors:
  assumes "list_ex (\<lambda>l. op \<in> set (level_ops l)) [LNull, LOr, LAnd, LEq, LCmp, LMem]" "\<not> is_short_circuit op"
    and "fst (evalBinaryValues rx op l r c) = Inl err"
  shows "expected_error rx err"
  using assms
  by (auto simp: evalBinaryValues_def is_short_circuit_def checkMatches_def expected_error_def
      split: if_splits option.splits sum.splits)

lemma eval_errors: "ops_known e \<Longrightarrow> fst (eval rx vars e c) = Inl err \<Longrightarrow> expected_error rx err"
proof (induction e arbitrary: c)
  case (BinaryExpr a op b)
  show ?case
  proof (cases "is_short_circuit op")
    case True
    with BinaryExpr show ?thesis by (auto simp: ebind_Inl split: option.splits)
  next
    case False
    with BinaryExpr.prems consider c' where "fst (eval rx vars a c') = Inl err" | c' where "fst (eval rx vars b c') = Inl err"
      | left right c' where "fst (evalBinaryValues rx op left right c') = Inl err" by (auto simp: ebind_Inl)
    then show ?thesis
    proof cases
      case 3
      with BinaryExpr.prems(1) False binary_errors show ?thesis by (simp only: ops_known.simps) blast
    qed (use BinaryExpr in auto)
  qed
next
  case (IndexExpr a i)
  then show ?case
    by (auto simp: ebind_Inl accessIndex_def expected_error_def Let_def split: if_splits option.splits)
next
  case (ArrayLiteral es)
  have "fst (eval_elements rx vars es c) = Inl err \<Longrightarrow> expected_error rx err"
    using ArrayLiteral.IH ArrayLiteral.prems(1) by (induction es arbitrary: c) (auto simp: ebind_Inl)
  with ArrayLiteral.prems(2) show ?case by (auto simp: ebind_Inl)
qed (auto simp: ebind_Inl)

text \<open>
  A condition that parses is evaluated without an unknown operator: evaluation fails only when a value
  is indexed by something that is neither a number nor a string, or when a pattern of \<open>matches\<close> does not
  compile, and then with the engine's message.
\<close>

theorem Parse_Eval_errors:
  assumes "Parse uc input = Some (Inr e)" "fst (Eval rx e vars cache) = Inl err"
  shows "(\<exists>v. err = InvalidIndexType v) \<or> (\<exists>p m. err = InvalidRegex p m \<and> rx p = Inl m)"
  using eval_errors[OF Parse_known[OF assms(1)], of rx vars cache err] assms(2)
  by (cases err) (simp_all add: Eval_def expected_error_def)

theorem Parse_Eval_errors_witness:
  "case Parse ascii ''tags[true]'' of Some (Inr e) \<Rightarrow> fst (Eval toy_rx e [(''tags'', VList [])] []) = Inl (InvalidIndexType (VBool True)) \<and>
     (\<exists>v. InvalidIndexType (VBool True) = InvalidIndexType v) | _ \<Rightarrow> False"
proof -
  have p: "Parse ascii ''tags[true]'' = Some (Inr (IndexExpr (IdentExpr ''tags'') (LiteralExpr (VBool True))))" by code_simp
  have e: "fst (Eval toy_rx (IndexExpr (IdentExpr ''tags'') (LiteralExpr (VBool True))) [(''tags'', VList [])] [])
      = Inl (InvalidIndexType (VBool True))" by (simp add: Eval_def ebind_def accessIndex_def toFloat64_def)
  show ?thesis using p e Parse_Eval_errors[OF p e] by simp
qed


subsection \<open>Comparison\<close>

definition no_nan :: "val \<Rightarrow> bool" where
  "no_nan v \<longleftrightarrow> toFloat64 v \<noteq> Some NaN"

lemma compareNumeric_cases:
  assumes "compareNumeric a b = Some r"
  obtains (num) x y where "toFloat64 a = Some x" "toFloat64 b = Some y"
      "r = (if f64_lt x y then - 1 else if f64_lt y x then 1 else 0)"
    | (str) s t where "a = VStr s" "b = VStr t" "r = str_compare s t"
  using assms by (auto simp: compareNumeric_def split: option.splits)

lemma toFloat64_VStr [simp]: "toFloat64 (VStr s) = None"
  by (simp add: toFloat64_def)

text \<open>
  Comparison orders the values it applies to (numbers of any type, converted to float64, except NaN,
  and strings). The result is zero exactly for values that \<open>==\<close> holds equal, swapping the operands
  negates it, and \<open><\<close> is transitive.
\<close>

theorem comparison_order:
  assumes "compareNumeric a b = Some r" "compareNumeric b c = Some q" "no_nan a" "no_nan b" "no_nan c"
  shows "(r = 0 \<longleftrightarrow> isEqual a b) \<and> compareNumeric b a = Some (- r) \<and>
    (evalNumericComparison TokenLt a b \<and> evalNumericComparison TokenLt b c \<longrightarrow> evalNumericComparison TokenLt a c)"
  using assms(1)
proof (cases rule: compareNumeric_cases)
  case (num x y)
  with assms(2) obtain z where z: "toFloat64 c = Some z" "q = (if f64_lt y z then - 1 else if f64_lt z y then 1 else 0)"
    by (auto elim!: compareNumeric_cases)
  have n: "x \<noteq> NaN" "y \<noteq> NaN" using assms(3,4) num by (auto simp: no_nan_def)
  have "r = 0 \<longleftrightarrow> f64_eq x y" using num(3) f64_trichotomy[OF n] f64_lt_eq(1)[of x y] by auto
  then show ?thesis using num z f64_lt_trans[of x y z] f64_lt_eq(2)[of x y]
    by (auto simp: isEqual_def compareNumeric_def evalNumericComparison_def split: if_splits)
next
  case (str s t)
  with assms(2) obtain u where u: "c = VStr u" "q = str_compare t u" by (auto elim!: compareNumeric_cases)
  show ?thesis using str u str_compare_eq[of s t] str_compare_neg[of t s] str_compare_trans[of s t u]
    by (auto simp: isEqual_def compareNumeric_def evalNumericComparison_def)
qed

theorem comparison_order_witness:
  "evalNumericComparison TokenLt (VInt 2) (VInt64 5)"
proof -
  have c: "compareNumeric (VInt 2) (VInt64 3) = Some (- 1)" "compareNumeric (VInt64 3) (VInt64 5) = Some (- 1)"
    by (simp_all add: compareNumeric_def toFloat64_def f64_of_int_exact)
  have "no_nan (VInt 2)" "no_nan (VInt64 3)" "no_nan (VInt64 5)" by (simp_all add: no_nan_def toFloat64_def f64_of_int_exact)
  from comparison_order[OF c this] c show ?thesis by (simp add: evalNumericComparison_def)
qed

text \<open>
  Truth of a zero depends on its Go type, although equality does not: the zeros of type \<open>int64\<close>,
  \<open>int32\<close> and \<open>float32\<close> are equal to the \<open>int\<close> and \<open>float64\<close> zeros but count as true.
\<close>

theorem zero_truthiness:
  "list_all (\<lambda>v. isEqual v (VInt 0) \<and> isEqual v (VF64 (F64 0)) \<and> IsTruthy v) [VInt64 0, VInt32 0, VF32 (F64 0)] \<and>
   \<not> IsTruthy (VInt 0) \<and> \<not> IsTruthy (VF64 (F64 0))"
  by (simp add: isEqual_def toFloat64_def IsTruthy_def f64_of_int_exact)

end
