(* ===== verification/Conditional_Node.thy ===== *)
theory Conditional_Node
  imports Expr_Eval Runtime_Common
begin

section \<open>The conditional node\<close>

text \<open>
  \<open>nodes/conditional/node.go\<close>: construction with eager parsing, \<open>Route\<close>, \<open>Run\<close>, and the node
  as the runtime sees it. \<open>cd_parsed\<close> is the cached tree, nil until construction. The regular expression
  cache is passed along; the node given to the runtime starts each call from the empty cache, which by
  \<open>Expr_Eval\<close> makes no difference to the result.
\<close>

record Condition =
  cd_Name :: string
  cd_Expression :: string
  cd_Description :: string
  cd_parsed :: "Expr option"

record CondConfig =
  cc_Conditions :: "Condition list"
  cc_Default :: string
  cc_EvaluationOrder :: string
  cc_PassThrough :: bool
  cc_OutputKey :: string

record ConditionalNode =
  cn_id :: string
  cn_config :: CondConfig

datatype cond_error =
    NoConditions | BadEvaluationOrder string | EmptyName nat | DuplicateName string | EmptyExpression string
  | BadExpression string parse_error

text \<open>The loop over the conditions; \<open>None\<close> is the parser running out of fuel.\<close>

fun parse_conditions :: "unicode \<Rightarrow> nat \<Rightarrow> bool gomap \<Rightarrow> Condition list \<Rightarrow> (cond_error + Condition list) option" where
  "parse_conditions uc i seen [] = Some (Inr [])"
| "parse_conditions uc i seen (c # cs) =
     (if cd_Name c = [] then Some (Inl (EmptyName i))
      else if mget seen (cd_Name c) = Some True then Some (Inl (DuplicateName (cd_Name c)))
      else if cd_Expression c = [] then Some (Inl (EmptyExpression (cd_Name c)))
      else case Parse uc (cd_Expression c) of
             None \<Rightarrow> None
           | Some (Inl err) \<Rightarrow> Some (Inl (BadExpression (cd_Name c) err))
           | Some (Inr parsed) \<Rightarrow>
               map_option (map_sum id (\<lambda>cs'. c\<lparr>cd_parsed := Some parsed\<rparr> # cs'))
                 (parse_conditions uc (Suc i) (mput (cd_Name c) True seen) cs))"

definition first_match :: string where "first_match = ''first_match''"

definition NewConditionalNode :: "unicode \<Rightarrow> string \<Rightarrow> CondConfig \<Rightarrow> (cond_error + ConditionalNode) option" where
  "NewConditionalNode uc nid cfg =
     (if length (cc_Conditions cfg) = 0 then Some (Inl NoConditions)
      else
        let order = (if cc_EvaluationOrder cfg = [] then first_match else cc_EvaluationOrder cfg);
            key = (if cc_OutputKey cfg = [] then nid @ ''_output'' else cc_OutputKey cfg)
        in if order \<noteq> first_match \<and> order \<noteq> ''all'' then Some (Inl (BadEvaluationOrder order))
           else map_option (map_sum (\<lambda>e. e) (\<lambda>cs. \<lparr>cn_id = nid,
                  cn_config = cfg\<lparr>cc_Conditions := cs, cc_EvaluationOrder := order, cc_OutputKey := key\<rparr>\<rparr>))
                (parse_conditions uc 0 [] (cc_Conditions cfg)))"

datatype route_error = CondFailed string eval_error | CondNotParsed string | NoConditionMatched

text \<open>The variables the conditions see: the envelope's, and all of them again as \<open>input\<close>.\<close>

definition route_vars :: "Envelope \<Rightarrow> val gomap" where
  "route_vars env =
     (let vars = (case Vars env of None \<Rightarrow> [] | Some m \<Rightarrow> m)
      in if mget vars ''input'' \<noteq> None then vars
         else mput ''input'' (case Vars env of None \<Rightarrow> VNilMap | Some m \<Rightarrow> VMap m) vars)"

definition cond_reason :: "Condition \<Rightarrow> string" where
  "cond_reason c = (if cd_Description c \<noteq> [] then cd_Description c else cd_Name c)"

fun route_loop :: "regex_engine \<Rightarrow> val gomap \<Rightarrow> string \<Rightarrow> Condition list \<Rightarrow> regex_cache \<Rightarrow>
    (route_error + (string \<times> string) list) \<times> regex_cache" where
  "route_loop rx vars order [] cache = (Inr [], cache)"
| "route_loop rx vars order (c # cs) cache =
     (case cd_parsed c of
        None \<Rightarrow> (Inl (CondNotParsed (cd_Name c)), cache)
      | Some e \<Rightarrow>
          (case Eval rx e vars cache of
             (Inl err, cache') \<Rightarrow> (Inl (CondFailed (cd_Name c) err), cache')
           | (Inr v, cache') \<Rightarrow>
               if IsTruthy v then
                 (if order = first_match then (Inr [(cd_Name c, cond_reason c)], cache')
                  else map_prod (map_sum (\<lambda>e. e) (\<lambda>ms. (cd_Name c, cond_reason c) # ms)) (\<lambda>c. c) (route_loop rx vars order cs cache'))
               else route_loop rx vars order cs cache'))"

definition Route :: "regex_engine \<Rightarrow> ConditionalNode \<Rightarrow> Envelope \<Rightarrow> regex_cache \<Rightarrow> (route_error + route_decision) \<times> regex_cache" where
  "Route rx n env cache =
     (case route_loop rx (route_vars env) (cc_EvaluationOrder (cn_config n)) (cc_Conditions (cn_config n)) cache of
        (Inl err, cache') \<Rightarrow> (Inl err, cache')
      | (Inr ms, cache') \<Rightarrow>
          let ms' = (if ms = [] \<and> cc_Default (cn_config n) \<noteq> [] then [(cc_Default (cn_config n), ''default branch'')] else ms)
          in (if ms' = [] then Inl NoConditionMatched
              else Inr (RouteDecision (map fst ms')
                     (if length ms' > 1 then show_nat (length ms') @ '' branches matched'' else snd (hd ms')) None None), cache'))"

definition cn_Run :: "regex_engine \<Rightarrow> ConditionalNode \<Rightarrow> Envelope \<Rightarrow> regex_cache \<Rightarrow> (route_error + Envelope) \<times> regex_cache" where
  "cn_Run rx n env cache =
     (case Route rx n env cache of
        (Inl err, cache') \<Rightarrow> (Inl err, cache')
      | (Inr decision, cache') \<Rightarrow>
          let env1 = SetVar (decision_key (cn_id n)) (VDecision decision) env;
              env2 = (if \<not> cc_PassThrough (cn_config n) then
                        SetVar (cc_OutputKey (cn_config n))
                          (VMap [(''matched'', VBool (length (rd_Targets decision) > 0)),
                                 (''condition'', VStr (if length (rd_Targets decision) > 0 then hd (rd_Targets decision) else []))]) env1
                      else env1)
          in (Inr env2, cache'))"

text \<open>The node in a graph. A failing \<open>Route\<close> leaves the envelope alone.\<close>

definition cond_node :: "regex_engine \<Rightarrow> (route_error \<Rightarrow> string) \<Rightarrow> ConditionalNode \<Rightarrow> Node" where
  "cond_node rx err_text n = \<lparr>n_ID = cn_id n, n_Kind = NodeKindConditional, n_isRouter = True, n_merge = None,
     n_Run = (\<lambda>_ env. case fst (cn_Run rx n env []) of
        Inl err \<Rightarrow> \<lparr>ro_env = env, ro_result = Inl (err_text err), ro_events = []\<rparr>
      | Inr env' \<Rightarrow> \<lparr>ro_env = env', ro_result = Inr (Some env'), ro_events = []\<rparr>)\<rparr>"


subsection \<open>Construction\<close>

definition cond_ok :: "unicode \<Rightarrow> Condition \<Rightarrow> bool" where
  "cond_ok uc c \<longleftrightarrow> cd_Name c \<noteq> [] \<and> cd_Expression c \<noteq> [] \<and>
     (\<exists>e. cd_parsed c = Some e \<and> Parse uc (cd_Expression c) = Some (Inr e))"

lemma parse_conditions_sound:
  "parse_conditions uc i seen cs = Some (Inr cs') \<Longrightarrow>
   list_all (cond_ok uc) cs' \<and> distinct (map cd_Name cs') \<and> (\<forall>c \<in> set cs'. mget seen (cd_Name c) \<noteq> Some True) \<and>
   map cd_Name cs' = map cd_Name cs \<and> map cd_Expression cs' = map cd_Expression cs"
proof (induction uc i seen cs arbitrary: cs' rule: parse_conditions.induct)
  case (2 uc i seen c cs)
  obtain e ds where e: "Parse uc (cd_Expression c) = Some (Inr e)" "cs' = c\<lparr>cd_parsed := Some e\<rparr> # ds"
      "parse_conditions uc (Suc i) (mput (cd_Name c) True seen) cs = Some (Inr ds)"
      "cd_Name c \<noteq> []" "cd_Expression c \<noteq> []" "mget seen (cd_Name c) \<noteq> Some True"
    using "2.prems" by (auto split: if_splits option.splits sum.splits simp: map_sum_Inr_iff)
  have "list_all (cond_ok uc) ds \<and> distinct (map cd_Name ds) \<and>
      (\<forall>d \<in> set ds. mget (mput (cd_Name c) True seen) (cd_Name d) \<noteq> Some True) \<and>
      map cd_Name ds = map cd_Name cs \<and> map cd_Expression ds = map cd_Expression cs"
    by (rule "2.IH"[OF _ _ _ e(1) refl e(3)]) (use e in auto)
  moreover have "cond_ok uc (c\<lparr>cd_parsed := Some e\<rparr>)" using e by (simp add: cond_ok_def)
  moreover have "cd_Name c \<notin> set (map cd_Name ds)" 
  proof -
    have "\<forall>d \<in> set ds. cd_Name d \<noteq> cd_Name c" using calculation(1) by (auto split: if_splits)
    then show ?thesis by force
  qed
  ultimately show ?case using e by (auto split: if_splits)
qed simp

lemma parse_conditions_returns: "parse_conditions uc i seen cs \<noteq> None"
  proof (induction uc i seen cs rule: parse_conditions.induct)
  case (2 uc i seen c cs)
  obtain r where "Parse uc (cd_Expression c) = Some r" using Parse_returns by blast
  with 2 show ?case by (auto split: sum.split)
qed simp

definition cond_node_ok :: "unicode \<Rightarrow> ConditionalNode \<Rightarrow> bool" where
  "cond_node_ok uc n \<longleftrightarrow> cc_Conditions (cn_config n) \<noteq> [] \<and> list_all (cond_ok uc) (cc_Conditions (cn_config n)) \<and>
     distinct (map cd_Name (cc_Conditions (cn_config n))) \<and>
     cc_EvaluationOrder (cn_config n) \<in> {first_match, ''all''} \<and> cc_OutputKey (cn_config n) \<noteq> []"

text \<open>
  Construction of a conditional node checks the whole configuration. It always returns, and a node
  it returns has the given ID, conditions with the given distinct non-empty names and expressions, each
  parsed to its tree, a known evaluation order and an output key.
\<close>

theorem NewConditionalNode_sound:
  "\<exists>r. NewConditionalNode uc i cfg = Some r \<and> (case r of Inl _ \<Rightarrow> True
     | Inr n \<Rightarrow> cn_id n = i \<and> cond_node_ok uc n \<and>
         map cd_Name (cc_Conditions (cn_config n)) = map cd_Name (cc_Conditions cfg) \<and>
         map cd_Expression (cc_Conditions (cn_config n)) = map cd_Expression (cc_Conditions cfg) \<and>
         cc_Default (cn_config n) = cc_Default cfg)"
proof -
  obtain r where r: "parse_conditions uc 0 [] (cc_Conditions cfg) = Some r"
    using parse_conditions_returns by blast
  show ?thesis
  proof (cases r)
    case (Inl e)
    then show ?thesis using r by (simp add: NewConditionalNode_def Let_def)
  next
    case (Inr cs)
    with r have "parse_conditions uc 0 [] (cc_Conditions cfg) = Some (Inr cs)" by simp
    from parse_conditions_sound[OF this] this show ?thesis
      by (auto simp: NewConditionalNode_def Let_def cond_node_ok_def first_match_def)
  qed
qed


subsection \<open>Routing\<close>

text \<open>Whether a condition holds for the variables; \<open>None\<close> when its evaluation fails.\<close>

definition cond_value :: "regex_engine \<Rightarrow> val gomap \<Rightarrow> Condition \<Rightarrow> bool option" where
  "cond_value rx vars c = (case cd_parsed c of None \<Rightarrow> None
     | Some e \<Rightarrow> (case fst (Eval rx e vars []) of Inl _ \<Rightarrow> None | Inr v \<Rightarrow> Some (IsTruthy v)))"

definition matching :: "regex_engine \<Rightarrow> val gomap \<Rightarrow> string \<Rightarrow> Condition list \<Rightarrow> Condition list" where
  "matching rx vars order cs = (let hits = filter (\<lambda>c. cond_value rx vars c = Some True) cs
     in if order = first_match then take 1 hits else hits)"

text \<open>What the loop computes: the matching conditions, or the first failure that is reached.\<close>

lemma Eval_from_empty:
  assumes "cache_ok rx cache" "Eval rx e vars cache = (r, cache')"
  shows "fst (Eval rx e vars []) = r" "cache_ok rx cache'"
  using eval_same_result[OF assms(1), of "[]" vars e] assms(2) by (simp_all add: Eval_def same_result_def cache_ok_def)

lemma route_loop_spec:
  "cache_ok rx cache \<Longrightarrow> route_loop rx vars order cs cache = (r, cache') \<Longrightarrow> cache_ok rx cache' \<and>
   (case r of Inr ms \<Rightarrow> ms = map (\<lambda>c. (cd_Name c, cond_reason c)) (matching rx vars order cs)
     | Inl e \<Rightarrow> e \<noteq> NoConditionMatched \<and> (\<exists>c \<in> set cs. cond_value rx vars c = None))"
proof (induction cs arbitrary: cache r cache')
  case Nil
  then show ?case by (auto simp: matching_def)
next
  case (Cons c cs)
  show ?case
  proof (cases "cd_parsed c")
    case None
    with Cons.prems show ?thesis by (auto simp: cond_value_def)
  next
    case (Some e)
    obtain q cache1 where q: "Eval rx e vars cache = (q, cache1)" by fastforce
    note ev = Eval_from_empty[OF Cons.prems(1) q]
    show ?thesis
    proof (cases q)
      case (Inl err)
      with Some q ev Cons.prems show ?thesis by (auto simp: cond_value_def)
    next
      case (Inr v)
      have val: "cond_value rx vars c = Some (IsTruthy v)" using Some ev(1) Inr by (simp add: cond_value_def)
      obtain r2 cache2 where r2: "route_loop rx vars order cs cache1 = (r2, cache2)" by fastforce
      note ih = Cons.IH[OF ev(2) r2]
      from Cons.prems(2) Some q Inr r2 have "(r, cache') =
          (if IsTruthy v then (if order = first_match then (Inr [(cd_Name c, cond_reason c)], cache1)
             else (map_sum (\<lambda>e. e) (\<lambda>ms. (cd_Name c, cond_reason c) # ms) r2, cache2)) else (r2, cache2))" by (auto split: if_splits)
      then show ?thesis using ih ev(2) val by (cases r2) (auto simp: matching_def Let_def split: if_splits)
    qed
  qed
qed

definition hits :: "regex_engine \<Rightarrow> ConditionalNode \<Rightarrow> Envelope \<Rightarrow> Condition list" where
  "hits rx n env = matching rx (route_vars env) (cc_EvaluationOrder (cn_config n)) (cc_Conditions (cn_config n))"

lemma Route_spec:
  assumes "cache_ok rx cache"
  shows "case fst (Route rx n env cache) of
      Inr d \<Rightarrow> rd_Targets d = (if hits rx n env = [] then [cc_Default (cn_config n)] else map cd_Name (hits rx n env)) \<and>
        (hits rx n env = [] \<longrightarrow> cc_Default (cn_config n) \<noteq> [])
    | Inl err \<Rightarrow> if err = NoConditionMatched then hits rx n env = [] \<and> cc_Default (cn_config n) = []
        else \<exists>c \<in> set (cc_Conditions (cn_config n)). cond_value rx (route_vars env) c = None"
proof -
  let ?cs = "cc_Conditions (cn_config n)" and ?o = "cc_EvaluationOrder (cn_config n)"
  obtain r cache' where r: "route_loop rx (route_vars env) ?o ?cs cache = (r, cache')" by fastforce
  from route_loop_spec[OF assms r] show ?thesis
    using r by (cases r) (auto simp: Route_def Let_def hits_def split: if_splits)
qed

text \<open>
  C24: Routing follows the conditions. With a cache that agrees with the engine, whenever \<open>Route\<close>
  decides, the targets are the names of the conditions that hold, all of them in order or only the first,
  as configured, or the default branch if none holds. \<open>Route\<close> fails only if the evaluation of some
  condition fails, or if none holds and there is no default.
\<close>

theorem Route_correct:
  assumes "cache_ok rx cache"
  shows "case fst (Route rx n env cache) of
      Inr d \<Rightarrow> rd_Targets d = (if hits rx n env = [] then [cc_Default (cn_config n)] else map cd_Name (hits rx n env)) \<and>
        (hits rx n env = [] \<longrightarrow> cc_Default (cn_config n) \<noteq> [])
    | Inl err \<Rightarrow> if err = NoConditionMatched then hits rx n env = [] \<and> cc_Default (cn_config n) = []
        else \<exists>c \<in> set (cc_Conditions (cn_config n)). cond_value rx (route_vars env) c = None"
  by (rule Route_spec[OF assms])

text \<open>A node with two conditions, and the one it is built into.\<close>

definition demo_config :: CondConfig where
  "demo_config = \<lparr>cc_Conditions = [
       \<lparr>cd_Name = ''b'', cd_Expression = ''input.level == \"high\"'', cd_Description = [], cd_parsed = None\<rparr>,
       \<lparr>cd_Name = ''tagged'', cd_Expression = ''\"x\" in tags'', cd_Description = ''has tag'', cd_parsed = None\<rparr>],
     cc_Default = ''low'', cc_EvaluationOrder = [], cc_PassThrough = False, cc_OutputKey = []\<rparr>"

definition demo_cond :: ConditionalNode where
  "demo_cond = \<lparr>cn_id = ''a'', cn_config = demo_config\<lparr>cc_EvaluationOrder := first_match, cc_OutputKey := ''a_output'',
     cc_Conditions := [
       \<lparr>cd_Name = ''b'', cd_Expression = ''input.level == \"high\"'', cd_Description = [],
         cd_parsed = Some (BinaryExpr (MemberExpr (IdentExpr ''input'') ''level'') TokenEq (LiteralExpr (VStr ''high'')))\<rparr>,
       \<lparr>cd_Name = ''tagged'', cd_Expression = ''\"x\" in tags'', cd_Description = ''has tag'',
         cd_parsed = Some (BinaryExpr (LiteralExpr (VStr ''x'')) TokenIn (IdentExpr ''tags''))\<rparr>]\<rparr>\<rparr>"

lemma demo_cond_built: "NewConditionalNode ascii ''a'' demo_config = Some (Inr demo_cond)"
  by code_simp

definition demo_env :: "string \<Rightarrow> string list \<Rightarrow> Envelope" where
  "demo_env level tags = SetVar ''tags'' (VStrs tags) (SetVar ''level'' (VStr level) NewEnvelope)"

definition demo_targets :: "string \<Rightarrow> string list \<Rightarrow> string list" where
  "demo_targets level tags = (case fst (Route toy_rx demo_cond (demo_env level tags) []) of Inr d \<Rightarrow> rd_Targets d | _ \<Rightarrow> [])"

theorem Route_correct_witness:
  "demo_targets ''high'' [''x''] = [''b''] \<and> demo_targets ''mid'' [''x''] = [''tagged''] \<and> demo_targets ''mid'' [] = [''low''] \<and>
   map cd_Name (hits toy_rx demo_cond (demo_env ''high'' [''x''])) = [''b'']"
proof -
  have t: "demo_targets ''high'' [''x''] = [''b'']" "demo_targets ''mid'' [''x''] = [''tagged'']" "demo_targets ''mid'' [] = [''low'']"
    by code_simp+
  have d: "cc_Default (cn_config demo_cond) = ''low''" by code_simp
  have "cache_ok toy_rx []" by (simp add: cache_ok_def)
  from Route_correct[OF this, of demo_cond "demo_env ''high'' [''x'']"] t d show ?thesis
    by (auto simp: demo_targets_def split: sum.splits if_splits)
qed


subsection \<open>Routing in a run\<close>

text \<open>
  C23: The runtime follows the conditional node's decision. After a successful run of the node, if no gate
  redirect is set and the output is not written over the decision, the next nodes are exactly those
  successors in the graph that are named after the conditions the node picked: under the evaluation order
  \<open>first_match\<close> the first condition that holds, and only that one; under any other order every condition
  that holds; and the default branch if none holds.
\<close>

theorem conditional_successors:
  assumes "n_Run (cond_node rx err_text n) k env = \<lparr>ro_env = env', ro_result = Inr (Some env'), ro_events = []\<rparr>"
    and "gate_redirect (Successors g (cn_id n)) env' = None"
    and "cc_PassThrough (cn_config n) \<or> cc_OutputKey (cn_config n) \<noteq> decision_key (cn_id n)"
  shows "\<exists>em'. determineSuccessors emitf g (cond_node rx err_text n) (Some env') em =
    Some (filter (\<lambda>s. s \<in> set (
              let held = filter (\<lambda>c. cond_value rx (route_vars env) c = Some True) (cc_Conditions (cn_config n));
                  picked = (if cc_EvaluationOrder (cn_config n) = first_match then take 1 held else held)
              in if picked = [] then [cc_Default (cn_config n)] else map cd_Name picked))
            (Successors g (cn_id n)), Some env', em')"
proof -
  obtain d cache where r: "Route rx n env [] = (Inr d, cache)" and
      e: "env' = (if \<not> cc_PassThrough (cn_config n) then
                    SetVar (cc_OutputKey (cn_config n))
                      (VMap [(''matched'', VBool (length (rd_Targets d) > 0)),
                             (''condition'', VStr (if length (rd_Targets d) > 0 then hd (rd_Targets d) else []))])
                      (SetVar (decision_key (cn_id n)) (VDecision d) env)
                  else SetVar (decision_key (cn_id n)) (VDecision d) env)"
    using assms(1) by (auto simp: cond_node_def cn_Run_def Let_def split: sum.splits prod.splits)
  have "cache_ok rx []" by (simp add: cache_ok_def)
  from Route_spec[OF this, of n env] r
  have t: "rd_Targets d = (if hits rx n env = [] then [cc_Default (cn_config n)] else map cd_Name (hits rx n env))" by simp
  have "GetVar env' (decision_key (cn_id n)) = Some (VDecision d)"
    using assms(3) e by (auto simp: GetVar_def SetVar_def split: option.split)
  with assms(2) t show ?thesis by (simp add: determineSuccessors_def Let_def cond_node_def hits_def matching_def)
qed

definition demo_cond_next :: "string \<Rightarrow> Envelope" where
  "demo_cond_next level = ro_env (n_Run (cond_node toy_rx (\<lambda>_. []) demo_cond) 0 (demo_env level []))"

theorem conditional_successors_witness:
  "\<exists>em'. determineSuccessors emit demo_graph (cond_node toy_rx (\<lambda>_. []) demo_cond) (Some (demo_cond_next ''high'')) new_emitter
    = Some ([''b''], Some (demo_cond_next ''high''), em')"
proof -
  have run: "n_Run (cond_node toy_rx (\<lambda>_. []) demo_cond) 0 (demo_env ''high'' []) =
      \<lparr>ro_env = demo_cond_next ''high'', ro_result = Inr (Some (demo_cond_next ''high'')), ro_events = []\<rparr>"
    by code_simp
  have facts: "gate_redirect (Successors demo_graph (cn_id demo_cond)) (demo_cond_next ''high'') = None"
    "cc_OutputKey (cn_config demo_cond) \<noteq> decision_key (cn_id demo_cond)"
    "map cd_Name (hits toy_rx demo_cond (demo_env ''high'' [])) = [''b'']" "cn_id demo_cond = ''a''"
    by code_simp+
  have "hits toy_rx demo_cond (demo_env ''high'' []) \<noteq> []" using facts(3) by auto
  with conditional_successors[OF run facts(1) disjI2[OF facts(2)], of emit new_emitter] facts(3,4) demo_graph_simps(3)
  show ?thesis by (simp add: hits_def matching_def Let_def)
qed

end
