(* ===== verification/Node_Helpers.thy ===== *)
theory Node_Helpers
  imports Core_Envelope "HOL-Library.Sublist"
begin

section \<open>Helpers of the node implementations\<close>

text \<open>
  \<open>nodes/helpers.go\<close>. A write into a nil map panics in Go; the functions that write nested maps
  return \<open>None\<close> there. The \<open>%v\<close> format of package \<open>fmt\<close> is \<open>fmt_v\<close> for nil, booleans, integers, strings,
  lists and maps (whose keys it sorts); the text of floats and structs is the argument \<open>other\<close>.
  The values \<open>json.Number\<close>, \<open>[]int\<close> and \<open>[]float64\<close> are not among the modelled dynamic types.
\<close>


subsection \<open>Formatting and comparing\<close>

fun show_int :: "int \<Rightarrow> string" where
  "show_int n = (if n < 0 then CHR ''-'' # show_nat (nat (- n)) else show_nat (nat n))"

fun insert_entry :: "string \<times> string \<Rightarrow> (string \<times> string) list \<Rightarrow> (string \<times> string) list" where
  "insert_entry e [] = [e]"
| "insert_entry e (f # fs) = (if str_compare (fst e) (fst f) < 0 then e # f # fs else f # insert_entry e fs)"

definition sort_entries :: "(string \<times> string) list \<Rightarrow> (string \<times> string) list" where
  "sort_entries es = fold insert_entry es []"

definition fmt_map :: "(string \<times> string) list \<Rightarrow> string" where
  "fmt_map es = ''map['' @ join_with '' '' (map (\<lambda>(k, v). k @ '':'' @ v) (sort_entries es)) @ '']''"

definition fmt_list :: "string list \<Rightarrow> string" where
  "fmt_list ss = ''['' @ join_with '' '' ss @ '']''"

primrec fmt_v :: "(val \<Rightarrow> string) \<Rightarrow> val \<Rightarrow> string" where
  "fmt_v other VNil = ''<nil>''"
| "fmt_v other (VBool b) = (if b then ''true'' else ''false'')"
| "fmt_v other (VInt n) = show_int n"
| "fmt_v other (VInt32 n) = show_int n"
| "fmt_v other (VInt64 n) = show_int n"
| "fmt_v other (VF32 x) = other (VF32 x)"
| "fmt_v other (VF64 x) = other (VF64 x)"
| "fmt_v other (VStr s) = s"
| "fmt_v other (VList xs) = fmt_list (map (fmt_v other) xs)"
| "fmt_v other (VStrs ss) = fmt_list ss"
| "fmt_v other VNilMap = ''map[]''"
| "fmt_v other (VMap m) = fmt_map (map (map_prod id (fmt_v other)) m)"
| "fmt_v other (VMaps ms) = fmt_list (map (\<lambda>m. fmt_map m) (map (map (map_prod id (fmt_v other))) ms))"
| "fmt_v other (VArts as) = other (VArts as)"
| "fmt_v other (VMsgs ms) = other (VMsgs ms)"
| "fmt_v other (VDecision d) = other (VDecision d)"
| "fmt_v other (VStruct n fs) = other (VStruct n fs)"

definition h_toFloat64 :: "val \<Rightarrow> f64 option" where
  "h_toFloat64 v = (case v of
       VInt n \<Rightarrow> Some (f64_of_int n)
     | VInt64 n \<Rightarrow> Some (f64_of_int n)
     | VF32 x \<Rightarrow> Some x
     | VF64 x \<Rightarrow> Some x
     | _ \<Rightarrow> None)"

definition toSlice :: "val \<Rightarrow> string + val list" where
  "toSlice v = (case v of
       VNil \<Rightarrow> Inl ''input is nil''
     | VList s \<Rightarrow> Inr s
     | VStrs s \<Rightarrow> Inr (map VStr s)
     | VMaps s \<Rightarrow> Inr (map VMap s)
     | _ \<Rightarrow> Inl ''input is not a slice'')"

definition toMap :: "val \<Rightarrow> val gomap option" where
  "toMap v = as_map v"

definition valuesEqual :: "(val \<Rightarrow> string) \<Rightarrow> val \<Rightarrow> val \<Rightarrow> bool" where
  "valuesEqual other a b = (case (as_str a, as_str b) of
       (Some x, Some y) \<Rightarrow> x = y
     | _ \<Rightarrow> (case (h_toFloat64 a, h_toFloat64 b) of
           (Some x, Some y) \<Rightarrow> f64_eq x y
         | _ \<Rightarrow> fmt_v other a = fmt_v other b))"

definition compare_values :: "(val \<Rightarrow> string) \<Rightarrow> val \<Rightarrow> val \<Rightarrow> int" where
  "compare_values other a b = (case (h_toFloat64 a, h_toFloat64 b) of
       (Some x, Some y) \<Rightarrow> (if f64_lt x y then - 1 else if f64_lt y x then 1 else 0)
     | _ \<Rightarrow> str_compare (fmt_v other a) (fmt_v other b))"

definition containsValue :: "(val \<Rightarrow> string) \<Rightarrow> val \<Rightarrow> val \<Rightarrow> bool" where
  "containsValue other container value = str_contains (fmt_v other container) (fmt_v other value)"

definition inValues :: "(val \<Rightarrow> string) \<Rightarrow> val \<Rightarrow> val list \<Rightarrow> bool" where
  "inValues other v values = list_ex (\<lambda>w. compare_values other v w = 0) values"

definition h_isTruthy :: "val \<Rightarrow> bool" where
  "h_isTruthy v = (case v of
       VNil \<Rightarrow> False
     | VBool b \<Rightarrow> b
     | VInt n \<Rightarrow> n \<noteq> 0
     | VInt64 n \<Rightarrow> n \<noteq> 0
     | VF64 x \<Rightarrow> \<not> f64_eq x (F64 0)
     | VStr s \<Rightarrow> s \<noteq> []
     | VList xs \<Rightarrow> length xs > 0
     | VMap m \<Rightarrow> length m > 0
     | VNilMap \<Rightarrow> False
     | _ \<Rightarrow> True)"


subsection \<open>Nested maps\<close>

definition getNestedValue :: "val gomap \<Rightarrow> string \<Rightarrow> val option" where
  "getNestedValue m path = nested_get (VMap m) (split_on (CHR ''.'') path)"

text \<open>The map to go on in: the nested one, or a new one; a nested nil map cannot be written.\<close>

definition child_map :: "val gomap \<Rightarrow> string \<Rightarrow> val gomap option" where
  "child_map m p = (case mget m p of
       Some (VMap sub) \<Rightarrow> Some sub
     | Some VNilMap \<Rightarrow> None
     | _ \<Rightarrow> Some [])"

fun set_nested :: "string list \<Rightarrow> val \<Rightarrow> val gomap \<Rightarrow> val gomap option" where
  "set_nested [] v m = Some m"
| "set_nested [p] v m = Some (mput p v m)"
| "set_nested (p # q # ps) v m = (case child_map m p of
       None \<Rightarrow> None
     | Some sub \<Rightarrow> map_option (\<lambda>sub'. mput p (VMap sub') m) (set_nested (q # ps) v sub))"

definition setNestedValue :: "val gomap \<Rightarrow> string \<Rightarrow> val \<Rightarrow> val gomap option" where
  "setNestedValue m path v = set_nested (split_on (CHR ''.'') path) v m"

fun delete_nested :: "string list \<Rightarrow> val gomap \<Rightarrow> val gomap" where
  "delete_nested [] m = m"
| "delete_nested [p] m = mdel p m"
| "delete_nested (p # q # ps) m = (case mget m p of
       Some (VMap sub) \<Rightarrow> mput p (VMap (delete_nested (q # ps) sub)) m
     | _ \<Rightarrow> m)"

definition deleteNestedValue :: "val gomap \<Rightarrow> string \<Rightarrow> val gomap" where
  "deleteNestedValue m path = delete_nested (split_on (CHR ''.'') path) m"

text \<open>The assertions that both values are maps: the destination, possibly nil, and the source's entries.\<close>

definition map_pair :: "val option \<Rightarrow> val \<Rightarrow> (val gomap option \<times> val gomap) option" where
  "map_pair dst src = (case as_map src of
       None \<Rightarrow> None
     | Some sm \<Rightarrow> (case dst of
           Some (VMap dm) \<Rightarrow> Some (Some dm, sm)
         | Some VNilMap \<Rightarrow> Some (None, sm)
         | _ \<Rightarrow> None))"

lemma map_pair_size [termination_simp]:
  "map_pair d v = Some (x, sm) \<Longrightarrow> size_list (size_prod (\<lambda>_. 0) size) sm \<le> size v"
  by (auto simp: map_pair_def elim!: as_map_SomeE split: option.splits val.splits)

function deepMerge :: "val gomap \<Rightarrow> val gomap \<Rightarrow> val gomap option" where
  "deepMerge dst [] = Some dst"
| "deepMerge dst ((k, srcVal) # rest) =
     (case map_pair (mget dst k) srcVal of
        Some (Some dstMap, srcMap) \<Rightarrow>
          (case deepMerge dstMap srcMap of None \<Rightarrow> None | Some m \<Rightarrow> deepMerge (mput k (VMap m) dst) rest)
      | Some (None, srcMap) \<Rightarrow> if srcMap = [] then deepMerge dst rest else None
      | None \<Rightarrow> deepMerge (mput k srcVal dst) rest)"
  by pat_completeness auto
termination
  by (relation "measure (\<lambda>(d, s). size_list (size_prod (\<lambda>_. 0) size) s)") (auto simp: less_Suc_eq_le dest!: map_pair_size)

primrec deepCopy :: "val \<Rightarrow> val" where
  "deepCopy VNil = VNil"
| "deepCopy (VBool b) = VBool b"
| "deepCopy (VInt n) = VInt n"
| "deepCopy (VInt32 n) = VInt32 n"
| "deepCopy (VInt64 n) = VInt64 n"
| "deepCopy (VF32 x) = VF32 x"
| "deepCopy (VF64 x) = VF64 x"
| "deepCopy (VStr s) = VStr s"
| "deepCopy (VList xs) = VList (map deepCopy xs)"
| "deepCopy (VStrs ss) = VStrs ss"
| "deepCopy VNilMap = VMap []"
| "deepCopy (VMap m) = VMap (map (map_prod id deepCopy) m)"
| "deepCopy (VMaps ms) = VMaps ms"
| "deepCopy (VArts as) = VArts as"
| "deepCopy (VMsgs ms) = VMsgs ms"
| "deepCopy (VDecision d) = VDecision d"
| "deepCopy (VStruct n fs) = VStruct n fs"

definition deepCopyMap :: "val gomap \<Rightarrow> val gomap" where
  "deepCopyMap m = map (map_prod id deepCopy) m"

definition deepCopySlice :: "val list \<Rightarrow> val list" where
  "deepCopySlice s = map deepCopy s"

function flattenMap :: "string \<Rightarrow> int \<Rightarrow> int \<Rightarrow> string \<Rightarrow> val gomap \<Rightarrow> val gomap \<Rightarrow> val gomap" where
  "flattenMap sep maxDepth depth prefx [] result = result"
| "flattenMap sep maxDepth depth prefx ((k, v) # rest) result =
     (let key = (if prefx \<noteq> [] then prefx @ sep @ k else k) in
      flattenMap sep maxDepth depth prefx rest
        (case v of
           VMap nested \<Rightarrow>
             if maxDepth = 0 \<or> depth < maxDepth then flattenMap sep maxDepth (depth + 1) key nested result
             else mput key v result
         | VNilMap \<Rightarrow> if maxDepth = 0 \<or> depth < maxDepth then result else mput key v result
         | _ \<Rightarrow> mput key v result))"
  by pat_completeness auto
termination
  by (relation "measure (\<lambda>(sep, mx, d, p, m, r). size_list (size_prod (\<lambda>_. 0) size) m)") auto


subsection \<open>Reading after writing\<close>

lemma child_map_get: "child_map m p = Some sub \<Longrightarrow> rs \<noteq> [] \<Longrightarrow> nested_get (VMap m) (p # rs) = nested_get (VMap sub) rs"
  by (cases rs) (auto simp: child_map_def split: option.splits val.splits)

lemma nested_get_set: "set_nested ps v m = Some m' \<Longrightarrow> ps \<noteq> [] \<Longrightarrow> nested_get (VMap m') ps = Some v"
proof (induction ps v m arbitrary: m' rule: set_nested.induct)
  case (3 p q ps v m)
  then obtain sub sub' where "child_map m p = Some sub" "set_nested (q # ps) v sub = Some sub'" "m' = mput p (VMap sub') m"
    by (auto split: option.splits)
  with 3 show ?case by simp
qed auto

lemma nested_get_set_frame:
  "set_nested ps v m = Some m' \<Longrightarrow> ps \<parallel> qs \<Longrightarrow> nested_get (VMap m') qs = nested_get (VMap m) qs"
proof (induction ps v m arbitrary: m' qs rule: set_nested.induct)
  case (2 p v m)
  then show ?case by (cases qs) (auto simp: parallel_def)
next
  case (3 p q ps v m)
  obtain sub sub' where sub: "child_map m p = Some sub" "set_nested (q # ps) v sub = Some sub'" "m' = mput p (VMap sub') m"
    using "3.prems"(1) by (auto split: option.splits)
  obtain r rs where qs: "qs = r # rs" using "3.prems"(2) by (cases qs) (auto simp: parallel_def)
  show ?case
  proof (cases "r = p")
    case True
    with "3.prems"(2) qs have par: "(q # ps) \<parallel> rs" and ne: "rs \<noteq> []" by (auto simp: parallel_def)
    have "nested_get (VMap sub') rs = nested_get (VMap sub) rs" by (rule "3.IH"[OF sub(1,2) par])
    with sub qs True child_map_get[OF sub(1) ne] show ?thesis by simp
  qed (use sub(3) qs in simp)
qed (auto simp: parallel_def)

lemma nested_get_delete: "ps \<noteq> [] \<Longrightarrow> nested_get (VMap (delete_nested ps m)) ps = None"
  by (induction ps m rule: delete_nested.induct) (auto split: option.splits val.splits)

text \<open>
  Dotted paths behave like variables. After setting a path (which panics only when it runs into a
  nil map), reading it gives the value, every path that is neither above nor below it reads as before,
  and after deleting it, it is absent.
\<close>

theorem nested_value_laws:
  assumes "setNestedValue m path v = Some m'"
  shows "getNestedValue m' path = Some v \<and>
    (\<forall>q. split_on (CHR ''.'') path \<parallel> split_on (CHR ''.'') q \<longrightarrow> getNestedValue m' q = getNestedValue m q) \<and>
    getNestedValue (deleteNestedValue m' path) path = None"
  using assms nested_get_set[of "split_on (CHR ''.'') path" v m m'] nested_get_set_frame[of "split_on (CHR ''.'') path" v m m']
    nested_get_delete[of "split_on (CHR ''.'') path" m']
  by (simp add: setNestedValue_def getNestedValue_def deleteNestedValue_def del: nested_get.simps)

theorem nested_value_laws_witness:
  "setNestedValue [(''a'', VInt 1)] ''a.b'' (VBool True) = Some [(''a'', VMap [(''b'', VBool True)])] \<and>
   getNestedValue [(''a'', VMap [(''b'', VBool True)])] ''a.b'' = Some (VBool True)"
proof -
  have s: "setNestedValue [(''a'', VInt 1)] ''a.b'' (VBool True) = Some [(''a'', VMap [(''b'', VBool True)])]" by code_simp
  show ?thesis using s nested_value_laws[OF s] by blast
qed


subsection \<open>Merging maps\<close>

text \<open>Maps with distinct keys throughout and no nil map inside.\<close>

primrec tidy :: "val \<Rightarrow> bool" where
  "tidy VNil = True"
| "tidy (VBool _) = True"
| "tidy (VInt _) = True"
| "tidy (VInt32 _) = True"
| "tidy (VInt64 _) = True"
| "tidy (VF32 _) = True"
| "tidy (VF64 _) = True"
| "tidy (VStr _) = True"
| "tidy (VList _) = True"
| "tidy (VStrs _) = True"
| "tidy VNilMap = False"
| "tidy (VMap m) = (distinct (map fst m) \<and> list_all snd (map (map_prod id tidy) m))"
| "tidy (VMaps _) = True"
| "tidy (VArts _) = True"
| "tidy (VMsgs _) = True"
| "tidy (VDecision _) = True"
| "tidy (VStruct _ _) = True"

lemma tidy_VMap: "tidy (VMap m) \<longleftrightarrow> distinct (mkeys m) \<and> (\<forall>(k, v) \<in> set m. tidy v)"
  by (auto simp: list_all_iff)

declare tidy.simps(12) [simp del]

lemma tidy_get: "tidy (VMap m) \<Longrightarrow> mget m k = Some v \<Longrightarrow> tidy v"
  by (auto simp: tidy_VMap dest: map_of_SomeD)

lemma in_mput: "(k', v') \<in> set (mput k v m) \<Longrightarrow> (k', v') = (k, v) \<or> (k', v') \<in> set m"
  by (induction m) (auto split: if_splits)

lemma tidy_mput: "tidy (VMap m) \<Longrightarrow> tidy v \<Longrightarrow> tidy (VMap (mput k v m))"
  by (auto simp: tidy_VMap distinct_update dest!: in_mput)

lemma tidy_Cons: "tidy (VMap ((k, v) # m)) \<longleftrightarrow> tidy v \<and> tidy (VMap m) \<and> mget m k = None"
  by (auto simp: tidy_VMap map_of_eq_None_iff)

definition merge_at :: "val gomap \<Rightarrow> val gomap \<Rightarrow> string \<Rightarrow> val option" where
  "merge_at d s k = (case mget s k of
       None \<Rightarrow> mget d k
     | Some sv \<Rightarrow> (case (mget d k, sv) of
           (Some (VMap dm), VMap sm) \<Rightarrow> map_option VMap (deepMerge dm sm)
         | _ \<Rightarrow> Some sv))"

lemma tidy_map_pair:
  assumes "tidy (VMap d)" "tidy sv"
  shows "map_pair (mget d k) sv = (case (mget d k, sv) of (Some (VMap dm), VMap sm) \<Rightarrow> Some (Some dm, sm) | _ \<Rightarrow> None)"
  using assms tidy_get[OF assms(1), of k] by (cases sv) (auto simp: map_pair_def split: option.split val.split)

lemma deepMerge_spec:
  "tidy (VMap d) \<Longrightarrow> tidy (VMap s) \<Longrightarrow> \<exists>r. deepMerge d s = Some r \<and> tidy (VMap r) \<and> (\<forall>k. mget r k = merge_at d s k)"
proof (induction d s rule: deepMerge.induct)
  case (1 dst)
  then show ?case by (simp add: merge_at_def)
next
  case (2 dst k sv rest)
  have t: "tidy sv" "tidy (VMap rest)" "mget rest k = None" using "2.prems"(2) by (auto simp: tidy_Cons)
  note pair = tidy_map_pair[OF "2.prems"(1) t(1), of k]
  show ?case
  proof (cases "\<exists>dm sm. mget dst k = Some (VMap dm) \<and> sv = VMap sm")
    case True
    then obtain dm sm where m: "mget dst k = Some (VMap dm)" "sv = VMap sm" by blast
    then have p: "map_pair (mget dst k) sv = Some (Some dm, sm)" using pair by simp
    have "tidy (VMap dm)" using "2.prems"(1) m(1) by (rule tidy_get)
    then obtain rm where rm: "deepMerge dm sm = Some rm" "tidy (VMap rm)"
      using "2.IH"(3)[OF p refl refl] t(1) m(2) by auto
    have "tidy (VMap (mput k (VMap rm) dst))" using "2.prems"(1) rm(2) by (rule tidy_mput)
    then obtain r where r: "deepMerge (mput k (VMap rm) dst) rest = Some r" "tidy (VMap r)"
        "\<forall>k'. mget r k' = merge_at (mput k (VMap rm) dst) rest k'"
      using "2.IH"(4)[OF p refl refl rm(1)] t(2) by auto
    have "merge_at (mput k (VMap rm) dst) rest k' = merge_at dst ((k, sv) # rest) k'" for k'
      using t(3) m rm(1) by (auto simp: merge_at_def split: option.split)
    with r p rm show ?thesis by simp
  next
    case False
    then have p: "map_pair (mget dst k) sv = None" unfolding pair by (auto split: option.split val.split)
    have "tidy (VMap (mput k sv dst))" using "2.prems"(1) t(1) by (rule tidy_mput)
    then obtain r where r: "deepMerge (mput k sv dst) rest = Some r" "tidy (VMap r)"
        "\<forall>k'. mget r k' = merge_at (mput k sv dst) rest k'"
      using "2.IH"(1)[OF p] t(2) by auto
    have "merge_at (mput k sv dst) rest k' = merge_at dst ((k, sv) # rest) k'" for k'
      using t(3) False by (auto simp: merge_at_def split: option.split val.split)
    with r p show ?thesis by simp
  qed
qed

lemma deepMerge_leaf:
  assumes "p \<noteq> []" "nested_get (VMap s) p = Some v" "as_map v = None" "tidy (VMap d)" "tidy (VMap s)" "deepMerge d s = Some r"
  shows "nested_get (VMap r) p = Some v"
  using assms
proof (induction p arbitrary: d s r)
  case (Cons k ps)
  obtain sv where sv: "mget s k = Some sv" "nested_get sv ps = Some v" using Cons.prems(2) by (auto split: option.splits)
  have r: "mget r k = merge_at d s k" using deepMerge_spec[OF Cons.prems(4,5)] Cons.prems(6) by auto
  show ?case
  proof (cases "\<exists>dm sm. mget d k = Some (VMap dm) \<and> sv = VMap sm")
    case True
    then obtain dm sm where m: "mget d k = Some (VMap dm)" "sv = VMap sm" by blast
    have t: "tidy (VMap dm)" "tidy (VMap sm)" using tidy_get Cons.prems(4,5) m sv(1) by blast+
    then obtain rm where rm: "deepMerge dm sm = Some rm" using deepMerge_spec by blast
    have "ps \<noteq> []" using sv(2) m(2) Cons.prems(3) by auto
    then have "nested_get (VMap rm) ps = Some v" using Cons.IH[OF _ _ Cons.prems(3) t rm] sv(2) m(2) by blast
    then show ?thesis using r m sv(1) rm by (simp add: merge_at_def)
  next
    case False
    then have "mget r k = Some sv" using r sv(1) by (auto simp: merge_at_def split: option.split val.split)
    then show ?thesis using sv(2) by simp
  qed
qed simp

lemma deepMerge_other:
  assumes "p \<noteq> []" "nested_get (VMap s) p = None"
    "\<forall>q v. strict_prefix q p \<and> nested_get (VMap s) q = Some v \<longrightarrow> as_map v \<noteq> None"
    "tidy (VMap d)" "tidy (VMap s)" "deepMerge d s = Some r"
  shows "nested_get (VMap r) p = nested_get (VMap d) p"
  using assms
proof (induction p arbitrary: d s r)
  case (Cons k ps)
  have r: "mget r k = merge_at d s k" using deepMerge_spec[OF Cons.prems(4,5)] Cons.prems(6) by auto
  show ?case
  proof (cases "mget s k")
    case None
    then show ?thesis using r by (simp add: merge_at_def)
  next
    case (Some sv)
    have ne: "ps \<noteq> []" using Some Cons.prems(2) by auto
    then have "as_map sv \<noteq> None" using Cons.prems(3)[rule_format, of "[k]" sv] Some by (auto simp: strict_prefix_def)
    then obtain sm where sm: "sv = VMap sm" using tidy_get[OF Cons.prems(5) Some] by (cases sv) auto
    have none: "nested_get (VMap sm) ps = None" using Cons.prems(2) Some sm by simp
    show ?thesis
    proof (cases "\<exists>dm. mget d k = Some (VMap dm)")
      case True
      then obtain dm where m: "mget d k = Some (VMap dm)" by blast
      have t: "tidy (VMap dm)" "tidy (VMap sm)" using tidy_get Cons.prems(4,5) m Some sm by blast+
      then obtain rm where rm: "deepMerge dm sm = Some rm" using deepMerge_spec by blast
      have "\<forall>q v. strict_prefix q ps \<and> nested_get (VMap sm) q = Some v \<longrightarrow> as_map v \<noteq> None"
        using Cons.prems(3)[rule_format, of "k # _"] Some sm by auto
      then have "nested_get (VMap rm) ps = nested_get (VMap dm) ps" by (rule Cons.IH[OF ne none _ t rm])
      then show ?thesis using r m Some sm rm by (simp add: merge_at_def)
    next
      case False
      then have "mget r k = Some sv" using r Some by (auto simp: merge_at_def split: option.split val.split)
      moreover have "nested_get (VMap d) (k # ps) = None"
        using False ne tidy_get[OF Cons.prems(4), of k] by (cases ps) (auto elim!: as_map_SomeE split: option.splits)
      ultimately show ?thesis using none sm by simp
    qed
  qed
qed simp

text \<open>
  Merging nested maps is pathwise override. On maps without nil maps inside, \<open>deepMerge\<close> does not panic,
  in whatever order the source's entries are visited; a leaf of the source wins at its path, and a path at
  or above which the source has no value of its own reads as in the destination.
\<close>

theorem deepMerge_paths:
  assumes "tidy (VMap dst)" "tidy (VMap src)"
  shows "\<exists>r. deepMerge dst src = Some r \<and>
    (\<forall>p v. p \<noteq> [] \<and> nested_get (VMap src) p = Some v \<and> as_map v = None \<longrightarrow> nested_get (VMap r) p = Some v) \<and>
    (\<forall>p. p \<noteq> [] \<and> nested_get (VMap src) p = None \<and>
       (\<forall>q v. strict_prefix q p \<and> nested_get (VMap src) q = Some v \<longrightarrow> as_map v \<noteq> None) \<longrightarrow>
       nested_get (VMap r) p = nested_get (VMap dst) p)"
  using deepMerge_spec[OF assms] deepMerge_leaf[OF _ _ _ assms] deepMerge_other[OF _ _ _ assms] by blast

theorem deepMerge_paths_witness:
  "deepMerge [(''a'', VMap [(''x'', VInt 1), (''y'', VInt 2)])] [(''a'', VMap [(''x'', VInt 3)]), (''b'', VNil)]
     = Some [(''a'', VMap [(''x'', VInt 3), (''y'', VInt 2)]), (''b'', VNil)] \<and>
   nested_get (VMap [(''a'', VMap [(''x'', VInt 3), (''y'', VInt 2)]), (''b'', VNil)]) [''a'', ''x''] = Some (VInt 3)"
proof -
  have m: "deepMerge [(''a'', VMap [(''x'', VInt 1), (''y'', VInt 2)])] [(''a'', VMap [(''x'', VInt 3)]), (''b'', VNil)]
     = Some [(''a'', VMap [(''x'', VInt 3), (''y'', VInt 2)]), (''b'', VNil)]" by code_simp
  have "tidy (VMap [(''a'', VMap [(''x'', VInt 1), (''y'', VInt 2)])])" "tidy (VMap [(''a'', VMap [(''x'', VInt 3)]), (''b'', VNil)])"
    by code_simp+
  from deepMerge_paths[OF this] m show ?thesis
    by (auto dest!: spec[of _ "[''a'', ''x'']"] spec[of _ "VInt 3"])
qed

end
