(* ===== verification/Merge_Node.thy ===== *)
theory Merge_Node
  imports Node_Helpers
begin

section \<open>The merge node\<close>

text \<open>
  \<open>nodes/merge.go\<close>: the merge node and its strategies. A call returns \<open>None\<close> when it panics (a write to
  a nil map or through a nil envelope). Maps are values: that a nested map of an input is the same object as
  the one in the result, so that a deep merge also changes that input, is not represented.
  \<open>fmt_other\<close> is the \<open>%v\<close> text of the values \<open>Node_Helpers.fmt_v\<close> leaves open. A custom strategy is a function
  that may panic too.
\<close>

record JSONMergeConfig =
  DeepMerge :: bool
  ConflictPolicy :: string
  VarsOnly :: bool

record ConcatMergeConfig =
  cm_VarName :: string
  cm_OutputKey :: string
  cm_Separator :: string

record BestScoreMergeConfig =
  ScoreVar :: string
  HigherIsBetter :: bool

datatype merge_error = KeyConflict string | StrategyFailed string merge_error | CustomError string

type_synonym merge_result = "(merge_error + Envelope option) option"

datatype MergeStrategy =
    JSONMergeStrategy JSONMergeConfig
  | ConcatMergeStrategy ConcatMergeConfig
  | BestScoreMergeStrategy BestScoreMergeConfig
  | FuncMergeStrategy string "(Envelope option list \<Rightarrow> merge_result) option"
  | AllMergeStrategy MergeStrategy string "string list"

record MergeNodeConfig =
  mn_Strategy :: "MergeStrategy option"
  mn_OutputKey :: string
  mn_ExpectedInputs :: int

record MergeNode =
  mn_id :: string
  mn_config :: MergeNodeConfig


subsection \<open>Construction\<close>

definition NewJSONMergeStrategy :: "JSONMergeConfig \<Rightarrow> MergeStrategy" where
  "NewJSONMergeStrategy cfg =
     JSONMergeStrategy (if ConflictPolicy cfg = [] then cfg\<lparr>ConflictPolicy := ''last''\<rparr> else cfg)"

definition NewConcatMergeStrategy :: "ConcatMergeConfig \<Rightarrow> MergeStrategy" where
  "NewConcatMergeStrategy cfg =
     (let cfg1 = (if cm_Separator cfg = [] then cfg\<lparr>cm_Separator := [CHR 0x0A]\<rparr> else cfg)
      in ConcatMergeStrategy (if cm_OutputKey cfg1 = [] then cfg1\<lparr>cm_OutputKey := cm_VarName cfg1\<rparr> else cfg1))"

definition NewAllMergeStrategy :: "MergeStrategy option \<Rightarrow> string \<Rightarrow> string list \<Rightarrow> MergeStrategy" where
  "NewAllMergeStrategy inner collectKey collectVars =
     AllMergeStrategy
       (case inner of None \<Rightarrow> NewJSONMergeStrategy \<lparr>DeepMerge = False, ConflictPolicy = [], VarsOnly = False\<rparr> | Some s \<Rightarrow> s)
       (if collectKey = [] then ''all_inputs'' else collectKey) collectVars"

definition NewMergeNode :: "string \<Rightarrow> MergeNodeConfig \<Rightarrow> MergeNode" where
  "NewMergeNode nid cfg =
     (let cfg1 = (if mn_OutputKey cfg = [] then cfg\<lparr>mn_OutputKey := nid @ ''_output''\<rparr> else cfg);
          cfg2 = (if mn_Strategy cfg1 = None
                  then cfg1\<lparr>mn_Strategy := Some (NewJSONMergeStrategy \<lparr>DeepMerge = False, ConflictPolicy = [], VarsOnly = False\<rparr>)\<rparr>
                  else cfg1)
      in \<lparr>mn_id = nid, mn_config = cfg2\<rparr>)"

fun ms_Name :: "MergeStrategy \<Rightarrow> string" where
  "ms_Name (JSONMergeStrategy _) = ''json_merge''"
| "ms_Name (ConcatMergeStrategy _) = ''concat_merge''"
| "ms_Name (BestScoreMergeStrategy _) = ''best_score_merge''"
| "ms_Name (FuncMergeStrategy name _) = name"
| "ms_Name (AllMergeStrategy _ _ _) = ''all_merge''"


subsection \<open>JSON merge\<close>

text \<open>A destination is an option: \<open>None\<close> is a nil map, which reads as empty and cannot be written.\<close>

definition dest_get :: "val gomap option \<Rightarrow> string \<Rightarrow> val option" where
  "dest_get dest k = (case dest of None \<Rightarrow> None | Some m \<Rightarrow> mget m k)"

definition map_val :: "val gomap option \<Rightarrow> val" where
  "map_val m = (case m of None \<Rightarrow> VNilMap | Some m \<Rightarrow> VMap m)"

function mergeVars :: "JSONMergeConfig \<Rightarrow> val gomap option \<Rightarrow> val gomap \<Rightarrow> (merge_error + val gomap option) option" where
  "mergeVars cfg dest [] = Some (Inr dest)"
| "mergeVars cfg dest ((k, v) # rest) =
     (case dest_get dest k of
        None \<Rightarrow> (case dest of None \<Rightarrow> None | Some m \<Rightarrow> mergeVars cfg (Some (mput k v m)) rest)
      | Some existing \<Rightarrow>
          if ConflictPolicy cfg = ''error'' then Some (Inl (KeyConflict k))
          else if ConflictPolicy cfg = ''first'' then mergeVars cfg dest rest
          else (case if ConflictPolicy cfg = ''last'' \<and> DeepMerge cfg then map_pair (Some existing) v else None of
              Some (destMap, srcMap) \<Rightarrow>
                (case mergeVars cfg destMap srcMap of
                   None \<Rightarrow> None
                 | Some (Inl err) \<Rightarrow> Some (Inl err)
                 | Some (Inr destMap') \<Rightarrow> mergeVars cfg (map_option (mput k (map_val destMap')) dest) rest)
            | None \<Rightarrow> mergeVars cfg (map_option (mput k v) dest) rest))"
  by pat_completeness auto
termination
  by (relation "measure (\<lambda>(c, d, s). size_list (size_prod (\<lambda>_. 0) size) s)")
    (auto simp: less_Suc_eq_le dest!: map_pair_size split: if_splits)

definition append_fields :: "Envelope \<Rightarrow> Envelope \<Rightarrow> Envelope" where
  "append_fields input result = result\<lparr>Artifacts := Artifacts result @ Artifacts input,
     Messages := Messages result @ Messages input, Errors := Errors result @ Errors input\<rparr>"

text \<open>The loop over the later inputs. The result is nil when the first input is; using it then panics.\<close>

fun json_loop :: "JSONMergeConfig \<Rightarrow> Envelope option \<Rightarrow> Envelope option list \<Rightarrow> merge_result" where
  "json_loop cfg result [] = Some (Inr result)"
| "json_loop cfg result (input # inputs) =
     (case Option.bind input Vars of
        None \<Rightarrow> json_loop cfg result inputs
      | Some src \<Rightarrow>
          (case result of
             None \<Rightarrow> None
           | Some res \<Rightarrow>
               (case mergeVars cfg (Vars res) src of
                  None \<Rightarrow> None
                | Some (Inl err) \<Rightarrow> Some (Inl err)
                | Some (Inr vars) \<Rightarrow>
                    let res1 = res\<lparr>Vars := vars\<rparr>
                    in json_loop cfg (Some (if VarsOnly cfg then res1 else append_fields (the input) res1)) inputs)))"

definition json_Merge :: "JSONMergeConfig \<Rightarrow> Envelope option list \<Rightarrow> merge_result" where
  "json_Merge cfg inputs = (case inputs of
       [] \<Rightarrow> Some (Inr (Some NewEnvelope))
     | first # rest \<Rightarrow> json_loop cfg (Clone first) rest)"


subsection \<open>Concatenation\<close>

fun concat_values :: "(val \<Rightarrow> string) \<Rightarrow> string \<Rightarrow> Envelope option list \<Rightarrow> string list" where
  "concat_values fmt_other name [] = []"
| "concat_values fmt_other name (input # inputs) =
     (case Option.bind input (\<lambda>e. GetVar e name) of
        None \<Rightarrow> concat_values fmt_other name inputs
      | Some v \<Rightarrow> (case as_str v of Some s \<Rightarrow> s | None \<Rightarrow> fmt_v fmt_other v) # concat_values fmt_other name inputs)"

definition append_all :: "Envelope option list \<Rightarrow> Envelope \<Rightarrow> Envelope" where
  "append_all inputs result =
     fold (\<lambda>input res. case input of None \<Rightarrow> res | Some e \<Rightarrow> append_fields e res) inputs result"

definition concat_Merge :: "(val \<Rightarrow> string) \<Rightarrow> ConcatMergeConfig \<Rightarrow> Envelope option list \<Rightarrow> merge_result" where
  "concat_Merge fmt_other cfg inputs = (case inputs of
       [] \<Rightarrow> Some (Inr (Some NewEnvelope))
     | first # rest \<Rightarrow>
         (case Clone first of
            None \<Rightarrow> None
          | Some result \<Rightarrow>
              Some (Inr (Some (append_all rest
                (SetVar (cm_OutputKey cfg) (VStr (join_with (cm_Separator cfg) (concat_values fmt_other (cm_VarName cfg) inputs))) result))))))"


subsection \<open>Best score\<close>

definition score_of :: "string \<Rightarrow> Envelope option \<Rightarrow> (Envelope \<times> f64) option" where
  "score_of var input = (case input of None \<Rightarrow> None
     | Some e \<Rightarrow> (case GetVar e var of None \<Rightarrow> None
         | Some v \<Rightarrow> (case h_toFloat64 v of None \<Rightarrow> None | Some score \<Rightarrow> Some (e, score))))"

definition better :: "BestScoreMergeConfig \<Rightarrow> f64 \<Rightarrow> f64 \<Rightarrow> bool" where
  "better cfg score bestScore = (if HigherIsBetter cfg then f64_lt bestScore score else f64_lt score bestScore)"

fun best_loop :: "BestScoreMergeConfig \<Rightarrow> (Envelope \<times> f64) option \<Rightarrow> Envelope option list \<Rightarrow> (Envelope \<times> f64) option" where
  "best_loop cfg best [] = best"
| "best_loop cfg best (input # inputs) =
     best_loop cfg (case score_of (ScoreVar cfg) input of
         None \<Rightarrow> best
       | Some (e, score) \<Rightarrow> (case best of
             None \<Rightarrow> Some (e, score)
           | Some (_, bestScore) \<Rightarrow> if better cfg score bestScore then Some (e, score) else best)) inputs"

definition best_Merge :: "BestScoreMergeConfig \<Rightarrow> Envelope option list \<Rightarrow> merge_result" where
  "best_Merge cfg inputs =
     (if length inputs = 0 then Some (Inr (Some NewEnvelope))
      else case best_loop cfg None inputs of
             Some (bestEnv, _) \<Rightarrow> Some (Inr (Clone (Some bestEnv)))
           | None \<Rightarrow> (case List.find (\<lambda>i. i \<noteq> None) inputs of
                 Some input \<Rightarrow> Some (Inr (Clone input))
               | None \<Rightarrow> Some (Inr (Some NewEnvelope))))"


subsection \<open>All strategies\<close>

definition collect_item :: "string list \<Rightarrow> Envelope \<Rightarrow> val gomap" where
  "collect_item collectVars input =
     (if length collectVars = 0 then (case Vars input of None \<Rightarrow> [] | Some m \<Rightarrow> m)
      else fold (\<lambda>name item. case GetVar input name of None \<Rightarrow> item | Some v \<Rightarrow> mput name v item) collectVars [])"

fun collect_vars :: "string list \<Rightarrow> Envelope option list \<Rightarrow> val gomap list" where
  "collect_vars collectVars [] = []"
| "collect_vars collectVars (input # inputs) = (case input of
       None \<Rightarrow> collect_vars collectVars inputs
     | Some e \<Rightarrow> collect_item collectVars e # collect_vars collectVars inputs)"

fun Merge :: "(val \<Rightarrow> string) \<Rightarrow> MergeStrategy \<Rightarrow> Envelope option list \<Rightarrow> merge_result" where
  "Merge fmt_other (JSONMergeStrategy cfg) inputs = json_Merge cfg inputs"
| "Merge fmt_other (ConcatMergeStrategy cfg) inputs = concat_Merge fmt_other cfg inputs"
| "Merge fmt_other (BestScoreMergeStrategy cfg) inputs = best_Merge cfg inputs"
| "Merge fmt_other (FuncMergeStrategy name fn) inputs = (case fn of
       None \<Rightarrow> Some (Inr (case inputs of [] \<Rightarrow> Some NewEnvelope | input # _ \<Rightarrow> Clone input))
     | Some f \<Rightarrow> f inputs)"
| "Merge fmt_other (AllMergeStrategy inner collectKey collectVars) inputs =
     (case Merge fmt_other inner inputs of
        None \<Rightarrow> None
      | Some (Inl err) \<Rightarrow> Some (Inl err)
      | Some (Inr None) \<Rightarrow> None
      | Some (Inr (Some result)) \<Rightarrow> Some (Inr (Some (SetVar collectKey (VMaps (collect_vars collectVars inputs)) result))))"

definition mn_Run :: "MergeNode \<Rightarrow> Envelope option \<Rightarrow> string + Envelope option" where
  "mn_Run n env = Inr env"

definition MergeInputs :: "(val \<Rightarrow> string) \<Rightarrow> MergeNode \<Rightarrow> Envelope option list \<Rightarrow> merge_result" where
  "MergeInputs fmt_other n inputs =
     (if length inputs = 0 then Some (Inr (Some NewEnvelope))
      else if length inputs = 1 then Some (Inr (inputs ! 0))
      else case mn_Strategy (mn_config n) of
             None \<Rightarrow> None
           | Some strategy \<Rightarrow>
               map_option (map_sum (StrategyFailed (ms_Name strategy)) (\<lambda>m. m))
                 (Merge fmt_other strategy inputs))"


subsection \<open>Deep merging is that of the helpers\<close>

lemma mput_same: "mget m k = Some v \<Longrightarrow> mput k v m = m"
  by (induction m) auto

lemma mergeVars_nil_dest: "mergeVars cfg None s = (if s = [] then Some (Inr None) else None)"
  by (cases s) (auto simp: dest_get_def)

lemma mergeVars_deep:
  assumes "ConflictPolicy cfg = ''last''" "DeepMerge cfg"
  shows "mergeVars cfg (Some dst) src = map_option (\<lambda>m. Inr (Some m)) (deepMerge dst src)"
proof (induction dst src rule: deepMerge.induct)
  case (2 dst k v rest)
  have nil: "mget dst k = Some VNilMap" if "map_pair (mget dst k) v = Some (None, sm)" for sm
    using that by (auto simp: map_pair_def split: option.splits val.splits)
  show ?case
  proof (cases "map_pair (mget dst k) v")
    case None
    then show ?thesis using "2.IH"(1)[OF None] assms by (auto simp: dest_get_def split: option.split)
  next
    case (Some pr)
    obtain d sm where pr: "map_pair (mget dst k) v = Some (d, sm)" using Some by (cases pr) auto
    obtain ex where ex: "mget dst k = Some ex" using pr by (auto simp: map_pair_def split: option.splits)
    show ?thesis
    proof (cases d)
      case None
      then show ?thesis using pr ex nil[of sm] "2.IH"(2)[OF pr refl] assms
        by (auto simp: dest_get_def mergeVars_nil_dest map_val_def mput_same)
    next
      case (Some dm)
      then show ?thesis using pr ex "2.IH"(3)[OF pr refl Some] "2.IH"(4)[OF pr refl Some] assms
        by (auto simp: dest_get_def map_val_def split: option.split)
    qed
  qed
qed simp

text \<open>
  There are two deep merges in the package, the helper \<open>deepMerge\<close> and the merge strategy's \<open>mergeVars\<close>
  under the default policy with \<open>DeepMerge\<close>. They are the same function, panics included.
\<close>

theorem mergeVars_deepMerge:
  assumes "ConflictPolicy cfg = ''last''" "DeepMerge cfg"
  shows "mergeVars cfg (Some dst) src = map_option (\<lambda>m. Inr (Some m)) (deepMerge dst src)"
  using assms by (rule mergeVars_deep)

theorem mergeVars_deepMerge_witness:
  "mergeVars \<lparr>DeepMerge = True, ConflictPolicy = ''last'', VarsOnly = False\<rparr>
     (Some [(''a'', VMap [(''x'', VInt 1)])]) [(''a'', VMap [(''y'', VInt 2)])]
   = Some (Inr (Some [(''a'', VMap [(''x'', VInt 1), (''y'', VInt 2)])]))"
proof -
  have "deepMerge [(''a'', VMap [(''x'', VInt 1)])] [(''a'', VMap [(''y'', VInt 2)])]
      = Some [(''a'', VMap [(''x'', VInt 1), (''y'', VInt 2)])]" by code_simp
  with mergeVars_deepMerge[of "\<lparr>DeepMerge = True, ConflictPolicy = ''last'', VarsOnly = False\<rparr>"] show ?thesis
    by (simp del: mergeVars.simps deepMerge.simps)
qed


subsection \<open>Conflict policies\<close>

text \<open>The value of a variable in the first of some envelopes that has it.\<close>

fun first_var :: "Envelope list \<Rightarrow> string \<Rightarrow> val option" where
  "first_var [] k = None"
| "first_var (e # es) k = (case GetVar e k of Some v \<Rightarrow> Some v | None \<Rightarrow> first_var es k)"

lemma first_var_append: "first_var (es @ fs) k = (case first_var es k of Some v \<Rightarrow> Some v | None \<Rightarrow> first_var fs k)"
  by (induction es) (auto split: option.split)

definition no_conflict :: "Envelope \<Rightarrow> Envelope \<Rightarrow> bool" where
  "no_conflict e f \<longleftrightarrow> (\<forall>k. GetVar e k = None \<or> GetVar f k = None)"

definition has_vars :: "Envelope \<Rightarrow> bool" where
  "has_vars e \<longleftrightarrow> (\<exists>m. Vars e = Some m \<and> gomap_ok m)"

lemma mergeVars_flat:
  assumes "\<not> DeepMerge cfg" "gomap_ok s"
  shows "if ConflictPolicy cfg = ''error'' \<and> (\<exists>k. mget d k \<noteq> None \<and> mget s k \<noteq> None)
    then \<exists>err. mergeVars cfg (Some d) s = Some (Inl err)
    else \<exists>r. mergeVars cfg (Some d) s = Some (Inr (Some r)) \<and>
      map_of r = (if ConflictPolicy cfg = ''first'' then map_of s ++ map_of d else map_of d ++ map_of s)"
  using assms(2)
proof (induction s arbitrary: d)
  case (Cons kv s)
  obtain k v where kv: "kv = (k, v)" by force
  have s: "gomap_ok s" "mget s k = None" using Cons.prems kv by (auto simp: gomap_ok_def map_of_eq_None_iff)
  show ?case
  proof (cases "mget d k")
    case None
    have "mget (mput k v d) j \<noteq> None \<and> mget s j \<noteq> None \<longleftrightarrow> mget d j \<noteq> None \<and> mget ((k, v) # s) j \<noteq> None" for j
      using s(2) None by (auto simp: update_conv')
    with Cons.IH[OF s(1), of "mput k v d"] s(2) None kv show ?thesis
      by (auto simp: dest_get_def update_conv' map_add_def fun_eq_iff split: option.splits if_splits)
  next
    case (Some ex)
    then show ?thesis
      using Cons.IH[OF s(1), of "mput k v d"] Cons.IH[OF s(1), of d] s(2) assms(1) kv
      by (auto simp: dest_get_def update_conv' map_add_def fun_eq_iff split: option.splits if_splits)
  qed
qed simp

text \<open>What one more input does to the result so far, when it is accepted.\<close>

definition absorbs :: "JSONMergeConfig \<Rightarrow> Envelope \<Rightarrow> Envelope \<Rightarrow> Envelope \<Rightarrow> bool" where
  "absorbs cfg res e res' \<longleftrightarrow> Vars res' \<noteq> None \<and>
     (\<forall>k. GetVar res' k = first_var (if ConflictPolicy cfg = ''first'' then [res, e] else [e, res]) k) \<and>
     Input res' = Input res \<and> Trace res' = Trace res \<and>
     Artifacts res' = Artifacts res @ (if VarsOnly cfg then [] else Artifacts e) \<and>
     Messages res' = Messages res @ (if VarsOnly cfg then [] else Messages e) \<and>
     Errors res' = Errors res @ (if VarsOnly cfg then [] else Errors e)"

lemma json_step:
  assumes "\<not> DeepMerge cfg" "Vars res = Some d" "Vars e = Some s" "gomap_ok s"
  shows "ConflictPolicy cfg = ''error'' \<and> \<not> no_conflict res e \<Longrightarrow>
      \<exists>err. json_loop cfg (Some res) (Some e # es) = Some (Inl err)"
    and "\<not> (ConflictPolicy cfg = ''error'' \<and> \<not> no_conflict res e) \<Longrightarrow>
      \<exists>res'. json_loop cfg (Some res) (Some e # es) = json_loop cfg (Some res') es \<and> absorbs cfg res e res'"
proof -
  have c: "no_conflict res e \<longleftrightarrow> \<not> (\<exists>k. mget d k \<noteq> None \<and> mget s k \<noteq> None)"
    using assms by (auto simp: no_conflict_def GetVar_def)
  show "\<exists>err. json_loop cfg (Some res) (Some e # es) = Some (Inl err)"
    if "ConflictPolicy cfg = ''error'' \<and> \<not> no_conflict res e"
    using mergeVars_flat[OF assms(1,4), of d] that assms(2,3) unfolding c by auto
  show "\<exists>res'. json_loop cfg (Some res) (Some e # es) = json_loop cfg (Some res') es \<and> absorbs cfg res e res'"
    if ok: "\<not> (ConflictPolicy cfg = ''error'' \<and> \<not> no_conflict res e)"
  proof -
    have n: "\<not> (ConflictPolicy cfg = ''error'' \<and> (\<exists>k. mget d k \<noteq> None \<and> mget s k \<noteq> None))" using ok c by blast
    obtain r where r: "mergeVars cfg (Some d) s = Some (Inr (Some r))"
        "map_of r = (if ConflictPolicy cfg = ''first'' then map_of s ++ map_of d else map_of d ++ map_of s)"
      using mergeVars_flat[OF assms(1,4), of d, unfolded if_not_P[OF n]] by blast
    let ?res' = "if VarsOnly cfg then res\<lparr>Vars := Some r\<rparr> else append_fields e (res\<lparr>Vars := Some r\<rparr>)"
    have "absorbs cfg res e ?res'"
      using r(2) assms(2,3) by (auto simp: absorbs_def GetVar_def append_fields_def map_add_def split: option.split)
    with r(1) assms(2,3) show ?thesis by (intro exI[of _ ?res']) (simp add: Let_def)
  qed
qed

lemma no_conflict_absorbs:
  assumes a: "absorbs cfg res e res'"
  shows "no_conflict res' f \<longleftrightarrow> no_conflict res f \<and> no_conflict e f"
proof -
  have "GetVar res' k = first_var (if ConflictPolicy cfg = ''first'' then [res, e] else [e, res]) k" for k
    using a by (simp only: absorbs_def)
  then have "GetVar res' k = None \<longleftrightarrow> GetVar res k = None \<and> GetVar e k = None" for k
    by (cases "GetVar res k"; cases "GetVar e k") simp_all
  then show ?thesis unfolding no_conflict_def by metis
qed

definition json_ok :: "JSONMergeConfig \<Rightarrow> Envelope list \<Rightarrow> bool" where
  "json_ok cfg es \<longleftrightarrow> ConflictPolicy cfg \<noteq> ''error'' \<or> sorted_wrt no_conflict es"

definition json_merged :: "JSONMergeConfig \<Rightarrow> Envelope list \<Rightarrow> Envelope \<Rightarrow> bool" where
  "json_merged cfg es r \<longleftrightarrow>
     (\<forall>k. GetVar r k = first_var (if ConflictPolicy cfg = ''first'' then es else rev es) k) \<and>
     Input r = Input (hd es) \<and> Trace r = Trace (hd es) \<and>
     Artifacts r = concat (map Artifacts (if VarsOnly cfg then take 1 es else es)) \<and>
     Messages r = concat (map Messages (if VarsOnly cfg then take 1 es else es)) \<and>
     Errors r = concat (map Errors (if VarsOnly cfg then take 1 es else es))"

lemma json_merged_absorbs:
  assumes "absorbs cfg res e res'" "json_merged cfg (res' # es) r"
  shows "json_merged cfg (res # e # es) r"
proof -
  have "GetVar res' k = first_var (if ConflictPolicy cfg = ''first'' then [res, e] else [e, res]) k" for k
    using assms(1) by (simp only: absorbs_def)
  then have "first_var (if ConflictPolicy cfg = ''first'' then res' # es else rev (res' # es)) k =
      first_var (if ConflictPolicy cfg = ''first'' then res # e # es else rev (res # e # es)) k" for k
    by (simp add: first_var_append split: option.split)
  then have "GetVar r k = first_var (if ConflictPolicy cfg = ''first'' then res # e # es else rev (res # e # es)) k" for k
    using assms(2) by (simp only: json_merged_def)
  with assms show ?thesis unfolding json_merged_def absorbs_def by (cases "VarsOnly cfg") simp_all
qed

lemma json_loop_spec:
  assumes "\<not> DeepMerge cfg" "Vars res \<noteq> None" "list_all has_vars es"
  shows "if json_ok cfg (res # es)
    then \<exists>r. json_loop cfg (Some res) (map Some es) = Some (Inr (Some r)) \<and> json_merged cfg (res # es) r
    else \<exists>err. json_loop cfg (Some res) (map Some es) = Some (Inl err)"
  using assms(2,3)
proof (induction es arbitrary: res)
  case Nil
  then show ?case by (auto simp: json_ok_def json_merged_def split: option.split)
next
  case (Cons e es)
  obtain d s where ds: "Vars res = Some d" "Vars e = Some s" "gomap_ok s" using Cons.prems by (auto simp: has_vars_def)
  show ?case
  proof (cases "ConflictPolicy cfg = ''error'' \<and> \<not> no_conflict res e")
    case True
    with json_step(1)[OF assms(1) ds True, of "map Some es"] show ?thesis by (auto simp: json_ok_def)
  next
    case False
    obtain res' where res': "json_loop cfg (Some res) (map Some (e # es)) = json_loop cfg (Some res') (map Some es)" "absorbs cfg res e res'"
      using json_step(2)[OF assms(1) ds False, of "map Some es"] by auto
    have ok: "json_ok cfg (res' # es) \<longleftrightarrow> json_ok cfg (res # e # es)"
      using False no_conflict_absorbs[OF res'(2)] by (auto simp: json_ok_def)
    have "json_merged cfg (res # e # es) r" if "json_merged cfg (res' # es) r" for r
      using that by (rule json_merged_absorbs[OF res'(2)])
    moreover have "if json_ok cfg (res' # es)
      then \<exists>r. json_loop cfg (Some res') (map Some es) = Some (Inr (Some r)) \<and> json_merged cfg (res' # es) r
      else \<exists>err. json_loop cfg (Some res') (map Some es) = Some (Inl err)"
      by (rule Cons.IH) (use res'(2) Cons.prems in \<open>auto simp: absorbs_def\<close>)
    ultimately show ?thesis unfolding res'(1) ok by (auto split: if_splits)
  qed
qed

text \<open>
  C25: A flat JSON merge resolves conflicts as configured. On inputs that have variables it never panics;
  with the policy \<open>error\<close> it fails exactly when two inputs share a variable; otherwise each variable of the
  result has the value of the first input that has it (policy \<open>first\<close>) or of the last one (any other policy),
  input and trace are those of the first input, and artifacts, messages and errors are those of all inputs in
  order, or of the first one with \<open>VarsOnly\<close>.
\<close>

theorem json_Merge_policies:
  assumes "\<not> DeepMerge cfg" "es \<noteq> []" "list_all has_vars es"
  shows "if ConflictPolicy cfg \<noteq> ''error'' \<or> sorted_wrt no_conflict es
    then \<exists>r. json_Merge cfg (map Some es) = Some (Inr (Some r)) \<and>
      (\<forall>k. GetVar r k = first_var (if ConflictPolicy cfg = ''first'' then es else rev es) k) \<and>
      Input r = Input (hd es) \<and> Trace r = Trace (hd es) \<and>
      Artifacts r = concat (map Artifacts (if VarsOnly cfg then take 1 es else es)) \<and>
      Messages r = concat (map Messages (if VarsOnly cfg then take 1 es else es)) \<and>
      Errors r = concat (map Errors (if VarsOnly cfg then take 1 es else es))
    else \<exists>err. json_Merge cfg (map Some es) = Some (Inl err)"
proof -
  obtain e fs where es: "es = e # fs" using assms(2) by (cases es) auto
  have m: "json_Merge cfg (map Some es) = json_loop cfg (Some e) (map Some fs)" by (simp add: json_Merge_def es)
  have "Vars e \<noteq> None" "list_all has_vars fs" using assms(3) es by (auto simp: has_vars_def)
  from json_loop_spec[OF assms(1) this] show ?thesis
    unfolding json_ok_def json_merged_def m[symmetric] es[symmetric] .
qed

theorem json_Merge_policies_witness:
  "\<exists>r. json_Merge \<lparr>DeepMerge = False, ConflictPolicy = ''first'', VarsOnly = False\<rparr>
      [Some (SetVar ''x'' (VInt 1) NewEnvelope), Some (SetVar ''x'' (VInt 2) NewEnvelope)] = Some (Inr (Some r)) \<and>
    GetVar r ''x'' = Some (VInt 1)"
  using json_Merge_policies[of "\<lparr>DeepMerge = False, ConflictPolicy = ''first'', VarsOnly = False\<rparr>"
      "[SetVar ''x'' (VInt 1) NewEnvelope, SetVar ''x'' (VInt 2) NewEnvelope]"]
  by (auto simp: has_vars_def gomap_ok_def GetVar_def SetVar_def NewEnvelope_def)


subsection \<open>Best score\<close>

lemma best_loop_append: "best_loop cfg b (xs @ ys) = best_loop cfg (best_loop cfg b xs) ys"
  by (induction xs arbitrary: b) auto

lemma better_irrefl: "better cfg x y \<Longrightarrow> \<not> better cfg y x"
  using f64_lt_eq(2) by (auto simp: better_def)

lemma better_trans:
  assumes "better cfg x y" "\<not> better cfg z y" "y \<noteq> NaN" "z \<noteq> NaN"
  shows "better cfg x z"
proof (cases "better cfg y z")
  case True
  then show ?thesis using assms(1) f64_lt_trans by (auto simp: better_def split: if_splits)
next
  case False
  then have "f64_eq y z" using assms(2-4) f64_trichotomy[of y z] f64_trichotomy[of z y] by (auto simp: better_def split: if_splits elim: f64_eq.elims)
  then have "y = z" by (cases y) auto
  then show ?thesis using assms(1) by simp
qed

definition leads :: "BestScoreMergeConfig \<Rightarrow> Envelope option list \<Rightarrow> nat \<Rightarrow> f64 \<Rightarrow> bool" where
  "leads cfg inputs j s \<longleftrightarrow> (\<forall>i < length inputs. \<forall>e' s'. score_of (ScoreVar cfg) (inputs ! i) = Some (e', s') \<longrightarrow>
     \<not> better cfg s' s \<and> (i < j \<longrightarrow> better cfg s s'))"

definition real_scores :: "BestScoreMergeConfig \<Rightarrow> Envelope option list \<Rightarrow> bool" where
  "real_scores cfg inputs \<longleftrightarrow> (\<forall>i \<in> set inputs. \<forall>e s. score_of (ScoreVar cfg) i = Some (e, s) \<longrightarrow> s \<noteq> NaN)"

lemma leads_snoc:
  "leads cfg (xs @ [x]) j s \<longleftrightarrow> leads cfg xs j s \<and>
    (\<forall>e' s'. score_of (ScoreVar cfg) x = Some (e', s') \<longrightarrow> \<not> better cfg s' s \<and> (length xs < j \<longrightarrow> better cfg s s'))"
  by (simp add: leads_def nth_append All_less_Suc conj_commute)

lemma best_loop_leads:
  "real_scores cfg xs \<Longrightarrow>
   (case best_loop cfg None xs of
      None \<Rightarrow> \<forall>x \<in> set xs. score_of (ScoreVar cfg) x = None
    | Some (e, s) \<Rightarrow> \<exists>j < length xs. score_of (ScoreVar cfg) (xs ! j) = Some (e, s) \<and> leads cfg xs j s)"
proof (induction xs rule: rev_induct)
  case (snoc x xs)
  have IH: "case best_loop cfg None xs of
      None \<Rightarrow> \<forall>x \<in> set xs. score_of (ScoreVar cfg) x = None
    | Some (e, s) \<Rightarrow> \<exists>j < length xs. score_of (ScoreVar cfg) (xs ! j) = Some (e, s) \<and> leads cfg xs j s"
    using snoc by (simp add: real_scores_def)
  show ?case
  proof (cases "score_of (ScoreVar cfg) x")
    case None
    then show ?thesis using IH by (auto simp: best_loop_append leads_snoc nth_append split: option.splits)
  next
    case (Some p)
    obtain e' s' where x: "score_of (ScoreVar cfg) x = Some (e', s')" using Some by (cases p) auto
    show ?thesis
    proof (cases "best_loop cfg None xs")
      case None
      then have "leads cfg xs (length xs) s'" using IH by (auto simp: leads_def)
      then show ?thesis using None x better_irrefl[of cfg s' s']
        by (auto simp: best_loop_append leads_snoc intro!: exI[of _ "length xs"])
    next
      case (Some q)
      obtain e s where q: "best_loop cfg None xs = Some (e, s)" using Some by (cases q) auto
      then obtain j where j: "j < length xs" "score_of (ScoreVar cfg) (xs ! j) = Some (e, s)" "leads cfg xs j s"
        using IH by auto
      have "xs ! j \<in> set (xs @ [x])" using j(1) by simp
      then have nan: "s \<noteq> NaN" using snoc.prems j(2) unfolding real_scores_def by blast
      show ?thesis
      proof (cases "better cfg s' s")
        case True
        have "better cfg s' t" if "i < length xs" "score_of (ScoreVar cfg) (xs ! i) = Some (f, t)" for i f t
        proof (rule better_trans[OF True _ nan])
          show "\<not> better cfg t s" using j(3) that unfolding leads_def by blast
          have "xs ! i \<in> set (xs @ [x])" using that(1) by simp
          then show "t \<noteq> NaN" using snoc.prems that(2) unfolding real_scores_def by blast
        qed
        then have "leads cfg xs (length xs) s'" using better_irrefl by (auto simp: leads_def)
        then show ?thesis using True q x better_irrefl[of cfg s' s']
          by (auto simp: best_loop_append leads_snoc intro!: exI[of _ "length xs"])
      next
        case False
        then show ?thesis using q x j by (auto simp: best_loop_append leads_snoc nth_append intro!: exI[of _ j])
      qed
    qed
  qed
qed simp

text \<open>
  The best-score strategy returns a copy of a best input. If at least one input has a numeric score and
  none is NaN, the result is an input whose score no other input beats, the first such one.
\<close>

theorem best_Merge_optimal:
  assumes "real_scores cfg inputs" "\<exists>i \<in> set inputs. score_of (ScoreVar cfg) i \<noteq> None"
  shows "\<exists>j e s. j < length inputs \<and> score_of (ScoreVar cfg) (inputs ! j) = Some (e, s) \<and>
    best_Merge cfg inputs = Some (Inr (Clone (Some e))) \<and>
    (\<forall>i e' s'. i < length inputs \<and> score_of (ScoreVar cfg) (inputs ! i) = Some (e', s') \<longrightarrow>
       \<not> better cfg s' s \<and> (i < j \<longrightarrow> better cfg s s'))"
proof -
  obtain e s where b: "best_loop cfg None inputs = Some (e, s)"
    using best_loop_leads[OF assms(1)] assms(2) by (auto split: option.splits)
  then obtain j where "j < length inputs" "score_of (ScoreVar cfg) (inputs ! j) = Some (e, s)" "leads cfg inputs j s"
    using best_loop_leads[OF assms(1)] by auto
  moreover have "best_Merge cfg inputs = Some (Inr (Clone (Some e)))" using b assms(2) by (auto simp: best_Merge_def)
  ultimately show ?thesis unfolding leads_def by blast
qed

theorem best_Merge_optimal_witness:
  "best_Merge \<lparr>ScoreVar = ''s'', HigherIsBetter = True\<rparr>
     [Some (SetVar ''s'' (VF64 (F64 1)) NewEnvelope), None, Some (SetVar ''s'' (VF64 (F64 2)) NewEnvelope)]
   = Some (Inr (Clone (Some (SetVar ''s'' (VF64 (F64 2)) NewEnvelope))))"
proof -
  let ?cfg = "\<lparr>ScoreVar = ''s'', HigherIsBetter = True\<rparr>"
  let ?in = "[Some (SetVar ''s'' (VF64 (F64 1)) NewEnvelope), None, Some (SetVar ''s'' (VF64 (F64 2)) NewEnvelope)]"
  have s: "score_of ''s'' (Some (SetVar ''s'' (VF64 (F64 x)) NewEnvelope)) = Some (SetVar ''s'' (VF64 (F64 x)) NewEnvelope, F64 x)" for x
    by (simp add: score_of_def GetVar_def SetVar_def NewEnvelope_def h_toFloat64_def)
  have n: "score_of ''s'' None = None" by (simp add: score_of_def)
  have "real_scores ?cfg ?in" "\<exists>i \<in> set ?in. score_of (ScoreVar ?cfg) i \<noteq> None" by (simp_all add: real_scores_def s n)
  from best_Merge_optimal[OF this] obtain j e t where j: "j < length ?in" "score_of (ScoreVar ?cfg) (?in ! j) = Some (e, t)"
      "best_Merge ?cfg ?in = Some (Inr (Clone (Some e)))"
      "\<forall>i e' s'. i < length ?in \<and> score_of (ScoreVar ?cfg) (?in ! i) = Some (e', s') \<longrightarrow> \<not> better ?cfg s' t \<and> (i < j \<longrightarrow> better ?cfg t s')"
    by blast
  have "\<not> better ?cfg (F64 2) t" using j(4)[rule_format, of 2] s by simp
  then have "j = 2" using j(1,2) s n by (auto simp: less_Suc_eq numeral_3_eq_3 better_def)
  then show ?thesis using j(2,3) s by auto
qed


subsection \<open>Panics\<close>

fun builtin :: "MergeStrategy \<Rightarrow> bool" where
  "builtin (FuncMergeStrategy _ f) = (f = None)"
| "builtin (AllMergeStrategy inner _ _) = builtin inner"
| "builtin _ = True"

definition tidy_env :: "Envelope \<Rightarrow> bool" where
  "tidy_env e \<longleftrightarrow> (\<exists>m. Vars e = Some m \<and> tidy (VMap m))"

lemma mergeVars_tidy:
  assumes "tidy (VMap d)" "tidy (VMap s)"
  shows "(\<exists>err. mergeVars cfg (Some d) s = Some (Inl err)) \<or> (\<exists>r. mergeVars cfg (Some d) s = Some (Inr (Some r)) \<and> tidy (VMap r))"
proof (cases "ConflictPolicy cfg = ''last'' \<and> DeepMerge cfg")
  case True
  then show ?thesis using deepMerge_spec[OF assms] by (auto simp: mergeVars_deep)
next
  case False
  show ?thesis using assms
  proof (induction s arbitrary: d)
    case (Cons kv s)
    obtain k v where kv: "kv = (k, v)" by force
    then have t: "tidy v" "tidy (VMap s)" using Cons.prems(2) by (auto simp: tidy_Cons)
    show ?case using Cons.IH[OF Cons.prems(1) t(2)] Cons.IH[OF tidy_mput[OF Cons.prems(1) t(1), of k] t(2)] False kv
      by (auto simp: dest_get_def split: option.split)
  qed simp
qed

lemma json_loop_returns:
  assumes "tidy_env res" "list_all tidy_env es"
  shows "\<exists>r. json_loop cfg (Some res) (map Some es) = Some r \<and> r \<noteq> Inr None"
  using assms
proof (induction es arbitrary: res)
  case (Cons e es)
  obtain d s where ds: "Vars res = Some d" "Vars e = Some s" "tidy (VMap d)" "tidy (VMap s)"
    using Cons.prems by (auto simp: tidy_env_def)
  show ?case using mergeVars_tidy[OF ds(3,4), of cfg]
  proof
    assume "\<exists>r. mergeVars cfg (Some d) s = Some (Inr (Some r)) \<and> tidy (VMap r)"
    then obtain r where r: "mergeVars cfg (Some d) s = Some (Inr (Some r))" "tidy (VMap r)" by blast
    have "tidy_env (if VarsOnly cfg then res\<lparr>Vars := Some r\<rparr> else append_fields e (res\<lparr>Vars := Some r\<rparr>))"
      using r(2) by (simp add: tidy_env_def append_fields_def)
    from Cons.IH[OF this] Cons.prems(2) r(1) ds(1,2) show ?thesis by (cases "VarsOnly cfg") (simp_all add: Let_def)
  qed (use ds in auto)
qed simp

lemma Merge_returns:
  assumes "builtin s" "list_all tidy_env es"
  shows "\<exists>r. Merge fmt_other s (map Some es) = Some r \<and> r \<noteq> Inr None"
  using assms(1)
proof (induction s)
  case (JSONMergeStrategy cfg)
  then show ?case using json_loop_returns[of "hd es" "tl es" cfg] assms(2) by (cases es) (auto simp: json_Merge_def)
next
  case (BestScoreMergeStrategy cfg)
  then show ?case
    by (auto simp: best_Merge_def find_Some_iff split: option.split)
next
  case (AllMergeStrategy s key vars)
  then obtain r where "Merge fmt_other s (map Some es) = Some r" "r \<noteq> Inr None" by auto
  then show ?case by (auto split: sum.split option.split)
qed (cases es; simp add: concat_Merge_def; fail)+

text \<open>
  Merging does not panic on envelopes with variables. A node made by \<open>NewMergeNode\<close> with a built-in
  strategy returns an envelope or an error on inputs whose variables are maps without nil maps inside; only a
  strategy's error makes it fail.
\<close>

theorem MergeInputs_returns:
  assumes "list_all tidy_env es" "\<forall>s. mn_Strategy cfg = Some s \<longrightarrow> builtin s"
  shows "(\<exists>e. MergeInputs fmt_other (NewMergeNode i cfg) (map Some es) = Some (Inr (Some e))) \<or>
    (\<exists>s err. mn_Strategy (mn_config (NewMergeNode i cfg)) = Some s \<and> Merge fmt_other s (map Some es) = Some (Inl err) \<and>
       MergeInputs fmt_other (NewMergeNode i cfg) (map Some es) = Some (Inl (StrategyFailed (ms_Name s) err)))"
proof -
  obtain s where s: "mn_Strategy (mn_config (NewMergeNode i cfg)) = Some s" "builtin s"
    using assms(2) by (cases "mn_Strategy cfg") (auto simp: NewMergeNode_def NewJSONMergeStrategy_def)
  obtain r where r: "Merge fmt_other s (map Some es) = Some r" "r \<noteq> Inr None" using Merge_returns[OF s(2) assms(1)] by blast
  consider "es = []" | e where "es = [e]" | "length es \<noteq> 0" "length es \<noteq> 1" by (cases es; cases "tl es") auto
  then show ?thesis
  proof cases
    case 3
    then show ?thesis using s(1) r by (cases r) (auto simp: MergeInputs_def)
  qed (simp_all add: MergeInputs_def)
qed

theorem MergeInputs_returns_witness:
  "MergeInputs (\<lambda>_. []) (NewMergeNode ''m'' \<lparr>mn_Strategy = None, mn_OutputKey = [], mn_ExpectedInputs = 0\<rparr>)
     [Some (SetVar ''x'' (VInt 1) NewEnvelope), Some NewEnvelope] = Some (Inr (Some (SetVar ''x'' (VInt 1) NewEnvelope)))"
proof -
  let ?cfg = "\<lparr>mn_Strategy = None, mn_OutputKey = [], mn_ExpectedInputs = 0\<rparr>"
  have "list_all tidy_env [SetVar ''x'' (VInt 1) NewEnvelope, NewEnvelope]"
    by (simp add: tidy_env_def SetVar_def NewEnvelope_def tidy_VMap)
  from MergeInputs_returns[OF this, of ?cfg "\<lambda>_. []" "''m''"] show ?thesis
    by (auto simp: MergeInputs_def NewMergeNode_def NewJSONMergeStrategy_def json_Merge_def SetVar_def NewEnvelope_def append_fields_def)
qed

text \<open>
  A nil variable map in the first input makes the default merge panic. The strategy checks the later
  inputs for nil envelopes and nil maps, but not the first: with a first input whose variables are nil and a
  second one with a variable, \<open>MergeInputs\<close> of a default merge node panics.
\<close>

theorem merge_nil_vars_panics:
  "MergeInputs fmt_other (NewMergeNode i \<lparr>mn_Strategy = None, mn_OutputKey = [], mn_ExpectedInputs = 0\<rparr>)
     [Some (NewEnvelope\<lparr>Vars := None\<rparr>), Some (SetVar k v NewEnvelope)] = None \<and>
   MergeInputs fmt_other (NewMergeNode i \<lparr>mn_Strategy = None, mn_OutputKey = [], mn_ExpectedInputs = 0\<rparr>)
     [None, Some (SetVar k v NewEnvelope)] = None"
  by (simp add: MergeInputs_def NewMergeNode_def NewJSONMergeStrategy_def json_Merge_def SetVar_def NewEnvelope_def dest_get_def Clone_def)

end
