(* ===== verification/Gate_Router.thy ===== *)
theory Gate_Router
  imports Node_Helpers Runtime_Common
begin

section \<open>The gate node and the rule router\<close>

text \<open>
  \<open>nodes/gate.go\<close> and the rule-based router of \<open>nodes/router.go\<close>, and what they make the runtime do next.
  A gate's condition function gets a pointer to the envelope: its result comes with the envelope it leaves.
  \<open>fmt_other\<close> is the \<open>%v\<close> text of the values \<open>Node_Helpers.fmt_v\<close> leaves open.
\<close>


subsection \<open>Gates\<close>

type_synonym GateAction = string

definition GateActionBlock :: GateAction where "GateActionBlock = ''block''"
definition GateActionSkip :: GateAction where "GateActionSkip = ''skip''"
definition GateActionRedirect :: GateAction where "GateActionRedirect = ''redirect''"

record GateNodeConfig =
  gc_Condition :: "(Envelope \<Rightarrow> (string + bool) \<times> Envelope) option"
  gc_ConditionVar :: string
  gc_OnFail :: GateAction
  gc_FailMessage :: string
  gc_RedirectNodeID :: string
  gc_ResultVar :: string

record GateNode =
  gn_id :: string
  gn_config :: GateNodeConfig

datatype gate_error =
    GateConditionError string string | GateFailed string string | GateNoRedirect string | GateUnknownAction string GateAction

definition NewGateNode :: "string \<Rightarrow> GateNodeConfig \<Rightarrow> GateNode" where
  "NewGateNode nid cfg =
     (let cfg1 = (if gc_OnFail cfg = [] then cfg\<lparr>gc_OnFail := GateActionBlock\<rparr> else cfg);
          cfg2 = (if gc_FailMessage cfg1 = [] then cfg1\<lparr>gc_FailMessage := ''gate condition failed''\<rparr> else cfg1)
      in \<lparr>gn_id = nid, gn_config = cfg2\<rparr>)"

definition GateResult :: "bool \<Rightarrow> string \<Rightarrow> val" where
  "GateResult passed action = VStruct ''GateResult'' [(''passed'', VBool passed), (''action'', VStr action)]"

definition gate_evaluateCondition :: "GateNode \<Rightarrow> Envelope \<Rightarrow> (string + bool) \<times> Envelope" where
  "gate_evaluateCondition n env = (case gc_Condition (gn_config n) of
       Some f \<Rightarrow> f env
     | None \<Rightarrow>
         (if gc_ConditionVar (gn_config n) \<noteq> [] then
            (case GetVar env (gc_ConditionVar (gn_config n)) of
               None \<Rightarrow> (Inr False, env)
             | Some v \<Rightarrow> (Inr (h_isTruthy v), env))
          else (Inr True, env)))"

text \<open>The result, and the envelope passed in as the call leaves it.\<close>

definition gate_Run :: "GateNode \<Rightarrow> Envelope \<Rightarrow> (gate_error + Envelope) \<times> Envelope" where
  "gate_Run n env = (let cfg = gn_config n in
     case gate_evaluateCondition n env of
       (Inl err, env1) \<Rightarrow> (Inl (GateConditionError (gn_id n) err), env1)
     | (Inr passed, env1) \<Rightarrow>
         let result = the (Clone (Some env1));
             result1 = (if gc_ResultVar cfg \<noteq> [] then SetVar (gc_ResultVar cfg) (GateResult passed (gc_OnFail cfg)) result else result)
         in (if passed then Inr result1
             else if gc_OnFail cfg = GateActionBlock then Inl (GateFailed (gn_id n) (gc_FailMessage cfg))
             else if gc_OnFail cfg = GateActionSkip then Inr result1
             else if gc_OnFail cfg = GateActionRedirect then
               (if gc_RedirectNodeID cfg = [] then Inl (GateNoRedirect (gn_id n))
                else Inr (SetVar gate_redirect_key (VStr (gc_RedirectNodeID cfg)) result1))
             else Inl (GateUnknownAction (gn_id n) (gc_OnFail cfg)), env1))"

definition gate_node :: "(gate_error \<Rightarrow> string) \<Rightarrow> GateNode \<Rightarrow> Node" where
  "gate_node err_text n = \<lparr>n_ID = gn_id n, n_Kind = NodeKindGate, n_isRouter = False, n_merge = None,
     n_Run = (\<lambda>_ env. case gate_Run n env of (r, env1) \<Rightarrow>
        \<lparr>ro_env = env1, ro_result = (case r of Inl err \<Rightarrow> Inl (err_text err) | Inr e \<Rightarrow> Inr (Some e)), ro_events = []\<rparr>)\<rparr>"


subsection \<open>Rule routers\<close>

type_synonym ConditionOp = string

record RouteCondition =
  rc_VarPath :: string
  rc_Op :: ConditionOp
  rc_Value :: val
  rc_Values :: "val list"

record RouteRule =
  rule_Conditions :: "RouteCondition list"
  rule_Target :: string
  rule_Reason :: string

record RuleRouterConfig =
  rr_Rules :: "RouteRule list"
  rr_DefaultTarget :: string
  rr_DecisionKey :: string
  rr_AllowMultiple :: bool

record RuleRouter =
  rr_id :: string
  rr_config :: RuleRouterConfig

definition NewRuleRouter :: "string \<Rightarrow> RuleRouterConfig \<Rightarrow> RuleRouter" where
  "NewRuleRouter nid cfg =
     \<lparr>rr_id = nid, rr_config = (if rr_DecisionKey cfg = [] then cfg\<lparr>rr_DecisionKey := nid @ ''_decision''\<rparr> else cfg)\<rparr>"

definition rr_evaluateCondition :: "(val \<Rightarrow> string) \<Rightarrow> Envelope \<Rightarrow> RouteCondition \<Rightarrow> bool" where
  "rr_evaluateCondition fmt_other env cond =
     (let found = (case GetVarNested env (rc_VarPath cond) of Some v \<Rightarrow> Some v | None \<Rightarrow> GetVar env (rc_VarPath cond));
          op = rc_Op cond;
          cmp = (\<lambda>v. compare_values fmt_other v (rc_Value cond))
      in if op = ''exists'' then found \<noteq> None
         else if op = ''not_exists'' then found = None
         else if op = ''eq'' then (case found of None \<Rightarrow> False | Some v \<Rightarrow> cmp v = 0)
         else if op = ''neq'' then (case found of None \<Rightarrow> True | Some v \<Rightarrow> cmp v \<noteq> 0)
         else if op = ''gt'' then (case found of None \<Rightarrow> False | Some v \<Rightarrow> cmp v > 0)
         else if op = ''lt'' then (case found of None \<Rightarrow> False | Some v \<Rightarrow> cmp v < 0)
         else if op = ''contains'' then (case found of None \<Rightarrow> False | Some v \<Rightarrow> containsValue fmt_other v (rc_Value cond))
         else if op = ''in'' then (case found of None \<Rightarrow> False | Some v \<Rightarrow> inValues fmt_other v (rc_Values cond))
         else False)"

fun evaluateRule :: "(val \<Rightarrow> string) \<Rightarrow> Envelope \<Rightarrow> RouteCondition list \<Rightarrow> bool" where
  "evaluateRule fmt_other env [] = True"
| "evaluateRule fmt_other env (c # cs) =
     (if \<not> rr_evaluateCondition fmt_other env c then False else evaluateRule fmt_other env cs)"

fun rr_loop :: "(val \<Rightarrow> string) \<Rightarrow> Envelope \<Rightarrow> bool \<Rightarrow> RouteRule list \<Rightarrow> (string \<times> string) list" where
  "rr_loop fmt_other env multiple [] = []"
| "rr_loop fmt_other env multiple (r # rs) =
     (if evaluateRule fmt_other env (rule_Conditions r) then
        (rule_Target r, rule_Reason r) # (if \<not> multiple then [] else rr_loop fmt_other env multiple rs)
      else rr_loop fmt_other env multiple rs)"

definition rr_Route :: "(val \<Rightarrow> string) \<Rightarrow> RuleRouter \<Rightarrow> Envelope \<Rightarrow> route_decision" where
  "rr_Route fmt_other r env =
     (let ms = rr_loop fmt_other env (rr_AllowMultiple (rr_config r)) (rr_Rules (rr_config r));
          ms' = (if length ms = 0 \<and> rr_DefaultTarget (rr_config r) \<noteq> []
                 then [(rr_DefaultTarget (rr_config r), ''default route'')] else ms)
      in RouteDecision (map fst ms') (join_with ''; '' (map snd ms')) None None)"

definition rr_Run :: "(val \<Rightarrow> string) \<Rightarrow> RuleRouter \<Rightarrow> Envelope \<Rightarrow> Envelope" where
  "rr_Run fmt_other r env = SetVar (rr_DecisionKey (rr_config r)) (VDecision (rr_Route fmt_other r env)) env"

definition rule_router_node :: "(val \<Rightarrow> string) \<Rightarrow> RuleRouter \<Rightarrow> Node" where
  "rule_router_node fmt_other r = \<lparr>n_ID = rr_id r, n_Kind = NodeKindRouter, n_isRouter = True, n_merge = None,
     n_Run = (\<lambda>_ env. let env' = rr_Run fmt_other r env in \<lparr>ro_env = env', ro_result = Inr (Some env'), ro_events = []\<rparr>)\<rparr>"


subsection \<open>What the runtime does after a gate\<close>

lemma redirect_chosen:
  "gate_redirect succs (SetVar gate_redirect_key (VStr t) e) = (if t \<noteq> [] \<and> t \<in> set succs then Some t else None)"
  by (auto simp: gate_redirect_def GetVar_def SetVar_def list_ex_iff)

text \<open>What the next nodes are after a gate that returned, and the hint that is left.\<close>

definition gate_next :: "GateNode \<Rightarrow> bool \<Rightarrow> string list \<Rightarrow> string list \<times> val option" where
  "gate_next n passed succs = (let t = gc_RedirectNodeID (gn_config n) in
     if passed \<or> gc_OnFail (gn_config n) = GateActionSkip then (succs, None)
     else if t \<in> set succs then ([t], Some VNil) else (succs, Some (VStr t)))"

definition gate_fails :: "GateNode \<Rightarrow> gate_error \<Rightarrow> bool" where
  "gate_fails n err \<longleftrightarrow> (let cfg = gn_config n in
     gc_OnFail cfg = GateActionBlock \<and> err = GateFailed (gn_id n) (gc_FailMessage cfg) \<or>
     gc_OnFail cfg = GateActionRedirect \<and> gc_RedirectNodeID cfg = [] \<and> err = GateNoRedirect (gn_id n) \<or>
     gc_OnFail cfg \<notin> {GateActionBlock, GateActionSkip, GateActionRedirect} \<and> err = GateUnknownAction (gn_id n) (gc_OnFail cfg))"

lemmas gate_action_defs = GateActionBlock_def GateActionSkip_def GateActionRedirect_def

text \<open>
  C36: A gate lets the run through, blocks it or redirects it. Take a gate whose result variable is not the
  redirect key, and an envelope that holds no pending redirect after the condition was evaluated. If the
  condition fails with an error, the node fails with that error. If the condition holds, the node succeeds.
  If it does not hold, the node fails exactly when the action is \<open>block\<close>, unknown, or \<open>redirect\<close> without a
  target, with the error of that case. After a success the runtime goes on to all successors when the
  condition holds or the action is \<open>skip\<close>, and to the target alone, with the hint cleared, when the action
  is \<open>redirect\<close> and the target is a successor. A target that is no successor is ignored: the runtime goes
  on to all successors and the hint stays in the envelope.
\<close>

theorem gate_successors:
  assumes "gate_evaluateCondition n env = (outcome, env1)" "GetVar env1 gate_redirect_key = None"
    "gc_ResultVar (gn_config n) \<noteq> gate_redirect_key"
  shows "case outcome of
      Inl err \<Rightarrow> fst (gate_Run n env) = Inl (GateConditionError (gn_id n) err)
    | Inr passed \<Rightarrow> (case fst (gate_Run n env) of
        Inl err \<Rightarrow> \<not> passed \<and> gate_fails n err
      | Inr e \<Rightarrow> (passed \<or> (\<forall>err. \<not> gate_fails n err)) \<and>
          (\<exists>e' em'. determineSuccessors emitf g (gate_node err_text n) (Some e) em =
            Some (fst (gate_next n passed (Successors g (gn_id n))), Some e', em') \<and>
          GetVar e' gate_redirect_key = snd (gate_next n passed (Successors g (gn_id n)))))"
proof (cases outcome)
  case (Inl err)
  with assms(1) show ?thesis by (simp add: gate_Run_def)
next
  case (Inr passed)
  define e1 where "e1 = (if gc_ResultVar (gn_config n) \<noteq> []
    then SetVar (gc_ResultVar (gn_config n)) (GateResult passed (gc_OnFail (gn_config n))) env1 else env1)"
  have none: "GetVar e1 gate_redirect_key = None" using assms(2,3) by (simp add: e1_def)
  have run: "fst (gate_Run n env) =
      (if passed then Inr e1
       else if gc_OnFail (gn_config n) = GateActionBlock then Inl (GateFailed (gn_id n) (gc_FailMessage (gn_config n)))
       else if gc_OnFail (gn_config n) = GateActionSkip then Inr e1
       else if gc_OnFail (gn_config n) = GateActionRedirect then
         (if gc_RedirectNodeID (gn_config n) = [] then Inl (GateNoRedirect (gn_id n))
          else Inr (SetVar gate_redirect_key (VStr (gc_RedirectNodeID (gn_config n))) e1))
       else Inl (GateUnknownAction (gn_id n) (gc_OnFail (gn_config n))))"
    using assms(1) Inr by (simp add: gate_Run_def Let_def e1_def)
  have all: "determineSuccessors emitf g (gate_node err_text n) (Some e1) em = Some (Successors g (gn_id n), Some e1, em)"
    using none by (simp add: determineSuccessors_def gate_redirect_def gate_node_def Let_def)
  let ?t = "gc_RedirectNodeID (gn_config n)"
  have redirect: "?t \<noteq> [] \<Longrightarrow> \<exists>e' em'. determineSuccessors emitf g (gate_node err_text n) (Some (SetVar gate_redirect_key (VStr ?t) e1)) em =
      Some (if ?t \<in> set (Successors g (gn_id n)) then [?t] else Successors g (gn_id n), Some e', em') \<and>
      GetVar e' gate_redirect_key = Some (if ?t \<in> set (Successors g (gn_id n)) then VNil else VStr ?t)"
    by (cases "Successors g (gn_id n) = []") (simp_all add: determineSuccessors_def redirect_chosen gate_node_def Let_def)
  show ?thesis using all none redirect unfolding Inr run
    by (cases "?t \<in> set (Successors g (gn_id n))")
      (simp_all add: gate_next_def gate_fails_def Let_def gate_action_defs split: if_splits)
qed

definition demo_gate :: GateNode where
  "demo_gate = NewGateNode ''g'' \<lparr>gc_Condition = None, gc_ConditionVar = ''ok'', gc_OnFail = GateActionRedirect,
     gc_FailMessage = [], gc_RedirectNodeID = ''b'', gc_ResultVar = []\<rparr>"

definition demo_gate_graph :: BasicGraph where
  "demo_gate_graph = (NewGraph ''demo'')\<lparr>g_successors := [(''g'', [''a'', ''b''])]\<rparr>"

theorem gate_successors_witness:
  "\<forall>em. \<exists>e e' em'. fst (gate_Run demo_gate NewEnvelope) = Inr e \<and>
    determineSuccessors (\<lambda>_ em. em) demo_gate_graph (gate_node (\<lambda>_. []) demo_gate) (Some e) em = Some ([''b''], Some e', em')"
proof
  fix em
  have "gate_evaluateCondition demo_gate NewEnvelope = (Inr False, NewEnvelope)" "GetVar NewEnvelope gate_redirect_key = None"
    "gc_ResultVar (gn_config demo_gate) \<noteq> gate_redirect_key"
    by code_simp+
  from gate_successors[OF this, of "\<lambda>_ em. em" demo_gate_graph "\<lambda>_. []" em]
  have s: "case fst (gate_Run demo_gate NewEnvelope) of Inl err \<Rightarrow> gate_fails demo_gate err
    | Inr e \<Rightarrow> \<exists>e' em'. determineSuccessors (\<lambda>_ em. em) demo_gate_graph (gate_node (\<lambda>_. []) demo_gate) (Some e) em =
          Some (fst (gate_next demo_gate False (Successors demo_gate_graph (gn_id demo_gate))), Some e', em')"
    by (auto split: sum.splits)
  have "fst (gate_next demo_gate False (Successors demo_gate_graph (gn_id demo_gate))) = [''b'']"
    "fst (gate_Run demo_gate NewEnvelope) = Inr (SetVar gate_redirect_key (VStr ''b'') NewEnvelope)" by code_simp+
  with s show "\<exists>e e' em'. fst (gate_Run demo_gate NewEnvelope) = Inr e \<and>
    determineSuccessors (\<lambda>_ em. em) demo_gate_graph (gate_node (\<lambda>_. []) demo_gate) (Some e) em = Some ([''b''], Some e', em')" by auto
qed

text \<open>A hint that was not followed is obeyed after any later node that has the target as a successor.\<close>

theorem stale_redirect:
  assumes "GetVar e gate_redirect_key = Some (VStr t)" "t \<noteq> []" "t \<in> set (Successors g (n_ID node))"
  shows "\<exists>e' em'. determineSuccessors emitf g node (Some e) em = Some ([t], Some e', em')"
  using assms by (auto simp: determineSuccessors_def gate_redirect_def list_ex_iff Let_def)


subsection \<open>What the runtime does after a router\<close>

text \<open>The rules that apply: all whose conditions hold, or the first of them.\<close>

definition applicable :: "(val \<Rightarrow> string) \<Rightarrow> RuleRouterConfig \<Rightarrow> Envelope \<Rightarrow> RouteRule list" where
  "applicable fmt_other cfg env =
     (let hits = filter (\<lambda>r. list_all (rr_evaluateCondition fmt_other env) (rule_Conditions r)) (rr_Rules cfg)
      in if rr_AllowMultiple cfg then hits else take 1 hits)"

definition route_targets :: "(val \<Rightarrow> string) \<Rightarrow> RuleRouterConfig \<Rightarrow> Envelope \<Rightarrow> string list" where
  "route_targets fmt_other cfg env =
     (let ts = map rule_Target (applicable fmt_other cfg env)
      in if ts = [] \<and> rr_DefaultTarget cfg \<noteq> [] then [rr_DefaultTarget cfg] else ts)"

lemma evaluateRule_all: "evaluateRule fmt_other env cs \<longleftrightarrow> list_all (rr_evaluateCondition fmt_other env) cs"
  by (induction cs) auto

lemma rr_loop_applicable:
  "map fst (rr_loop fmt_other env (rr_AllowMultiple cfg) rs) = map rule_Target (applicable fmt_other (cfg\<lparr>rr_Rules := rs\<rparr>) env)"
  by (induction rs) (auto simp: applicable_def evaluateRule_all Let_def)

lemma rr_Route_targets: "rd_Targets (rr_Route fmt_other r env) = route_targets fmt_other (rr_config r) env"
  using rr_loop_applicable[of fmt_other env "rr_config r" "rr_Rules (rr_config r)"]
  by (auto simp: rr_Route_def route_targets_def Let_def)

lemma decision_key_not_redirect: "decision_key i \<noteq> gate_redirect_key"
proof
  assume "decision_key i = gate_redirect_key"
  then have "last (decision_key i) = last gate_redirect_key" by simp
  then show False by (simp add: decision_key_def gate_redirect_key_def)
qed

text \<open>
  C37: A rule router runs the successors its rules name. With the default decision key, on an envelope without a
  pending redirect, the nodes that run next are the router's successors in the graph, in graph order, that are
  the target of the first rule whose conditions all hold (of every such rule, when multiple matches are allowed),
  or the default target when no rule matches and one is set.
\<close>

theorem rule_router_successors:
  assumes "rr_DecisionKey cfg = []" "GetVar env gate_redirect_key = None"
  shows "\<exists>em'. determineSuccessors emitf g (rule_router_node fmt_other (NewRuleRouter i cfg))
      (Some (rr_Run fmt_other (NewRuleRouter i cfg) env)) em =
    Some (filter (\<lambda>s. s \<in> set (route_targets fmt_other cfg env)) (Successors g i),
      Some (rr_Run fmt_other (NewRuleRouter i cfg) env), em')"
proof -
  let ?r = "NewRuleRouter i cfg" and ?e = "rr_Run fmt_other (NewRuleRouter i cfg) env"
  have e: "?e = SetVar (decision_key i) (VDecision (rr_Route fmt_other ?r env)) env"
    using assms(1) by (simp add: rr_Run_def NewRuleRouter_def decision_key_def)
  have t: "rd_Targets (rr_Route fmt_other ?r env) = route_targets fmt_other cfg env"
    using assms(1) by (simp add: rr_Route_targets) (simp add: NewRuleRouter_def route_targets_def applicable_def)
  have "GetVar ?e gate_redirect_key = None" "GetVar ?e (decision_key i) = Some (VDecision (rr_Route fmt_other ?r env))"
    using assms(2) decision_key_not_redirect[of i] by (simp_all add: e)
  then show ?thesis
    by (simp add: determineSuccessors_def gate_redirect_def rule_router_node_def NewRuleRouter_def[of i cfg] t[unfolded NewRuleRouter_def] Let_def)
qed

definition demo_router :: RuleRouterConfig where
  "demo_router = \<lparr>rr_Rules = [\<lparr>rule_Conditions = [\<lparr>rc_VarPath = ''user.role'', rc_Op = ''eq'', rc_Value = VStr ''admin'', rc_Values = []\<rparr>],
     rule_Target = ''b'', rule_Reason = ''admin''\<rparr>], rr_DefaultTarget = ''a'', rr_DecisionKey = [], rr_AllowMultiple = False\<rparr>"

definition demo_user :: Envelope where
  "demo_user = SetVar ''user'' (VMap [(''role'', VStr ''admin'')]) NewEnvelope"

theorem rule_router_successors_witness:
  "\<forall>em. \<exists>e em'. determineSuccessors (\<lambda>_ em. em) demo_gate_graph (rule_router_node (\<lambda>_. []) (NewRuleRouter ''g'' demo_router))
     (Some (rr_Run (\<lambda>_. []) (NewRuleRouter ''g'' demo_router) demo_user)) em = Some ([''b''], Some e, em')"
proof
  fix em
  have "rr_DecisionKey demo_router = []" "GetVar demo_user gate_redirect_key = None" by code_simp+
  note routed = rule_router_successors[OF this, of "\<lambda>_ em. em" demo_gate_graph "\<lambda>_. []" "''g''" em]
  have "filter (\<lambda>s. s \<in> set (route_targets (\<lambda>_. []) demo_router demo_user)) (Successors demo_gate_graph ''g'') = [''b'']" by code_simp
  with routed show "\<exists>e em'. determineSuccessors (\<lambda>_ em. em) demo_gate_graph (rule_router_node (\<lambda>_. []) (NewRuleRouter ''g'' demo_router))
     (Some (rr_Run (\<lambda>_. []) (NewRuleRouter ''g'' demo_router) demo_user)) em = Some ([''b''], Some e, em')" by auto
qed

text \<open>A router with a decision key of its own does not steer the run: all its successors are next.\<close>

theorem rule_router_key_ignored:
  assumes "rr_DecisionKey cfg \<notin> {[], decision_key i, gate_redirect_key}" "GetVar env gate_redirect_key = None"
    "GetVar env (decision_key i) = None"
  shows "determineSuccessors emitf g (rule_router_node fmt_other (NewRuleRouter i cfg))
      (Some (rr_Run fmt_other (NewRuleRouter i cfg) env)) em =
    Some (Successors g i, Some (rr_Run fmt_other (NewRuleRouter i cfg) env), em)"
proof -
  let ?e = "rr_Run fmt_other (NewRuleRouter i cfg) env"
  have "GetVar ?e gate_redirect_key = None" "GetVar ?e (decision_key i) = None"
    using assms by (auto simp: rr_Run_def NewRuleRouter_def)
  then show ?thesis
    by (auto simp: determineSuccessors_def gate_redirect_def rule_router_node_def NewRuleRouter_def[of i cfg] Let_def)
qed

end
