(* ===== verification/Schema_Format.thy ===== *)
theory Schema_Format
  imports PF_Values
begin

section \<open>Package schemafmt: kinds and schema versions\<close>

text \<open>
  \<open>schemafmt/schemafmt.go\<close>. The package matches versions against one regular expression. Regular
  expressions are the type \<open>rexp\<close> with their language \<open>lang\<close>; the engine is matching by derivatives, proved
  to decide the language, and \<open>semverPattern\<close> is the source's pattern written in this type. The capture group
  for the major version is the text before the first dot.
\<close>


subsection \<open>Trimming\<close>

text \<open>The UTF-8 encodings of the white space characters of package \<open>unicode\<close>.\<close>

definition white_space :: "string list" where
  "white_space = [[CHR 0x09], [CHR 0x0A], [CHR 0x0B], [CHR 0x0C], [CHR 0x0D], [CHR 0x20], [CHR 0xC2, CHR 0x85], [CHR 0xC2, CHR 0xA0],
     [CHR 0xE1, CHR 0x9A, CHR 0x80]] @
     map (\<lambda>c. [CHR 0xE2, CHR 0x80, c]) [CHR 0x80, CHR 0x81, CHR 0x82, CHR 0x83, CHR 0x84, CHR 0x85, CHR 0x86, CHR 0x87, CHR 0x88,
       CHR 0x89, CHR 0x8A, CHR 0xA8, CHR 0xA9, CHR 0xAF] @
     [[CHR 0xE2, CHR 0x81, CHR 0x9F], [CHR 0xE3, CHR 0x80, CHR 0x80]]"

text \<open>Strips words of a list off the front, as long as one is a prefix.\<close>

fun strip_front :: "nat \<Rightarrow> string list \<Rightarrow> string \<Rightarrow> string" where
  "strip_front 0 ws s = s"
| "strip_front (Suc n) ws s = (case List.find (\<lambda>w. has_prefix s w) ws of
       None \<Rightarrow> s | Some w \<Rightarrow> strip_front n ws (drop (length w) s))"

definition TrimSpace :: "string \<Rightarrow> string" where
  "TrimSpace s = (let left = strip_front (length s) white_space s
     in rev (strip_front (length left) (map rev white_space) (rev left)))"


subsection \<open>Regular expressions\<close>

datatype rexp =
    Zero | One | Cls "char \<Rightarrow> bool" | Cat rexp rexp | Alt rexp rexp | Star rexp

inductive_set star :: "string set \<Rightarrow> string set" for A where
  star_Nil: "[] \<in> star A"
| star_step: "x \<in> A \<Longrightarrow> y \<in> star A \<Longrightarrow> x @ y \<in> star A"

fun lang :: "rexp \<Rightarrow> string set" where
  "lang Zero = {}"
| "lang One = {[]}"
| "lang (Cls P) = {[c] | c. P c}"
| "lang (Cat r s) = {x @ y | x y. x \<in> lang r \<and> y \<in> lang s}"
| "lang (Alt r s) = lang r \<union> lang s"
| "lang (Star r) = star (lang r)"

fun nullable :: "rexp \<Rightarrow> bool" where
  "nullable Zero = False"
| "nullable One = True"
| "nullable (Cls P) = False"
| "nullable (Cat r s) = (nullable r \<and> nullable s)"
| "nullable (Alt r s) = (nullable r \<or> nullable s)"
| "nullable (Star r) = True"

definition mk_alt :: "rexp \<Rightarrow> rexp \<Rightarrow> rexp" where
  "mk_alt r s = (case r of Zero \<Rightarrow> s | _ \<Rightarrow> (case s of Zero \<Rightarrow> r | _ \<Rightarrow> Alt r s))"

definition mk_cat :: "rexp \<Rightarrow> rexp \<Rightarrow> rexp" where
  "mk_cat r s = (case r of Zero \<Rightarrow> Zero | One \<Rightarrow> s | _ \<Rightarrow> Cat r s)"

fun deriv :: "char \<Rightarrow> rexp \<Rightarrow> rexp" where
  "deriv c Zero = Zero"
| "deriv c One = Zero"
| "deriv c (Cls P) = (if P c then One else Zero)"
| "deriv c (Cat r s) = (if nullable r then mk_alt (mk_cat (deriv c r) s) (deriv c s) else mk_cat (deriv c r) s)"
| "deriv c (Alt r s) = mk_alt (deriv c r) (deriv c s)"
| "deriv c (Star r) = mk_cat (deriv c r) (Star r)"

lemma mk_lang [simp]: "lang (mk_alt r s) = lang (Alt r s)" "lang (mk_cat r s) = lang (Cat r s)"
  by (auto simp: mk_alt_def mk_cat_def split: rexp.split)

definition MatchString :: "rexp \<Rightarrow> string \<Rightarrow> bool" where
  "MatchString r s = nullable (fold deriv s r)"

lemma nullable_lang: "nullable r \<longleftrightarrow> [] \<in> lang r"
  by (induction r) (auto intro: star_Nil)

lemma star_Cons: "c # s \<in> star A \<longleftrightarrow> (\<exists>x y. s = x @ y \<and> c # x \<in> A \<and> y \<in> star A)"
proof
  assume "c # s \<in> star A"
  then show "\<exists>x y. s = x @ y \<and> c # x \<in> A \<and> y \<in> star A"
  proof (induction "c # s" rule: star.induct)
    case (star_step x y)
    then show ?case by (cases x) auto
  qed
next
  assume "\<exists>x y. s = x @ y \<and> c # x \<in> A \<and> y \<in> star A"
  then show "c # s \<in> star A" using star_step[of "c # _" A] by force
qed

lemma deriv_lang: "s \<in> lang (deriv c r) \<longleftrightarrow> c # s \<in> lang r"
proof (induction r arbitrary: s)
  case (Cat r1 r2)
  have "c # s \<in> lang (Cat r1 r2) \<longleftrightarrow> (\<exists>x y. s = x @ y \<and> c # x \<in> lang r1 \<and> y \<in> lang r2) \<or> [] \<in> lang r1 \<and> c # s \<in> lang r2"
    by (auto simp: Cons_eq_append_conv)
  with Cat show ?case by (auto simp: nullable_lang)
next
  case (Star r)
  then show ?case by (auto simp: star_Cons)
qed auto

lemma MatchString_lang: "MatchString r s \<longleftrightarrow> s \<in> lang r"
  unfolding MatchString_def by (induction s arbitrary: r) (auto simp: nullable_lang deriv_lang)


subsection \<open>The package\<close>

definition lit :: "char \<Rightarrow> rexp" where "lit c = Cls (\<lambda>d. d = c)"
definition opt :: "rexp \<Rightarrow> rexp" where "opt r = Alt r One"
definition between :: "char \<Rightarrow> char \<Rightarrow> char \<Rightarrow> bool" where
  "between a b c \<longleftrightarrow> byte a \<le> byte c \<and> byte c \<le> byte b"

definition digits :: rexp where "digits = Cls (between CHR ''0'' CHR ''9'')"
definition word_or_dash :: "char \<Rightarrow> bool" where
  "word_or_dash c \<longleftrightarrow> between CHR ''A'' CHR ''Z'' c \<or> between CHR ''a'' CHR ''z'' c \<or> c = CHR ''-''"
definition alnum_dash :: rexp where
  "alnum_dash = Cls (\<lambda>c. between CHR ''0'' CHR ''9'' c \<or> word_or_dash c)"

definition number :: rexp where
  "number = Alt (lit CHR ''0'') (Cat (Cls (between CHR ''1'' CHR ''9'')) (Star digits))"
definition pre_ident :: rexp where
  "pre_ident = Alt number (Cat (Star alnum_dash) (Cat (Cls word_or_dash) (Star alnum_dash)))"
definition build_ident :: rexp where
  "build_ident = Cat alnum_dash (Star alnum_dash)"
definition dotted :: "rexp \<Rightarrow> rexp" where
  "dotted r = Cat r (Star (Cat (lit CHR ''.'') r))"
definition version_rest :: rexp where
  "version_rest = Cat number (Cat (lit CHR ''.'') (Cat number
     (Cat (opt (Cat (lit CHR ''-'') (dotted pre_ident))) (opt (Cat (lit CHR ''+'') (dotted build_ident))))))"
definition semverPattern :: rexp where
  "semverPattern = Cat number (Cat (lit CHR ''.'') version_rest)"

definition KindAgent :: string where "KindAgent = ''agent_workflow''"
definition KindGraph :: string where "KindGraph = ''graph''"
definition LegacyKindAgent :: string where "LegacyKindAgent = ''agent-workflow''"

datatype schema_error =
    InvalidKind string | VersionRequired | NotSemver string | MajorOutOfRange string | UnsupportedMajor string int int

definition NormalizeKind :: "string \<Rightarrow> schema_error + string \<times> bool" where
  "NormalizeKind raw = (let kind = TrimSpace raw in
     if kind = KindAgent then Inr (KindAgent, False)
     else if kind = LegacyKindAgent then Inr (KindAgent, True)
     else if kind = KindGraph then Inr (KindGraph, False)
     else Inl (InvalidKind raw))"

text \<open>\<open>strconv.Atoi\<close> on a string of digits: its value, or a range error.\<close>

definition digits_val :: "string \<Rightarrow> nat" where
  "digits_val s = fold (\<lambda>c n. 10 * n + (byte c - 48)) s 0"

definition Atoi :: "string \<Rightarrow> int option" where
  "Atoi s = (if int (digits_val s) < 2 ^ 63 then Some (int (digits_val s)) else None)"

definition ValidateSchemaVersion :: "string \<Rightarrow> int \<Rightarrow> schema_error option" where
  "ValidateSchemaVersion version supportedMajor =
     (let v = TrimSpace version in
      if v = [] then Some VersionRequired
      else if \<not> MatchString semverPattern v then Some (NotSemver version)
      else case Atoi (takeWhile (\<lambda>c. c \<noteq> CHR ''.'') v) of
             None \<Rightarrow> Some (MajorOutOfRange version)
           | Some major \<Rightarrow> if major \<noteq> supportedMajor then Some (UnsupportedMajor version major supportedMajor) else None)"


subsection \<open>Accepted versions\<close>

lemma star_class: "t \<in> star {[c] | c. P c} \<longleftrightarrow> list_all P t"
proof
  show "t \<in> star {[c] | c. P c} \<Longrightarrow> list_all P t" by (induction rule: star.induct) auto
  show "list_all P t \<Longrightarrow> t \<in> star {[c] | c. P c}"
  proof (induction t)
    case (Cons c t)
    then show ?case using star_step[of "[c]" "{[c] | c. P c}" t] by auto
  qed (simp add: star_Nil)
qed

lemma lang_number:
  "s \<in> lang number \<longleftrightarrow> s \<noteq> [] \<and> list_all (between CHR ''0'' CHR ''9'') s \<and> (hd s = CHR ''0'' \<longrightarrow> tl s = [])"
proof (cases s)
  case (Cons c t)
  have "between CHR ''0'' CHR ''9'' c \<longleftrightarrow> c = CHR ''0'' \<or> between CHR ''1'' CHR ''9'' c"
  proof -
    have "byte CHR ''0'' = 48" "byte CHR ''1'' = 49" "byte CHR ''9'' = 57" by (simp_all add: byte_def)
    moreover have "byte c = byte CHR ''0'' \<longleftrightarrow> c = CHR ''0''" using char_of_byte by blast
    ultimately show ?thesis by (auto simp: between_def)
  qed
  moreover have "\<not> between CHR ''1'' CHR ''9'' CHR ''0''" by (simp add: between_def byte_def)
  moreover have "c # t \<in> lang (Cat (Cls P) r) \<longleftrightarrow> P c \<and> t \<in> lang r" for P r
    unfolding deriv_lang[symmetric] by auto
  ultimately show ?thesis using Cons by (auto simp: number_def lit_def digits_def star_class simp del: lang.simps(4))
qed (auto simp: number_def lit_def)

lemma number_dotfree:
  assumes "a \<in> lang number" shows "takeWhile (\<lambda>c. c \<noteq> CHR ''.'') (a @ CHR ''.'' # b) = a"
proof -
  have "\<forall>c \<in> set a. c \<noteq> CHR ''.''" using assms unfolding lang_number by (auto simp: list_all_iff between_def byte_def)
  then show ?thesis by (simp add: takeWhile_tail)
qed

text \<open>Numerals without leading zeros are the decimal texts of the numbers.\<close>

lemma show_nat_number: "show_nat n \<in> lang number \<and> digits_val (show_nat n) = n"
proof (induction n rule: show_nat.induct)
  case (1 n)
  show ?case
  proof (cases "n < 10")
    case True
    then show ?thesis by (simp add: show_nat.simps[of n] lang_number between_def byte_def digits_val_def)
  next
    case False
    then have IH: "show_nat (n div 10) \<in> lang number" "digits_val (show_nat (n div 10)) = n div 10" using 1 by auto
    obtain c cs where s: "show_nat (n div 10) = c # cs" using IH(1) by (cases "show_nat (n div 10)") (auto simp: lang_number)
    have "\<not> (c = CHR ''0'' \<and> cs = [])" using IH(2) s False by (auto simp: digits_val_def byte_def)
    then show ?thesis using IH False s by (simp add: show_nat.simps[of n] lang_number digits_val_def between_def byte_def)
  qed
qed

lemma number_show_nat: "a \<in> lang number \<Longrightarrow> show_nat (digits_val a) = a"
proof (induction a rule: rev_induct)
  case (snoc c a)
  have c: "between CHR ''0'' CHR ''9'' c" using snoc.prems by (simp add: lang_number)
  then have d: "byte c - 48 < 10" "char_of (48 + (byte c - 48)) = c" by (auto simp: between_def byte_def)
  show ?case
  proof (cases a)
    case Nil
    then show ?thesis using d by (simp add: digits_val_def show_nat.simps[of "byte c - 48"])
  next
    case (Cons b bs)
    then have a: "a \<in> lang number" "b \<noteq> CHR ''0''" using snoc.prems by (auto simp: lang_number)
    have pos: "digits_val a \<noteq> 0"
    proof
      assume "digits_val a = 0"
      then have "a = show_nat 0" using snoc.IH[OF a(1)] by simp
      moreover have "show_nat 0 = ''0''" by code_simp
      ultimately show False using a(2) Cons by simp
    qed
    have v: "digits_val (a @ [c]) = 10 * digits_val a + (byte c - 48)" by (simp add: digits_val_def)
    have "digits_val (a @ [c]) div 10 = digits_val a" "digits_val (a @ [c]) mod 10 = byte c - 48" "\<not> digits_val (a @ [c]) < 10"
      using d(1) pos by (auto simp: v)
    then show ?thesis using snoc.IH[OF a(1)] d(2) by (simp add: show_nat.simps[of "digits_val (a @ [c])"])
  qed
qed (simp add: lang_number)

text \<open>
  A schema version is accepted exactly when it is a semantic version with the supported major number:
  after trimming, the decimal text of that number, a dot, and minor, patch, pre-release and build parts as in
  the pattern. In particular leading zeros and majors beyond the integer range are rejected.
\<close>

theorem ValidateSchemaVersion_iff:
  assumes "0 \<le> n" "n < 2 ^ 63"
  shows "ValidateSchemaVersion version n = None \<longleftrightarrow>
    (\<exists>rest \<in> lang version_rest. TrimSpace version = show_nat (nat n) @ ''.'' @ rest)"
proof -
  let ?v = "TrimSpace version"
  have m: "MatchString semverPattern ?v \<longleftrightarrow> (\<exists>a \<in> lang number. \<exists>rest \<in> lang version_rest. ?v = a @ CHR ''.'' # rest)"
    by (auto simp: MatchString_lang semverPattern_def lit_def)
  have major: "Atoi a = Some n \<longleftrightarrow> a = show_nat (nat n)" if "a \<in> lang number" for a
    using assms number_show_nat[OF that] show_nat_number[of "nat n"] by (auto simp: Atoi_def nat_eq_iff)
  have "ValidateSchemaVersion version n = None \<longleftrightarrow>
      ?v \<noteq> [] \<and> MatchString semverPattern ?v \<and> Atoi (takeWhile (\<lambda>c. c \<noteq> CHR ''.'') ?v) = Some n"
    by (auto simp: ValidateSchemaVersion_def Let_def split: option.split)
  also have "\<dots> \<longleftrightarrow> (\<exists>a \<in> lang number. \<exists>rest \<in> lang version_rest. ?v = a @ CHR ''.'' # rest \<and> Atoi a = Some n)"
    unfolding m using number_dotfree by auto
  also have "\<dots> \<longleftrightarrow> (\<exists>rest \<in> lang version_rest. ?v = show_nat (nat n) @ ''.'' @ rest)"
    using major show_nat_number[of "nat n"] by auto
  finally show ?thesis .
qed

theorem ValidateSchemaVersion_iff_witness:
  "ValidateSchemaVersion '' 1.2.3-rc.1'' 1 = None \<and>
   (\<exists>rest \<in> lang version_rest. TrimSpace '' 1.2.3-rc.1'' = show_nat (nat 1) @ ''.'' @ rest)"
proof -
  have "ValidateSchemaVersion '' 1.2.3-rc.1'' 1 = None" by code_simp
  with ValidateSchemaVersion_iff[of 1 "'' 1.2.3-rc.1''"] show ?thesis by simp
qed

end
