(* ===== verification/Node_Registry.thy ===== *)
theory Node_Registry
  imports PF_Values
begin

section \<open>Package registry: node types\<close>

text \<open>
  \<open>registry/registry.go\<close> and the table of \<open>registry/builtins.go\<close>. The lock is not modelled: every method holds
  it for its whole body, so calls are atomic. The locale \<open>type_table\<close> is what clients rely on.
\<close>

record PortDef =
  port_Name :: string
  port_Type :: string
  port_Required :: bool

record PortSchema =
  ps_Inputs :: "PortDef list"
  ps_Outputs :: "PortDef list"

record NodeTypeDef =
  nt_Type :: string
  nt_Category :: string
  nt_DisplayName :: string
  nt_Description :: string
  nt_Ports :: PortSchema
  nt_ConfigSchema :: val
  nt_IsTool :: bool
  nt_ToolMode :: string

record Registry =
  reg_types :: "NodeTypeDef gomap"
  reg_order :: "string list"

definition newRegistry :: Registry where
  "newRegistry = \<lparr>reg_types = [], reg_order = []\<rparr>"

definition Register :: "NodeTypeDef \<Rightarrow> Registry \<Rightarrow> Registry" where
  "Register def r =
     r\<lparr>reg_order := (if mget (reg_types r) (nt_Type def) = None then reg_order r @ [nt_Type def] else reg_order r),
       reg_types := mput (nt_Type def) def (reg_types r)\<rparr>"

definition reg_Delete :: "string \<Rightarrow> Registry \<Rightarrow> bool \<times> Registry" where
  "reg_Delete typeName r =
     (if mget (reg_types r) typeName = None then (False, r)
      else (True, r\<lparr>reg_types := mdel typeName (reg_types r), reg_order := remove1 typeName (reg_order r)\<rparr>))"

definition reg_Get :: "Registry \<Rightarrow> string \<Rightarrow> NodeTypeDef option" where
  "reg_Get r typeName = mget (reg_types r) typeName"

definition reg_Has :: "Registry \<Rightarrow> string \<Rightarrow> bool" where
  "reg_Has r typeName = (mget (reg_types r) typeName \<noteq> None)"

definition HasTool :: "Registry \<Rightarrow> string \<Rightarrow> bool" where
  "HasTool r toolID = (case mget (reg_types r) toolID of None \<Rightarrow> False | Some def \<Rightarrow> nt_IsTool def)"

definition ToolMode :: "Registry \<Rightarrow> string \<Rightarrow> string" where
  "ToolMode r toolID = (case mget (reg_types r) toolID of None \<Rightarrow> [] | Some def \<Rightarrow> nt_ToolMode def)"

definition zero_type :: NodeTypeDef where
  "zero_type = \<lparr>nt_Type = [], nt_Category = [], nt_DisplayName = [], nt_Description = [],
     nt_Ports = \<lparr>ps_Inputs = [], ps_Outputs = []\<rparr>, nt_ConfigSchema = VNil, nt_IsTool = False, nt_ToolMode = []\<rparr>"

definition reg_All :: "Registry \<Rightarrow> NodeTypeDef list" where
  "reg_All r = map (\<lambda>name. case mget (reg_types r) name of None \<Rightarrow> zero_type | Some def \<Rightarrow> def) (reg_order r)"

definition reg_Len :: "Registry \<Rightarrow> nat" where
  "reg_Len r = length (reg_types r)"


subsection \<open>The built-in types\<close>

definition port :: "string \<Rightarrow> string \<Rightarrow> bool \<Rightarrow> PortDef" where
  "port name type req = \<lparr>port_Name = name, port_Type = type, port_Required = req\<rparr>"

definition builtins_llm_to_guardian :: "NodeTypeDef list" where
  "builtins_llm_to_guardian = [
    \<lparr>nt_Type = ''llm_prompt'', nt_Category = ''ai'', nt_DisplayName = ''LLM Prompt'',
      nt_Description = ''Send a prompt to a language model and receive a completion'',
      nt_Ports = \<lparr>ps_Inputs = [port ''input'' ''string'' True, port ''context'' ''string'' False], ps_Outputs = [port ''output'' ''string'' False]\<rparr>,
      nt_ConfigSchema = VNil, nt_IsTool = False, nt_ToolMode = []\<rparr>,
    \<lparr>nt_Type = ''llm_router'', nt_Category = ''ai'', nt_DisplayName = ''LLM Router'',
      nt_Description = ''Use an LLM to classify input and route to a target node'',
      nt_Ports = \<lparr>ps_Inputs = [port ''input'' ''string'' True], ps_Outputs = [port ''output'' ''string'' False, port ''decision'' ''object'' False]\<rparr>,
      nt_ConfigSchema = VNil, nt_IsTool = False, nt_ToolMode = []\<rparr>,
    \<lparr>nt_Type = ''rule_router'', nt_Category = ''control'', nt_DisplayName = ''Rule Router'',
      nt_Description = ''Route to a target node based on conditional rules evaluated against envelope state'',
      nt_Ports = \<lparr>ps_Inputs = [port ''input'' ''any'' True], ps_Outputs = [port ''output'' ''any'' False, port ''decision'' ''object'' False]\<rparr>,
      nt_ConfigSchema = VNil, nt_IsTool = False, nt_ToolMode = []\<rparr>,
    \<lparr>nt_Type = ''filter'', nt_Category = ''data'', nt_DisplayName = ''Filter'',
      nt_Description = ''Filter collections (artifacts, messages, or variables) by rules'',
      nt_Ports = \<lparr>ps_Inputs = [port ''input'' ''array'' True], ps_Outputs = [port ''output'' ''array'' False]\<rparr>,
      nt_ConfigSchema = VNil, nt_IsTool = False, nt_ToolMode = []\<rparr>,
    \<lparr>nt_Type = ''transform'', nt_Category = ''data'', nt_DisplayName = ''Transform'',
      nt_Description = ''Reshape data using pick, rename, flatten, template, or custom operations'',
      nt_Ports = \<lparr>ps_Inputs = [port ''input'' ''any'' True], ps_Outputs = [port ''output'' ''any'' False]\<rparr>,
      nt_ConfigSchema = VNil, nt_IsTool = False, nt_ToolMode = []\<rparr>,
    \<lparr>nt_Type = ''merge'', nt_Category = ''control'', nt_DisplayName = ''Merge'',
      nt_Description = ''Combine multiple parallel branch outputs into a single envelope'',
      nt_Ports = \<lparr>ps_Inputs = [port ''input'' ''any'' True], ps_Outputs = [port ''output'' ''any'' False]\<rparr>,
      nt_ConfigSchema = VNil, nt_IsTool = False, nt_ToolMode = []\<rparr>,
    \<lparr>nt_Type = ''tool'', nt_Category = ''tool'', nt_DisplayName = ''Tool'',
      nt_Description = ''Execute an external tool with arguments from the envelope'',
      nt_Ports = \<lparr>ps_Inputs = [port ''input'' ''object'' True], ps_Outputs = [port ''output'' ''object'' False]\<rparr>,
      nt_ConfigSchema = VNil, nt_IsTool = True, nt_ToolMode = ''standalone''\<rparr>,
    \<lparr>nt_Type = ''gate'', nt_Category = ''control'', nt_DisplayName = ''Gate'',
      nt_Description = ''Evaluate a condition and block, skip, or redirect execution'',
      nt_Ports = \<lparr>ps_Inputs = [port ''input'' ''any'' True], ps_Outputs = [port ''output'' ''any'' False]\<rparr>,
      nt_ConfigSchema = VNil, nt_IsTool = False, nt_ToolMode = []\<rparr>,
    \<lparr>nt_Type = ''guardian'', nt_Category = ''control'', nt_DisplayName = ''Guardian'',
      nt_Description = ''Validate input data against a set of checks (type, pattern, PII, schema)'',
      nt_Ports = \<lparr>ps_Inputs = [port ''input'' ''any'' True], ps_Outputs = [port ''output'' ''any'' False, port ''result'' ''object'' False]\<rparr>,
      nt_ConfigSchema = VNil, nt_IsTool = False, nt_ToolMode = []\<rparr>]"

definition builtins_human_to_conditional :: "NodeTypeDef list" where
  "builtins_human_to_conditional = [
    \<lparr>nt_Type = ''human'', nt_Category = ''control'', nt_DisplayName = ''Human-in-the-Loop'',
      nt_Description = ''Pause for human approval, choice, edit, or input'',
      nt_Ports = \<lparr>ps_Inputs = [port ''input'' ''any'' True], ps_Outputs = [port ''output'' ''any'' False, port ''response'' ''object'' False]\<rparr>,
      nt_ConfigSchema = VNil, nt_IsTool = False, nt_ToolMode = []\<rparr>,
    \<lparr>nt_Type = ''map'', nt_Category = ''control'', nt_DisplayName = ''Map'',
      nt_Description = ''Apply a node or function to each item in a collection'',
      nt_Ports = \<lparr>ps_Inputs = [port ''input'' ''array'' True], ps_Outputs = [port ''output'' ''array'' False]\<rparr>,
      nt_ConfigSchema = VNil, nt_IsTool = False, nt_ToolMode = []\<rparr>,
    \<lparr>nt_Type = ''cache'', nt_Category = ''data'', nt_DisplayName = ''Cache'',
      nt_Description = ''Cache the output of a wrapped node to avoid repeated computation'',
      nt_Ports = \<lparr>ps_Inputs = [port ''input'' ''any'' True], ps_Outputs = [port ''output'' ''any'' False]\<rparr>,
      nt_ConfigSchema = VNil, nt_IsTool = False, nt_ToolMode = []\<rparr>,
    \<lparr>nt_Type = ''webhook_trigger'', nt_Category = ''control'', nt_DisplayName = ''Webhook Trigger'',
      nt_Description = ''Receive inbound webhook payloads and map request context into workflow vars'',
      nt_Ports = \<lparr>ps_Inputs = [port ''input'' ''any'' False], ps_Outputs = [port ''output'' ''any'' False, port ''request'' ''object'' False]\<rparr>,
      nt_ConfigSchema = VNil, nt_IsTool = False, nt_ToolMode = []\<rparr>,
    \<lparr>nt_Type = ''webhook_call'', nt_Category = ''data'', nt_DisplayName = ''Webhook Call'',
      nt_Description = ''Send outbound HTTP webhook requests with envelope-derived payloads'',
      nt_Ports = \<lparr>ps_Inputs = [port ''input'' ''any'' False], ps_Outputs = [port ''output'' ''any'' False, port ''response'' ''object'' False]\<rparr>,
      nt_ConfigSchema = VNil, nt_IsTool = False, nt_ToolMode = []\<rparr>,
    \<lparr>nt_Type = ''noop'', nt_Category = ''control'', nt_DisplayName = ''No-Op'',
      nt_Description = ''Pass the envelope through unchanged (placeholder or testing)'',
      nt_Ports = \<lparr>ps_Inputs = [port ''input'' ''any'' False], ps_Outputs = [port ''output'' ''any'' False]\<rparr>,
      nt_ConfigSchema = VNil, nt_IsTool = False, nt_ToolMode = []\<rparr>,
    \<lparr>nt_Type = ''func'', nt_Category = ''control'', nt_DisplayName = ''Function'',
      nt_Description = ''Execute a custom Go function as a node'',
      nt_Ports = \<lparr>ps_Inputs = [port ''input'' ''any'' False], ps_Outputs = [port ''output'' ''any'' False]\<rparr>,
      nt_ConfigSchema = VNil, nt_IsTool = False, nt_ToolMode = []\<rparr>,
    \<lparr>nt_Type = ''conditional'', nt_Category = ''control'', nt_DisplayName = ''Conditional'',
      nt_Description = ''Route data to different branches based on expression evaluation'',
      nt_Ports = \<lparr>ps_Inputs = [port ''input'' ''any'' True], ps_Outputs = [port ''output'' ''any'' False, port ''decision'' ''object'' False]\<rparr>,
      nt_ConfigSchema = VNil, nt_IsTool = False, nt_ToolMode = []\<rparr>]"

definition builtin_types :: "NodeTypeDef list" where
  "builtin_types = builtins_llm_to_guardian @ builtins_human_to_conditional"

definition registerBuiltins :: "Registry \<Rightarrow> Registry" where
  "registerBuiltins r = fold Register builtin_types r"

definition Global :: Registry where
  "Global = registerBuiltins newRegistry"


subsection \<open>The contract of a registry\<close>

locale type_table =
  fixes ok :: "'r \<Rightarrow> bool"
    and look :: "'r \<Rightarrow> string \<Rightarrow> NodeTypeDef option"
    and listing :: "'r \<Rightarrow> NodeTypeDef list"
    and add :: "NodeTypeDef \<Rightarrow> 'r \<Rightarrow> 'r"
    and del :: "string \<Rightarrow> 'r \<Rightarrow> 'r"
  assumes ok_add: "ok r \<Longrightarrow> ok (add d r)"
    and ok_del: "ok r \<Longrightarrow> ok (del t r)"
    and look_add: "ok r \<Longrightarrow> look (add d r) t = (if t = nt_Type d then Some d else look r t)"
    and look_del: "ok r \<Longrightarrow> look (del u r) t = (if t = u then None else look r t)"
    and listing_look: "ok r \<Longrightarrow> d \<in> set (listing r) \<longleftrightarrow> look r (nt_Type d) = Some d"
    and listing_distinct: "ok r \<Longrightarrow> distinct (map nt_Type (listing r))"
begin

lemma ok_add_all: "ok r \<Longrightarrow> ok (fold add ds r)"
  by (induction ds arbitrary: r) (auto intro: ok_add)

lemma look_add_all:
  "ok r \<Longrightarrow> look (fold add ds r) t = (case List.find (\<lambda>d. nt_Type d = t) (rev ds) of Some d \<Rightarrow> Some d | None \<Rightarrow> look r t)"
proof (induction ds rule: rev_induct)
  case (snoc d ds)
  then show ?case using look_add[OF ok_add_all[OF snoc.prems, of ds], of d t] by auto
qed simp

text \<open>Any history of calls: the latest call about a type decides what a lookup finds.\<close>

fun history :: "(NodeTypeDef + string) list \<Rightarrow> 'r \<Rightarrow> 'r" where
  "history [] r = r"
| "history (Inl d # cs) r = history cs (add d r)"
| "history (Inr t # cs) r = history cs (del t r)"

lemma history_snoc [simp]:
  "history (cs @ [Inl d]) r = add d (history cs r)" "history (cs @ [Inr t]) r = del t (history cs r)"
  by (induction cs r rule: history.induct) auto

lemma ok_history: "ok r \<Longrightarrow> ok (history cs r)"
  by (induction cs r rule: history.induct) (auto intro: ok_add ok_del)

lemma look_history:
  "ok r \<Longrightarrow> look (history cs r) t =
    (case List.find (\<lambda>c. case c of Inl d \<Rightarrow> nt_Type d = t | Inr u \<Rightarrow> u = t) (rev cs) of
       Some (Inl d) \<Rightarrow> Some d | Some (Inr _) \<Rightarrow> None | None \<Rightarrow> look r t)"
proof (induction cs rule: rev_induct)
  case (snoc c cs)
  then show ?case using look_add[OF ok_history[OF snoc.prems, of cs]] look_del[OF ok_history[OF snoc.prems, of cs]]
    by (cases c) auto
qed simp

end

definition reg_ok :: "Registry \<Rightarrow> bool" where
  "reg_ok r \<longleftrightarrow> gomap_ok (reg_types r) \<and> reg_order r = mkeys (reg_types r) \<and>
     (\<forall>t d. mget (reg_types r) t = Some d \<longrightarrow> nt_Type d = t)"

lemma reg_ok_All: "reg_ok r \<Longrightarrow> reg_All r = map snd (reg_types r)"
  by (auto simp: reg_ok_def reg_All_def gomap_ok_def)

lemma reg_ok_types: "reg_ok r \<Longrightarrow> map nt_Type (map snd (reg_types r)) = mkeys (reg_types r)"
  by (auto simp: reg_ok_def gomap_ok_def)

lemma mkeys_mdel: "mkeys (mdel t m) = removeAll t (mkeys m)"
  by (induction m) (auto simp: AList.delete_eq)

lemma reg_ok_Register: "reg_ok r \<Longrightarrow> reg_ok (Register d r)"
proof -
  assume ok: "reg_ok r"
  then have "mget (reg_types r) (nt_Type d) = None \<longleftrightarrow> nt_Type d \<notin> set (mkeys (reg_types r))"
    by (simp add: in_mkeys_iff del: set_map)
  with ok show ?thesis by (simp add: reg_ok_def Register_def mkeys_mput)
qed

lemma reg_ok_Delete: "reg_ok r \<Longrightarrow> reg_ok (snd (reg_Delete t r))"
proof -
  assume ok: "reg_ok r"
  then have d: "distinct (mkeys (reg_types r))" by (simp add: reg_ok_def gomap_ok_def)
  have "remove1 t (mkeys (reg_types r)) = mkeys (mdel t (reg_types r))"
    by (simp only: mkeys_mdel distinct_remove1_removeAll[OF d])
  with ok show ?thesis by (simp add: reg_ok_def reg_Delete_def)
qed

interpretation registry: type_table reg_ok reg_Get reg_All Register "\<lambda>t r. snd (reg_Delete t r)"
proof unfold_locales
  fix r :: Registry and d t u
  assume ok: "reg_ok r"
  show "reg_ok (Register d r)" "reg_ok (snd (reg_Delete t r))" using ok by (rule reg_ok_Register reg_ok_Delete)+
  show "reg_Get (Register d r) t = (if t = nt_Type d then Some d else reg_Get r t)" by (simp add: reg_Get_def Register_def)
  show "reg_Get (snd (reg_Delete u r)) t = (if t = u then None else reg_Get r t)" by (auto simp: reg_Get_def reg_Delete_def)
  show "d \<in> set (reg_All r) \<longleftrightarrow> reg_Get r (nt_Type d) = Some d"
  proof -
    have "d \<in> set (reg_All r) \<longleftrightarrow> (\<exists>t. (t, d) \<in> set (reg_types r))" by (force simp: reg_ok_All[OF ok])
    also have "\<dots> \<longleftrightarrow> (\<exists>t. mget (reg_types r) t = Some d)" using ok by (simp add: reg_ok_def gomap_ok_def)
    also have "\<dots> \<longleftrightarrow> reg_Get r (nt_Type d) = Some d" using ok by (auto simp: reg_ok_def reg_Get_def)
    finally show ?thesis .
  qed
  show "distinct (map nt_Type (reg_All r))"
  proof -
    have "map nt_Type (reg_All r) = mkeys (reg_types r)" unfolding reg_ok_All[OF ok] by (rule reg_ok_types[OF ok])
    with ok show ?thesis by (simp add: reg_ok_def gomap_ok_def)
  qed
qed

lemma reg_ok_new [simp]: "reg_ok newRegistry"
  by (simp add: reg_ok_def newRegistry_def)

text \<open>A history of calls on a new registry: registrations (\<open>Inl\<close>) and deletions (\<open>Inr\<close>).\<close>

definition reg_history :: "(NodeTypeDef + string) list \<Rightarrow> Registry" where
  "reg_history cs = fold (\<lambda>c r. case c of Inl d \<Rightarrow> Register d r | Inr t \<Rightarrow> snd (reg_Delete t r)) cs newRegistry"

lemma reg_history_eq: "reg_history cs = registry.history cs newRegistry"
proof -
  have "fold (\<lambda>c r. case c of Inl d \<Rightarrow> Register d r | Inr t \<Rightarrow> snd (reg_Delete t r)) cs r = registry.history cs r" for r
    by (induction cs r rule: registry.history.induct) auto
  then show ?thesis by (simp add: reg_history_def)
qed

text \<open>
  The registry remembers the latest definition of each type. After any history of registrations and
  deletions, a lookup finds the definition registered last for that type unless it was deleted since, and the
  listing has each type found by a lookup exactly once and nothing else.
\<close>

theorem registry_history:
  "reg_Get (reg_history cs) t =
     (case List.find (\<lambda>c. case c of Inl d \<Rightarrow> nt_Type d = t | Inr u \<Rightarrow> u = t) (rev cs) of
        Some (Inl d) \<Rightarrow> Some d | Some (Inr _) \<Rightarrow> None | None \<Rightarrow> None) \<and>
   distinct (map nt_Type (reg_All (reg_history cs))) \<and>
   (d \<in> set (reg_All (reg_history cs)) \<longleftrightarrow> reg_Get (reg_history cs) (nt_Type d) = Some d) \<and>
   reg_Len (reg_history cs) = length (reg_All (reg_history cs))"
proof -
  have ok: "reg_ok (reg_history cs)" unfolding reg_history_eq by (rule registry.ok_history) simp
  have new: "reg_Get newRegistry t = None" by (simp add: reg_Get_def newRegistry_def)
  have "reg_Get (reg_history cs) t =
     (case List.find (\<lambda>c. case c of Inl d \<Rightarrow> nt_Type d = t | Inr u \<Rightarrow> u = t) (rev cs) of
        Some (Inl d) \<Rightarrow> Some d | Some (Inr _) \<Rightarrow> None | None \<Rightarrow> None)"
    using registry.look_history[OF reg_ok_new, of cs t] unfolding new reg_history_eq .
  then show ?thesis using registry.listing_distinct[OF ok] registry.listing_look[OF ok] reg_ok_All[OF ok] by (simp add: reg_Len_def)
qed

end
