(* ===== verification/Graph_Definition.thy ===== *)
theory Graph_Definition
  imports Graph_Model Schema_Format Node_Registry
begin

section \<open>Package graph: serialised definitions\<close>

text \<open>
  \<open>graph/definition.go\<close>: graph documents, their validation with and without a node registry, and their
  conversion to a \<open>BasicGraph\<close>. A diagnostic's message is kept as the format and the arguments of its
  \<open>Sprintf\<close> call. The registered expression checker and the node factory are arguments: the former yields the
  text of a syntax error or nothing, the latter a node (possibly nil) or an error text.
\<close>

datatype msg_arg = ArgStr string | ArgStrs "string list" | ArgErr string | ArgSchema schema_error

record Diagnostic =
  dg_Code :: string
  dg_Severity :: string
  dg_Message :: "string \<times> msg_arg list"
  dg_Path :: string
  dg_Line :: int

definition SeverityError :: string where "SeverityError = ''error''"
definition SeverityWarning :: string where "SeverityWarning = ''warning''"

definition diag :: "string \<Rightarrow> string \<Rightarrow> string \<Rightarrow> msg_arg list \<Rightarrow> string \<Rightarrow> Diagnostic" where
  "diag code severity fmt args path =
     \<lparr>dg_Code = code, dg_Severity = severity, dg_Message = (fmt, args), dg_Path = path, dg_Line = 0\<rparr>"

fun diag_HasErrors :: "Diagnostic list \<Rightarrow> bool" where
  "diag_HasErrors [] = False"
| "diag_HasErrors (d # ds) = (if dg_Severity d = SeverityError then True else diag_HasErrors ds)"

fun diag_Errors :: "Diagnostic list \<Rightarrow> Diagnostic list" where
  "diag_Errors [] = []"
| "diag_Errors (d # ds) = (if dg_Severity d = SeverityError then d # diag_Errors ds else diag_Errors ds)"

fun diag_Warnings :: "Diagnostic list \<Rightarrow> Diagnostic list" where
  "diag_Warnings [] = []"
| "diag_Warnings (d # ds) = (if dg_Severity d = SeverityWarning then d # diag_Warnings ds else diag_Warnings ds)"

record NodeDef =
  nd_ID :: string
  nd_Type :: string
  nd_Config :: "val gomap"

record EdgeDef =
  ed_Source :: string
  ed_SourceHandle :: string
  ed_Target :: string
  ed_TargetHandle :: string

record GraphDefinition =
  gd_ID :: string
  gd_Version :: string
  gd_SchemaVersion :: string
  gd_Kind :: string
  gd_Metadata :: "string gomap"
  gd_Nodes :: "NodeDef list"
  gd_Edges :: "EdgeDef list"
  gd_Entry :: string

type_synonym ExprValidator = "string \<Rightarrow> string option"

definition is_set :: "bool gomap \<Rightarrow> string \<Rightarrow> bool" where
  "is_set m k = (mget m k = Some True)"

definition nodes_path :: "nat \<Rightarrow> string" where
  "nodes_path i = ''nodes['' @ show_nat i @ '']''"

definition edges_path :: "nat \<Rightarrow> string" where
  "edges_path i = ''edges['' @ show_nat i @ '']''"


subsection \<open>Structural validation\<close>

definition validateSchemaHeader :: "GraphDefinition \<Rightarrow> Diagnostic list" where
  "validateSchemaHeader gd =
     (if gd_Kind gd \<noteq> [] then
        (case NormalizeKind (gd_Kind gd) of
           Inl err \<Rightarrow> [diag ''GR-010'' SeverityError ''Invalid graph kind: %v'' [ArgSchema err] ''kind'']
         | Inr (normalized, _) \<Rightarrow>
             if normalized \<noteq> KindGraph
             then [diag ''GR-010'' SeverityError ''Graph kind %q is invalid (expected %q)'' [ArgStr (gd_Kind gd), ArgStr KindGraph] ''kind'']
             else [])
      else []) @
     (if gd_SchemaVersion gd \<noteq> [] then
        (case ValidateSchemaVersion (gd_SchemaVersion gd) 1 of
           Some err \<Rightarrow> [diag ''GR-010'' SeverityError ''Invalid schema_version: %v'' [ArgSchema err] ''schema_version'']
         | None \<Rightarrow> [])
      else [])"

text \<open>The loop over the nodes: a diagnostic for a repeated ID, and the set of IDs.\<close>

fun duplicate_ids :: "nat \<Rightarrow> bool gomap \<Rightarrow> NodeDef list \<Rightarrow> Diagnostic list \<times> bool gomap" where
  "duplicate_ids i ids [] = ([], ids)"
| "duplicate_ids i ids (n # ns) =
     map_prod (\<lambda>ds. (if is_set ids (nd_ID n)
         then diag ''GR-005'' SeverityError ''Duplicate node ID %q'' [ArgStr (nd_ID n)] (nodes_path i @ ''.id'') # ds else ds)) (\<lambda>m. m)
       (duplicate_ids (Suc i) (mput (nd_ID n) True ids) ns)"

fun edge_refs :: "nat \<Rightarrow> bool gomap \<Rightarrow> EdgeDef list \<Rightarrow> Diagnostic list" where
  "edge_refs i ids [] = []"
| "edge_refs i ids (e # es) =
     (if \<not> is_set ids (ed_Source e)
      then [diag ''GR-001'' SeverityError ''Edge source %q references unknown node'' [ArgStr (ed_Source e)] (edges_path i @ ''.source'')] else []) @
     (if \<not> is_set ids (ed_Target e)
      then [diag ''GR-001'' SeverityError ''Edge target %q references unknown node'' [ArgStr (ed_Target e)] (edges_path i @ ''.target'')] else []) @
     edge_refs (Suc i) ids es"

fun orphans :: "nat \<Rightarrow> bool gomap \<Rightarrow> bool gomap \<Rightarrow> NodeDef list \<Rightarrow> Diagnostic list" where
  "orphans i inb outb [] = []"
| "orphans i inb outb (n # ns) =
     (if \<not> is_set inb (nd_ID n) \<and> \<not> is_set outb (nd_ID n)
      then [diag ''GR-002'' SeverityWarning ''Node %q has no inbound or outbound edges'' [ArgStr (nd_ID n)] (nodes_path i)] else []) @
     orphans (Suc i) inb outb ns"

fun hasEdgeRefErrors :: "Diagnostic list \<Rightarrow> bool" where
  "hasEdgeRefErrors [] = False"
| "hasEdgeRefErrors (d # ds) = (if dg_Code d = ''GR-001'' then True else hasEdgeRefErrors ds)"

text \<open>The maps of \<open>detectCycle\<close>, and its result: the nodes left in cycles, if any.\<close>

definition def_inDegree :: "GraphDefinition \<Rightarrow> int gomap" where
  "def_inDegree gd = fold (\<lambda>e d. mput (ed_Target e) (deg d (ed_Target e) + 1) d) (gd_Edges gd)
     (fold (\<lambda>n d. mput (nd_ID n) 0 d) (gd_Nodes gd) [])"

definition def_successors :: "GraphDefinition \<Rightarrow> string list gomap" where
  "def_successors gd = fold (\<lambda>e m. mput (ed_Source e) (slice_at m (ed_Source e) @ [ed_Target e]) m) (gd_Edges gd) []"

definition detectCycle :: "GraphDefinition \<Rightarrow> string list option" where
  "detectCycle gd =
     (case kahn (slice_at (def_successors gd)) (def_inDegree gd) (map nd_ID (gd_Nodes gd)) of
        (d, visited) \<Rightarrow>
          if length visited < length (gd_Nodes gd) then Some (filter (\<lambda>i. 0 < deg d i) (map nd_ID (gd_Nodes gd))) else None)"


subsection \<open>Conditional nodes\<close>

definition outEdges :: "EdgeDef list \<Rightarrow> string \<Rightarrow> string list" where
  "outEdges es src = remdups (map ed_Target (filter (\<lambda>e. ed_Source e = src) es))"

definition str_field :: "val gomap \<Rightarrow> string \<Rightarrow> string" where
  "str_field m k = (case mget m k of None \<Rightarrow> [] | Some v \<Rightarrow> (case as_str v of None \<Rightarrow> [] | Some s \<Rightarrow> s))"

definition reservedPort :: "string \<Rightarrow> bool" where
  "reservedPort name \<longleftrightarrow> name = ''error'' \<or> name = ''_metadata''"

fun validate_conditions :: "ExprValidator option \<Rightarrow> EdgeDef list \<Rightarrow> string \<Rightarrow> string \<Rightarrow> nat \<Rightarrow> val list \<Rightarrow> Diagnostic list" where
  "validate_conditions validator es nid prefx j [] = []"
| "validate_conditions validator es nid prefx j (condRaw # conds) =
     (case as_map condRaw of
        None \<Rightarrow> []
      | Some cond \<Rightarrow>
          let condPath = prefx @ ''.config.conditions['' @ show_nat j @ '']'';
              name = str_field cond ''name'';
              expression = str_field cond ''expression''
          in (if reservedPort name
              then [diag ''CN-005'' SeverityError ''Conditional node %q: condition name %q is reserved'' [ArgStr nid, ArgStr name] (condPath @ ''.name'')]
              else []) @
             (if expression \<noteq> [] then
                (case validator of
                   None \<Rightarrow> []
                 | Some v \<Rightarrow> (case v expression of
                       None \<Rightarrow> []
                     | Some err \<Rightarrow> [diag ''CN-004'' SeverityError ''Conditional node %q: condition %q has invalid expression: %v''
                         [ArgStr nid, ArgStr name, ArgErr err] (condPath @ ''.expression'')]))
              else []) @
             (if name \<noteq> [] \<and> length (outEdges es nid) = 0
              then [diag ''CN-001'' SeverityWarning ''Conditional node %q: condition %q has no downstream edges'' [ArgStr nid, ArgStr name] condPath]
              else [])) @
     validate_conditions validator es nid prefx (Suc j) conds"

definition validate_conditional :: "ExprValidator option \<Rightarrow> EdgeDef list \<Rightarrow> nat \<Rightarrow> NodeDef \<Rightarrow> Diagnostic list" where
  "validate_conditional validator es i n =
     (let prefx = nodes_path i in
      case mget (nd_Config n) ''conditions'' of
        None \<Rightarrow> [diag ''CN-006'' SeverityError ''Conditional node %q must have at least one condition'' [ArgStr (nd_ID n)] (prefx @ ''.config.conditions'')]
      | Some conditionsRaw \<Rightarrow>
          (case as_list conditionsRaw of
             None \<Rightarrow> [diag ''CN-006'' SeverityError ''Conditional node %q: conditions must be an array'' [ArgStr (nd_ID n)] (prefx @ ''.config.conditions'')]
           | Some conditions \<Rightarrow>
               if length conditions = 0
               then [diag ''CN-006'' SeverityError ''Conditional node %q must have at least one condition'' [ArgStr (nd_ID n)] (prefx @ ''.config.conditions'')]
               else validate_conditions validator es (nd_ID n) prefx 0 conditions @
                 (if str_field (nd_Config n) ''default'' = []
                  then [diag ''CN-003'' SeverityWarning
                    (''Conditional node %q has no default branch '' @ [CHR 0xE2, CHR 0x80, CHR 0x94] @ '' execution will error if no conditions match'') [ArgStr (nd_ID n)] (prefx @ ''.config'')]
                  else [])))"

fun validateConditionalNodes :: "ExprValidator option \<Rightarrow> EdgeDef list \<Rightarrow> nat \<Rightarrow> NodeDef list \<Rightarrow> Diagnostic list" where
  "validateConditionalNodes validator es i [] = []"
| "validateConditionalNodes validator es i (n # ns) =
     (if nd_Type n \<noteq> ''conditional'' then [] else validate_conditional validator es i n) @
     validateConditionalNodes validator es (Suc i) ns"

definition gd_Validate :: "ExprValidator option \<Rightarrow> GraphDefinition \<Rightarrow> Diagnostic list" where
  "gd_Validate validator gd =
     (let (dups, nodeIDs) = duplicate_ids 0 [] (gd_Nodes gd);
          diags = validateSchemaHeader gd @ dups @ edge_refs 0 nodeIDs (gd_Edges gd) @
            (if gd_Entry gd \<noteq> [] \<and> \<not> is_set nodeIDs (gd_Entry gd)
             then [diag ''GR-007'' SeverityError ''Entry node %q does not exist'' [ArgStr (gd_Entry gd)] ''entry''] else []) @
            (if length (gd_Nodes gd) > 1
             then orphans 0 (fold (\<lambda>e. mput (ed_Target e) True) (gd_Edges gd) []) (fold (\<lambda>e. mput (ed_Source e) True) (gd_Edges gd) []) (gd_Nodes gd)
             else []);
          diags1 = diags @ (if \<not> hasEdgeRefErrors diags then
              (case detectCycle gd of
                 None \<Rightarrow> []
               | Some cycle \<Rightarrow> [diag ''GR-004'' SeverityError ''Graph contains a cycle: nodes involved: %v'' [ArgStrs cycle] []])
            else [])
      in diags1 @ validateConditionalNodes validator (gd_Edges gd) 0 (gd_Nodes gd))"


subsection \<open>Validation against a registry\<close>

definition hasPortName :: "PortDef list \<Rightarrow> string \<Rightarrow> bool" where
  "hasPortName ports name = list_ex (\<lambda>p. port_Name p = name) ports"

fun node_types :: "Registry \<Rightarrow> nat \<Rightarrow> NodeDef gomap \<Rightarrow> NodeTypeDef gomap \<Rightarrow> NodeDef list \<Rightarrow>
    Diagnostic list \<times> NodeDef gomap \<times> NodeTypeDef gomap" where
  "node_types reg i byID defs [] = ([], byID, defs)"
| "node_types reg i byID defs (n # ns) =
     (let byID' = mput (nd_ID n) n byID in
      case reg_Get reg (nd_Type n) of
        None \<Rightarrow> map_prod (\<lambda>ds. diag ''GR-003'' SeverityError ''Node %q references unknown type %q''
                  [ArgStr (nd_ID n), ArgStr (nd_Type n)] (nodes_path i @ ''.type'') # ds) (\<lambda>m. m) (node_types reg (Suc i) byID' defs ns)
      | Some def \<Rightarrow> map_prod (\<lambda>ds. (if nt_IsTool def \<and> nt_ToolMode def = ''function_call''
                  then [diag ''GR-008'' SeverityError ''Node %q uses function_call tool type %q as a standalone graph node''
                    [ArgStr (nd_ID n), ArgStr (nd_Type n)] (nodes_path i @ ''.type'')] else []) @ ds) (\<lambda>m. m)
                  (node_types reg (Suc i) byID' (mput (nd_ID n) def defs) ns))"

fun source_handles :: "NodeDef gomap \<Rightarrow> NodeTypeDef gomap \<Rightarrow> nat \<Rightarrow> EdgeDef list \<Rightarrow> Diagnostic list" where
  "source_handles byID defs i [] = []"
| "source_handles byID defs i (e # es) =
     (if ed_SourceHandle e = [] then []
      else case mget byID (ed_Source e) of
             None \<Rightarrow> []
           | Some srcNode \<Rightarrow>
               if nd_Type srcNode = ''conditional'' then []
               else (case mget defs (ed_Source e) of
                       None \<Rightarrow> []
                     | Some srcDef \<Rightarrow>
                         if \<not> hasPortName (ps_Outputs (nt_Ports srcDef)) (ed_SourceHandle e)
                         then [diag ''GR-006'' SeverityError ''Edge sourceHandle %q is not an output port on node %q (type %q)''
                           [ArgStr (ed_SourceHandle e), ArgStr (ed_Source e), ArgStr (nd_Type srcNode)] (edges_path i @ ''.sourceHandle'')]
                         else [])) @
     source_handles byID defs (Suc i) es"

fun webhook_inbound :: "int gomap \<Rightarrow> nat \<Rightarrow> NodeDef list \<Rightarrow> Diagnostic list" where
  "webhook_inbound counts i [] = []"
| "webhook_inbound counts i (n # ns) =
     (if nd_Type n \<noteq> ''webhook_trigger'' then []
      else if deg counts (nd_ID n) > 0
           then [diag ''GR-009'' SeverityError ''Node %q (webhook_trigger) must not have inbound edges'' [ArgStr (nd_ID n)] (nodes_path i)]
           else []) @
     webhook_inbound counts (Suc i) ns"

definition ValidateWithRegistry :: "ExprValidator option \<Rightarrow> Registry option \<Rightarrow> GraphDefinition \<Rightarrow> Diagnostic list" where
  "ValidateWithRegistry validator reg gd = (case reg of
       None \<Rightarrow> gd_Validate validator gd
     | Some r \<Rightarrow>
         (let (typeDiags, byID, defs) = node_types r 0 [] [] (gd_Nodes gd);
              inboundCount = fold (\<lambda>e d. mput (ed_Target e) (deg d (ed_Target e) + 1) d) (gd_Edges gd) []
          in gd_Validate validator gd @ typeDiags @ source_handles byID defs 0 (gd_Edges gd) @
             webhook_inbound inboundCount 0 (gd_Nodes gd)))"


subsection \<open>Building the graph\<close>

type_synonym node_factory = "NodeDef \<Rightarrow> string + Node option"

record buildConfig =
  nodeFactory :: "node_factory option"

definition WithNodeFactory :: "node_factory \<Rightarrow> buildConfig \<Rightarrow> buildConfig" where
  "WithNodeFactory factory c = c\<lparr>nodeFactory := Some factory\<rparr>"

datatype to_graph_error =
    NoNodeFactory | CreatingNode string string string | AddingNode string graph_error | AddingEdge string string graph_error
  | SettingEntry string graph_error

definition add_node_def :: "node_factory \<Rightarrow> NodeDef \<Rightarrow> BasicGraph \<Rightarrow> to_graph_error + BasicGraph" where
  "add_node_def factory nd g = (case factory nd of
       Inl err \<Rightarrow> Inl (CreatingNode (nd_ID nd) (nd_Type nd) err)
     | Inr node \<Rightarrow> (case AddNode node g of Inl err \<Rightarrow> Inl (AddingNode (nd_ID nd) err) | Inr g' \<Rightarrow> Inr g'))"

definition add_edge_def :: "EdgeDef \<Rightarrow> BasicGraph \<Rightarrow> to_graph_error + BasicGraph" where
  "add_edge_def ed g = (case AddEdge (ed_Source ed) (ed_Target ed) g of
       Inl err \<Rightarrow> Inl (AddingEdge (ed_Source ed) (ed_Target ed) err)
     | Inr g' \<Rightarrow> Inr g')"

definition resolve_entry :: "GraphDefinition \<Rightarrow> string" where
  "resolve_entry gd =
     (if gd_Entry gd = [] \<and> length (gd_Nodes gd) > 0 then
        (let hasInbound = fold (\<lambda>e. mput (ed_Target e) True) (gd_Edges gd) [];
             entry = (case List.find (\<lambda>nd. \<not> is_set hasInbound (nd_ID nd)) (gd_Nodes gd) of None \<Rightarrow> [] | Some nd \<Rightarrow> nd_ID nd)
         in if entry = [] then nd_ID (gd_Nodes gd ! 0) else entry)
      else gd_Entry gd)"

definition ToGraph :: "(buildConfig \<Rightarrow> buildConfig) list \<Rightarrow> GraphDefinition \<Rightarrow> to_graph_error + BasicGraph" where
  "ToGraph opts gd = (case nodeFactory (fold (\<lambda>opt c. opt c) opts \<lparr>nodeFactory = None\<rparr>) of
       None \<Rightarrow> Inl NoNodeFactory
     | Some factory \<Rightarrow>
         rbind (rfold (add_node_def factory) (gd_Nodes gd) (NewGraph (gd_ID gd))) (\<lambda>g1.
         rbind (rfold add_edge_def (gd_Edges gd) g1) (\<lambda>g2.
           if resolve_entry gd \<noteq> [] then
             (case SetEntry (resolve_entry gd) g2 of Inl err \<Rightarrow> Inl (SettingEntry (resolve_entry gd) err) | Inr g3 \<Rightarrow> Inr g3)
           else Inr g2)))"

end
