(* ===== verification/Agent_Workflow.thy ===== *)
theory Agent_Workflow
  imports Graph_Definition
begin

section \<open>Package agent: workflow schema and validation\<close>

text \<open>
  \<open>agent/schema.go\<close> and \<open>agent/validate.go\<close>. The registry is an argument (the code uses the global one, in which tools
  are registered while the program runs), as is the expression checker. A template reference is found by a
  matcher written for the pattern; the patterns of this package have one way to match at a position, so greedy
  matching is all their engine does. A configuration schema of the Go type \<open>map[string]tool.FieldSpec\<close> is a
  \<open>VStruct\<close> of that name. The messages are kept as format and arguments, as in \<open>Graph_Definition\<close>.
\<close>

record Agent =
  ag_Role :: string
  ag_Goal :: string
  ag_Backstory :: string
  ag_Provider :: string
  ag_Model :: string
  ag_Tools :: "string list"
  ag_ToolConfig :: "val gomap gomap"
  ag_Config :: "val gomap"

record Task =
  tk_Description :: string
  tk_Agent :: string
  tk_ExpectedOutput :: string
  tk_OutputKey :: string
  tk_Inputs :: "string gomap"
  tk_Review :: string
  tk_Context :: "string list"

record TaskDependencies =
  td_DependsOn :: "string list"
  td_Condition :: string

record ExecutionConfig =
  ex_Strategy :: string
  ex_TaskOrder :: "string list"
  ex_MergeStrategy :: string
  ex_ManagerAgent :: string
  ex_Tasks :: "TaskDependencies gomap option"

record AgentWorkflow =
  wf_Version :: string
  wf_SchemaVersion :: string
  wf_Kind :: string
  wf_ID :: string
  wf_Name :: string
  wf_Agents :: "Agent gomap"
  wf_Tasks :: "Task gomap"
  wf_Execution :: ExecutionConfig


subsection \<open>Patterns\<close>

definition alpha_num :: "char \<Rightarrow> bool" where
  "alpha_num c \<longleftrightarrow> between CHR ''a'' CHR ''z'' c \<or> between CHR ''A'' CHR ''Z'' c \<or> between CHR ''0'' CHR ''9'' c \<or> c = CHR ''_''"

definition strip_prefix :: "string \<Rightarrow> string \<Rightarrow> string option" where
  "strip_prefix p s = (if has_prefix s p then Some (drop (length p) s) else None)"

text \<open>The pattern \<open>{{tasks.NAME.REST}}\<close>: the name and what follows the match.\<close>

definition match_task_ref :: "string \<Rightarrow> (string \<times> string) option" where
  "match_task_ref s = (case strip_prefix ''{{tasks.'' s of
       None \<Rightarrow> None
     | Some r \<Rightarrow>
         let name = takeWhile alpha_num r; r1 = dropWhile alpha_num r in
         if name = [] then None
         else (case strip_prefix ''.'' r1 of
                 None \<Rightarrow> None
               | Some r2 \<Rightarrow>
                   let field = takeWhile (\<lambda>c. c \<noteq> CHR 0x7D) r2; r3 = dropWhile (\<lambda>c. c \<noteq> CHR 0x7D) r2 in
                   if field = [] then None
                   else (case strip_prefix ''}}'' r3 of None \<Rightarrow> None | Some r4 \<Rightarrow> Some (name, r4))))"

lemma strip_prefix_length: "strip_prefix p s = Some r \<Longrightarrow> length r \<le> length s \<and> (p \<noteq> [] \<longrightarrow> length r < length s)"
  by (auto simp: strip_prefix_def has_prefix_iff split: if_splits)

lemma match_task_ref_length: "match_task_ref s = Some (n, r) \<Longrightarrow> length r < length s"
proof -
  assume "match_task_ref s = Some (n, r)"
  then obtain a b where a: "strip_prefix ''{{tasks.'' s = Some a" "strip_prefix ''.'' (dropWhile alpha_num a) = Some b"
      "strip_prefix ''}}'' (dropWhile (\<lambda>c. c \<noteq> CHR 0x7D) b) = Some r"
    by (auto simp: match_task_ref_def Let_def split: option.splits if_splits)
  have "length (dropWhile P xs) \<le> length xs" for P and xs :: string by (rule length_dropWhile_le)
  with strip_prefix_length[OF a(1)] strip_prefix_length[OF a(2)] strip_prefix_length[OF a(3)] show ?thesis
    by (meson le_less_trans less_imp_le_nat list.discI order_trans)
qed

function find_task_refs :: "string \<Rightarrow> string list" where
  "find_task_refs s = (case match_task_ref s of
       Some (name, r) \<Rightarrow> name # find_task_refs r
     | None \<Rightarrow> (case s of [] \<Rightarrow> [] | _ # s' \<Rightarrow> find_task_refs s'))"
  by pat_completeness auto
termination by (relation "measure length") (auto dest: match_task_ref_length)

declare find_task_refs.simps [simp del]

text \<open>\<open>extractTaskRefs\<close>: the names in order, each once.\<close>

fun first_occurrences :: "string list \<Rightarrow> string list \<Rightarrow> string list" where
  "first_occurrences seen [] = []"
| "first_occurrences seen (x # xs) = (if x \<in> set seen then first_occurrences seen xs else x # first_occurrences (x # seen) xs)"

definition extractTaskRefs :: "string \<Rightarrow> string list" where
  "extractTaskRefs tmpl = first_occurrences [] (find_task_refs tmpl)"

definition maxIDLength :: nat where "maxIDLength = 64"

definition isValidID :: "string \<Rightarrow> bool" where
  "isValidID i = (if length i = 0 \<or> length i > maxIDLength then False
     else between CHR ''a'' CHR ''z'' (hd i) \<and>
       list_all (\<lambda>c. between CHR ''a'' CHR ''z'' c \<or> between CHR ''0'' CHR ''9'' c \<or> c = CHR ''_'') (tl i))"


subsection \<open>Tool references\<close>

definition parseToolReference :: "string \<Rightarrow> string \<times> string \<times> bool \<times> bool" where
  "parseToolReference ref =
     (if CHR ''.'' \<notin> set ref then (TrimSpace ref, [], False, True)
      else let toolName = TrimSpace (takeWhile (\<lambda>c. c \<noteq> CHR ''.'') ref);
               actionName = TrimSpace (tl (dropWhile (\<lambda>c. c \<noteq> CHR ''.'') ref))
           in if toolName = [] \<or> actionName = [] then (toolName, actionName, True, False) else (toolName, actionName, True, True))"

definition hasAnyActionForTool :: "Registry \<Rightarrow> string \<Rightarrow> bool" where
  "hasAnyActionForTool reg toolName = list_ex (\<lambda>d. nt_IsTool d \<and> has_prefix (nt_Type d) (TrimSpace toolName @ ''.'')) (reg_All reg)"

definition field_spec_map :: string where "field_spec_map = ''map[string]tool.FieldSpec''"

definition extractToolConfigFieldNames :: "val \<Rightarrow> string list" where
  "extractToolConfigFieldNames schema = (case schema of
       VStruct n fs \<Rightarrow> if n = field_spec_map then mkeys fs else []
     | VMap m \<Rightarrow> (case mget m ''tool_config'' of
           Some (VStruct n fs) \<Rightarrow> if n = field_spec_map then mkeys fs else []
         | Some (VMap c) \<Rightarrow> mkeys c
         | _ \<Rightarrow> [])
     | _ \<Rightarrow> [])"

definition errDiag :: "string \<Rightarrow> string \<Rightarrow> msg_arg list \<Rightarrow> string \<Rightarrow> Diagnostic" where
  "errDiag code fmt args path = diag code SeverityError fmt args path"


subsection \<open>Header, identifiers and agents\<close>

definition agent_validateSchemaHeader :: "AgentWorkflow \<Rightarrow> Diagnostic list" where
  "agent_validateSchemaHeader aw =
     (if wf_Kind aw \<noteq> [] then
        (case NormalizeKind (wf_Kind aw) of
           Inl err \<Rightarrow> [errDiag ''AT-014'' ''Invalid workflow kind: %v'' [ArgSchema err] ''kind'']
         | Inr (normalized, _) \<Rightarrow>
             if normalized \<noteq> KindAgent
             then [errDiag ''AT-014'' ''Workflow kind %q is not valid for agent schema (expected %q)'' [ArgStr (wf_Kind aw), ArgStr KindAgent] ''kind'']
             else [])
      else []) @
     (if wf_SchemaVersion aw \<noteq> [] then
        (case ValidateSchemaVersion (wf_SchemaVersion aw) 1 of
           Some err \<Rightarrow> [errDiag ''AT-014'' ''Invalid schema_version: %v'' [ArgSchema err] ''schema_version'']
         | None \<Rightarrow> [])
      else [])"

definition validateIDFormats :: "AgentWorkflow \<Rightarrow> Diagnostic list" where
  "validateIDFormats aw =
     concat (map (\<lambda>i. if \<not> isValidID i then
         [errDiag ''AT-012'' ''Agent ID %q must match [a-z][a-z0-9_]* and be at most 64 characters'' [ArgStr i] (''agents.'' @ i)] else [])
       (mkeys (wf_Agents aw))) @
     concat (map (\<lambda>i. if \<not> isValidID i then
         [errDiag ''AT-012'' ''Task ID %q must match [a-z][a-z0-9_]* and be at most 64 characters'' [ArgStr i] (''tasks.'' @ i)] else [])
       (mkeys (wf_Tasks aw)))"

definition validProviders :: "string list" where
  "validProviders = [''anthropic'', ''openai'', ''google'', ''cohere'', ''mistral'', ''groq'', ''ollama'']"

definition missing :: "string \<Rightarrow> string \<Rightarrow> string \<Rightarrow> string \<Rightarrow> string \<Rightarrow> Diagnostic list" where
  "missing what i path field v =
     (if v = [] then [errDiag ''AT-010'' (what @ '' %q is missing required field %q'') [ArgStr i, ArgStr field] (path @ ''.'' @ field)] else [])"

definition validateAgentRequiredFields :: "string \<Rightarrow> string \<Rightarrow> Agent \<Rightarrow> Diagnostic list" where
  "validateAgentRequiredFields i path ag =
     missing ''Agent'' i path ''role'' (ag_Role ag) @ missing ''Agent'' i path ''goal'' (ag_Goal ag) @
     missing ''Agent'' i path ''provider'' (ag_Provider ag) @ missing ''Agent'' i path ''model'' (ag_Model ag) @
     (if ag_Provider ag \<noteq> [] \<and> ag_Provider ag \<notin> set validProviders
      then [errDiag ''AT-002'' ''Agent %q has invalid provider %q'' [ArgStr i, ArgStr (ag_Provider ag)] (path @ ''.provider'')] else [])"

fun validateAgentTools :: "string \<Rightarrow> string \<Rightarrow> Registry \<Rightarrow> nat \<Rightarrow> string list gomap \<Rightarrow> string list \<Rightarrow> string list gomap \<times> Diagnostic list" where
  "validateAgentTools agentID path reg i refs [] = (refs, [])"
| "validateAgentTools agentID path reg i refs (toolID # tools) =
     (let toolRef = TrimSpace toolID;
          (toolName, actionName, hasAction, valid) = parseToolReference toolRef;
          loc = path @ ''.tools['' @ show_nat i @ '']'';
          fails = (\<lambda>d. map_prod (\<lambda>m. m) ((#) d) (validateAgentTools agentID path reg (Suc i) refs tools));
          adds = (\<lambda>name. validateAgentTools agentID path reg (Suc i) (mput name (slice_at refs name @ [toolRef]) refs) tools)
      in if hasAction \<and> \<not> valid then
           fails (errDiag ''AT-004'' ''Agent %q tool reference %q must use tool_name.action_name'' [ArgStr agentID, ArgStr toolID] loc)
         else if hasAction then
           (case reg_Get reg toolRef of
              Some def \<Rightarrow> if nt_IsTool def then adds toolName
                else fails (if hasAnyActionForTool reg toolName
                  then errDiag ''AT-004'' ''Agent %q references unknown action %q on tool %q'' [ArgStr agentID, ArgStr actionName, ArgStr toolName] loc
                  else errDiag ''AT-004'' ''Agent %q references unknown tool %q'' [ArgStr agentID, ArgStr toolName] loc)
            | None \<Rightarrow> fails (if hasAnyActionForTool reg toolName
                  then errDiag ''AT-004'' ''Agent %q references unknown action %q on tool %q'' [ArgStr agentID, ArgStr actionName, ArgStr toolName] loc
                  else errDiag ''AT-004'' ''Agent %q references unknown tool %q'' [ArgStr agentID, ArgStr toolName] loc))
         else if \<not> HasTool reg toolRef then
           fails (errDiag ''AT-004'' ''Agent %q references unknown tool %q'' [ArgStr agentID, ArgStr toolID] loc)
         else adds toolRef)"

fun validateAgentToolConfig :: "string \<Rightarrow> string \<Rightarrow> string list gomap \<Rightarrow> Registry \<Rightarrow> val gomap gomap \<Rightarrow> Diagnostic list" where
  "validateAgentToolConfig agentID path refs reg [] = []"
| "validateAgentToolConfig agentID path refs reg ((toolName, overrides) # cs) =
     (if length overrides = 0 then []
      else
        let referenced0 = slice_at refs toolName;
            referenced = (if length referenced0 = 0 \<and> HasTool reg toolName then [toolName] else referenced0)
        in if length referenced = 0
           then [errDiag ''AT-004'' ''Agent %q tool_config references unknown tool %q'' [ArgStr agentID, ArgStr toolName] (path @ ''.tool_config.'' @ toolName)]
           else
             let allowed = concat (map (\<lambda>ref. case reg_Get reg ref of None \<Rightarrow> [] | Some def \<Rightarrow> extractToolConfigFieldNames (nt_ConfigSchema def)) referenced)
             in concat (map (\<lambda>key. if key \<in> set allowed then []
                  else [errDiag ''AT-004'' ''Agent %q tool_config field %q is not declared for tool %q'' [ArgStr agentID, ArgStr key, ArgStr toolName]
                    (path @ ''.tool_config.'' @ toolName @ ''.'' @ key)]) (mkeys overrides))) @
     validateAgentToolConfig agentID path refs reg cs"

fun validateAgents :: "Registry \<Rightarrow> Agent gomap \<Rightarrow> Diagnostic list" where
  "validateAgents reg [] = []"
| "validateAgents reg ((i, ag) # as) =
     (let path = ''agents.'' @ i;
          (refs, toolDiags) = validateAgentTools i path reg 0 [] (ag_Tools ag)
      in validateAgentRequiredFields i path ag @ toolDiags @ validateAgentToolConfig i path refs reg (ag_ToolConfig ag)) @
     validateAgents reg as"


subsection \<open>Tasks\<close>

definition validateTaskRequiredFields :: "string \<Rightarrow> string \<Rightarrow> Task \<Rightarrow> Diagnostic list" where
  "validateTaskRequiredFields i path t =
     missing ''Task'' i path ''description'' (tk_Description t) @ missing ''Task'' i path ''agent'' (tk_Agent t) @
     missing ''Task'' i path ''expected_output'' (tk_ExpectedOutput t)"

definition validateTaskAgentReference :: "AgentWorkflow \<Rightarrow> string \<Rightarrow> string \<Rightarrow> Task \<Rightarrow> Diagnostic list" where
  "validateTaskAgentReference aw i path t =
     (if tk_Agent t = [] then []
      else if mget (wf_Agents aw) (tk_Agent t) \<noteq> None then []
      else [errDiag ''AT-001'' ''Task %q references undefined agent %q'' [ArgStr i, ArgStr (tk_Agent t)] (path @ ''.agent'')])"

definition validateTaskInputReferences :: "AgentWorkflow \<Rightarrow> string \<Rightarrow> string \<Rightarrow> Task \<Rightarrow> Diagnostic list" where
  "validateTaskInputReferences aw i path t =
     concat (map (\<lambda>(param, tmpl). concat (map (\<lambda>ref. if mget (wf_Tasks aw) ref \<noteq> None then []
         else [errDiag ''AT-008'' ''Unresolved reference %q in task %q'' [ArgStr tmpl, ArgStr i] (path @ ''.inputs.'' @ param)])
       (extractTaskRefs tmpl))) (tk_Inputs t))"

fun validateTaskContextReferences :: "AgentWorkflow \<Rightarrow> string \<Rightarrow> string \<Rightarrow> nat \<Rightarrow> string list \<Rightarrow> Diagnostic list" where
  "validateTaskContextReferences aw i path j [] = []"
| "validateTaskContextReferences aw i path j (ref # refs) =
     (if mget (wf_Tasks aw) ref \<noteq> None then []
      else [errDiag ''AT-008'' ''Task %q context references undefined task %q'' [ArgStr i, ArgStr ref] (path @ ''.context['' @ show_nat j @ '']'')]) @
     validateTaskContextReferences aw i path (Suc j) refs"

definition validateTasks :: "AgentWorkflow \<Rightarrow> Diagnostic list" where
  "validateTasks aw = concat (map (\<lambda>(i, t). let path = ''tasks.'' @ i in
     validateTaskRequiredFields i path t @ validateTaskAgentReference aw i path t @
     validateTaskInputReferences aw i path t @ validateTaskContextReferences aw i path 0 (tk_Context t)) (wf_Tasks aw))"


subsection \<open>Execution\<close>

definition validStrategies :: "string list" where
  "validStrategies = [''sequential'', ''parallel'', ''hierarchical'', ''custom'']"

definition validateExecutionStrategy :: "AgentWorkflow \<Rightarrow> string \<times> Diagnostic list" where
  "validateExecutionStrategy aw = (let strategy = ex_Strategy (wf_Execution aw) in
     (strategy,
      if strategy = [] then [errDiag ''AT-010'' ''Execution strategy is required'' [] ''execution.strategy'']
      else if strategy \<notin> set validStrategies
      then [errDiag ''AT-005'' ''Invalid execution strategy %q (must be sequential, parallel, hierarchical, or custom)'' [ArgStr strategy] ''execution.strategy'']
      else []))"

definition validateSequential :: "AgentWorkflow \<Rightarrow> Diagnostic list" where
  "validateSequential aw = (let order = ex_TaskOrder (wf_Execution aw) in
     if length order = 0
     then [errDiag ''AT-006'' ''Sequential strategy requires %q listing all task IDs'' [ArgStr ''task_order''] ''execution.task_order'']
     else concat (map (\<lambda>i. if mget (wf_Tasks aw) i = None
              then [errDiag ''AT-006'' ''task_order references undefined task %q'' [ArgStr i] ''execution.task_order''] else []) order) @
          concat (map (\<lambda>i. if i \<notin> set order
              then [errDiag ''AT-006'' ''Task %q is not listed in task_order'' [ArgStr i] ''execution.task_order''] else []) (mkeys (wf_Tasks aw))))"

text \<open>The pairs (task, dependency) in the order of the loops, and those whose dependency is defined.\<close>

definition dep_pairs :: "TaskDependencies gomap \<Rightarrow> (string \<times> string) list" where
  "dep_pairs ts = concat (map (\<lambda>(i, d). map (\<lambda>dep. (i, dep)) (td_DependsOn d)) ts)"

definition known_deps :: "AgentWorkflow \<Rightarrow> TaskDependencies gomap \<Rightarrow> (string \<times> string) list" where
  "known_deps aw ts = filter (\<lambda>(i, dep). mget (wf_Tasks aw) dep \<noteq> None) (dep_pairs ts)"

definition dep_inDegree :: "AgentWorkflow \<Rightarrow> TaskDependencies gomap \<Rightarrow> int gomap" where
  "dep_inDegree aw ts = fold (\<lambda>(i, dep) d. mput i (deg d i + 1) d) (known_deps aw ts) (fold (\<lambda>i d. mput i 0 d) (mkeys (wf_Tasks aw)) [])"

definition dep_successors :: "AgentWorkflow \<Rightarrow> TaskDependencies gomap \<Rightarrow> string list gomap" where
  "dep_successors aw ts = fold (\<lambda>(i, dep) m. mput dep (slice_at m dep @ [i]) m) (known_deps aw ts) []"

definition validateCustom :: "ExprValidator option \<Rightarrow> AgentWorkflow \<Rightarrow> Diagnostic list" where
  "validateCustom validator aw = (case ex_Tasks (wf_Execution aw) of
       None \<Rightarrow> []
     | Some ts \<Rightarrow>
         concat (map (\<lambda>(i, dep). if mget (wf_Tasks aw) dep = None
           then [errDiag ''AT-008'' ''Task %q depends_on references undefined task %q'' [ArgStr i, ArgStr dep] (''execution.tasks.'' @ i @ ''.depends_on'')]
           else []) (dep_pairs ts)) @
         (case kahn (slice_at (dep_successors aw ts)) (dep_inDegree aw ts) (mkeys (wf_Tasks aw)) of
            (d, visited) \<Rightarrow>
              if length visited < length (wf_Tasks aw)
              then [errDiag ''AT-007'' ''Dependency cycle detected involving tasks: %v'' [ArgStrs (filter (\<lambda>i. 0 < deg d i) (mkeys (wf_Tasks aw)))] ''execution.tasks'']
              else []) @
         concat (map (\<lambda>(i, d). if td_Condition d = [] then []
           else case validator of
                  None \<Rightarrow> []
                | Some v \<Rightarrow> (case v (td_Condition d) of
                      None \<Rightarrow> []
                    | Some err \<Rightarrow> [errDiag ''AT-013'' ''Task %q has invalid condition expression: %v'' [ArgStr i, ArgErr err] (''execution.tasks.'' @ i @ ''.condition'')]))
           ts))"

definition validateOrphanTasks :: "AgentWorkflow \<Rightarrow> Diagnostic list" where
  "validateOrphanTasks aw =
     (if ex_Strategy (wf_Execution aw) \<noteq> ''custom'' then []
      else let referenced = (case ex_Tasks (wf_Execution aw) of None \<Rightarrow> [] | Some ts \<Rightarrow> concat (map (\<lambda>(i, d). i # td_DependsOn d) ts))
           in concat (map (\<lambda>i. if i \<notin> set referenced
                then [errDiag ''AT-009'' ''Task %q is not referenced in execution block'' [ArgStr i] (''tasks.'' @ i)] else []) (mkeys (wf_Tasks aw))))"

definition agent_Validate :: "ExprValidator option \<Rightarrow> Registry \<Rightarrow> AgentWorkflow option \<Rightarrow> Diagnostic list" where
  "agent_Validate validator reg awp = (case awp of
       None \<Rightarrow> [errDiag ''AT-010'' ''workflow is nil'' [] []]
     | Some aw \<Rightarrow>
         (let (strategy, strategyDiags) = validateExecutionStrategy aw in
          agent_validateSchemaHeader aw @ validateIDFormats aw @ validateAgents reg (wf_Agents aw) @ validateTasks aw @ strategyDiags @
          (if strategy = ''sequential'' then validateSequential aw
           else if strategy = ''custom'' then validateCustom validator aw else []) @
          validateOrphanTasks aw))"

end
