(* ===== verification/Definition_Correct.thy ===== *)
theory Definition_Correct
  imports Graph_Definition
begin

section \<open>Correctness of graph definitions\<close>

text \<open>
  What \<open>GraphDefinition.Validate\<close> and \<open>ValidateWithRegistry\<close> accept, that cycle detection is right (through the
  locale \<open>Kahn.kahn_graph\<close>), and that \<open>ToGraph\<close> builds the graph an accepted definition describes.
\<close>


subsection \<open>What structural validation accepts\<close>

lemma HasErrors_append [simp]: "diag_HasErrors (ds @ es) \<longleftrightarrow> diag_HasErrors ds \<or> diag_HasErrors es"
  by (induction ds) auto

lemma diag_simps [simp]:
  "dg_Severity (diag c s f as p) = s" "dg_Code (diag c s f as p) = c" "SeverityWarning \<noteq> SeverityError"
  by (simp_all add: diag_def SeverityError_def SeverityWarning_def)

lemma hasEdgeRefErrors_append [simp]: "hasEdgeRefErrors (ds @ es) \<longleftrightarrow> hasEdgeRefErrors ds \<or> hasEdgeRefErrors es"
  by (induction ds) auto

lemma is_set_mput [simp]: "is_set (mput k b m) j \<longleftrightarrow> (if j = k then b else is_set m j)"
  by (simp add: is_set_def)

lemma duplicate_ids_set: "is_set (snd (duplicate_ids i ids ns)) k \<longleftrightarrow> is_set ids k \<or> k \<in> nd_ID ` set ns"
  by (induction i ids ns rule: duplicate_ids.induct) (auto simp: is_set_def)

lemma duplicate_ids_errors:
  "diag_HasErrors (fst (duplicate_ids i ids ns)) \<longleftrightarrow> \<not> (distinct (map nd_ID ns) \<and> (\<forall>n \<in> set ns. \<not> is_set ids (nd_ID n)))"
proof (induction i ids ns rule: duplicate_ids.induct)
  case (2 i ids n ns)
  have "diag_HasErrors (fst (duplicate_ids i ids (n # ns))) \<longleftrightarrow>
      is_set ids (nd_ID n) \<or> diag_HasErrors (fst (duplicate_ids (Suc i) (mput (nd_ID n) True ids) ns))"
    by simp
  moreover have "(\<forall>m \<in> set ns. \<not> is_set (mput (nd_ID n) True ids) (nd_ID m)) \<longleftrightarrow>
      nd_ID n \<notin> nd_ID ` set ns \<and> (\<forall>m \<in> set ns. \<not> is_set ids (nd_ID m))"
    unfolding is_set_mput image_iff by metis
  ultimately show ?case unfolding 2 by auto
qed simp

lemma duplicate_ids_refs: "\<not> hasEdgeRefErrors (fst (duplicate_ids i ids ns))"
  by (induction i ids ns rule: duplicate_ids.induct) auto

lemma edge_refs_errors:
  "diag_HasErrors (edge_refs i ids es) \<longleftrightarrow> (\<exists>e \<in> set es. \<not> is_set ids (ed_Source e) \<or> \<not> is_set ids (ed_Target e))"
  "hasEdgeRefErrors (edge_refs i ids es) \<longleftrightarrow> (\<exists>e \<in> set es. \<not> is_set ids (ed_Source e) \<or> \<not> is_set ids (ed_Target e))"
  by (induction i ids es rule: edge_refs.induct) auto

lemma orphans_errors: "\<not> diag_HasErrors (orphans i inb outb ns)" "\<not> hasEdgeRefErrors (orphans i inb outb ns)"
  by (induction i inb outb ns rule: orphans.induct) auto

definition header_ok :: "GraphDefinition \<Rightarrow> bool" where
  "header_ok gd \<longleftrightarrow> (gd_Kind gd = [] \<or> NormalizeKind (gd_Kind gd) = Inr (KindGraph, False)) \<and>
     (gd_SchemaVersion gd = [] \<or> ValidateSchemaVersion (gd_SchemaVersion gd) 1 = None)"

lemma NormalizeKind_graph: "NormalizeKind k = Inr (KindGraph, b) \<Longrightarrow> \<not> b"
  by (auto simp: NormalizeKind_def Let_def KindGraph_def KindAgent_def split: if_splits)

lemma header_errors: "diag_HasErrors (validateSchemaHeader gd) \<longleftrightarrow> \<not> header_ok gd" "\<not> hasEdgeRefErrors (validateSchemaHeader gd)"
  by (auto simp: validateSchemaHeader_def header_ok_def dest: NormalizeKind_graph split: sum.split option.split)

definition condition_ok :: "ExprValidator option \<Rightarrow> val \<Rightarrow> bool" where
  "condition_ok validator c \<longleftrightarrow> (\<forall>m. as_map c = Some m \<longrightarrow> \<not> reservedPort (str_field m ''name'') \<and>
     (\<forall>v. validator = Some v \<longrightarrow> str_field m ''expression'' = [] \<or> v (str_field m ''expression'') = None))"

definition conditional_ok :: "ExprValidator option \<Rightarrow> NodeDef \<Rightarrow> bool" where
  "conditional_ok validator n \<longleftrightarrow> nd_Type n = ''conditional'' \<longrightarrow>
     (\<exists>cs. mget (nd_Config n) ''conditions'' = Some (VList cs) \<and> cs \<noteq> [] \<and> list_all (condition_ok validator) cs)"

lemma conditions_errors: "diag_HasErrors (validate_conditions validator es nid p j cs) \<longleftrightarrow> \<not> list_all (condition_ok validator) cs"
  by (induction validator es nid p j cs rule: validate_conditions.induct)
    (auto simp: condition_ok_def Let_def split: option.splits)

lemma conditional_errors_at:
  assumes "nd_Type n = ''conditional''"
  shows "diag_HasErrors (validate_conditional validator es i n) \<longleftrightarrow> \<not> conditional_ok validator n"
proof (cases "mget (nd_Config n) ''conditions''")
  case None
  then show ?thesis using assms by (simp add: validate_conditional_def conditional_ok_def)
next
  case (Some v)
  show ?thesis
  proof (cases "as_list v")
    case None
    then have "v \<noteq> VList cs" for cs by auto
    with Some None assms show ?thesis by (simp add: validate_conditional_def conditional_ok_def)
  next
    case (Some cs)
    with \<open>mget (nd_Config n) ''conditions'' = Some v\<close> assms show ?thesis
      by (cases "cs = []") (simp_all add: validate_conditional_def conditional_ok_def conditions_errors Let_def)
  qed
qed

lemma conditional_errors:
  "diag_HasErrors (validateConditionalNodes validator es i ns) \<longleftrightarrow> \<not> list_all (conditional_ok validator) ns"
proof (induction validator es i ns rule: validateConditionalNodes.induct)
  case (2 validator es i n ns)
  show ?case
  proof (cases "nd_Type n = ''conditional''")
    case True
    then show ?thesis using 2 conditional_errors_at[OF True] by simp
  next
    case False
    then have "conditional_ok validator n" by (simp add: conditional_ok_def)
    then show ?thesis using 2 False by simp
  qed
qed simp


subsection \<open>Cycle detection\<close>

definition def_ok :: "GraphDefinition \<Rightarrow> bool" where
  "def_ok gd \<longleftrightarrow> distinct (map nd_ID (gd_Nodes gd)) \<and>
     (\<forall>e \<in> set (gd_Edges gd). ed_Source e \<in> nd_ID ` set (gd_Nodes gd) \<and> ed_Target e \<in> nd_ID ` set (gd_Nodes gd))"

definition def_rel :: "GraphDefinition \<Rightarrow> (string \<times> string) set" where
  "def_rel gd = (\<lambda>e. (ed_Source e, ed_Target e)) ` set (gd_Edges gd)"

lemma count_edges: "deg (fold (\<lambda>e d. mput (ed_Target e) (deg d (ed_Target e) + 1) d) es d) v =
    deg d v + int (length (filter (\<lambda>e. ed_Target e = v) es))"
  by (induction es arbitrary: d) auto

lemma zero_nodes: "deg (fold (\<lambda>n d. mput (nd_ID n) 0 d) ns []) v = 0"
proof -
  have "deg d v = 0 \<Longrightarrow> deg (fold (\<lambda>n d. mput (nd_ID n) 0 d) ns d) v = 0" for d by (induction ns arbitrary: d) auto
  then show ?thesis by (simp add: deg_def)
qed

lemma def_inDegree_deg: "deg (def_inDegree gd) v = int (length (filter (\<lambda>e. ed_Target e = v) (gd_Edges gd)))"
  by (simp add: def_inDegree_def count_edges zero_nodes)

lemma def_successors_at: "slice_at (def_successors gd) u = map ed_Target (filter (\<lambda>e. ed_Source e = u) (gd_Edges gd))"
proof -
  have "slice_at (fold (\<lambda>e m. mput (ed_Source e) (slice_at m (ed_Source e) @ [ed_Target e]) m) es m) u =
      slice_at m u @ map ed_Target (filter (\<lambda>e. ed_Source e = u) es)" for es m
    by (induction es arbitrary: m) auto
  from this[of "gd_Edges gd" "[]"] show ?thesis by (simp add: def_successors_def slice_at_def[of "[]"])
qed

definition plain_edges :: "GraphDefinition \<Rightarrow> Edge list" where
  "plain_edges gd = map (\<lambda>e. Edge (ed_Source e) (ed_Target e)) (gd_Edges gd)"

interpretation defs: kahn_graph def_ok "\<lambda>gd. map nd_ID (gd_Nodes gd)" "\<lambda>gd. slice_at (def_successors gd)" def_inDegree
proof unfold_locales
  fix gd u v
  assume ok: "def_ok gd"
  show "distinct (map nd_ID (gd_Nodes gd))" using ok by (simp add: def_ok_def)
  show "set (slice_at (def_successors gd) u) \<subseteq> set (map nd_ID (gd_Nodes gd))"
    using ok by (auto simp: def_ok_def def_successors_at)
  have s: "slice_at (def_successors gd) w = map To (filter (\<lambda>e. From e = w) (plain_edges gd))" for w
    by (simp add: def_successors_at plain_edges_def filter_map comp_def)
  have "deg (def_inDegree gd) v = int (length (filter (\<lambda>e. To e = v) (plain_edges gd)))"
    by (simp add: def_inDegree_deg plain_edges_def filter_map comp_def)
  also have "\<dots> = int (\<Sum>u \<leftarrow> map nd_ID (gd_Nodes gd). length (filter (\<lambda>e. To e = v \<and> From e = u) (plain_edges gd)))"
    by (subst length_filter_by_source[of "map nd_ID (gd_Nodes gd)"]) (use ok in \<open>auto simp: def_ok_def plain_edges_def\<close>)
  also have "\<dots> = (\<Sum>u \<leftarrow> map nd_ID (gd_Nodes gd). int (count_list (slice_at (def_successors gd) u) v))"
    unfolding s count_list_map_To int_sum_list ..
  finally show "deg (def_inDegree gd) v = (\<Sum>u \<leftarrow> map nd_ID (gd_Nodes gd). int (count_list (slice_at (def_successors gd) u) v))" .
qed

lemma defs_E: assumes "def_ok gd" shows "defs.E gd = def_rel gd"
proof -
  have "(u, v) \<in> defs.E gd \<longleftrightarrow> (u, v) \<in> def_rel gd" for u v
  proof -
    have m: "v \<in> set (slice_at (def_successors gd) u) \<longleftrightarrow> (\<exists>e \<in> set (gd_Edges gd). ed_Source e = u \<and> ed_Target e = v)"
      by (auto simp: def_successors_at)
    moreover have "(u, v) \<in> def_rel gd \<longleftrightarrow> (\<exists>e \<in> set (gd_Edges gd). ed_Source e = u \<and> ed_Target e = v)"
      unfolding def_rel_def by force
    ultimately show ?thesis unfolding defs.E_def using assms by (auto simp: def_ok_def)
  qed
  then show ?thesis by auto
qed

lemma detectCycle_iff:
  assumes "def_ok gd" shows "detectCycle gd = None \<longleftrightarrow> acyclic (def_rel gd)"
proof -
  obtain d visited where k: "kahn (slice_at (def_successors gd)) (def_inDegree gd) (map nd_ID (gd_Nodes gd)) = (d, visited)" by force
  have dis: "distinct (map nd_ID (gd_Nodes gd))" using assms by (simp add: def_ok_def)
  note kc = defs.kahn_correct[OF assms dis refl k, unfolded defs_E[OF assms]]
  have "length visited \<le> length (gd_Nodes gd)" using kc(1,2) dis by (metis card_mono distinct_card length_map List.finite_set)
  with kc(4) show ?thesis by (auto simp: detectCycle_def k)
qed


subsection \<open>What validation accepts\<close>

definition well_formed :: "ExprValidator option \<Rightarrow> GraphDefinition \<Rightarrow> bool" where
  "well_formed validator gd \<longleftrightarrow> header_ok gd \<and> def_ok gd \<and>
     (gd_Entry gd = [] \<or> gd_Entry gd \<in> nd_ID ` set (gd_Nodes gd)) \<and> acyclic (def_rel gd) \<and>
     list_all (conditional_ok validator) (gd_Nodes gd)"

lemma Validate_errors: "diag_HasErrors (gd_Validate validator gd) \<longleftrightarrow> \<not> well_formed validator gd"
proof -
  obtain dups ids where d: "duplicate_ids 0 [] (gd_Nodes gd) = (dups, ids)" by force
  have ids: "is_set ids k \<longleftrightarrow> k \<in> nd_ID ` set (gd_Nodes gd)" for k
    using duplicate_ids_set[of 0 "[]" "gd_Nodes gd" k] d by (simp add: is_set_def)
  have dups: "diag_HasErrors dups \<longleftrightarrow> \<not> distinct (map nd_ID (gd_Nodes gd))" "\<not> hasEdgeRefErrors dups"
    using duplicate_ids_errors[of 0 "[]" "gd_Nodes gd"] duplicate_ids_refs[of 0 "[]" "gd_Nodes gd"] d by (simp_all add: is_set_def)
  let ?refs = "\<forall>e \<in> set (gd_Edges gd). ed_Source e \<in> nd_ID ` set (gd_Nodes gd) \<and> ed_Target e \<in> nd_ID ` set (gd_Nodes gd)"
  have "diag_HasErrors (gd_Validate validator gd) \<longleftrightarrow>
      \<not> header_ok gd \<or> \<not> distinct (map nd_ID (gd_Nodes gd)) \<or> \<not> ?refs \<or>
      (gd_Entry gd \<noteq> [] \<and> gd_Entry gd \<notin> nd_ID ` set (gd_Nodes gd)) \<or> (?refs \<and> detectCycle gd \<noteq> None) \<or>
      \<not> list_all (conditional_ok validator) (gd_Nodes gd)"
    unfolding gd_Validate_def d Let_def prod.case
    by (auto simp: header_errors dups edge_refs_errors orphans_errors ids conditional_errors split: option.split)
  then show ?thesis using detectCycle_iff[of gd] by (auto simp: well_formed_def def_ok_def)
qed

text \<open>
  C14: Structural validation accepts exactly the well-formed definitions: kind and schema version are supported,
  node IDs are distinct, edges and the entry refer to nodes, the edges have no cycle, and every conditional node
  has a non-empty list of conditions without reserved names or expressions the checker rejects.
\<close>

theorem Validate_iff:
  "\<not> diag_HasErrors (gd_Validate validator gd) \<longleftrightarrow>
     header_ok gd \<and> distinct (map nd_ID (gd_Nodes gd)) \<and>
     (\<forall>e \<in> set (gd_Edges gd). ed_Source e \<in> nd_ID ` set (gd_Nodes gd) \<and> ed_Target e \<in> nd_ID ` set (gd_Nodes gd)) \<and>
     (gd_Entry gd = [] \<or> gd_Entry gd \<in> nd_ID ` set (gd_Nodes gd)) \<and>
     acyclic ((\<lambda>e. (ed_Source e, ed_Target e)) ` set (gd_Edges gd)) \<and>
     list_all (conditional_ok validator) (gd_Nodes gd)"
  unfolding Validate_errors well_formed_def def_ok_def def_rel_def by blast

definition demo_def :: GraphDefinition where
  "demo_def = \<lparr>gd_ID = ''demo'', gd_Version = ''1'', gd_SchemaVersion = ''1.0.0'', gd_Kind = ''graph'', gd_Metadata = [],
     gd_Nodes = [\<lparr>nd_ID = ''b'', nd_Type = ''noop'', nd_Config = []\<rparr>, \<lparr>nd_ID = ''a'', nd_Type = ''gate'', nd_Config = []\<rparr>],
     gd_Edges = [\<lparr>ed_Source = ''a'', ed_SourceHandle = ''output'', ed_Target = ''b'', ed_TargetHandle = ''input''\<rparr>], gd_Entry = []\<rparr>"

lemma demo_valid: "\<not> diag_HasErrors (gd_Validate None demo_def)"
  by code_simp

theorem Validate_iff_witness:
  "\<not> diag_HasErrors (gd_Validate None demo_def) \<and>
   acyclic ((\<lambda>e. (ed_Source e, ed_Target e)) ` set (gd_Edges demo_def)) \<and>
   distinct (map nd_ID (gd_Nodes demo_def))"
  using Validate_iff[of None demo_def] demo_valid by blast

definition usable_type :: "Registry \<Rightarrow> NodeDef \<Rightarrow> bool" where
  "usable_type reg n \<longleftrightarrow> (\<exists>d. reg_Get reg (nd_Type n) = Some d \<and> \<not> (nt_IsTool d \<and> nt_ToolMode d = ''function_call''))"

lemma node_types_errors:
  "diag_HasErrors (fst (node_types reg i byID defs ns)) \<longleftrightarrow> \<not> list_all (usable_type reg) ns"
  by (induction reg i byID defs ns rule: node_types.induct) (auto simp: usable_type_def Let_def split: option.splits)

lemma node_types_maps:
  assumes "distinct (map nd_ID ns)" "list_all (usable_type reg) ns" "node_types reg i byID defs ns = (ds, byID', defs')"
  shows "mget byID' k = (case List.find (\<lambda>n. nd_ID n = k) ns of Some n \<Rightarrow> Some n | None \<Rightarrow> mget byID k)"
    "mget defs' k = (case List.find (\<lambda>n. nd_ID n = k) ns of Some n \<Rightarrow> reg_Get reg (nd_Type n) | None \<Rightarrow> mget defs k)"
proof -
  have none: "List.find (\<lambda>m. nd_ID m = nd_ID n) ns = None" if "nd_ID n \<notin> nd_ID ` set ns" for n ns
    using that unfolding find_None_iff by force
  have "mget byID' k = (case List.find (\<lambda>n. nd_ID n = k) ns of Some n \<Rightarrow> Some n | None \<Rightarrow> mget byID k) \<and>
      mget defs' k = (case List.find (\<lambda>n. nd_ID n = k) ns of Some n \<Rightarrow> reg_Get reg (nd_Type n) | None \<Rightarrow> mget defs k)"
    using assms
  proof (induction reg i byID defs ns arbitrary: ds byID' defs' rule: node_types.induct)
    case (2 reg i byID defs n ns)
    obtain d where d: "reg_Get reg (nd_Type n) = Some d" using "2.prems"(2) by (auto simp: usable_type_def)
    obtain es where r: "node_types reg (Suc i) (mput (nd_ID n) n byID) (mput (nd_ID n) d defs) ns = (es, byID', defs')"
      using "2.prems"(3) d by (cases "node_types reg (Suc i) (mput (nd_ID n) n byID) (mput (nd_ID n) d defs) ns") (simp add: Let_def)
    have pre: "distinct (map nd_ID ns)" "list_all (usable_type reg) ns" using "2.prems" by auto
    from "2.IH"(2)[OF refl d pre r] d "2.prems"(1) none[of n ns] show ?case
      by (cases "k = nd_ID n") (auto split: option.split)
  qed simp
  then show "mget byID' k = (case List.find (\<lambda>n. nd_ID n = k) ns of Some n \<Rightarrow> Some n | None \<Rightarrow> mget byID k)"
    "mget defs' k = (case List.find (\<lambda>n. nd_ID n = k) ns of Some n \<Rightarrow> reg_Get reg (nd_Type n) | None \<Rightarrow> mget defs k)" by blast+
qed

definition bad_handle :: "NodeDef option \<Rightarrow> NodeTypeDef option \<Rightarrow> EdgeDef \<Rightarrow> bool" where
  "bad_handle n d e \<longleftrightarrow> ed_SourceHandle e \<noteq> [] \<and>
     (\<exists>m t. n = Some m \<and> nd_Type m \<noteq> ''conditional'' \<and> d = Some t \<and> \<not> hasPortName (ps_Outputs (nt_Ports t)) (ed_SourceHandle e))"

lemma source_handles_errors:
  "diag_HasErrors (source_handles byID defs i es) \<longleftrightarrow> list_ex (\<lambda>e. bad_handle (mget byID (ed_Source e)) (mget defs (ed_Source e)) e) es"
  by (induction byID defs i es rule: source_handles.induct) (auto simp: bad_handle_def split: option.splits)

lemma webhook_errors:
  "diag_HasErrors (webhook_inbound counts i ns) \<longleftrightarrow> (\<exists>n \<in> set ns. nd_Type n = ''webhook_trigger'' \<and> 0 < deg counts (nd_ID n))"
  by (induction counts i ns rule: webhook_inbound.induct) auto

definition handles_ok :: "Registry \<Rightarrow> GraphDefinition \<Rightarrow> bool" where
  "handles_ok reg gd \<longleftrightarrow> (\<forall>e \<in> set (gd_Edges gd). \<forall>n \<in> set (gd_Nodes gd). nd_ID n = ed_Source e \<longrightarrow>
     \<not> bad_handle (Some n) (reg_Get reg (nd_Type n)) e)"

definition triggers_ok :: "GraphDefinition \<Rightarrow> bool" where
  "triggers_ok gd \<longleftrightarrow> (\<forall>n \<in> set (gd_Nodes gd). nd_Type n = ''webhook_trigger'' \<longrightarrow> (\<forall>e \<in> set (gd_Edges gd). ed_Target e \<noteq> nd_ID n))"

lemma find_node:
  assumes "distinct (map nd_ID ns)" "n \<in> set ns" shows "List.find (\<lambda>m. nd_ID m = nd_ID n) ns = Some n"
  using assms by (induction ns) auto

lemma handles_errors:
  assumes "def_ok gd" "list_all (usable_type reg) (gd_Nodes gd)" "node_types reg 0 [] [] (gd_Nodes gd) = (ds, byID, defs)"
  shows "diag_HasErrors (source_handles byID defs 0 (gd_Edges gd)) \<longleftrightarrow> \<not> handles_ok reg gd"
proof -
  have dis: "distinct (map nd_ID (gd_Nodes gd))" using assms(1) by (simp add: def_ok_def)
  have at: "mget byID (nd_ID n) = Some n \<and> mget defs (nd_ID n) = reg_Get reg (nd_Type n)" if "n \<in> set (gd_Nodes gd)" for n
    using node_types_maps[OF dis assms(2,3), of "nd_ID n"] find_node[OF dis that] by simp
  have "bad_handle (mget byID (ed_Source e)) (mget defs (ed_Source e)) e \<longleftrightarrow>
      (\<exists>n \<in> set (gd_Nodes gd). nd_ID n = ed_Source e \<and> bad_handle (Some n) (reg_Get reg (nd_Type n)) e)"
    if e: "e \<in> set (gd_Edges gd)" for e
  proof -
    obtain n where n: "n \<in> set (gd_Nodes gd)" "nd_ID n = ed_Source e" using assms(1) e unfolding def_ok_def by force
    then have u: "m = n" if "m \<in> set (gd_Nodes gd)" "nd_ID m = ed_Source e" for m
      using find_node[OF dis that(1)] find_node[OF dis n(1)] that(2) by simp
    have "bad_handle (mget byID (ed_Source e)) (mget defs (ed_Source e)) e \<longleftrightarrow> bad_handle (Some n) (reg_Get reg (nd_Type n)) e"
      using at[OF n(1)] n(2) by simp
    then show ?thesis using n u by blast
  qed
  then show ?thesis by (auto simp: source_handles_errors handles_ok_def list_ex_iff)
qed

text \<open>
  C15: Validation against a registry is a type check. It accepts exactly the well-formed definitions in which
  every node has a registered type that is not a function-call tool, every named source handle of a
  non-conditional node is an output port of its type, and no edge leads into a webhook trigger.
\<close>

theorem ValidateWithRegistry_iff:
  "\<not> diag_HasErrors (ValidateWithRegistry validator (Some reg) gd) \<longleftrightarrow>
     well_formed validator gd \<and>
     (\<forall>n \<in> set (gd_Nodes gd). \<exists>d. reg_Get reg (nd_Type n) = Some d \<and> \<not> (nt_IsTool d \<and> nt_ToolMode d = ''function_call'')) \<and>
     (\<forall>e \<in> set (gd_Edges gd). \<forall>n \<in> set (gd_Nodes gd). nd_ID n = ed_Source e \<longrightarrow>
        \<not> bad_handle (Some n) (reg_Get reg (nd_Type n)) e) \<and>
     (\<forall>n \<in> set (gd_Nodes gd). nd_Type n = ''webhook_trigger'' \<longrightarrow> (\<forall>e \<in> set (gd_Edges gd). ed_Target e \<noteq> nd_ID n))"
proof -
  obtain ds byID defs where t: "node_types reg 0 [] [] (gd_Nodes gd) = (ds, byID, defs)" by (cases "node_types reg 0 [] [] (gd_Nodes gd)") auto
  have types: "diag_HasErrors ds \<longleftrightarrow> \<not> list_all (usable_type reg) (gd_Nodes gd)"
    using node_types_errors[of reg 0 "[]" "[]" "gd_Nodes gd"] t by simp
  let ?counts = "fold (\<lambda>e d. mput (ed_Target e) (deg d (ed_Target e) + 1) d) (gd_Edges gd) []"
  have "0 < deg ?counts v \<longleftrightarrow> (\<exists>e \<in> set (gd_Edges gd). ed_Target e = v)" for v
    by (auto simp: count_edges deg_def[of "[]"] filter_empty_conv simp flip: length_greater_0_conv)
  then have hooks: "diag_HasErrors (webhook_inbound ?counts 0 (gd_Nodes gd)) \<longleftrightarrow> \<not> triggers_ok gd"
    by (auto simp: webhook_errors triggers_ok_def)
  have "\<not> diag_HasErrors (ValidateWithRegistry validator (Some reg) gd) \<longleftrightarrow>
      well_formed validator gd \<and> list_all (usable_type reg) (gd_Nodes gd) \<and>
      \<not> diag_HasErrors (source_handles byID defs 0 (gd_Edges gd)) \<and> triggers_ok gd"
    unfolding ValidateWithRegistry_def Let_def t prod.case option.case HasErrors_append Validate_errors types hooks by blast
  also have "\<dots> \<longleftrightarrow> well_formed validator gd \<and> list_all (usable_type reg) (gd_Nodes gd) \<and> handles_ok reg gd \<and> triggers_ok gd"
    using handles_errors[OF _ _ t] by (auto simp: well_formed_def)
  finally show ?thesis unfolding list_all_iff usable_type_def handles_ok_def triggers_ok_def .
qed


theorem ValidateWithRegistry_iff_witness:
  "\<not> diag_HasErrors (ValidateWithRegistry None (Some Global) demo_def) \<and> well_formed None demo_def"
proof -
  have "\<not> diag_HasErrors (ValidateWithRegistry None (Some Global) demo_def)" by code_simp
  with ValidateWithRegistry_iff[of None Global demo_def] show ?thesis by blast
qed


subsection \<open>Building the graph\<close>

text \<open>What a definition describes, and what a graph is, seen from outside: nodes, edges and entry.\<close>

type_synonym graph_view = "string list \<times> (string \<times> string) set \<times> string"

definition described :: "GraphDefinition \<Rightarrow> graph_view" where
  "described gd = (map nd_ID (gd_Nodes gd), def_rel gd,
     if gd_Entry gd \<noteq> [] then gd_Entry gd else hd (filter (\<lambda>i. i \<notin> Range (def_rel gd)) (map nd_ID (gd_Nodes gd))))"

definition view :: "BasicGraph \<Rightarrow> graph_view" where
  "view g = (g_nodeOrder g, edge_rel (Successors g), Entry g)"

definition faithful :: "node_factory \<Rightarrow> NodeDef list \<Rightarrow> bool" where
  "faithful factory nds \<longleftrightarrow> (\<forall>nd \<in> set nds. \<exists>n. factory nd = Inr (Some n) \<and> n_ID n = nd_ID nd)"

lemma add_nodes:
  assumes "graph_ok g" "faithful factory nds" "distinct (map nd_ID nds)" "\<forall>nd \<in> set nds. NodeByID g (nd_ID nd) = None"
  shows "\<exists>g'. rfold (add_node_def factory) nds g = Inr g' \<and> graph_ok g' \<and> g_nodeOrder g' = g_nodeOrder g @ map nd_ID nds \<and>
    g_edges g' = g_edges g \<and> (\<forall>nd \<in> set nds. factory nd = Inr (NodeByID g' (nd_ID nd))) \<and>
    (\<forall>i. i \<notin> nd_ID ` set nds \<longrightarrow> NodeByID g' i = NodeByID g i)"
  using assms
proof (induction nds arbitrary: g)
  case (Cons nd nds)
  obtain n where n: "factory nd = Inr (Some n)" "n_ID n = nd_ID nd" using Cons.prems(2) by (auto simp: faithful_def)
  obtain g1 where g1: "AddNode (Some n) g = Inr g1" using Cons.prems(4) n(2) by (auto simp: AddNode_def NodeByID_def Let_def)
  have by_id: "NodeByID g1 i = (if i = nd_ID nd then Some n else NodeByID g i)" for i
    using AddNode_NodeByID[OF g1] n(2) by simp
  have order: "g_nodeOrder g1 = g_nodeOrder g @ [nd_ID nd]" "g_edges g1 = g_edges g"
    using g1 n(2) by (auto simp: AddNode_Inr_iff)
  have ok: "graph_ok g1" using Cons.prems(1) g1 by (rule graph_ok_AddNode)
  have f: "faithful factory nds" "distinct (map nd_ID nds)" using Cons.prems(2,3) by (auto simp: faithful_def)
  have "nd_ID m \<noteq> nd_ID nd" if "m \<in> set nds" for m
  proof -
    have "nd_ID m \<in> nd_ID ` set nds" using that by (rule imageI)
    then show ?thesis using Cons.prems(3) by auto
  qed
  then have fresh: "\<forall>m \<in> set nds. NodeByID g1 (nd_ID m) = None" using Cons.prems(4) by (simp add: by_id)
  from Cons.IH[OF ok f fresh] obtain g' where g': "rfold (add_node_def factory) nds g1 = Inr g'" "graph_ok g'"
      "g_nodeOrder g' = g_nodeOrder g1 @ map nd_ID nds" "g_edges g' = g_edges g1"
      "\<forall>m \<in> set nds. factory m = Inr (NodeByID g' (nd_ID m))" "\<forall>i. i \<notin> nd_ID ` set nds \<longrightarrow> NodeByID g' i = NodeByID g1 i"
    by blast
  have "rfold (add_node_def factory) (nd # nds) g = Inr g'" using n(1) g1 g'(1) by (simp add: add_node_def_def[of factory nd])
  moreover have "NodeByID g' (nd_ID nd) = Some n" using g'(6) Cons.prems(3) by_id by simp
  ultimately show ?case using g' order by_id n(1) by auto
qed simp

lemma add_edges:
  assumes "graph_ok g" "\<forall>e \<in> set es. NodeByID g (ed_Source e) \<noteq> None \<and> NodeByID g (ed_Target e) \<noteq> None"
  shows "\<exists>g'. rfold add_edge_def es g = Inr g' \<and> graph_ok g' \<and> g_nodeOrder g' = g_nodeOrder g \<and> g_nodes g' = g_nodes g \<and>
    set (g_edges g') = set (g_edges g) \<union> (\<lambda>e. Edge (ed_Source e) (ed_Target e)) ` set es"
  using assms
proof (induction es arbitrary: g)
  case (Cons e es)
  obtain g1 where g1: "AddEdge (ed_Source e) (ed_Target e) g = Inr g1" using AddEdge_defined[of g] Cons.prems(2) by force
  note frame = AddEdge_frame[OF g1] AddEdge_edges[OF g1]
  have ends: "\<forall>e \<in> set es. NodeByID g1 (ed_Source e) \<noteq> None \<and> NodeByID g1 (ed_Target e) \<noteq> None"
    using Cons.prems(2) frame by (simp add: NodeByID_def)
  from Cons.IH[OF graph_ok_AddEdge[OF Cons.prems(1) g1] ends] obtain g' where "rfold add_edge_def es g1 = Inr g'" "graph_ok g'"
      "g_nodeOrder g' = g_nodeOrder g1" "g_nodes g' = g_nodes g1"
      "set (g_edges g') = set (g_edges g1) \<union> (\<lambda>e. Edge (ed_Source e) (ed_Target e)) ` set es" by blast
  then show ?case using g1 frame by (auto simp: add_edge_def_def[of e])
qed simp

lemma source_exists:
  assumes "def_ok gd" "acyclic (def_rel gd)" "gd_Nodes gd \<noteq> []"
  shows "\<exists>i \<in> set (map nd_ID (gd_Nodes gd)). i \<notin> Range (def_rel gd)"
proof -
  have "wf (def_rel gd)" using assms(2) by (intro finite_acyclic_wf) (simp_all add: def_rel_def)
  moreover obtain i where "i \<in> set (map nd_ID (gd_Nodes gd))" using assms(3) by (cases "gd_Nodes gd") auto
  ultimately obtain z where z: "z \<in> set (map nd_ID (gd_Nodes gd))" "\<forall>y. (y, z) \<in> def_rel gd \<longrightarrow> y \<notin> set (map nd_ID (gd_Nodes gd))"
    by (rule wfE_min[of _ i]) blast
  have "Domain (def_rel gd) \<subseteq> set (map nd_ID (gd_Nodes gd))" using assms(1) by (auto simp: def_rel_def def_ok_def)
  with z show ?thesis by blast
qed

lemma resolve_entry_described:
  assumes "def_ok gd" "acyclic (def_rel gd)" "gd_Nodes gd \<noteq> []" "\<forall>nd \<in> set (gd_Nodes gd). nd_ID nd \<noteq> []"
  shows "resolve_entry gd = snd (snd (described gd))" and "gd_Entry gd = [] \<Longrightarrow> resolve_entry gd \<in> nd_ID ` set (gd_Nodes gd)"
proof -
  let ?in = "fold (\<lambda>e. mput (ed_Target e) True) (gd_Edges gd) ([] :: bool gomap)"
  have "is_set (fold (\<lambda>e. mput (ed_Target e) True) es m) i \<longleftrightarrow> is_set m i \<or> i \<in> ed_Target ` set es" for es :: "EdgeDef list" and m :: "bool gomap" and i
    by (induction es arbitrary: m) auto
  moreover have "Range (def_rel gd) = ed_Target ` set (gd_Edges gd)" by (force simp: def_rel_def)
  ultimately have inb: "is_set ?in i \<longleftrightarrow> i \<in> Range (def_rel gd)" for i by (simp add: is_set_def[of "[]"])
  obtain i where "i \<in> set (map nd_ID (gd_Nodes gd))" "i \<notin> Range (def_rel gd)" using source_exists[OF assms(1-3)] by blast
  then have ne: "filter (\<lambda>i. i \<notin> Range (def_rel gd)) (map nd_ID (gd_Nodes gd)) \<noteq> []" by (auto simp: filter_empty_conv)
  then obtain nd where nd: "List.find (\<lambda>nd. \<not> is_set ?in (nd_ID nd)) (gd_Nodes gd) = Some nd"
    by (cases "List.find (\<lambda>nd. \<not> is_set ?in (nd_ID nd)) (gd_Nodes gd)") (auto simp: inb find_None_iff filter_empty_conv)
  then have m: "nd \<in> set (gd_Nodes gd)" by (auto simp: find_Some_iff)
  have "List.find P ns = Some nd \<Longrightarrow> hd (filter (\<lambda>i. \<not> is_set ?in i) (map nd_ID ns)) = nd_ID nd" if "P = (\<lambda>nd. \<not> is_set ?in (nd_ID nd))" for P ns
    using that by (induction ns) (auto split: if_splits)
  from this[OF refl nd] have h: "hd (filter (\<lambda>i. i \<notin> Range (def_rel gd)) (map nd_ID (gd_Nodes gd))) = nd_ID nd" by (simp add: inb)
  have r: "resolve_entry gd = (if gd_Entry gd = [] then nd_ID nd else gd_Entry gd)"
    using assms(3,4) m by (auto simp: resolve_entry_def nd Let_def)
  show "resolve_entry gd = snd (snd (described gd))" using h by (simp add: r described_def)
  show "gd_Entry gd = [] \<Longrightarrow> resolve_entry gd \<in> nd_ID ` set (gd_Nodes gd)" using m by (simp add: r)
qed

text \<open>
  C13: Building the graph refines the definition. For a definition that validation accepts, with nodes and
  non-empty IDs, and a factory that returns for each node definition a node of that ID, \<open>ToGraph\<close> succeeds. The graph
  is consistent and has exactly the nodes of the definition in its order, each the one the factory made,
  exactly the described edges, and as entry the given one, or else the first node without inbound edges, which
  exists. The graph passes its own validation and has no cycle.
\<close>

theorem ToGraph_refines:
  assumes "\<not> diag_HasErrors (gd_Validate validator gd)" "gd_Nodes gd \<noteq> []" "\<forall>nd \<in> set (gd_Nodes gd). nd_ID nd \<noteq> []"
    "\<forall>nd \<in> set (gd_Nodes gd). \<exists>n. factory nd = Inr (Some n) \<and> n_ID n = nd_ID nd"
  shows "\<exists>g. ToGraph [WithNodeFactory factory] gd = Inr g \<and> graph_ok g \<and> view g = described gd \<and>
    (\<forall>nd \<in> set (gd_Nodes gd). factory nd = Inr (NodeByID g (nd_ID nd))) \<and>
    Graph_Model.Validate g = None \<and> acyclic (edge_rel (Successors g))"
proof -
  have wf: "def_ok gd" "acyclic (def_rel gd)" "gd_Entry gd = [] \<or> gd_Entry gd \<in> nd_ID ` set (gd_Nodes gd)"
    using assms(1) by (auto simp: Validate_errors well_formed_def)
  have dis: "distinct (map nd_ID (gd_Nodes gd))" using wf(1) by (simp add: def_ok_def)
  have f: "faithful factory (gd_Nodes gd)" using assms(4) by (simp add: faithful_def)
  obtain g1 where g1: "rfold (add_node_def factory) (gd_Nodes gd) (NewGraph (gd_ID gd)) = Inr g1" "graph_ok g1"
      "g_nodeOrder g1 = map nd_ID (gd_Nodes gd)" "g_edges g1 = []" "\<forall>nd \<in> set (gd_Nodes gd). factory nd = Inr (NodeByID g1 (nd_ID nd))"
    using add_nodes[OF graph_ok_new f dis, of "gd_ID gd"] by (auto simp: NodeByID_def NewGraph_def)
  have found: "NodeByID g1 i \<noteq> None \<longleftrightarrow> i \<in> nd_ID ` set (gd_Nodes gd)" for i
    using g1(2,3) ok_nodeOrder[OF g1(2)] in_keys_NodeByID[of i g1] by (metis set_map)
  have "\<forall>e \<in> set (gd_Edges gd). NodeByID g1 (ed_Source e) \<noteq> None \<and> NodeByID g1 (ed_Target e) \<noteq> None"
    using wf(1) by (simp only: found) (simp add: def_ok_def)
  from add_edges[OF g1(2) this] g1(4) obtain g2 where g2: "rfold add_edge_def (gd_Edges gd) g1 = Inr g2" "graph_ok g2"
      "g_nodeOrder g2 = g_nodeOrder g1" "g_nodes g2 = g_nodes g1"
      "set (g_edges g2) = (\<lambda>e. Edge (ed_Source e) (ed_Target e)) ` set (gd_Edges gd)" by auto
  note entry = resolve_entry_described[OF wf(1,2) assms(2,3)]
  have e: "resolve_entry gd \<in> nd_ID ` set (gd_Nodes gd)" using entry wf(3) by (cases "gd_Entry gd = []") (auto simp: described_def)
  then have ne: "resolve_entry gd \<noteq> []" "mget (g_nodes g2) (resolve_entry gd) \<noteq> None"
    using assms(3) found[of "resolve_entry gd"] g2(4) by (auto simp: NodeByID_def)
  let ?g = "g2\<lparr>g_entry := resolve_entry gd\<rparr>"
  have set: "SetEntry (resolve_entry gd) g2 = Inr ?g" using ne by (simp add: SetEntry_def)
  then have ok: "graph_ok ?g" using graph_ok_SetEntry[OF g2(2)] by blast
  have rel: "edge_rel (Successors ?g) = def_rel gd"
    unfolding edge_rel_def def_rel_def Successors_edge[OF ok] using g2(5) by auto
  have "view ?g = described gd" using g1(3) g2(3) entry(1) rel by (simp add: view_def Entry_def described_def)
  moreover have "ToGraph [WithNodeFactory factory] gd = Inr ?g" using g1(1) g2(1) set ne by (simp add: ToGraph_def WithNodeFactory_def)
  moreover have "\<forall>nd \<in> set (gd_Nodes gd). factory nd = Inr (NodeByID ?g (nd_ID nd))" using g1(5) g2(4) by (simp add: NodeByID_def)
  moreover have "Graph_Model.Validate ?g = None" using ne by (auto simp: Graph_Model.Validate_def)
  ultimately show ?thesis using ok rel wf(2) by auto
qed

theorem ToGraph_refines_witness:
  "\<exists>g. ToGraph [WithNodeFactory (\<lambda>nd. Inr (Some (NewNoopNode (nd_ID nd))))] demo_def = Inr g \<and>
    view g = ([''b'', ''a''], {(''a'', ''b'')}, ''a'')"
proof -
  have "gd_Nodes demo_def \<noteq> []" "\<forall>nd \<in> set (gd_Nodes demo_def). nd_ID nd \<noteq> []" by (simp_all add: demo_def_def)
  from ToGraph_refines[OF demo_valid this, of "\<lambda>nd. Inr (Some (NewNoopNode (nd_ID nd)))"]
  obtain g where "ToGraph [WithNodeFactory (\<lambda>nd. Inr (Some (NewNoopNode (nd_ID nd))))] demo_def = Inr g" "view g = described demo_def"
    by auto
  moreover have "described demo_def = ([''b'', ''a''], {(''a'', ''b'')}, ''a'')"
    by (simp add: described_def demo_def_def def_rel_def)
  ultimately show ?thesis by simp
qed

end
