(* ===== verification/Agent_Compile.thy ===== *)
theory Agent_Compile
  imports Agent_Workflow Definition_Correct
begin

section \<open>Package agent: compilation to a graph definition\<close>

text \<open>
  \<open>agent/compile.go\<close>. The graph definition and the two maps from a task to its first and last node, which the code
  mutates, are passed and returned. A \<open>sort\<close> call is insertion sort with the comparison of the code, which is total
  up to equality in both uses. A Go value of type \<open>map[string]string\<close> or \<open>map[string]map[string]any\<close> inside a
  configuration is a \<open>VStruct\<close> of that name. The time stamp is an argument, as is the global registry.
\<close>

subsection \<open>Sorting\<close>

fun insert_str :: "string \<Rightarrow> string list \<Rightarrow> string list" where
  "insert_str x [] = [x]"
| "insert_str x (y # ys) = (if str_compare x y < 0 then x # y # ys else y # insert_str x ys)"

definition sortedKeys :: "'v gomap \<Rightarrow> string list" where
  "sortedKeys m = fold insert_str (mkeys m) []"

definition edge_less :: "EdgeDef \<Rightarrow> EdgeDef \<Rightarrow> bool" where
  "edge_less ei ej =
     (if ed_Source ei \<noteq> ed_Source ej then str_compare (ed_Source ei) (ed_Source ej) < 0
      else if ed_Target ei \<noteq> ed_Target ej then str_compare (ed_Target ei) (ed_Target ej) < 0
      else if ed_SourceHandle ei \<noteq> ed_SourceHandle ej then str_compare (ed_SourceHandle ei) (ed_SourceHandle ej) < 0
      else str_compare (ed_TargetHandle ei) (ed_TargetHandle ej) < 0)"

fun insert_edge :: "EdgeDef \<Rightarrow> EdgeDef list \<Rightarrow> EdgeDef list" where
  "insert_edge x [] = [x]"
| "insert_edge x (y # ys) = (if edge_less x y then x # y # ys else y # insert_edge x ys)"

definition sortEdges :: "GraphDefinition \<Rightarrow> GraphDefinition" where
  "sortEdges gd = gd\<lparr>gd_Edges := fold insert_edge (gd_Edges gd) []\<rparr>"


subsection \<open>Templates\<close>

text \<open>\<open>ReplaceAllStringFunc\<close> for a pattern given by a matcher that returns the replacement and the rest. A matcher
  that returned a rest no shorter than its input would be an empty match; the patterns here have none.\<close>

function replace_all :: "(string \<Rightarrow> (string \<times> string) option) \<Rightarrow> string \<Rightarrow> string" where
  "replace_all m [] = []"
| "replace_all m (c # s) = (case m (c # s) of
       Some (r, rest) \<Rightarrow> if length rest \<le> length s then r @ replace_all m rest else c # replace_all m s
     | None \<Rightarrow> c # replace_all m s)"
  by pat_completeness auto
termination by (relation "measure (\<lambda>(m, s). length s)") auto

definition alpha_num_dot :: "char \<Rightarrow> bool" where "alpha_num_dot c \<longleftrightarrow> alpha_num c \<or> c = CHR ''.''"

definition match_input :: "string \<Rightarrow> (string \<times> string) option" where
  "match_input s = (case strip_prefix ''{{input.'' s of
       None \<Rightarrow> None
     | Some r \<Rightarrow> let name = takeWhile alpha_num_dot r in
         if name = [] then None
         else (case strip_prefix ''}}'' (dropWhile alpha_num_dot r) of None \<Rightarrow> None | Some rest \<Rightarrow> Some (''{{.'' @ name @ ''}}'', rest)))"

definition match_output :: "string gomap \<Rightarrow> string \<Rightarrow> (string \<times> string) option" where
  "match_output taskNodeIDs s = (case strip_prefix ''{{tasks.'' s of
       None \<Rightarrow> None
     | Some r \<Rightarrow> let name = takeWhile alpha_num r in
         if name = [] then None
         else (case strip_prefix ''.output}}'' (dropWhile alpha_num r) of
                 None \<Rightarrow> None
               | Some rest \<Rightarrow> (case mget taskNodeIDs name of
                     None \<Rightarrow> Some (''{{tasks.'' @ name @ ''.output}}'', rest)
                   | Some nodeID \<Rightarrow> Some (''{{.'' @ nodeID @ ''_output}}'', rest))))"

definition match_cond :: "string gomap \<Rightarrow> string \<Rightarrow> (string \<times> string) option" where
  "match_cond taskNodeIDs s = (case strip_prefix ''tasks.'' s of
       None \<Rightarrow> None
     | Some r \<Rightarrow> let name = takeWhile alpha_num r in
         if name = [] then None
         else (case strip_prefix ''.output'' (dropWhile alpha_num r) of
                 None \<Rightarrow> None
               | Some r1 \<Rightarrow>
                   let field = (if has_prefix r1 ''.'' then takeWhile alpha_num_dot r1 else []);
                       rest = drop (length field) r1
                   in (case mget taskNodeIDs name of
                         None \<Rightarrow> Some (''tasks.'' @ name @ ''.output'' @ field, rest)
                       | Some nodeID \<Rightarrow> Some (nodeID @ ''_output'' @ field, rest))))"

definition rewriteConditionExpr :: "string \<Rightarrow> string gomap \<Rightarrow> string" where
  "rewriteConditionExpr expr taskNodeIDs = replace_all (match_cond taskNodeIDs) expr"

definition rewriteTemplate :: "string \<Rightarrow> string gomap \<Rightarrow> string" where
  "rewriteTemplate tmpl taskNodeIDs = replace_all (match_output taskNodeIDs) (replace_all match_input tmpl)"

definition compileExtractTaskRefs :: "string \<Rightarrow> string list" where
  "compileExtractTaskRefs tmpl = first_occurrences [] (find_task_refs tmpl)"

definition line_break :: string where "line_break = [CHR 0x0A, CHR 0x0A]"

definition buildSystemPrompt :: "Agent \<Rightarrow> Task \<Rightarrow> string" where
  "buildSystemPrompt ag task =
     ''You are a '' @ ag_Role ag @ ''.'' @ line_break @ ''Goal: '' @ ag_Goal ag @
     (if ag_Backstory ag \<noteq> [] then line_break @ ''Backstory: '' @ ag_Backstory ag else []) @
     line_break @ ''Expected output: '' @ tk_ExpectedOutput task"


subsection \<open>Nodes\<close>

definition hasBytesPort :: "PortDef list \<Rightarrow> bool" where
  "hasBytesPort ports = list_ex (\<lambda>p. port_Type p = ''bytes'') ports"

definition inferredToolMode :: "NodeTypeDef \<Rightarrow> string" where
  "inferredToolMode def =
     (if TrimSpace (nt_ToolMode def) \<noteq> [] then nt_ToolMode def
      else if hasBytesPort (ps_Inputs (nt_Ports def)) \<or> hasBytesPort (ps_Outputs (nt_Ports def)) then ''standalone''
      else ''function_call'')"

definition defaultArgsTemplate :: "PortDef list \<Rightarrow> string gomap" where
  "defaultArgsTemplate inputs =
     fold (\<lambda>p m. let name = TrimSpace (port_Name p) in if name = [] then m else mput name name m) inputs []"

definition cloneAnyMap :: "val gomap \<Rightarrow> val" where
  "cloneAnyMap m = (if length m = 0 then VNilMap else VMap m)"

definition cloneToolConfig :: "val gomap gomap \<Rightarrow> val" where
  "cloneToolConfig m = (if length m = 0 then VNilMap
     else VStruct ''map[string]map[string]any'' (map (\<lambda>(toolName, fields). (toolName, cloneAnyMap fields)) m))"

definition buildStandaloneToolNodeConfig :: "Registry \<Rightarrow> string \<Rightarrow> Agent \<Rightarrow> val gomap" where
  "buildStandaloneToolNodeConfig reg toolRef ag =
     (let c1 = (case reg_Get reg toolRef of
                  None \<Rightarrow> []
                | Some def \<Rightarrow>
                    if length (ps_Inputs (nt_Ports def)) > 0 \<and> length (defaultArgsTemplate (ps_Inputs (nt_Ports def))) > 0
                    then [(''args_template'', VStruct ''map[string]string''
                      (map (\<lambda>(k, v). (k, VStr v)) (defaultArgsTemplate (ps_Inputs (nt_Ports def)))))]
                    else []);
          (toolName, actionName, hasAction, valid) = parseToolReference toolRef
      in if hasAction \<and> valid then
           let c2 = mput ''action_name'' (VStr actionName) (mput ''tool_name'' (VStr toolName) c1)
           in (case mget (ag_ToolConfig ag) toolName of
                 None \<Rightarrow> c2
               | Some overrides \<Rightarrow> if length overrides > 0 then mput ''tool_config'' (cloneAnyMap overrides) c2 else c2)
         else c1)"

definition put_if :: "'v option \<Rightarrow> string \<Rightarrow> 'v gomap \<Rightarrow> 'v gomap" where
  "put_if v k m = (case v of None \<Rightarrow> m | Some x \<Rightarrow> mput k x m)"

definition buildTaskLLMConfig :: "Task \<Rightarrow> Agent \<Rightarrow> string gomap \<Rightarrow> string list \<Rightarrow> val gomap" where
  "buildTaskLLMConfig task ag taskNodeIDs fcTools =
     (let c1 = [(''system_prompt'', VStr (buildSystemPrompt ag task)),
                (''prompt_template'', VStr (rewriteTemplate (tk_Description task) taskNodeIDs)),
                (''provider'', VStr (ag_Provider ag)), (''model'', VStr (ag_Model ag))];
          c2 = (if length fcTools > 0 then mput ''tools'' (VStrs fcTools) c1 else c1);
          c3 = (if length (ag_ToolConfig ag) > 0 then mput ''tool_config'' (cloneToolConfig (ag_ToolConfig ag)) c2 else c2);
          c4 = put_if (mget (ag_Config ag) ''temperature'') ''temperature'' c3;
          c5 = put_if (mget (ag_Config ag) ''max_tokens'') ''max_tokens'' c4
      in if tk_OutputKey task \<noteq> [] then mput ''output_key'' (VStr (tk_OutputKey task)) c5 else c5)"

text \<open>The definition under construction, the first node of each task, and its output node.\<close>

record CompileState =
  cs_gd :: GraphDefinition
  cs_starts :: "string gomap"
  cs_outs :: "string gomap"

definition emit_nodes :: "NodeDef list \<Rightarrow> CompileState \<Rightarrow> CompileState" where
  "emit_nodes ns s = s\<lparr>cs_gd := (cs_gd s)\<lparr>gd_Nodes := gd_Nodes (cs_gd s) @ ns\<rparr>\<rparr>"

definition emit_edges :: "EdgeDef list \<Rightarrow> CompileState \<Rightarrow> CompileState" where
  "emit_edges es s = s\<lparr>cs_gd := (cs_gd s)\<lparr>gd_Edges := gd_Edges (cs_gd s) @ es\<rparr>\<rparr>"

definition mk_edge :: "string \<Rightarrow> string \<Rightarrow> string \<Rightarrow> string \<Rightarrow> EdgeDef" where
  "mk_edge src sh tgt th = \<lparr>ed_Source = src, ed_SourceHandle = sh, ed_Target = tgt, ed_TargetHandle = th\<rparr>"

definition tool_mode :: "Registry \<Rightarrow> string \<Rightarrow> string" where
  "tool_mode reg toolRef =
     (let mode = ToolMode reg toolRef in
      if mode = [] then (case reg_Get reg toolRef of
          None \<Rightarrow> mode
        | Some def \<Rightarrow> if nt_IsTool def then inferredToolMode def else mode)
      else mode)"

text \<open>The loop of \<open>compileTaskTools\<close>, with its three variables.\<close>

fun compileTaskTools :: "Registry \<Rightarrow> string \<Rightarrow> Agent \<Rightarrow> string list \<Rightarrow> string list \<Rightarrow> string \<Rightarrow> string \<Rightarrow> CompileState \<Rightarrow>
    (string list \<times> string) \<times> CompileState" where
  "compileTaskTools reg taskID ag [] fcTools firstID prevID s = ((fcTools, prevID), s)"
| "compileTaskTools reg taskID ag (toolID # tools) fcTools firstID prevID s =
     (let toolRef = TrimSpace toolID; mode = tool_mode reg toolRef in
      if mode = ''function_call'' then compileTaskTools reg taskID ag tools (fcTools @ [toolRef]) firstID prevID s
      else if mode = ''standalone'' then
        let toolNodeID = taskID @ ''__'' @ toolRef;
            s1 = emit_nodes [\<lparr>nd_ID = toolNodeID, nd_Type = toolRef, nd_Config = buildStandaloneToolNodeConfig reg toolRef ag\<rparr>] s;
            firstID1 = (if firstID = [] then toolNodeID else firstID);
            s2 = (if prevID \<noteq> [] then emit_edges [mk_edge prevID ''output'' toolNodeID ''input''] s1 else s1)
        in compileTaskTools reg taskID ag tools fcTools firstID1 toolNodeID (s2\<lparr>cs_starts := mput taskID firstID1 (cs_starts s2)\<rparr>)
      else compileTaskTools reg taskID ag tools fcTools firstID prevID s)"

definition appendTaskHumanReviewNode :: "string \<Rightarrow> Task \<Rightarrow> string \<Rightarrow> CompileState \<Rightarrow> CompileState" where
  "appendTaskHumanReviewNode taskID task nodeID s =
     (if tk_Review task \<noteq> ''human'' then s
      else let hitlID = nodeID @ ''__hitl'';
               s1 = emit_nodes [\<lparr>nd_ID = hitlID, nd_Type = ''human'', nd_Config = [(''mode'', VStr ''approval''), (''task_id'', VStr taskID)]\<rparr>] s;
               s2 = emit_edges [mk_edge nodeID ''output'' hitlID ''input''] s1
           in s2\<lparr>cs_outs := mput taskID hitlID (cs_outs s2)\<rparr>)"

definition compileTaskNode :: "Registry \<Rightarrow> string \<Rightarrow> Task \<Rightarrow> Agent \<Rightarrow> CompileState \<Rightarrow> CompileState" where
  "compileTaskNode reg taskID task ag s =
     (let nodeID = taskID @ ''__'' @ tk_Agent task;
          s1 = s\<lparr>cs_starts := mput taskID nodeID (cs_starts s), cs_outs := mput taskID nodeID (cs_outs s)\<rparr>;
          ((fcTools, prevID), s2) = compileTaskTools reg taskID ag (ag_Tools ag) [] [] [] s1;
          s3 = (if prevID \<noteq> [] then emit_edges [mk_edge prevID ''output'' nodeID ''context''] s2 else s2);
          s4 = emit_nodes [\<lparr>nd_ID = nodeID, nd_Type = ''llm_prompt'', nd_Config = buildTaskLLMConfig task ag (cs_outs s3) fcTools\<rparr>] s3
      in appendTaskHumanReviewNode taskID task nodeID s4)"

datatype compile_error =
    WorkflowNil
  | UndefinedAgent string string
  | UnsupportedStrategy string
  | NoTaskOrder
  | UnknownTaskInOrder string
  | NoManagerAgent
  | ManagerNotDefined string

text \<open>Reading \<open>wf.Tasks[id]\<close> of an absent key gives the zero value.\<close>

definition zero_task :: Task where
  "zero_task = \<lparr>tk_Description = [], tk_Agent = [], tk_ExpectedOutput = [], tk_OutputKey = [], tk_Inputs = [], tk_Review = [], tk_Context = []\<rparr>"

definition task_at :: "AgentWorkflow \<Rightarrow> string \<Rightarrow> Task" where
  "task_at aw i = (case mget (wf_Tasks aw) i of None \<Rightarrow> zero_task | Some t \<Rightarrow> t)"

definition str_at :: "string gomap \<Rightarrow> string \<Rightarrow> string" where
  "str_at m k = (case mget m k of None \<Rightarrow> [] | Some v \<Rightarrow> v)"

definition compileTask :: "AgentWorkflow \<Rightarrow> Registry \<Rightarrow> string \<Rightarrow> CompileState \<Rightarrow> compile_error + CompileState" where
  "compileTask aw reg taskID s = (let task = task_at aw taskID in
     case mget (wf_Agents aw) (tk_Agent task) of
       None \<Rightarrow> Inl (UndefinedAgent taskID (tk_Agent task))
     | Some ag \<Rightarrow> Inr (compileTaskNode reg taskID task ag s))"

definition compileTaskNodes :: "AgentWorkflow \<Rightarrow> Registry \<Rightarrow> string list \<Rightarrow> CompileState \<Rightarrow> compile_error + CompileState" where
  "compileTaskNodes aw reg taskIDs s = rfold (compileTask aw reg) taskIDs s"


subsection \<open>Edges\<close>

definition reference_edges :: "string gomap \<Rightarrow> string \<Rightarrow> Task \<Rightarrow> EdgeDef list" where
  "reference_edges outs dstNodeID task =
     concat (map (\<lambda>(param, tmpl). concat (map (\<lambda>ref. case mget outs ref of
         None \<Rightarrow> [] | Some srcNode \<Rightarrow> [mk_edge srcNode ''output'' dstNodeID param]) (compileExtractTaskRefs tmpl))) (tk_Inputs task)) @
     concat (map (\<lambda>ctxRef. case mget outs ctxRef of
         None \<Rightarrow> [] | Some srcNode \<Rightarrow> [mk_edge srcNode ''output'' dstNodeID ''context'']) (tk_Context task))"

definition wireTaskReferenceEdges :: "AgentWorkflow \<Rightarrow> string list \<Rightarrow> CompileState \<Rightarrow> CompileState" where
  "wireTaskReferenceEdges aw taskIDs s =
     fold (\<lambda>taskID s. let task = task_at aw taskID;
               dst = str_at (cs_starts s) taskID;
               dstNodeID = (if dst = [] then taskID @ ''__'' @ tk_Agent task else dst)
           in emit_edges (reference_edges (cs_outs s) dstNodeID task) s) taskIDs s"

definition set_entry :: "string \<Rightarrow> CompileState \<Rightarrow> CompileState" where
  "set_entry n s = s\<lparr>cs_gd := (cs_gd s)\<lparr>gd_Entry := n\<rparr>\<rparr>"

fun chain_edges :: "string list \<Rightarrow> CompileState \<Rightarrow> compile_error + CompileState" where
  "chain_edges (a # b # order) s = (case mget (cs_outs s) a of
       None \<Rightarrow> Inl (UnknownTaskInOrder a)
     | Some srcNode \<Rightarrow> (case mget (cs_starts s) b of
           None \<Rightarrow> Inl (UnknownTaskInOrder b)
         | Some dst \<Rightarrow> chain_edges (b # order) (emit_edges [mk_edge srcNode ''output'' dst ''input''] s)))"
| "chain_edges _ s = Inr s"

definition compileSequential :: "AgentWorkflow \<Rightarrow> CompileState \<Rightarrow> compile_error + CompileState" where
  "compileSequential aw s = (case ex_TaskOrder (wf_Execution aw) of
       [] \<Rightarrow> Inl NoTaskOrder
     | a # order \<Rightarrow> chain_edges (a # order) (set_entry (str_at (cs_starts s) a) s))"

definition compileParallel :: "AgentWorkflow \<Rightarrow> CompileState \<Rightarrow> compile_error + CompileState" where
  "compileParallel aw s =
     (let mergeID = wf_ID aw @ ''__merge'';
          strategy = ex_MergeStrategy (wf_Execution aw);
          mergeConfig = (if strategy \<noteq> [] then [(''strategy'', VStr strategy)] else []);
          s1 = emit_nodes [\<lparr>nd_ID = mergeID, nd_Type = ''merge'', nd_Config = mergeConfig\<rparr>] s
      in Inr (emit_edges (map (\<lambda>taskID. mk_edge (str_at (cs_outs s1) taskID) ''output'' mergeID ''input'') (sortedKeys (wf_Tasks aw))) s1))"

definition compileHierarchical :: "AgentWorkflow \<Rightarrow> CompileState \<Rightarrow> compile_error + CompileState" where
  "compileHierarchical aw s = (let managerAgentID = ex_ManagerAgent (wf_Execution aw) in
     if managerAgentID = [] then Inl NoManagerAgent
     else (case mget (wf_Agents aw) managerAgentID of
             None \<Rightarrow> Inl (ManagerNotDefined managerAgentID)
           | Some ag \<Rightarrow>
               let managerNodeID = wf_ID aw @ ''__manager__'' @ managerAgentID;
                   s1 = set_entry managerNodeID (emit_nodes [\<lparr>nd_ID = managerNodeID, nd_Type = ''llm_router'',
                          nd_Config = [(''system_prompt'', VStr (''You are a '' @ ag_Role ag @ ''.'' @ line_break @ ''Goal: '' @ ag_Goal ag)),
                            (''provider'', VStr (ag_Provider ag)), (''model'', VStr (ag_Model ag))]\<rparr>] s)
               in Inr (emit_edges (concat (map (\<lambda>taskID.
                     [mk_edge managerNodeID ''output'' (str_at (cs_starts s1) taskID) ''input'',
                      mk_edge (str_at (cs_outs s1) taskID) ''output'' managerNodeID ''input'']) (sortedKeys (wf_Tasks aw)))) s1)))"

definition conditional_node :: "string \<Rightarrow> string \<Rightarrow> string \<Rightarrow> NodeDef" where
  "conditional_node condNodeID conditionTarget expr = \<lparr>nd_ID = condNodeID, nd_Type = ''conditional'',
     nd_Config = [(''conditions'', VList [VMap [(''name'', VStr conditionTarget), (''expression'', VStr expr)]]),
       (''default'', VStr ''_skip''), (''evaluation_order'', VStr ''first_match''), (''pass_through'', VBool True)]\<rparr>"

definition wire_dependency :: "string \<Rightarrow> string \<Rightarrow> string \<Rightarrow> string \<Rightarrow> CompileState \<Rightarrow> CompileState" where
  "wire_dependency taskID condition dstStartNode depID s = (case mget (cs_outs s) depID of
       None \<Rightarrow> s
     | Some srcNode \<Rightarrow>
         if condition \<noteq> [] then
           let condNodeID = depID @ ''__cond__'' @ taskID;
               condExists = list_ex (\<lambda>n. nd_ID n = condNodeID) (gd_Nodes (cs_gd s));
               s1 = (if \<not> condExists
                 then emit_nodes [conditional_node condNodeID dstStartNode (rewriteConditionExpr condition (cs_outs s))] s else s)
           in emit_edges [mk_edge srcNode ''output'' condNodeID ''input'', mk_edge condNodeID dstStartNode dstStartNode ''input''] s1
         else emit_edges [mk_edge srcNode ''output'' dstStartNode ''input''] s)"

definition wire_task :: "TaskDependencies gomap \<Rightarrow> string \<Rightarrow> CompileState \<Rightarrow> CompileState" where
  "wire_task ts taskID s = (case mget ts taskID of
       None \<Rightarrow> s
     | Some deps \<Rightarrow> (case mget (cs_outs s) taskID of
           None \<Rightarrow> s
         | Some dstNode \<Rightarrow> fold (wire_dependency taskID (td_Condition deps) (str_at (cs_starts s) taskID)) (td_DependsOn deps) s))"

definition is_root :: "TaskDependencies gomap \<Rightarrow> string \<Rightarrow> bool" where
  "is_root ts taskID = (case mget ts taskID of None \<Rightarrow> True | Some deps \<Rightarrow> length (td_DependsOn deps) = 0)"

definition compileCustom :: "AgentWorkflow \<Rightarrow> CompileState \<Rightarrow> compile_error + CompileState" where
  "compileCustom aw s = (case ex_Tasks (wf_Execution aw) of
       None \<Rightarrow> Inr s
     | Some ts \<Rightarrow>
         (let s1 = fold (wire_task ts) (sortedKeys ts) s in
          case List.find (is_root ts) (sortedKeys (wf_Tasks aw)) of
            None \<Rightarrow> Inr s1
          | Some taskID \<Rightarrow> Inr (set_entry (str_at (cs_starts s1) taskID) s1)))"

definition compileExecutionStrategy :: "AgentWorkflow \<Rightarrow> CompileState \<Rightarrow> compile_error + CompileState" where
  "compileExecutionStrategy aw s = (let strategy = ex_Strategy (wf_Execution aw) in
     if strategy = ''sequential'' then compileSequential aw s
     else if strategy = ''parallel'' then compileParallel aw s
     else if strategy = ''hierarchical'' then compileHierarchical aw s
     else if strategy = ''custom'' then compileCustom aw s
     else Inl (UnsupportedStrategy strategy))"

definition CurrentGraphSchemaVersion :: string where "CurrentGraphSchemaVersion = ''1.0.0''"
definition LegacySchemaVersion :: string where "LegacySchemaVersion = ''legacy''"

definition newCompiledGraphDefinition :: "string \<Rightarrow> AgentWorkflow \<Rightarrow> GraphDefinition" where
  "newCompiledGraphDefinition now aw =
     (let source = TrimSpace (wf_SchemaVersion aw) in
      \<lparr>gd_ID = wf_ID aw, gd_Version = wf_Version aw, gd_SchemaVersion = CurrentGraphSchemaVersion, gd_Kind = KindGraph,
       gd_Metadata = [(''source_kind'', KindAgent), (''source_version'', wf_Version aw),
         (''source_schema_version'', if source = [] then LegacySchemaVersion else source),
         (''compiled_at'', now), (''compiler_version'', ''0.1.0'')],
       gd_Nodes = [], gd_Edges = [], gd_Entry = []\<rparr>)"

definition Compile :: "string \<Rightarrow> Registry \<Rightarrow> AgentWorkflow option \<Rightarrow> compile_error + GraphDefinition" where
  "Compile now reg awp = (case awp of
       None \<Rightarrow> Inl WorkflowNil
     | Some aw \<Rightarrow>
         (let taskIDs = sortedKeys (wf_Tasks aw);
              s = \<lparr>cs_gd = newCompiledGraphDefinition now aw, cs_starts = [], cs_outs = []\<rparr>
          in rbind (compileTaskNodes aw reg taskIDs s) (\<lambda>s1.
             rbind (compileExecutionStrategy aw (wireTaskReferenceEdges aw taskIDs s1)) (\<lambda>s2.
               Inr (sortEdges (cs_gd s2))))))"

end
