(* ===== verification/Agent_Correct.thy ===== *)
theory Agent_Correct
  imports Agent_Compile
begin

section \<open>Correctness of the agent compiler\<close>

text \<open>
  The graph that a workflow describes, and that \<open>Compile\<close> produces it: each task is a chain of nodes (its
  standalone tools, its model call, its review), the references and the strategy link the chains. From there, which
  workflows the validator accepts give definitions that graph validation accepts, and which never do.
\<close>

subsection \<open>The graph of a workflow\<close>

definition standalone_refs :: "Registry \<Rightarrow> string list \<Rightarrow> string list" where
  "standalone_refs reg tools = filter (\<lambda>r. tool_mode reg r = ''standalone'') (map TrimSpace tools)"

definition agent_tools :: "AgentWorkflow \<Rightarrow> string \<Rightarrow> string list" where
  "agent_tools aw a = (case mget (wf_Agents aw) a of None \<Rightarrow> [] | Some ag \<Rightarrow> ag_Tools ag)"

definition chain_of :: "Registry \<Rightarrow> string \<Rightarrow> Task \<Rightarrow> string list \<Rightarrow> string list" where
  "chain_of reg i task tools = map (\<lambda>r. i @ ''__'' @ r) (standalone_refs reg tools) @
     (i @ ''__'' @ tk_Agent task) # (if tk_Review task = ''human'' then [(i @ ''__'' @ tk_Agent task) @ ''__hitl''] else [])"

definition task_chain :: "Registry \<Rightarrow> AgentWorkflow \<Rightarrow> string \<Rightarrow> string list" where
  "task_chain reg aw i = chain_of reg i (task_at aw i) (agent_tools aw (tk_Agent (task_at aw i)))"

definition steps :: "string list \<Rightarrow> (string \<times> string) list" where
  "steps xs = zip xs (tl xs)"

definition task_refs :: "Task \<Rightarrow> string set" where
  "task_refs t = (\<Union>p \<in> set (tk_Inputs t). set (compileExtractTaskRefs (snd p))) \<union> set (tk_Context t)"

definition task_ids :: "AgentWorkflow \<Rightarrow> string set" where
  "task_ids aw = set (mkeys (wf_Tasks aw))"

definition link :: "Registry \<Rightarrow> AgentWorkflow \<Rightarrow> string \<Rightarrow> string \<Rightarrow> string \<times> string" where
  "link reg aw i j = (last (task_chain reg aw i), hd (task_chain reg aw j))"

definition task_rel :: "Registry \<Rightarrow> AgentWorkflow \<Rightarrow> (string \<times> string) set" where
  "task_rel reg aw = (\<Union>i \<in> task_ids aw. set (steps (task_chain reg aw i))) \<union>
     (\<Union>i \<in> task_ids aw. (\<lambda>r. link reg aw r i) ` (task_refs (task_at aw i) \<inter> task_ids aw))"

definition merge_id :: "AgentWorkflow \<Rightarrow> string" where "merge_id aw = wf_ID aw @ ''__merge''"
definition manager_id :: "AgentWorkflow \<Rightarrow> string" where "manager_id aw = wf_ID aw @ ''__manager__'' @ ex_ManagerAgent (wf_Execution aw)"
definition cond_id :: "string \<Rightarrow> string \<Rightarrow> string" where "cond_id dep i = dep @ ''__cond__'' @ i"

text \<open>The declared dependencies between defined tasks, with the condition of the dependent task.\<close>

definition deps_of :: "AgentWorkflow \<Rightarrow> TaskDependencies gomap \<Rightarrow> (string \<times> string \<times> string) set" where
  "deps_of aw ts = {(dep, i, td_Condition d) | dep i d. mget ts i = Some d \<and> i \<in> task_ids aw \<and> dep \<in> set (td_DependsOn d) \<and> dep \<in> task_ids aw}"

definition strategy_nodes :: "AgentWorkflow \<Rightarrow> string set" where
  "strategy_nodes aw = (let x = wf_Execution aw in
     if ex_Strategy x = ''parallel'' then {merge_id aw}
     else if ex_Strategy x = ''hierarchical'' then {manager_id aw}
     else if ex_Strategy x = ''custom'' then (case ex_Tasks x of None \<Rightarrow> {} | Some ts \<Rightarrow> {cond_id d i | d i c. (d, i, c) \<in> deps_of aw ts \<and> c \<noteq> []})
     else {})"

definition strategy_rel :: "Registry \<Rightarrow> AgentWorkflow \<Rightarrow> (string \<times> string) set" where
  "strategy_rel reg aw = (let x = wf_Execution aw; out = (\<lambda>i. last (task_chain reg aw i)); start = (\<lambda>i. hd (task_chain reg aw i)) in
     if ex_Strategy x = ''sequential'' then (\<lambda>(a, b). link reg aw a b) ` set (steps (ex_TaskOrder x))
     else if ex_Strategy x = ''parallel'' then (\<lambda>i. (out i, merge_id aw)) ` task_ids aw
     else if ex_Strategy x = ''hierarchical'' then (\<lambda>i. (manager_id aw, start i)) ` task_ids aw \<union> (\<lambda>i. (out i, manager_id aw)) ` task_ids aw
     else if ex_Strategy x = ''custom'' then
       (case ex_Tasks x of None \<Rightarrow> {} | Some ts \<Rightarrow>
          \<Union>(d, i, c) \<in> deps_of aw ts. if c = [] then {link reg aw d i} else {(out d, cond_id d i), (cond_id d i, start i)})
     else {})"

definition described_ids :: "Registry \<Rightarrow> AgentWorkflow \<Rightarrow> string set" where
  "described_ids reg aw = (\<Union>i \<in> task_ids aw. set (task_chain reg aw i)) \<union> strategy_nodes aw"

definition described_rel :: "Registry \<Rightarrow> AgentWorkflow \<Rightarrow> (string \<times> string) set" where
  "described_rel reg aw = task_rel reg aw \<union> strategy_rel reg aw"

definition described_entry :: "Registry \<Rightarrow> AgentWorkflow \<Rightarrow> string" where
  "described_entry reg aw = (let x = wf_Execution aw; start = (\<lambda>i. hd (task_chain reg aw i)) in
     if ex_Strategy x = ''sequential'' then (if hd (ex_TaskOrder x) \<in> task_ids aw then start (hd (ex_TaskOrder x)) else [])
     else if ex_Strategy x = ''hierarchical'' then manager_id aw
     else if ex_Strategy x = ''custom'' then
       (case ex_Tasks x of None \<Rightarrow> [] | Some ts \<Rightarrow> (case List.find (is_root ts) (sortedKeys (wf_Tasks aw)) of None \<Rightarrow> [] | Some i \<Rightarrow> start i))
     else [])"


subsection \<open>The parts of the compiler\<close>

lemma set_insert_str [simp]: "set (insert_str x ys) = insert x (set ys)" by (induction ys) auto

lemma set_sortedKeys: "set (sortedKeys m) = set (mkeys m)"
proof -
  have "set (fold insert_str xs ys) = set xs \<union> set ys" for xs ys by (induction xs arbitrary: ys) auto
  then show ?thesis by (simp add: sortedKeys_def)
qed

lemma set_sorted_tasks [simp]: "set (sortedKeys (wf_Tasks aw)) = task_ids aw"
  by (simp only: set_sortedKeys task_ids_def)

lemma distinct_insert_str: "distinct (insert_str x ys) \<longleftrightarrow> x \<notin> set ys \<and> distinct ys" by (induction ys) auto

lemma distinct_sortedKeys: "distinct (sortedKeys m) \<longleftrightarrow> distinct (mkeys m)"
proof -
  have "distinct (fold insert_str xs ys) \<longleftrightarrow> distinct xs \<and> distinct ys \<and> set xs \<inter> set ys = {}" for xs ys
    by (induction xs arbitrary: ys) (auto simp: distinct_insert_str)
  then show ?thesis by (simp add: sortedKeys_def)
qed

lemma set_insert_edge [simp]: "set (insert_edge x ys) = insert x (set ys)" by (induction ys) auto

lemma sortEdges_simps [simp]: "set (gd_Edges (sortEdges gd)) = set (gd_Edges gd)" "gd_Nodes (sortEdges gd) = gd_Nodes gd"
  "gd_Entry (sortEdges gd) = gd_Entry gd" "gd_Kind (sortEdges gd) = gd_Kind gd" "gd_SchemaVersion (sortEdges gd) = gd_SchemaVersion gd"
proof -
  have "set (fold insert_edge xs ys) = set xs \<union> set ys" for xs ys by (induction xs arbitrary: ys) auto
  then show "set (gd_Edges (sortEdges gd)) = set (gd_Edges gd)" by (simp add: sortEdges_def)
qed (simp_all add: sortEdges_def)

text \<open>The view of the compiler's state that the specification speaks of.\<close>

definition s_nodes :: "CompileState \<Rightarrow> NodeDef list" where "s_nodes s = gd_Nodes (cs_gd s)"
definition s_ids :: "CompileState \<Rightarrow> string list" where "s_ids s = map nd_ID (gd_Nodes (cs_gd s))"
definition s_rel :: "CompileState \<Rightarrow> (string \<times> string) set" where "s_rel s = def_rel (cs_gd s)"
definition s_head :: "CompileState \<Rightarrow> string \<times> string" where "s_head s = (gd_Kind (cs_gd s), gd_SchemaVersion (cs_gd s))"
definition s_entry :: "CompileState \<Rightarrow> string" where "s_entry s = gd_Entry (cs_gd s)"

lemma view_emit [simp]:
  "s_ids (emit_nodes ns s) = s_ids s @ map nd_ID ns" "s_rel (emit_nodes ns s) = s_rel s" "s_nodes (emit_nodes ns s) = s_nodes s @ ns"
  "s_ids (emit_edges es s) = s_ids s" "s_rel (emit_edges es s) = s_rel s \<union> (\<lambda>e. (ed_Source e, ed_Target e)) ` set es" "s_nodes (emit_edges es s) = s_nodes s"
  "s_head (emit_nodes ns s) = s_head s" "s_head (emit_edges es s) = s_head s" "s_entry (emit_nodes ns s) = s_entry s" "s_entry (emit_edges es s) = s_entry s"
  "cs_starts (emit_nodes ns s) = cs_starts s" "cs_outs (emit_nodes ns s) = cs_outs s" "cs_starts (emit_edges es s) = cs_starts s" "cs_outs (emit_edges es s) = cs_outs s"
  by (auto simp: s_ids_def s_rel_def s_nodes_def s_head_def s_entry_def emit_nodes_def emit_edges_def def_rel_def)

lemma view_upd [simp]:
  "s_ids (s\<lparr>cs_starts := a\<rparr>) = s_ids s" "s_rel (s\<lparr>cs_starts := a\<rparr>) = s_rel s" "s_nodes (s\<lparr>cs_starts := a\<rparr>) = s_nodes s"
  "s_ids (s\<lparr>cs_outs := a\<rparr>) = s_ids s" "s_rel (s\<lparr>cs_outs := a\<rparr>) = s_rel s" "s_nodes (s\<lparr>cs_outs := a\<rparr>) = s_nodes s"
  "s_head (s\<lparr>cs_starts := a\<rparr>) = s_head s" "s_head (s\<lparr>cs_outs := a\<rparr>) = s_head s" "s_entry (s\<lparr>cs_starts := a\<rparr>) = s_entry s" "s_entry (s\<lparr>cs_outs := a\<rparr>) = s_entry s"
  "s_ids (set_entry n s) = s_ids s" "s_rel (set_entry n s) = s_rel s" "s_nodes (set_entry n s) = s_nodes s" "s_head (set_entry n s) = s_head s"
  "s_entry (set_entry n s) = n" "cs_starts (set_entry n s) = cs_starts s" "cs_outs (set_entry n s) = cs_outs s"
  by (simp_all add: s_ids_def s_rel_def s_nodes_def s_head_def s_entry_def set_entry_def def_rel_def)

lemma mk_edge_simps [simp]: "ed_Source (mk_edge a h b k) = a" "ed_Target (mk_edge a h b k) = b" by (simp_all add: mk_edge_def)

lemma ids_nodes: "s_ids s = map nd_ID (s_nodes s)" by (simp add: s_ids_def s_nodes_def)

lemma steps_simps [simp]: "steps [] = []" "steps [x] = []" "steps (x # y # zs) = (x, y) # steps (y # zs)"
  by (simp_all add: steps_def)

lemma steps_append: "xs \<noteq> [] \<Longrightarrow> steps (xs @ y # ys) = steps xs @ (last xs, y) # steps (y # ys)"
proof (induction xs)
  case (Cons x xs)
  then show ?case by (cases xs) auto
qed simp

text \<open>The nodes that have no conditions to check, since they are of another type.\<close>

definition plain_nodes :: "NodeDef list \<Rightarrow> bool" where
  "plain_nodes ns \<longleftrightarrow> list_all (\<lambda>n. nd_Type n \<noteq> ''conditional'') ns"

lemma plain_append [simp]: "plain_nodes (xs @ ys) \<longleftrightarrow> plain_nodes xs \<and> plain_nodes ys" "plain_nodes []"
    "plain_nodes (n # ns) \<longleftrightarrow> nd_Type n \<noteq> ''conditional'' \<and> plain_nodes ns"
  by (simp_all add: plain_nodes_def)

definition no_conditional_tool :: "Registry \<Rightarrow> bool" where
  "no_conditional_tool reg \<longleftrightarrow> tool_mode reg ''conditional'' \<noteq> ''standalone''"

lemma standalone_simps [simp]: "standalone_refs reg [] = []"
  "standalone_refs reg (t # ts) = (if tool_mode reg (TrimSpace t) = ''standalone'' then [TrimSpace t] else []) @ standalone_refs reg ts"
  by (simp_all add: standalone_refs_def)

definition tool_ids :: "Registry \<Rightarrow> string \<Rightarrow> string list \<Rightarrow> string list" where
  "tool_ids reg i tools = map (\<lambda>r. i @ ''__'' @ r) (standalone_refs reg tools)"

lemma tool_ids_simps [simp]: "tool_ids reg i [] = []"
  "tool_ids reg i (t # ts) = (if tool_mode reg (TrimSpace t) = ''standalone'' then [i @ ''__'' @ TrimSpace t] else []) @ tool_ids reg i ts"
  by (simp_all add: tool_ids_def)

lemma compileTaskTools_spec:
  assumes "compileTaskTools reg i ag tools fc firstID prevID s = ((fc', prevID'), s')"
  shows "s_ids s' = s_ids s @ tool_ids reg i tools" (is ?A)
    and "s_rel s' = s_rel s \<union> set (steps ((if prevID = [] then [] else [prevID]) @ tool_ids reg i tools))" (is ?B)
    and "prevID' = last (prevID # tool_ids reg i tools)" (is ?C)
    and "mget (cs_starts s') j = (if j = i \<and> tool_ids reg i tools \<noteq> [] then Some (if firstID = [] then hd (tool_ids reg i tools) else firstID) else mget (cs_starts s) j)" (is ?D)
    and "cs_outs s' = cs_outs s" (is ?E) and "s_head s' = s_head s" (is ?F) and "s_entry s' = s_entry s" (is ?G)
    and "no_conditional_tool reg \<Longrightarrow> plain_nodes (s_nodes s) \<Longrightarrow> plain_nodes (s_nodes s')" (is "PROP ?H")
proof -
  have "?A \<and> ?B \<and> ?C \<and> ?D \<and> ?E \<and> ?F \<and> ?G \<and> (no_conditional_tool reg \<longrightarrow> plain_nodes (s_nodes s) \<longrightarrow> plain_nodes (s_nodes s'))"
    using assms
  proof (induction reg i ag tools fc firstID prevID s rule: compileTaskTools.induct)
    case (2 reg i ag t tools fc firstID prevID s)
    let ?r = "TrimSpace t"
    consider (fc) "tool_mode reg ?r = ''function_call''" | (st) "tool_mode reg ?r = ''standalone''"
      | (none) "tool_mode reg ?r \<noteq> ''function_call''" "tool_mode reg ?r \<noteq> ''standalone''" by blast
    then show ?case
    proof cases
      case fc
      with 2 show ?thesis by (simp add: Let_def)
    next
      case none
      with 2 show ?thesis by (simp add: Let_def)
    next
      case st
      define N where "N = i @ ''__'' @ ?r"
      define F where "F = (if firstID = [] then N else firstID)"
      define S1 where "S1 = emit_nodes [\<lparr>nd_ID = N, nd_Type = ?r, nd_Config = buildStandaloneToolNodeConfig reg ?r ag\<rparr>] s"
      define S2 where "S2 = (if prevID \<noteq> [] then emit_edges [mk_edge prevID ''output'' N ''input''] S1 else S1)"
      define S3 where "S3 = S2\<lparr>cs_starts := mput i F (cs_starts S2)\<rparr>"
      have N: "N \<noteq> []" "F \<noteq> []" by (simp_all add: N_def F_def)
      have "compileTaskTools reg i ag (t # tools) fc firstID prevID s = compileTaskTools reg i ag tools fc F N S3"
        using st unfolding compileTaskTools.simps Let_def N_def F_def S1_def S2_def S3_def by simp
      with 2(4) have run: "compileTaskTools reg i ag tools fc F N S3 = ((fc', prevID'), s')" by simp
      have st': "tool_mode reg ?r \<noteq> ''function_call''" using st by simp
      note IH = 2(2)[OF refl refl st' st N_def S1_def F_def S2_def run[unfolded S3_def]]
      have S3: "s_ids S3 = s_ids s @ [N]" "s_rel S3 = s_rel s \<union> (if prevID = [] then {} else {(prevID, N)})"
          "cs_outs S3 = cs_outs s" "s_head S3 = s_head s" "s_entry S3 = s_entry s" "cs_starts S3 = mput i F (cs_starts s)"
        by (simp_all add: S1_def S2_def S3_def)
      have P: "no_conditional_tool reg \<Longrightarrow> plain_nodes (s_nodes s) \<Longrightarrow> plain_nodes (s_nodes S3)"
        using st by (auto simp: S1_def S2_def S3_def no_conditional_tool_def simp del: One_nat_def)
      have ids: "tool_ids reg i (t # tools) = N # tool_ids reg i tools" using st by (simp add: N_def)
      show ?thesis using IH P N unfolding S3_def[symmetric] S3 ids
        by (cases "prevID = []") (simp_all add: F_def)
    qed
  qed simp
  then show ?A ?B ?C ?D ?E ?F ?G "PROP ?H" by blast+
qed

lemma chain_of_ids: "chain_of reg i task tools = tool_ids reg i tools @ (i @ ''__'' @ tk_Agent task) #
    (if tk_Review task = ''human'' then [(i @ ''__'' @ tk_Agent task) @ ''__hitl''] else [])"
  by (simp add: chain_of_def tool_ids_def)

lemma steps_chain:
  "set (steps (chain_of reg i task tools)) = set (steps (tool_ids reg i tools)) \<union>
     (if tool_ids reg i tools = [] then {} else {(last (tool_ids reg i tools), i @ ''__'' @ tk_Agent task)}) \<union>
     (if tk_Review task = ''human'' then {(i @ ''__'' @ tk_Agent task, (i @ ''__'' @ tk_Agent task) @ ''__hitl'')} else {})"
  by (cases "tool_ids reg i tools = []") (auto simp: chain_of_ids steps_append simp del: append_assoc)

lemma hd_chain_of: "hd (chain_of reg i task tools) = (if tool_ids reg i tools = [] then i @ ''__'' @ tk_Agent task else hd (tool_ids reg i tools))"
  by (simp add: chain_of_ids hd_append)

lemma last_chain_of: "last (chain_of reg i task tools) =
    (if tk_Review task = ''human'' then (i @ ''__'' @ tk_Agent task) @ ''__hitl'' else i @ ''__'' @ tk_Agent task)"
  by (simp add: chain_of_ids)

lemma appendReview_spec:
  "s_ids (appendTaskHumanReviewNode i task n s) = s_ids s @ (if tk_Review task = ''human'' then [n @ ''__hitl''] else [])"
  "s_rel (appendTaskHumanReviewNode i task n s) = s_rel s \<union> (if tk_Review task = ''human'' then {(n, n @ ''__hitl'')} else {})"
  "cs_starts (appendTaskHumanReviewNode i task n s) = cs_starts s"
  "cs_outs (appendTaskHumanReviewNode i task n s) = (if tk_Review task = ''human'' then mput i (n @ ''__hitl'') (cs_outs s) else cs_outs s)"
  "s_head (appendTaskHumanReviewNode i task n s) = s_head s" "s_entry (appendTaskHumanReviewNode i task n s) = s_entry s"
  "plain_nodes (s_nodes (appendTaskHumanReviewNode i task n s)) \<longleftrightarrow> plain_nodes (s_nodes s)"
  by (simp_all add: appendTaskHumanReviewNode_def Let_def)

lemma compileTaskNode_spec:
  fixes reg i task ag s
  defines "C \<equiv> chain_of reg i task (ag_Tools ag)" and "s' \<equiv> compileTaskNode reg i task ag s"
  shows "s_ids s' = s_ids s @ C" "s_rel s' = s_rel s \<union> set (steps C)" "mget (cs_starts s') j = (if j = i then Some (hd C) else mget (cs_starts s) j)"
    "mget (cs_outs s') j = (if j = i then Some (last C) else mget (cs_outs s) j)" "s_head s' = s_head s" "s_entry s' = s_entry s"
    "no_conditional_tool reg \<Longrightarrow> plain_nodes (s_nodes s) \<Longrightarrow> plain_nodes (s_nodes s')"
proof -
  define n where "n = i @ ''__'' @ tk_Agent task"
  define s1 where "s1 = s\<lparr>cs_starts := mput i n (cs_starts s), cs_outs := mput i n (cs_outs s)\<rparr>"
  define T where "T = tool_ids reg i (ag_Tools ag)"
  obtain fc p s2 where run: "compileTaskTools reg i ag (ag_Tools ag) [] [] [] s1 = ((fc, p), s2)" by (metis prod.collapse)
  note sp = compileTaskTools_spec[OF run, folded T_def]
  define s3 where "s3 = (if p \<noteq> [] then emit_edges [mk_edge p ''output'' n ''context''] s2 else s2)"
  define s4 where "s4 = emit_nodes [\<lparr>nd_ID = n, nd_Type = ''llm_prompt'', nd_Config = buildTaskLLMConfig task ag (cs_outs s3) fc\<rparr>] s3"
  have s': "s' = appendTaskHumanReviewNode i task n s4"
    unfolding s'_def compileTaskNode_def Let_def s1_def[symmetric] n_def[symmetric] run prod.case s3_def s4_def ..
  have s1: "s_ids s1 = s_ids s" "s_rel s1 = s_rel s" "s_head s1 = s_head s" "s_entry s1 = s_entry s" "s_nodes s1 = s_nodes s"
      "cs_starts s1 = mput i n (cs_starts s)" "cs_outs s1 = mput i n (cs_outs s)"
    by (simp_all add: s1_def s_ids_def s_rel_def s_head_def s_entry_def s_nodes_def)
  have "x \<noteq> []" if "x \<in> set T" for x using that by (auto simp: T_def tool_ids_def)
  then have p: "p = [] \<longleftrightarrow> T = []" "T \<noteq> [] \<Longrightarrow> p = last T" using sp(3) by auto
  have C: "C = T @ n # (if tk_Review task = ''human'' then [n @ ''__hitl''] else [])" by (simp add: C_def chain_of_ids T_def n_def)
  show "s_ids s' = s_ids s @ C" by (simp add: s' appendReview_spec s4_def s3_def sp s1 C)
  show "s_rel s' = s_rel s \<union> set (steps C)"
    unfolding C_def steps_chain T_def[symmetric] n_def[symmetric] using sp(2) p by (cases "T = []") (auto simp: s' appendReview_spec s4_def s3_def s1)
  show "mget (cs_starts s') j = (if j = i then Some (hd C) else mget (cs_starts s) j)"
    by (simp add: s' appendReview_spec s4_def s3_def sp(4) s1 C hd_append)
  show "mget (cs_outs s') j = (if j = i then Some (last C) else mget (cs_outs s) j)"
    by (simp add: s' appendReview_spec s4_def s3_def sp(5) s1 C)
  show "s_head s' = s_head s" "s_entry s' = s_entry s" by (simp_all add: s' appendReview_spec s4_def s3_def sp s1)
  show "plain_nodes (s_nodes s')" if "no_conditional_tool reg" "plain_nodes (s_nodes s)"
    using sp(8)[OF that(1)] that(2) by (simp add: s' appendReview_spec s4_def s3_def s1)
qed

lemma compileTask_spec:
  assumes "compileTask aw reg i s = Inr s'"
  shows "s_ids s' = s_ids s @ task_chain reg aw i" "s_rel s' = s_rel s \<union> set (steps (task_chain reg aw i))"
    "mget (cs_starts s') j = (if j = i then Some (hd (task_chain reg aw i)) else mget (cs_starts s) j)"
    "mget (cs_outs s') j = (if j = i then Some (last (task_chain reg aw i)) else mget (cs_outs s) j)" "s_head s' = s_head s" "s_entry s' = s_entry s"
    "no_conditional_tool reg \<Longrightarrow> plain_nodes (s_nodes s) \<Longrightarrow> plain_nodes (s_nodes s')"
proof -
  from assms obtain ag where ag: "mget (wf_Agents aw) (tk_Agent (task_at aw i)) = Some ag" "s' = compileTaskNode reg i (task_at aw i) ag s"
    by (auto simp: compileTask_def Let_def split: option.splits)
  have "chain_of reg i (task_at aw i) (ag_Tools ag) = task_chain reg aw i" by (simp add: task_chain_def agent_tools_def ag(1))
  note sp = compileTaskNode_spec[where reg = reg and i = i and task = "task_at aw i" and ag = ag and s = s, unfolded this, folded ag(2)]
  show "s_ids s' = s_ids s @ task_chain reg aw i" "s_rel s' = s_rel s \<union> set (steps (task_chain reg aw i))"
    "mget (cs_starts s') j = (if j = i then Some (hd (task_chain reg aw i)) else mget (cs_starts s) j)"
    "mget (cs_outs s') j = (if j = i then Some (last (task_chain reg aw i)) else mget (cs_outs s) j)" "s_head s' = s_head s" "s_entry s' = s_entry s"
    "no_conditional_tool reg \<Longrightarrow> plain_nodes (s_nodes s) \<Longrightarrow> plain_nodes (s_nodes s')"
    by (simp_all add: sp)
qed

text \<open>The state after the nodes of some tasks have been compiled.\<close>

definition compiled :: "Registry \<Rightarrow> AgentWorkflow \<Rightarrow> string list \<Rightarrow> CompileState \<Rightarrow> bool" where
  "compiled reg aw is s \<longleftrightarrow> s_ids s = concat (map (task_chain reg aw) is) \<and> s_rel s = (\<Union>i \<in> set is. set (steps (task_chain reg aw i))) \<and>
     (\<forall>j. mget (cs_starts s) j = (if j \<in> set is then Some (hd (task_chain reg aw j)) else None)) \<and>
     (\<forall>j. mget (cs_outs s) j = (if j \<in> set is then Some (last (task_chain reg aw j)) else None)) \<and>
     s_head s = (KindGraph, CurrentGraphSchemaVersion) \<and> s_entry s = [] \<and> (no_conditional_tool reg \<longrightarrow> plain_nodes (s_nodes s))"

lemma compiled_step: "compiled reg aw is s \<Longrightarrow> compileTask aw reg i s = Inr s' \<Longrightarrow> compiled reg aw (is @ [i]) s'"
  unfolding compiled_def using compileTask_spec[of aw reg i s s'] by auto

lemma compiled_fold: "compiled reg aw is s \<Longrightarrow> rfold (compileTask aw reg) js s = Inr s' \<Longrightarrow> compiled reg aw (is @ js) s'"
proof (induction js arbitrary: "is" s)
  case (Cons j js)
  then obtain s1 where s1: "compileTask aw reg j s = Inr s1" "rfold (compileTask aw reg) js s1 = Inr s'"
    by (auto split: sum.splits)
  from Cons.IH[OF compiled_step[OF Cons.prems(1) s1(1)] s1(2)] show ?case by simp
qed simp

definition init_state :: "string \<Rightarrow> AgentWorkflow \<Rightarrow> CompileState" where
  "init_state now aw = \<lparr>cs_gd = newCompiledGraphDefinition now aw, cs_starts = [], cs_outs = []\<rparr>"

lemma compiled_init: "compiled reg aw [] (init_state now aw)"
  by (simp add: compiled_def init_state_def s_ids_def s_rel_def s_head_def s_entry_def s_nodes_def def_rel_def newCompiledGraphDefinition_def Let_def)

lemma compiled_tasks:
  assumes "compileTaskNodes aw reg (sortedKeys (wf_Tasks aw)) (init_state now aw) = Inr s"
  shows "compiled reg aw (sortedKeys (wf_Tasks aw)) s"
  using compiled_fold[OF compiled_init, of aw reg "sortedKeys (wf_Tasks aw)" now s] assms by (simp add: compileTaskNodes_def)


subsection \<open>References and strategies\<close>

definition maps_ok :: "Registry \<Rightarrow> AgentWorkflow \<Rightarrow> CompileState \<Rightarrow> bool" where
  "maps_ok reg aw s \<longleftrightarrow>
     (\<forall>j. mget (cs_starts s) j = (if j \<in> task_ids aw then Some (hd (task_chain reg aw j)) else None)) \<and>
     (\<forall>j. mget (cs_outs s) j = (if j \<in> task_ids aw then Some (last (task_chain reg aw j)) else None))"

lemma maps_outs: "maps_ok reg aw s \<Longrightarrow> mget (cs_outs s) j = (if j \<in> task_ids aw then Some (last (task_chain reg aw j)) else None)"
  and maps_starts: "maps_ok reg aw s \<Longrightarrow> mget (cs_starts s) j = (if j \<in> task_ids aw then Some (hd (task_chain reg aw j)) else None)"
  by (simp_all add: maps_ok_def)

lemma maps_str_at:
  assumes "maps_ok reg aw s" "j \<in> task_ids aw"
  shows "str_at (cs_starts s) j = hd (task_chain reg aw j)" "str_at (cs_outs s) j = last (task_chain reg aw j)"
  using maps_starts[OF assms(1)] maps_outs[OF assms(1)] assms(2) by (simp_all add: str_at_def)

lemma maps_emit [simp]: "maps_ok reg aw (emit_edges es s) = maps_ok reg aw s" "maps_ok reg aw (emit_nodes ns s) = maps_ok reg aw s"
    "maps_ok reg aw (set_entry n s) = maps_ok reg aw s"
  by (simp_all add: maps_ok_def)

lemma compiled_maps: "compiled reg aw (sortedKeys (wf_Tasks aw)) s \<Longrightarrow> maps_ok reg aw s"
  by (simp add: compiled_def maps_ok_def)

lemma chain_nonempty [simp]: "task_chain reg aw i \<noteq> []" by (simp add: task_chain_def chain_of_def)

lemma chain_member: "x \<in> set (task_chain reg aw i) \<Longrightarrow> \<exists>r. x = i @ ''__'' @ r"
  by (auto simp: task_chain_def chain_of_def split: if_splits)

lemma hd_chain_nonempty: "hd (task_chain reg aw i) \<noteq> []"
  using chain_member[OF hd_in_set[OF chain_nonempty[of reg aw i]]] by auto

lemma reference_edges_rel:
  assumes "maps_ok reg aw s"
  shows "(\<lambda>e. (ed_Source e, ed_Target e)) ` set (reference_edges (cs_outs s) dst task) =
    (\<lambda>r. (last (task_chain reg aw r), dst)) ` (task_refs task \<inter> task_ids aw)"
  by (auto simp: reference_edges_def task_refs_def maps_outs[OF assms] image_iff split: if_splits) force+

lemma wire_spec:
  assumes "maps_ok reg aw s" "set is \<subseteq> task_ids aw"
  shows "maps_ok reg aw (wireTaskReferenceEdges aw is s) \<and> s_nodes (wireTaskReferenceEdges aw is s) = s_nodes s \<and>
    s_head (wireTaskReferenceEdges aw is s) = s_head s \<and> s_entry (wireTaskReferenceEdges aw is s) = s_entry s \<and>
    s_rel (wireTaskReferenceEdges aw is s) = s_rel s \<union> (\<Union>i \<in> set is. (\<lambda>r. link reg aw r i) ` (task_refs (task_at aw i) \<inter> task_ids aw))"
  using assms
proof (induction "is" arbitrary: s)
  case (Cons i "is")
  define s1 where "s1 = emit_edges (reference_edges (cs_outs s) (hd (task_chain reg aw i)) (task_at aw i)) s"
  have "str_at (cs_starts s) i = hd (task_chain reg aw i)" using maps_str_at[OF Cons.prems(1)] Cons.prems(2) by simp
  then have run: "wireTaskReferenceEdges aw (i # is) s = wireTaskReferenceEdges aw is s1"
    by (simp add: wireTaskReferenceEdges_def s1_def Let_def hd_chain_nonempty)
  have s1: "maps_ok reg aw s1" "s_nodes s1 = s_nodes s" "s_head s1 = s_head s" "s_entry s1 = s_entry s"
      "s_rel s1 = s_rel s \<union> (\<lambda>r. link reg aw r i) ` (task_refs (task_at aw i) \<inter> task_ids aw)"
    using Cons.prems(1) by (simp_all add: s1_def reference_edges_rel[OF Cons.prems(1)] link_def)
  from Cons.IH[OF s1(1)] Cons.prems(2) s1 show ?case unfolding run by auto
qed (simp add: wireTaskReferenceEdges_def)

lemma chain_edges_spec:
  assumes "chain_edges order s = Inr s'" "maps_ok reg aw s"
  shows "s_nodes s' = s_nodes s \<and> s_head s' = s_head s \<and> s_entry s' = s_entry s \<and>
    s_rel s' = s_rel s \<union> (\<lambda>(a, b). link reg aw a b) ` set (steps order)"
  using assms
proof (induction order s rule: chain_edges.induct)
  case (1 a b order s)
  then have ab: "a \<in> task_ids aw" "b \<in> task_ids aw"
    by (auto simp: maps_outs[OF 1(3)] maps_starts[OF 1(3)] split: if_splits)
  with 1 show ?case by (auto simp: maps_outs[OF 1(3)] maps_starts[OF 1(3)] link_def)
qed auto

lemma chain_edges_succeeds:
  assumes "maps_ok reg aw s" "set order \<subseteq> task_ids aw"
  shows "\<exists>s'. chain_edges order s = Inr s'"
  using assms
proof (induction order s rule: chain_edges.induct)
  case (1 a b order s)
  have "mget (cs_outs s) a \<noteq> None" "mget (cs_starts s) b \<noteq> None"
    using maps_outs[OF 1(2), of a] maps_starts[OF 1(2), of b] 1(3) by auto
  then show ?case using 1 by auto
qed auto

definition cond_ok_nodes :: "Registry \<Rightarrow> AgentWorkflow \<Rightarrow> TaskDependencies gomap \<Rightarrow> string gomap \<Rightarrow> NodeDef list \<Rightarrow> bool" where
  "cond_ok_nodes reg aw ts outs ns \<longleftrightarrow> list_all (\<lambda>n. nd_Type n = ''conditional'' \<longrightarrow>
     (\<exists>d i c. (d, i, c) \<in> deps_of aw ts \<and> c \<noteq> [] \<and>
        n = conditional_node (cond_id d i) (hd (task_chain reg aw i)) (rewriteConditionExpr c outs))) ns"

lemma wire_dependency_spec:
  assumes m: "maps_ok reg aw s" and i: "i \<in> task_ids aw" and c: "dep \<in> task_ids aw \<Longrightarrow> (dep, i, c) \<in> deps_of aw ts"
    and s': "s' = wire_dependency i c (hd (task_chain reg aw i)) dep s"
  shows "maps_ok reg aw s'" "cs_outs s' = cs_outs s" "s_head s' = s_head s" "s_entry s' = s_entry s"
    "set (s_ids s') = set (s_ids s) \<union> (if dep \<in> task_ids aw \<and> c \<noteq> [] then {cond_id dep i} else {})"
    "distinct (s_ids s) \<Longrightarrow> distinct (s_ids s')"
    "s_rel s' = s_rel s \<union> (if dep \<in> task_ids aw then (if c = [] then {link reg aw dep i}
       else {(last (task_chain reg aw dep), cond_id dep i), (cond_id dep i, hd (task_chain reg aw i))}) else {})"
    "cond_ok_nodes reg aw ts (cs_outs s) (s_nodes s) \<Longrightarrow> cond_ok_nodes reg aw ts (cs_outs s) (s_nodes s')"
proof -
  show "maps_ok reg aw s'" "cs_outs s' = cs_outs s" "s_head s' = s_head s" "s_entry s' = s_entry s"
    using m by (simp_all add: s' wire_dependency_def Let_def split: option.splits)
  have ex: "list_ex (\<lambda>n. nd_ID n = dep @ ''__cond__'' @ i) (gd_Nodes (cs_gd s)) \<longleftrightarrow> cond_id dep i \<in> set (s_ids s)"
    unfolding list_ex_iff s_ids_def cond_id_def set_map image_iff by metis
  have out: "mget (cs_outs s) dep = (if dep \<in> task_ids aw then Some (last (task_chain reg aw dep)) else None)" by (rule maps_outs[OF m])
  have nid: "nd_ID (conditional_node a b e) = a" for a b e by (simp add: conditional_node_def)
  have eq: "s' = (if dep \<in> task_ids aw then
      (if c \<noteq> [] then emit_edges [mk_edge (last (task_chain reg aw dep)) ''output'' (cond_id dep i) ''input'',
           mk_edge (cond_id dep i) (hd (task_chain reg aw i)) (hd (task_chain reg aw i)) ''input'']
         (if cond_id dep i \<in> set (s_ids s) then s
          else emit_nodes [conditional_node (cond_id dep i) (hd (task_chain reg aw i)) (rewriteConditionExpr c (cs_outs s))] s)
       else emit_edges [mk_edge (last (task_chain reg aw dep)) ''output'' (hd (task_chain reg aw i)) ''input''] s)
      else s)"
    unfolding s' wire_dependency_def Let_def out ex unfolding cond_id_def by auto
  show "set (s_ids s') = set (s_ids s) \<union> (if dep \<in> task_ids aw \<and> c \<noteq> [] then {cond_id dep i} else {})"
    by (auto simp: eq nid)
  show "distinct (s_ids s')" if "distinct (s_ids s)" using that by (auto simp: eq nid)
  show "s_rel s' = s_rel s \<union> (if dep \<in> task_ids aw then (if c = [] then {link reg aw dep i}
       else {(last (task_chain reg aw dep), cond_id dep i), (cond_id dep i, hd (task_chain reg aw i))}) else {})"
    by (auto simp: eq link_def)
  show "cond_ok_nodes reg aw ts (cs_outs s) (s_nodes s')" if "cond_ok_nodes reg aw ts (cs_outs s) (s_nodes s)"
    using that c by (auto simp: eq cond_ok_nodes_def)
qed

text \<open>What wiring a set of dependencies \<open>D\<close> changes.\<close>

definition dep_rel :: "Registry \<Rightarrow> AgentWorkflow \<Rightarrow> (string \<times> string \<times> string) set \<Rightarrow> (string \<times> string) set" where
  "dep_rel reg aw D = (\<Union>(d, i, c) \<in> D. if c = [] then {link reg aw d i}
     else {(last (task_chain reg aw d), cond_id d i), (cond_id d i, hd (task_chain reg aw i))})"

definition dep_nodes :: "(string \<times> string \<times> string) set \<Rightarrow> string set" where
  "dep_nodes D = {cond_id d i | d i c. (d, i, c) \<in> D \<and> c \<noteq> []}"

lemma dep_union [simp]: "dep_rel reg aw (D \<union> D') = dep_rel reg aw D \<union> dep_rel reg aw D'" "dep_nodes (D \<union> D') = dep_nodes D \<union> dep_nodes D'"
    "dep_rel reg aw {} = {}" "dep_nodes {} = {}"
  by (auto simp: dep_rel_def dep_nodes_def)

definition wired :: "Registry \<Rightarrow> AgentWorkflow \<Rightarrow> TaskDependencies gomap \<Rightarrow> CompileState \<Rightarrow> (string \<times> string \<times> string) set \<Rightarrow> CompileState \<Rightarrow> bool" where
  "wired reg aw ts s D s' \<longleftrightarrow> maps_ok reg aw s' \<and> cs_outs s' = cs_outs s \<and> s_head s' = s_head s \<and> s_entry s' = s_entry s \<and>
     set (s_ids s') = set (s_ids s) \<union> dep_nodes D \<and> (distinct (s_ids s) \<longrightarrow> distinct (s_ids s')) \<and> s_rel s' = s_rel s \<union> dep_rel reg aw D \<and>
     (cond_ok_nodes reg aw ts (cs_outs s) (s_nodes s) \<longrightarrow> cond_ok_nodes reg aw ts (cs_outs s) (s_nodes s'))"

lemma wired_refl: "maps_ok reg aw s \<Longrightarrow> wired reg aw ts s {} s" by (simp add: wired_def)

lemma wired_trans: "wired reg aw ts s D s1 \<Longrightarrow> wired reg aw ts s1 D' s2 \<Longrightarrow> wired reg aw ts s (D \<union> D') s2"
  by (auto simp: wired_def)

lemma wired_maps: "wired reg aw ts s D s' \<Longrightarrow> maps_ok reg aw s'" by (simp add: wired_def)

lemma wired_dependency:
  assumes "maps_ok reg aw s" "i \<in> task_ids aw" "mget ts i = Some d" "dep \<in> set (td_DependsOn d)"
  shows "wired reg aw ts s ({(dep, i, td_Condition d)} \<inter> deps_of aw ts) (wire_dependency i (td_Condition d) (hd (task_chain reg aw i)) dep s)"
proof -
  have D: "(dep, i, td_Condition d) \<in> deps_of aw ts \<longleftrightarrow> dep \<in> task_ids aw" using assms by (auto simp: deps_of_def)
  note sp = wire_dependency_spec[OF assms(1,2) _ refl, of dep "td_Condition d" ts, OF D[THEN iffD2]]
  show ?thesis using sp D by (auto simp: wired_def dep_rel_def dep_nodes_def)
qed

lemma wired_dependencies:
  assumes "maps_ok reg aw s" "i \<in> task_ids aw" "mget ts i = Some d" "set deps \<subseteq> set (td_DependsOn d)"
  shows "wired reg aw ts s (((\<lambda>dep. (dep, i, td_Condition d)) ` set deps) \<inter> deps_of aw ts)
    (fold (wire_dependency i (td_Condition d) (hd (task_chain reg aw i))) deps s)"
  using assms
proof (induction deps arbitrary: s)
  case Nil
  then show ?case by (simp add: wired_refl)
next
  case (Cons dep deps)
  note w = wired_dependency[OF Cons.prems(1,2,3), of dep]
  have *: "(\<lambda>dep. (dep, i, td_Condition d)) ` set (dep # deps) \<inter> deps_of aw ts =
      ({(dep, i, td_Condition d)} \<inter> deps_of aw ts) \<union> ((\<lambda>dep. (dep, i, td_Condition d)) ` set deps \<inter> deps_of aw ts)" by auto
  show ?case unfolding * using w Cons by (auto intro!: wired_trans[OF w] Cons.IH intro: wired_maps)
qed

lemma wired_task:
  assumes "maps_ok reg aw s"
  shows "wired reg aw ts s {(d, j, c) \<in> deps_of aw ts. j = i} (wire_task ts i s)"
proof (cases "\<exists>d. mget ts i = Some d \<and> i \<in> task_ids aw")
  case True
  then obtain d where d: "mget ts i = Some d" "i \<in> task_ids aw" by blast
  have "wire_task ts i s = fold (wire_dependency i (td_Condition d) (hd (task_chain reg aw i))) (td_DependsOn d) s"
    using d by (simp add: wire_task_def maps_outs[OF assms] maps_str_at[OF assms])
  moreover have "{(x, j, c) \<in> deps_of aw ts. j = i} = (\<lambda>dep. (dep, i, td_Condition d)) ` set (td_DependsOn d) \<inter> deps_of aw ts"
    using d by (auto simp: deps_of_def)
  ultimately show ?thesis using wired_dependencies[OF assms d(2,1) order_refl] by simp
next
  case False
  then have "wire_task ts i s = s" by (auto simp: wire_task_def maps_outs[OF assms] split: option.splits)
  moreover have "{(x, j, c) \<in> deps_of aw ts. j = i} = {}" using False by (auto simp: deps_of_def)
  ultimately show ?thesis using wired_refl[OF assms] by (simp only:)
qed

lemma wired_tasks:
  assumes "maps_ok reg aw s"
  shows "wired reg aw ts s {(d, j, c) \<in> deps_of aw ts. j \<in> set is} (fold (wire_task ts) is s)"
  using assms
proof (induction "is" arbitrary: s)
  case Nil
  then show ?case by (simp add: wired_refl)
next
  case (Cons i "is")
  note w = wired_task[OF Cons.prems, of ts i]
  have *: "{(d, j, c) \<in> deps_of aw ts. j \<in> set (i # is)} = {(d, j, c) \<in> deps_of aw ts. j = i} \<union> {(d, j, c) \<in> deps_of aw ts. j \<in> set is}" by auto
  show ?case unfolding * using wired_trans[OF w Cons.IH[OF wired_maps[OF w]]] by simp
qed

text \<open>The result of a strategy.\<close>

definition strategy_done :: "Registry \<Rightarrow> AgentWorkflow \<Rightarrow> CompileState \<Rightarrow> CompileState \<Rightarrow> bool" where
  "strategy_done reg aw s s' \<longleftrightarrow> set (s_ids s') = set (s_ids s) \<union> strategy_nodes aw \<and> s_rel s' = s_rel s \<union> strategy_rel reg aw \<and>
     s_head s' = s_head s \<and> s_entry s' = described_entry reg aw"

lemma sequential_done:
  assumes "compileSequential aw s = Inr s'" "maps_ok reg aw s" "ex_Strategy (wf_Execution aw) = ''sequential''"
  shows "strategy_done reg aw s s' \<and> s_nodes s' = s_nodes s"
proof -
  obtain a order where o: "ex_TaskOrder (wf_Execution aw) = a # order"
    and run: "chain_edges (a # order) (set_entry (str_at (cs_starts s) a) s) = Inr s'"
    using assms(1) by (auto simp: compileSequential_def split: list.splits)
  have "str_at (cs_starts s) a = (if a \<in> task_ids aw then hd (task_chain reg aw a) else [])"
    using maps_starts[OF assms(2), of a] by (simp add: str_at_def)
  then show ?thesis using chain_edges_spec[OF run, of reg aw] assms(2,3) o
    by (auto simp: strategy_done_def strategy_nodes_def strategy_rel_def described_entry_def Let_def ids_nodes)
qed

lemma parallel_done:
  assumes "compileParallel aw s = Inr s'" "maps_ok reg aw s" "s_entry s = []" "ex_Strategy (wf_Execution aw) = ''parallel''"
  shows "strategy_done reg aw s s' \<and> (distinct (s_ids s) \<and> merge_id aw \<notin> set (s_ids s) \<longrightarrow> distinct (s_ids s')) \<and> (plain_nodes (s_nodes s) \<longrightarrow> plain_nodes (s_nodes s'))"
proof -
  have im: "(\<lambda>i. (str_at (cs_outs s) i, merge_id aw)) ` task_ids aw = (\<lambda>i. (last (task_chain reg aw i), merge_id aw)) ` task_ids aw"
    by (rule image_cong) (simp_all add: maps_str_at[OF assms(2)])
  have "s_ids s' = s_ids s @ [merge_id aw]" "s_rel s' = s_rel s \<union> (\<lambda>i. (str_at (cs_outs s) i, merge_id aw)) ` task_ids aw"
      "s_head s' = s_head s" "s_entry s' = []" "plain_nodes (s_nodes s') = plain_nodes (s_nodes s)"
    using assms(1,3) by (auto simp: compileParallel_def Let_def merge_id_def image_image)
  then show ?thesis using assms(4) unfolding im
    by (simp add: strategy_done_def strategy_nodes_def strategy_rel_def described_entry_def)
qed

lemma hierarchical_done:
  assumes "compileHierarchical aw s = Inr s'" "maps_ok reg aw s" "ex_Strategy (wf_Execution aw) = ''hierarchical''"
  shows "strategy_done reg aw s s'"
proof -
  let ?m = "manager_id aw"
  have im: "(\<lambda>i. (?m, str_at (cs_starts s) i)) ` task_ids aw = (\<lambda>i. (?m, hd (task_chain reg aw i))) ` task_ids aw"
      "(\<lambda>i. (str_at (cs_outs s) i, ?m)) ` task_ids aw = (\<lambda>i. (last (task_chain reg aw i), ?m)) ` task_ids aw"
    by (rule image_cong; simp add: maps_str_at[OF assms(2)])+
  have eq: "(\<lambda>e. (ed_Source e, ed_Target e)) ` set (concat (map (\<lambda>i. [mk_edge m h (f i) k, mk_edge (g i) h m k]) xs)) =
      (\<lambda>i. (m, f i)) ` set xs \<union> (\<lambda>i. (g i, m)) ` set xs" for m h k and f g :: "string \<Rightarrow> string" and xs
    by (induction xs) auto
  have "s_ids s' = s_ids s @ [?m] \<and> s_rel s' = s_rel s \<union> ((\<lambda>i. (?m, str_at (cs_starts s) i)) ` task_ids aw \<union> (\<lambda>i. (str_at (cs_outs s) i, ?m)) ` task_ids aw) \<and>
      s_head s' = s_head s \<and> s_entry s' = ?m"
    using assms(1) unfolding compileHierarchical_def Let_def manager_id_def[symmetric]
    by (auto simp only: view_emit view_upd eq set_sorted_tasks list.map NodeDef.simps split: if_splits option.splits)
  then show ?thesis using assms(3) unfolding im
    by (simp add: strategy_done_def strategy_nodes_def strategy_rel_def described_entry_def)
qed

lemma custom_done:
  assumes "compileCustom aw s = Inr s'" "maps_ok reg aw s" "s_entry s = []" "ex_Strategy (wf_Execution aw) = ''custom''"
  shows "strategy_done reg aw s s' \<and> (distinct (s_ids s) \<longrightarrow> distinct (s_ids s')) \<and>
    (\<forall>ts. ex_Tasks (wf_Execution aw) = Some ts \<longrightarrow> plain_nodes (s_nodes s) \<longrightarrow> cond_ok_nodes reg aw ts (cs_outs s) (s_nodes s')) \<and>
    (ex_Tasks (wf_Execution aw) = None \<longrightarrow> s_nodes s' = s_nodes s)"
proof (cases "ex_Tasks (wf_Execution aw)")
  case None
  then show ?thesis using assms
    by (simp add: compileCustom_def strategy_done_def strategy_nodes_def strategy_rel_def described_entry_def)
next
  case (Some ts)
  define s1 where "s1 = fold (wire_task ts) (sortedKeys ts) s"
  have "{(d, j, c) \<in> deps_of aw ts. j \<in> set (sortedKeys ts)} = deps_of aw ts" by (auto simp: deps_of_def set_sortedKeys dest: mget_in_keys)
  then have w: "wired reg aw ts s (deps_of aw ts) s1" using wired_tasks[OF assms(2), of ts "sortedKeys ts"] by (simp add: s1_def)
  have pl: "plain_nodes (s_nodes s) \<Longrightarrow> cond_ok_nodes reg aw ts (cs_outs s) (s_nodes s)"
    by (auto simp: plain_nodes_def cond_ok_nodes_def list_all_iff)
  have find: "List.find (is_root ts) (sortedKeys (wf_Tasks aw)) = Some i \<Longrightarrow> i \<in> task_ids aw" for i
    by (metis find_Some_iff nth_mem set_sorted_tasks)
  have s': "s' = (case List.find (is_root ts) (sortedKeys (wf_Tasks aw)) of None \<Rightarrow> s1 | Some i \<Rightarrow> set_entry (hd (task_chain reg aw i)) s1)"
    using assms(1) Some find maps_str_at(1)[OF wired_maps[OF w]] by (auto simp: compileCustom_def Let_def s1_def[symmetric] split: option.splits)
  have v: "s_ids s' = s_ids s1" "s_rel s' = s_rel s1" "s_nodes s' = s_nodes s1" "s_head s' = s_head s1"
      "s_entry s' = (case List.find (is_root ts) (sortedKeys (wf_Tasks aw)) of None \<Rightarrow> s_entry s1 | Some i \<Rightarrow> hd (task_chain reg aw i))"
    by (auto simp: s' split: option.split)
  show ?thesis using w assms(3,4) Some pl
    by (auto simp: strategy_done_def strategy_nodes_def strategy_rel_def described_entry_def v wired_def dep_rel_def dep_nodes_def Let_def split: option.split)
qed


subsection \<open>Compilation produces the described graph\<close>

lemma Compile_inv:
  assumes "Compile now reg (Some aw) = Inr gd"
  obtains s1 s2 s3 where "compiled reg aw (sortedKeys (wf_Tasks aw)) s1" "maps_ok reg aw s2" "s_nodes s2 = s_nodes s1" "s_entry s2 = []"
    "s_head s2 = (KindGraph, CurrentGraphSchemaVersion)" "s_rel s2 = task_rel reg aw"
    "compileExecutionStrategy aw s2 = Inr s3" "gd = sortEdges (cs_gd s3)"
proof -
  let ?ks = "sortedKeys (wf_Tasks aw)"
  from assms obtain s1 s3 where run: "compileTaskNodes aw reg ?ks (init_state now aw) = Inr s1"
      "compileExecutionStrategy aw (wireTaskReferenceEdges aw ?ks s1) = Inr s3" "gd = sortEdges (cs_gd s3)"
    unfolding Compile_def option.case Let_def init_state_def[symmetric] by (auto simp: rbind_Inr_iff)
  have c: "compiled reg aw ?ks s1" by (rule compiled_tasks[OF run(1)])
  note w = wire_spec[OF compiled_maps[OF c], of ?ks]
  show thesis by (rule that[OF c _ _ _ _ _ run(2,3)]) (use w c in \<open>auto simp: compiled_def task_rel_def\<close>)
qed

lemma strategy_cases:
  assumes "compileExecutionStrategy aw s = Inr s'" "maps_ok reg aw s" "s_entry s = []"
  shows "strategy_done reg aw s s'"
  using assms sequential_done[of aw s s' reg] parallel_done[of aw s s' reg] hierarchical_done[of aw s s' reg] custom_done[of aw s s' reg]
  unfolding compileExecutionStrategy_def Let_def by (auto split: if_splits)

lemma graph_refines:
  assumes "Compile now reg (Some aw) = Inr gd"
  shows "nd_ID ` set (gd_Nodes gd) = described_ids reg aw" "def_rel gd = described_rel reg aw" "gd_Entry gd = described_entry reg aw"
proof -
  from Compile_inv[OF assms] obtain s1 s2 s3 where c: "compiled reg aw (sortedKeys (wf_Tasks aw)) s1" and s2: "maps_ok reg aw s2" "s_nodes s2 = s_nodes s1" "s_entry s2 = []"
      "s_rel s2 = task_rel reg aw" and run: "compileExecutionStrategy aw s2 = Inr s3" and gd: "gd = sortEdges (cs_gd s3)" .
  note d = strategy_cases[OF run s2(1,3)]
  have "set (s_ids s2) = (\<Union>i \<in> task_ids aw. set (task_chain reg aw i))" using c s2(2) by (simp add: compiled_def ids_nodes)
  then have "set (s_ids s3) = described_ids reg aw" "s_rel s3 = described_rel reg aw" "s_entry s3 = described_entry reg aw"
    using d s2(4) by (simp_all add: strategy_done_def described_ids_def described_rel_def)
  then show "nd_ID ` set (gd_Nodes gd) = described_ids reg aw" "def_rel gd = described_rel reg aw" "gd_Entry gd = described_entry reg aw"
    by (simp_all add: gd s_ids_def s_rel_def s_entry_def def_rel_def)
qed

text \<open>
  C16: The compiler produces the graph a workflow describes, for all four strategies: when \<open>Compile\<close> returns a definition, its
  nodes are exactly the chains of the tasks (standalone tools, model call, human review) and the nodes of the
  strategy (merge, manager or conditions); its edges are exactly those inside the chains, one from the output
  of each referenced task to the start of the task that refers to it, and those of the strategy; and its entry is
  the one the strategy gives.
\<close>

theorem Compile_refines:
  assumes "Compile now reg (Some aw) = Inr gd"
  shows "nd_ID ` set (gd_Nodes gd) = described_ids reg aw \<and>
    (\<lambda>e. (ed_Source e, ed_Target e)) ` set (gd_Edges gd) = described_rel reg aw \<and> gd_Entry gd = described_entry reg aw"
  using graph_refines[OF assms] by (simp add: def_rel_def)

definition demo_agent :: Agent where
  "demo_agent = \<lparr>ag_Role = ''editor'', ag_Goal = ''edit'', ag_Backstory = [], ag_Provider = ''openai'', ag_Model = ''m'', ag_Tools = [],
     ag_ToolConfig = [], ag_Config = []\<rparr>"

definition demo_task :: "string \<Rightarrow> string list \<Rightarrow> Task" where
  "demo_task review ctx = \<lparr>tk_Description = ''d'', tk_Agent = ''ed'', tk_ExpectedOutput = ''e'', tk_OutputKey = [], tk_Inputs = [],
     tk_Review = review, tk_Context = ctx\<rparr>"

definition demo_workflow :: "ExecutionConfig \<Rightarrow> AgentWorkflow" where
  "demo_workflow x = \<lparr>wf_Version = ''1'', wf_SchemaVersion = [], wf_Kind = [], wf_ID = ''w'', wf_Name = [], wf_Agents = [(''ed'', demo_agent)],
     wf_Tasks = [(''b'', demo_task [] [''a'']), (''a'', demo_task ''human'' [])], wf_Execution = x\<rparr>"

definition demo_sequential :: ExecutionConfig where
  "demo_sequential = \<lparr>ex_Strategy = ''sequential'', ex_TaskOrder = [''a'', ''b''], ex_MergeStrategy = [], ex_ManagerAgent = [], ex_Tasks = None\<rparr>"

definition demo_gd :: "AgentWorkflow \<Rightarrow> GraphDefinition" where
  "demo_gd aw = (case Compile [] Global (Some aw) of Inr gd \<Rightarrow> gd | Inl _ \<Rightarrow> newCompiledGraphDefinition [] aw)"

lemma demo_compiles: "Compile [] Global (Some (demo_workflow demo_sequential)) = Inr (demo_gd (demo_workflow demo_sequential))"
proof -
  have "isl (Compile [] Global (Some (demo_workflow demo_sequential))) = False" by code_simp
  then show ?thesis by (auto simp: demo_gd_def split: sum.split)
qed

theorem Compile_refines_witness:
  "map nd_ID (gd_Nodes (demo_gd (demo_workflow demo_sequential))) = [''a__ed'', ''a__ed__hitl'', ''b__ed''] \<and>
   described_ids Global (demo_workflow demo_sequential) = {''a__ed'', ''a__ed__hitl'', ''b__ed''} \<and>
   described_rel Global (demo_workflow demo_sequential) = {(''a__ed'', ''a__ed__hitl''), (''a__ed__hitl'', ''b__ed'')}"
proof -
  have n: "map nd_ID (gd_Nodes (demo_gd (demo_workflow demo_sequential))) = [''a__ed'', ''a__ed__hitl'', ''b__ed'']" by code_simp
  have e: "map (\<lambda>e. (ed_Source e, ed_Target e)) (gd_Edges (demo_gd (demo_workflow demo_sequential))) =
      [(''a__ed'', ''a__ed__hitl''), (''a__ed__hitl'', ''b__ed''), (''a__ed__hitl'', ''b__ed'')]" by code_simp
  note r = Compile_refines[OF demo_compiles, folded set_map, unfolded n e]
  show ?thesis unfolding r[THEN conjunct1, symmetric] r[THEN conjunct2, THEN conjunct1, symmetric] n by (simp only: list.set insert_absorb2 simp_thms)
qed

end
