(* ===== verification/Agent_Valid.thy ===== *)
theory Agent_Valid
  imports Agent_Correct
begin

section \<open>Validated agent workflows\<close>

text \<open>
  What the validator of agent workflows accepts, including its cycle check (the third use of
  \<open>Kahn.kahn_graph\<close>), and which accepted workflows compile to definitions that graph validation accepts.
\<close>

subsection \<open>What validation accepts\<close>

lemma HasErrors_concat [simp]: "diag_HasErrors (concat dss) \<longleftrightarrow> (\<exists>ds \<in> set dss. diag_HasErrors ds)"
  by (induction dss) auto

lemma severity_errDiag [simp]: "dg_Severity (errDiag c f as p) = SeverityError" by (simp add: errDiag_def)

lemma HasErrors_missing [simp]: "diag_HasErrors (missing what i path field v) \<longleftrightarrow> v = []" by (simp add: missing_def)

lemma HasErrors_guard: "diag_HasErrors (concat (map (\<lambda>x. if P x then [errDiag a b (c x) (d x)] else []) xs)) \<longleftrightarrow> list_ex P xs"
  by (induction xs) (auto simp del: HasErrors_concat)

definition tool_ref_ok :: "Registry \<Rightarrow> string \<Rightarrow> bool" where
  "tool_ref_ok reg toolID \<longleftrightarrow> (\<exists>def. reg_Get reg (TrimSpace toolID) = Some def \<and> nt_IsTool def) \<and>
     (case parseToolReference (TrimSpace toolID) of (_, _, hasAction, valid) \<Rightarrow> hasAction \<longrightarrow> valid)"

lemma validateAgentTools_errors:
  "diag_HasErrors (snd (validateAgentTools a path reg i refs tools)) \<longleftrightarrow> \<not> list_all (tool_ref_ok reg) tools"
proof (induction a path reg i refs tools rule: validateAgentTools.induct)
  case (2 a path reg i refs t tools)
  obtain n act h v where p: "parseToolReference (TrimSpace t) = (n, act, h, v)" by (metis prod_cases4)
  have "snd (map_prod (\<lambda>m. m) ((#) (errDiag c f as q)) x) = errDiag c f as q # snd x" for c f as q and x :: "string list gomap \<times> Diagnostic list"
    by (cases x) simp
  then show ?case using 2 p
    by (cases h; cases v; cases "reg_Get reg (TrimSpace t)") (simp_all add: Let_def tool_ref_ok_def HasTool_def reg_Get_def)
qed simp

definition agent_ok :: "Registry \<Rightarrow> Agent \<Rightarrow> bool" where
  "agent_ok reg ag \<longleftrightarrow> ag_Role ag \<noteq> [] \<and> ag_Goal ag \<noteq> [] \<and> ag_Provider ag \<in> set validProviders \<and> ag_Model ag \<noteq> [] \<and>
     list_all (tool_ref_ok reg) (ag_Tools ag)"

lemma validateAgents_ok: "\<not> diag_HasErrors (validateAgents reg as) \<Longrightarrow> list_all (\<lambda>(i, ag). agent_ok reg ag) as"
proof (induction reg as rule: validateAgents.induct)
  case (2 reg i ag as)
  obtain refs ds where t: "validateAgentTools i (''agents.'' @ i) reg 0 [] (ag_Tools ag) = (refs, ds)" by force
  have "list_all (tool_ref_ok reg) (ag_Tools ag) \<longleftrightarrow> \<not> diag_HasErrors ds"
    using validateAgentTools_errors[of i "''agents.'' @ i" reg 0 "[]" "ag_Tools ag"] t by simp
  with 2 t show ?case by (auto simp: Let_def validateAgentRequiredFields_def agent_ok_def split: if_splits)
qed simp

definition task_ok :: "AgentWorkflow \<Rightarrow> Task \<Rightarrow> bool" where
  "task_ok aw t \<longleftrightarrow> tk_Description t \<noteq> [] \<and> tk_ExpectedOutput t \<noteq> [] \<and> mget (wf_Agents aw) (tk_Agent t) \<noteq> None \<and> tk_Agent t \<noteq> [] \<and>
     task_refs t \<subseteq> task_ids aw"

lemma task_defined: "mget (wf_Tasks aw) i = None \<longleftrightarrow> i \<notin> task_ids aw"
  unfolding task_ids_def in_mkeys_iff by simp

lemma context_errors: "diag_HasErrors (validateTaskContextReferences aw i path j refs) \<longleftrightarrow> \<not> set refs \<subseteq> task_ids aw"
proof (induction aw i path j refs rule: validateTaskContextReferences.induct)
  case (2 aw i path j ref refs)
  then show ?case unfolding validateTaskContextReferences.simps task_defined by simp
qed simp

lemma input_errors: "diag_HasErrors (validateTaskInputReferences aw i path t) \<longleftrightarrow>
    \<not> (\<Union>p \<in> set (tk_Inputs t). set (compileExtractTaskRefs (snd p))) \<subseteq> task_ids aw"
proof -
  have "diag_HasErrors (concat (map (\<lambda>ref. if ref \<in> task_ids aw then [] else [errDiag a b c d]) xs)) \<longleftrightarrow> \<not> set xs \<subseteq> task_ids aw" for a b c d xs
    by (induction xs) (auto simp del: HasErrors_concat)
  then show ?thesis
    unfolding validateTaskInputReferences_def compileExtractTaskRefs_def extractTaskRefs_def task_defined not_not HasErrors_concat[of "map _ (tk_Inputs t)"]
    by fastforce
qed

lemma validateTasks_errors: "diag_HasErrors (validateTasks aw) \<longleftrightarrow> \<not> list_all (\<lambda>(i, t). task_ok aw t) (wf_Tasks aw)"
proof -
  have "diag_HasErrors (validateTaskRequiredFields i path t @ validateTaskAgentReference aw i path t @
     validateTaskInputReferences aw i path t @ validateTaskContextReferences aw i path 0 (tk_Context t)) \<longleftrightarrow> \<not> task_ok aw t" for i path t
    by (auto simp: validateTaskRequiredFields_def validateTaskAgentReference_def input_errors context_errors task_ok_def task_refs_def split: if_splits)
  then show ?thesis by (simp add: validateTasks_def Let_def list_all_iff case_prod_beta del: HasErrors_append)
qed

lemma validateIDFormats_errors: "diag_HasErrors (validateIDFormats aw) \<longleftrightarrow>
    \<not> (list_all isValidID (mkeys (wf_Agents aw)) \<and> list_all isValidID (mkeys (wf_Tasks aw)))"
  unfolding validateIDFormats_def HasErrors_append HasErrors_guard by (auto simp: list_all_iff list_ex_iff)

lemma validateSequential_errors: "diag_HasErrors (validateSequential aw) \<longleftrightarrow>
    \<not> (ex_TaskOrder (wf_Execution aw) \<noteq> [] \<and> set (ex_TaskOrder (wf_Execution aw)) = task_ids aw)"
proof -
  let ?o = "ex_TaskOrder (wf_Execution aw)"
  show ?thesis
  proof (cases "length ?o = 0")
    case False
    then show ?thesis unfolding validateSequential_def Let_def task_defined if_not_P[OF False] HasErrors_append HasErrors_guard list_ex_iff task_ids_def[symmetric] by auto
  qed (simp add: validateSequential_def)
qed


subsection \<open>The cycle check of custom dependencies\<close>

definition deps_wf :: "AgentWorkflow \<times> TaskDependencies gomap \<Rightarrow> bool" where
  "deps_wf g \<longleftrightarrow> gomap_ok (wf_Tasks (fst g)) \<and> set (mkeys (snd g)) \<subseteq> task_ids (fst g)"

definition known_edges :: "AgentWorkflow \<times> TaskDependencies gomap \<Rightarrow> Edge list" where
  "known_edges g = map (\<lambda>(i, dep). Edge dep i) (known_deps (fst g) (snd g))"

lemma dep_inDegree_deg: "deg (dep_inDegree aw ts) v = int (length (filter (\<lambda>p. fst p = v) (known_deps aw ts)))"
proof -
  have z: "deg d v = 0 \<Longrightarrow> deg (fold (\<lambda>i d. mput i 0 d) ks d) v = 0" for ks d by (induction ks arbitrary: d) auto
  have "deg (fold (\<lambda>(i, dep) d. mput i (deg d i + 1) d) ps d) v = deg d v + int (length (filter (\<lambda>p. fst p = v) ps))" for ps :: "(string \<times> string) list" and d
    by (induction ps arbitrary: d) auto
  then show ?thesis using z[of "[]"] by (simp add: dep_inDegree_def deg_def[of "[]"])
qed

lemma dep_successors_at: "slice_at (dep_successors aw ts) u = map fst (filter (\<lambda>p. snd p = u) (known_deps aw ts))"
proof -
  have "slice_at (fold (\<lambda>(i, dep) m. mput dep (slice_at m dep @ [i]) m) ps m) u = slice_at m u @ map fst (filter (\<lambda>p. snd p = u) ps)"
    for ps :: "(string \<times> string) list" and m
    by (induction ps arbitrary: m) auto
  from this[of "known_deps aw ts" "[]"] show ?thesis by (simp add: dep_successors_def slice_at_def[of "[]"])
qed

lemma known_deps_ids: "deps_wf (aw, ts) \<Longrightarrow> (i, dep) \<in> set (known_deps aw ts) \<Longrightarrow> i \<in> task_ids aw \<and> dep \<in> task_ids aw"
  unfolding known_deps_def task_defined by (force simp: deps_wf_def dep_pairs_def)

interpretation deps: kahn_graph deps_wf "\<lambda>g. mkeys (wf_Tasks (fst g))" "\<lambda>g. slice_at (dep_successors (fst g) (snd g))" "\<lambda>g. dep_inDegree (fst g) (snd g)"
proof unfold_locales
  fix g u v
  assume ok: "deps_wf g"
  obtain aw ts where g: "g = (aw, ts)" by force
  show "distinct (mkeys (wf_Tasks (fst g)))" using ok by (simp add: deps_wf_def gomap_ok_def)
  show "set (slice_at (dep_successors (fst g) (snd g)) u) \<subseteq> set (mkeys (wf_Tasks (fst g)))"
    using known_deps_ids[OF ok[unfolded g]] by (auto simp: g dep_successors_at task_ids_def)
  have s: "slice_at (dep_successors (fst g) (snd g)) w = map To (filter (\<lambda>e. From e = w) (known_edges g))" for w
    by (simp add: g dep_successors_at known_edges_def filter_map comp_def case_prod_beta)
  have known: "From e \<in> set (mkeys (wf_Tasks (fst g)))" if e: "e \<in> set (known_edges g)" for e
  proof -
    obtain i dep where "e = Edge dep i" "(i, dep) \<in> set (known_deps aw ts)" using e by (auto simp: known_edges_def g)
    then show ?thesis using known_deps_ids[OF ok[unfolded g], of i dep] unfolding task_ids_def g by simp
  qed
  have "deg (dep_inDegree (fst g) (snd g)) v = int (length (filter (\<lambda>e. To e = v) (known_edges g)))"
    by (simp add: g dep_inDegree_deg known_edges_def filter_map comp_def case_prod_beta)
  also have "\<dots> = int (\<Sum>u \<leftarrow> mkeys (wf_Tasks (fst g)). length (filter (\<lambda>e. To e = v \<and> From e = u) (known_edges g)))"
    by (subst length_filter_by_source[of "mkeys (wf_Tasks (fst g))"])
      (use ok known in \<open>simp_all add: deps_wf_def gomap_ok_def\<close>)
  also have "\<dots> = (\<Sum>u \<leftarrow> mkeys (wf_Tasks (fst g)). int (count_list (slice_at (dep_successors (fst g) (snd g)) u) v))"
    unfolding s count_list_map_To int_sum_list ..
  finally show "deg (dep_inDegree (fst g) (snd g)) v = (\<Sum>u \<leftarrow> mkeys (wf_Tasks (fst g)). int (count_list (slice_at (dep_successors (fst g) (snd g)) u) v))" .
qed

text \<open>The dependency relation: the dependency comes first.\<close>

definition depends :: "AgentWorkflow \<Rightarrow> TaskDependencies gomap \<Rightarrow> (string \<times> string) set" where
  "depends aw ts = (\<lambda>(i, dep). (dep, i)) ` set (known_deps aw ts)"

lemma deps_E: "deps_wf (aw, ts) \<Longrightarrow> deps.E (aw, ts) = depends aw ts"
  using known_deps_ids[of aw ts] by (force simp: deps.E_def depends_def dep_successors_at task_ids_def)

definition deps_defined :: "AgentWorkflow \<Rightarrow> TaskDependencies gomap \<Rightarrow> bool" where
  "deps_defined aw ts \<longleftrightarrow> list_all (\<lambda>(i, dep). dep \<in> task_ids aw) (dep_pairs ts)"

definition conditions_parse :: "ExprValidator option \<Rightarrow> TaskDependencies gomap \<Rightarrow> bool" where
  "conditions_parse validator ts \<longleftrightarrow> list_all (\<lambda>(i, d). td_Condition d = [] \<or> (case validator of None \<Rightarrow> True | Some v \<Rightarrow> v (td_Condition d) = None)) ts"

lemma validateCustom_errors:
  assumes "ex_Tasks (wf_Execution aw) = Some ts" "deps_wf (aw, ts)"
  shows "diag_HasErrors (validateCustom validator aw) \<longleftrightarrow> \<not> (deps_defined aw ts \<and> acyclic (depends aw ts) \<and> conditions_parse validator ts)"
proof -
  obtain d visited where k: "kahn (slice_at (dep_successors aw ts)) (dep_inDegree aw ts) (mkeys (wf_Tasks aw)) = (d, visited)" by force
  have dis: "distinct (mkeys (wf_Tasks aw))" using assms(2) by (simp add: deps_wf_def gomap_ok_def)
  note kc = deps.kahn_correct[OF assms(2), of "mkeys (wf_Tasks aw)" d visited, unfolded fst_conv snd_conv deps_E[OF assms(2)], OF dis refl k]
  have "length visited \<le> length (wf_Tasks aw)" using kc(1,2) dis by (metis card_mono distinct_card length_map List.finite_set)
  with kc(4) have cyc: "length visited < length (wf_Tasks aw) \<longleftrightarrow> \<not> acyclic (depends aw ts)" by auto
  have defd: "diag_HasErrors (concat (map (\<lambda>(i, dep). if mget (wf_Tasks aw) dep = None
      then [errDiag a b [ArgStr i, ArgStr dep] (c @ i @ e)] else []) ps)) \<longleftrightarrow> \<not> list_all (\<lambda>(i, dep). dep \<in> task_ids aw) ps" for a b c e ps
    unfolding task_defined by (induction ps) (auto simp del: HasErrors_concat)
  have parse: "diag_HasErrors (concat (map (\<lambda>(i, d). if td_Condition d = [] then [] else case validator of None \<Rightarrow> []
      | Some v \<Rightarrow> (case v (td_Condition d) of None \<Rightarrow> [] | Some err \<Rightarrow> [errDiag a b [ArgStr i, ArgErr err] (c @ i @ e)])) qs)) \<longleftrightarrow>
      \<not> conditions_parse validator qs" for a b c e qs
  proof (induction qs)
    case (Cons q qs)
    then show ?case by (cases q; cases validator; cases "the validator (td_Condition (snd q))")
      (simp_all add: conditions_parse_def del: HasErrors_concat)
  qed (simp add: conditions_parse_def)
  show ?thesis unfolding validateCustom_def assms(1) option.case k prod.case HasErrors_append defd parse deps_defined_def
    by (auto simp: cyc)
qed


subsection \<open>Acyclicity of the described graph\<close>

text \<open>A node of the compiled graph by its role: the k-th of a task's chain, or the condition of a dependency. Ranks
  order the roles when the tasks are ranked so that what a task needs has a smaller rank.\<close>

datatype role = InTask string nat | Gate string string

primrec role_id :: "Registry \<Rightarrow> AgentWorkflow \<Rightarrow> role \<Rightarrow> string" where
  "role_id reg aw (InTask i k) = task_chain reg aw i ! k"
| "role_id reg aw (Gate d i) = cond_id d i"

primrec role_rank :: "(string \<Rightarrow> nat) \<Rightarrow> role \<Rightarrow> nat \<times> nat" where
  "role_rank f (InTask i k) = (2 * f i + 1, k)"
| "role_rank f (Gate d i) = (2 * f i, 0)"

definition gates_of :: "string list \<Rightarrow> TaskDependencies gomap \<Rightarrow> string \<Rightarrow> (string \<times> string) list" where
  "gates_of ids ts i = (case mget ts i of None \<Rightarrow> []
     | Some d \<Rightarrow> if i \<in> set ids \<and> td_Condition d \<noteq> [] then map (\<lambda>dep. (dep, i)) (filter (\<lambda>dep. dep \<in> set ids) (td_DependsOn d)) else [])"

definition gates :: "AgentWorkflow \<Rightarrow> (string \<times> string) list" where
  "gates aw = (if ex_Strategy (wf_Execution aw) \<noteq> ''custom'' then []
     else case ex_Tasks (wf_Execution aw) of None \<Rightarrow> []
       | Some ts \<Rightarrow> remdups (concat (map (gates_of (mkeys (wf_Tasks aw)) ts) (mkeys ts))))"

lemma gates_iff:
  assumes "ex_Tasks (wf_Execution aw) = Some ts" "ex_Strategy (wf_Execution aw) = ''custom''"
  shows "(d, i) \<in> set (gates aw) \<longleftrightarrow> (\<exists>c. (d, i, c) \<in> deps_of aw ts \<and> c \<noteq> [])"
proof -
  have g: "(d, i) \<in> set (gates_of (mkeys (wf_Tasks aw)) ts j) \<longleftrightarrow> j = i \<and> (\<exists>c. (d, i, c) \<in> deps_of aw ts \<and> c \<noteq> [])" for j
    unfolding gates_of_def task_ids_def[symmetric] by (cases "mget ts j") (auto simp: deps_of_def)
  have "(\<exists>c. (d, i, c) \<in> deps_of aw ts) \<Longrightarrow> i \<in> set (mkeys ts)" unfolding deps_of_def using mget_in_keys by fast
  moreover have "set (gates aw) = (\<Union>j \<in> set (mkeys ts). set (gates_of (mkeys (wf_Tasks aw)) ts j))" by (simp add: gates_def assms)
  ultimately show ?thesis using g by blast
qed

lemma gates_other: "ex_Strategy (wf_Execution aw) \<noteq> ''custom'' \<or> ex_Tasks (wf_Execution aw) = None \<Longrightarrow> gates aw = []"
  by (auto simp: gates_def)

definition roles :: "Registry \<Rightarrow> AgentWorkflow \<Rightarrow> role set" where
  "roles reg aw = {InTask i k | i k. i \<in> task_ids aw \<and> k < length (task_chain reg aw i)} \<union> (\<lambda>(d, i). Gate d i) ` set (gates aw)"

text \<open>No two roles share a node ID. The compiler does not check this.\<close>

definition unique_ids :: "Registry \<Rightarrow> AgentWorkflow \<Rightarrow> bool" where
  "unique_ids reg aw = distinct (concat (map (task_chain reg aw) (sortedKeys (wf_Tasks aw))) @ map (\<lambda>(d, i). cond_id d i) (gates aw))"

lemma distinct_concat_chains:
  assumes "distinct (concat (map f xs))" "i \<in> set xs" "j \<in> set xs" "f i \<noteq> []"
    and "k < length (f i)" "l < length (f j)" "f i ! k = f j ! l"
  shows "i = j \<and> k = l"
proof -
  have "set (f i) \<inter> set (f j) = {} \<or> i = j" using assms(1-3) by (induction xs) auto
  moreover have "f i ! k \<in> set (f i) \<inter> set (f j)" using assms(5-7) by (metis IntI nth_mem)
  ultimately have "i = j" by blast
  moreover have "distinct (f i)" using assms(1,2) by (induction xs) auto
  ultimately show ?thesis using assms(5-7) nth_eq_iff_index_eq by metis
qed

lemma roles_inj:
  assumes "unique_ids reg aw" shows "inj_on (role_id reg aw) (roles reg aw)"
proof (rule inj_onI)
  fix a b assume a: "a \<in> roles reg aw" and b: "b \<in> roles reg aw" and eq: "role_id reg aw a = role_id reg aw b"
  let ?ks = "sortedKeys (wf_Tasks aw)"
  have d: "distinct (concat (map (task_chain reg aw) ?ks))" "inj_on (\<lambda>(d, i). cond_id d i) (set (gates aw))"
    and x: "(\<Union>i \<in> task_ids aw. set (task_chain reg aw i)) \<inter> (\<lambda>(d, i). cond_id d i) ` set (gates aw) = {}"
    using assms by (auto simp: unique_ids_def distinct_map)
  have dis: "task_chain reg aw i ! k \<noteq> cond_id d j"
    if "i \<in> task_ids aw" "k < length (task_chain reg aw i)" "(d, j) \<in> set (gates aw)" for i k d j
  proof
    assume "task_chain reg aw i ! k = cond_id d j"
    then have "cond_id d j \<in> (\<Union>i \<in> task_ids aw. set (task_chain reg aw i))" using that(1,2) by (metis UN_I nth_mem)
    moreover have "cond_id d j \<in> (\<lambda>(d, i). cond_id d i) ` set (gates aw)" using that(3) by force
    ultimately show False using x by blast
  qed
  show "a = b"
  proof (cases a; cases b)
    fix i k j l assume "a = InTask i k" "b = InTask j l"
    then show ?thesis using a b eq distinct_concat_chains[OF d(1), of i j k l] by (auto simp: roles_def)
  next
    fix d i e j assume "a = Gate d i" "b = Gate e j"
    then show ?thesis using a b eq inj_onD[OF d(2), of "(d, i)" "(e, j)"] by (auto simp: roles_def)
  next
    fix i k e j assume "a = InTask i k" "b = Gate e j"
    then show ?thesis using a b eq dis[of i k e j] by (auto simp: roles_def)
  next
    fix d i j l assume "a = Gate d i" "b = InTask j l"
    then show ?thesis using a b eq dis[of j l d i] by (auto simp: roles_def)
  qed
qed

definition ranked :: "Registry \<Rightarrow> AgentWorkflow \<Rightarrow> (string \<Rightarrow> nat) \<Rightarrow> (string \<times> string) \<Rightarrow> bool" where
  "ranked reg aw f p \<longleftrightarrow> (\<exists>a b. a \<in> roles reg aw \<and> b \<in> roles reg aw \<and> p = (role_id reg aw a, role_id reg aw b) \<and>
     (role_rank f a, role_rank f b) \<in> less_than <*lex*> less_than)"

lemma ranked_acyclic:
  assumes "unique_ids reg aw" "\<And>p. p \<in> R \<Longrightarrow> ranked reg aw f p"
  shows "acyclic R"
proof -
  let ?g = "\<lambda>x. role_rank f (inv_into (roles reg aw) (role_id reg aw) x)"
  have "R \<subseteq> inv_image (less_than <*lex*> less_than) ?g"
  proof
    fix p assume "p \<in> R"
    from assms(2)[OF this] obtain a b where "a \<in> roles reg aw" "b \<in> roles reg aw" "p = (role_id reg aw a, role_id reg aw b)"
        "(role_rank f a, role_rank f b) \<in> less_than <*lex*> less_than" unfolding ranked_def by blast
    then show "p \<in> inv_image (less_than <*lex*> less_than) ?g" by (simp add: inv_image_def inv_into_f_f[OF roles_inj[OF assms(1)]])
  qed
  moreover have "acyclic (inv_image (less_than <*lex*> less_than) ?g)" by (intro wf_acyclic wf_inv_image wf_lex_prod wf_less_than)
  ultimately show ?thesis using acyclic_subset by blast
qed

lemma InTask_role [simp]: "InTask i k \<in> roles reg aw \<longleftrightarrow> i \<in> task_ids aw \<and> k < length (task_chain reg aw i)"
  and Gate_role [simp]: "Gate d i \<in> roles reg aw \<longleftrightarrow> (d, i) \<in> set (gates aw)"
  by (auto simp: roles_def)

lemma chain_pos [simp]: "0 < length (task_chain reg aw i)" by simp

lemma chain_last: "last (task_chain reg aw i) = task_chain reg aw i ! (length (task_chain reg aw i) - 1)"
  and chain_hd: "hd (task_chain reg aw i) = task_chain reg aw i ! 0"
  by (simp_all add: last_conv_nth hd_conv_nth)

lemma steps_nth: "(a, b) \<in> set (steps xs) \<Longrightarrow> \<exists>k. Suc k < length xs \<and> xs ! k = a \<and> xs ! Suc k = b"
proof -
  assume "(a, b) \<in> set (steps xs)"
  then obtain k where "xs ! k = a" "tl xs ! k = b" "k < length (tl xs)" by (auto simp: steps_def in_set_zip)
  then show ?thesis by (intro exI[of _ k]) (simp add: nth_tl)
qed

lemma ranked_step:
  assumes "i \<in> task_ids aw" "p \<in> set (steps (task_chain reg aw i))"
  shows "ranked reg aw f p"
proof -
  obtain k where k: "Suc k < length (task_chain reg aw i)" "p = (task_chain reg aw i ! k, task_chain reg aw i ! Suc k)"
    using steps_nth[of "fst p" "snd p" "task_chain reg aw i"] assms(2) by (metis prod.collapse)
  show ?thesis unfolding ranked_def
    by (rule exI[of _ "InTask i k"], rule exI[of _ "InTask i (Suc k)"]) (use k assms(1) in simp)
qed

lemma ranked_link:
  assumes "i \<in> task_ids aw" "j \<in> task_ids aw" "f i < f j"
  shows "ranked reg aw f (link reg aw i j)"
  unfolding ranked_def
  by (rule exI[of _ "InTask i (length (task_chain reg aw i) - 1)"], rule exI[of _ "InTask j 0"])
    (use assms in \<open>simp add: link_def chain_last chain_hd\<close>)

lemma ranked_gate:
  assumes "d \<in> task_ids aw" "i \<in> task_ids aw" "(d, i) \<in> set (gates aw)" "f d < f i"
  shows "ranked reg aw f (last (task_chain reg aw d), cond_id d i)" "ranked reg aw f (cond_id d i, hd (task_chain reg aw i))"
proof -
  show "ranked reg aw f (last (task_chain reg aw d), cond_id d i)" unfolding ranked_def
    by (rule exI[of _ "InTask d (length (task_chain reg aw d) - 1)"], rule exI[of _ "Gate d i"]) (use assms in \<open>simp add: chain_last\<close>)
  show "ranked reg aw f (cond_id d i, hd (task_chain reg aw i))" unfolding ranked_def
    by (rule exI[of _ "Gate d i"], rule exI[of _ "InTask i 0"]) (use assms in \<open>simp add: chain_hd\<close>)
qed

definition refs_ranked :: "AgentWorkflow \<Rightarrow> (string \<Rightarrow> nat) \<Rightarrow> bool" where
  "refs_ranked aw f \<longleftrightarrow> (\<forall>i \<in> task_ids aw. \<forall>r \<in> task_refs (task_at aw i) \<inter> task_ids aw. f r < f i)"

lemma task_rel_ranked: "refs_ranked aw f \<Longrightarrow> p \<in> task_rel reg aw \<Longrightarrow> ranked reg aw f p"
  by (auto simp: task_rel_def refs_ranked_def intro: ranked_step ranked_link)

lemma mget_pair: "mget m k = Some v \<Longrightarrow> (k, v) \<in> set m" by (induction m) (auto split: if_splits)

lemma deps_of_depends: "(d, i, c) \<in> deps_of aw ts \<Longrightarrow> (d, i) \<in> depends aw ts"
proof -
  assume "(d, i, c) \<in> deps_of aw ts"
  then obtain x where x: "(i, x) \<in> set ts" "d \<in> set (td_DependsOn x)" "d \<in> task_ids aw" by (auto simp: deps_of_def dest: mget_pair)
  then have "(i, d) \<in> set (known_deps aw ts)" unfolding known_deps_def task_defined by (force simp: dep_pairs_def)
  then show ?thesis by (force simp: depends_def)
qed

subsection \<open>Which accepted workflows give accepted definitions\<close>

lemma acyclic_rank:
  assumes "finite R" "acyclic R" shows "\<exists>f :: 'a \<Rightarrow> nat. \<forall>a b. (a, b) \<in> R\<^sup>+ \<longrightarrow> f a < f b"
proof (intro exI allI impI)
  fix a b assume ab: "(a, b) \<in> R\<^sup>+"
  have fin: "finite {x. (x, y) \<in> R\<^sup>+}" for y
    by (rule finite_subset[of _ "fst ` R\<^sup>+"]) (use assms(1) in \<open>force simp: finite_trancl\<close>)+
  have "{x. (x, a) \<in> R\<^sup>+} \<subset> {x. (x, b) \<in> R\<^sup>+}" using ab assms(2) by (auto intro: trancl_trans simp: acyclic_def)
  then show "card {x. (x, a) \<in> R\<^sup>+} < card {x. (x, b) \<in> R\<^sup>+}" by (rule psubset_card_mono[OF fin])
qed

lemma agent_accepted:
  assumes "\<not> diag_HasErrors (agent_Validate validator reg (Some aw))"
  shows "list_all (\<lambda>(i, t). task_ok aw t) (wf_Tasks aw)" "list_all (\<lambda>(i, ag). agent_ok reg ag) (wf_Agents aw)"
    "list_all isValidID (mkeys (wf_Agents aw)) \<and> list_all isValidID (mkeys (wf_Tasks aw))"
    "ex_Strategy (wf_Execution aw) \<in> set validStrategies"
    "ex_Strategy (wf_Execution aw) = ''sequential'' \<Longrightarrow> ex_TaskOrder (wf_Execution aw) \<noteq> [] \<and> set (ex_TaskOrder (wf_Execution aw)) = task_ids aw"
    "ex_Strategy (wf_Execution aw) = ''custom'' \<Longrightarrow> \<not> diag_HasErrors (validateCustom validator aw)"
proof -
  have a: "\<not> diag_HasErrors (validateIDFormats aw)" "\<not> diag_HasErrors (validateAgents reg (wf_Agents aw))" "\<not> diag_HasErrors (validateTasks aw)"
      "\<not> diag_HasErrors (snd (validateExecutionStrategy aw))"
      "ex_Strategy (wf_Execution aw) = ''sequential'' \<Longrightarrow> \<not> diag_HasErrors (validateSequential aw)"
      "ex_Strategy (wf_Execution aw) = ''custom'' \<Longrightarrow> \<not> diag_HasErrors (validateCustom validator aw)"
    using assms by (auto simp: agent_Validate_def validateExecutionStrategy_def Let_def)
  show "list_all (\<lambda>(i, t). task_ok aw t) (wf_Tasks aw)" using a(3) by (simp only: validateTasks_errors not_not)
  show "list_all (\<lambda>(i, ag). agent_ok reg ag) (wf_Agents aw)" by (rule validateAgents_ok[OF a(2)])
  show "list_all isValidID (mkeys (wf_Agents aw)) \<and> list_all isValidID (mkeys (wf_Tasks aw))" using a(1) unfolding validateIDFormats_errors by blast
  show "ex_Strategy (wf_Execution aw) \<in> set validStrategies" using a(4) by (auto simp: validateExecutionStrategy_def Let_def split: if_splits)
  show "ex_TaskOrder (wf_Execution aw) \<noteq> [] \<and> set (ex_TaskOrder (wf_Execution aw)) = task_ids aw"
    if "ex_Strategy (wf_Execution aw) = ''sequential''" using a(5)[OF that] unfolding validateSequential_errors by blast
  show "\<not> diag_HasErrors (validateCustom validator aw)" if "ex_Strategy (wf_Execution aw) = ''custom''" by (rule a(6)[OF that])
qed

lemma tasks_compile:
  assumes "list_all (\<lambda>(i, t). task_ok aw t) (wf_Tasks aw)"
  shows "\<exists>s'. compileTaskNodes aw reg (sortedKeys (wf_Tasks aw)) s = Inr s'"
proof -
  have "\<exists>s'. compileTask aw reg i s = Inr s'" if i: "i \<in> task_ids aw" for i s
  proof -
    obtain t where t: "mget (wf_Tasks aw) i = Some t" using i task_defined[of aw i] by auto
    then have "task_ok aw t" using assms mget_pair by (fastforce simp: list_all_iff)
    then show ?thesis by (auto simp: compileTask_def task_at_def t task_ok_def)
  qed
  then have "set is \<subseteq> task_ids aw \<Longrightarrow> \<exists>s'. rfold (compileTask aw reg) is s = Inr s'" for "is" s
    by (induction "is" arbitrary: s) (auto, metis old.sum.simps(6))
  then show ?thesis by (simp add: compileTaskNodes_def)
qed

lemma Compile_succeeds:
  assumes "list_all (\<lambda>(i, t). task_ok aw t) (wf_Tasks aw)"
    and "\<And>s. maps_ok reg aw s \<Longrightarrow> \<exists>s'. compileExecutionStrategy aw s = Inr s'"
  shows "\<exists>gd. Compile now reg (Some aw) = Inr gd"
proof -
  let ?ks = "sortedKeys (wf_Tasks aw)"
  obtain s1 where s1: "compileTaskNodes aw reg ?ks (init_state now aw) = Inr s1" using tasks_compile[OF assms(1)] by blast
  have "maps_ok reg aw (wireTaskReferenceEdges aw ?ks s1)" using wire_spec[OF compiled_maps[OF compiled_tasks[OF s1]], of ?ks] by simp
  with assms(2) obtain s3 where "compileExecutionStrategy aw (wireTaskReferenceEdges aw ?ks s1) = Inr s3" by blast
  then show ?thesis using s1 by (simp add: Compile_def init_state_def Let_def)
qed

lemma start_described: "i \<in> task_ids aw \<Longrightarrow> hd (task_chain reg aw i) \<in> described_ids reg aw"
  using hd_in_set[OF chain_nonempty] unfolding described_ids_def by blast

lemma ids_of_roles: "role_id reg aw ` roles reg aw \<subseteq> described_ids reg aw"
proof -
  have "cond_id d i \<in> strategy_nodes aw" if g: "(d, i) \<in> set (gates aw)" for d i
  proof (cases "ex_Strategy (wf_Execution aw) = ''custom'' \<and> ex_Tasks (wf_Execution aw) \<noteq> None")
    case True
    then obtain ts where ts: "ex_Strategy (wf_Execution aw) = ''custom''" "ex_Tasks (wf_Execution aw) = Some ts" by auto
    then show ?thesis using g unfolding gates_iff[OF ts(2,1)] by (auto simp: strategy_nodes_def ts)
  qed (use g gates_other[of aw] in auto)
  then show ?thesis by (auto simp: roles_def described_ids_def)
qed

lemma ranked_ids: "ranked reg aw f p \<Longrightarrow> fst p \<in> described_ids reg aw \<and> snd p \<in> described_ids reg aw"
  using ids_of_roles[of reg aw] by (auto simp: ranked_def)

lemma compiled_header: "NormalizeKind KindGraph = Inr (KindGraph, False)" "ValidateSchemaVersion CurrentGraphSchemaVersion 1 = None"
  by code_simp+

text \<open>The definition is well formed when the described edges are ranked and the nodes have distinct IDs.\<close>

lemma ranked_well_formed:
  assumes c: "Compile now reg (Some aw) = Inr gd" and u: "unique_ids reg aw" and r: "\<And>p. p \<in> described_rel reg aw \<Longrightarrow> ranked reg aw f p"
    and d: "distinct (map nd_ID (gd_Nodes gd))" and k: "list_all (conditional_ok v) (gd_Nodes gd)"
    and e: "described_entry reg aw = [] \<or> described_entry reg aw \<in> described_ids reg aw"
  shows "well_formed v gd"
proof -
  from Compile_inv[OF c] obtain s2 s3 where s: "s_entry s2 = []" "maps_ok reg aw s2" "s_head s2 = (KindGraph, CurrentGraphSchemaVersion)"
      "compileExecutionStrategy aw s2 = Inr s3" "gd = sortEdges (cs_gd s3)" .
  have head: "gd_Kind gd = KindGraph" "gd_SchemaVersion gd = CurrentGraphSchemaVersion"
    using strategy_cases[OF s(4,2,1)] s(3,5) by (auto simp: strategy_done_def s_head_def)
  note R = graph_refines[OF c]
  have "fst p \<in> described_ids reg aw \<and> snd p \<in> described_ids reg aw" if "p \<in> def_rel gd" for p
    using ranked_ids[OF r] that R(2) by blast
  then have "def_ok gd" using d R(1) by (force simp: def_ok_def def_rel_def)
  moreover have "acyclic (def_rel gd)" unfolding R(2) by (rule ranked_acyclic[OF u r])
  ultimately show ?thesis using head k e R(1,3) compiled_header by (simp add: well_formed_def header_ok_def)
qed

lemma plain_conditional_ok: "plain_nodes ns \<Longrightarrow> list_all (conditional_ok v) ns"
  by (auto simp: plain_nodes_def conditional_ok_def list_all_iff)

definition position :: "string list \<Rightarrow> string \<Rightarrow> nat" where
  "position order x = length (takeWhile (\<lambda>y. y \<noteq> x) order)"

lemma position_nth: "distinct order \<Longrightarrow> k < length order \<Longrightarrow> takeWhile (\<lambda>y. y \<noteq> order ! k) order = take k order"
  by (rule takeWhile_eq_take_P_nth) (auto simp: nth_eq_iff_index_eq)

lemma position_before:
  assumes "distinct order" "r \<in> set (takeWhile (\<lambda>y. y \<noteq> i) order)" "i \<in> set order"
  shows "position order r < position order i"
proof -
  obtain k where k: "k < length order" "order ! k = i" using assms(3) by (metis in_set_conv_nth)
  have t: "takeWhile (\<lambda>y. y \<noteq> i) order = take k order" using position_nth[OF assms(1) k(1)] k(2) by simp
  then obtain j where j: "j < k" "order ! j = r" using assms(2) k(1) by (auto simp: in_set_conv_nth)
  have "takeWhile (\<lambda>y. y \<noteq> r) order = take j order" using position_nth[OF assms(1), of j] j k(1) by simp
  then show ?thesis using t j(1) k(1) by (simp add: position_def)
qed

lemma position_steps:
  assumes "distinct order" "(a, b) \<in> set (steps order)" shows "position order a < position order b"
proof -
  obtain k where k: "Suc k < length order" "order ! k = a" "order ! Suc k = b" using steps_nth[OF assms(2)] by blast
  have "takeWhile (\<lambda>y. y \<noteq> b) order = take (Suc k) order" "takeWhile (\<lambda>y. y \<noteq> a) order = take k order"
    using position_nth[OF assms(1), of "Suc k"] position_nth[OF assms(1), of k] k by simp_all
  then show ?thesis using k(1) by (simp add: position_def)
qed

lemma Compile_nodes:
  assumes "Compile now reg (Some aw) = Inr gd" "unique_ids reg aw" "no_conditional_tool reg" "ex_Strategy (wf_Execution aw) = ''sequential''"
  shows "distinct (map nd_ID (gd_Nodes gd))" "plain_nodes (gd_Nodes gd)"
proof -
  from Compile_inv[OF assms(1)] obtain s1 s2 s3 where s: "compiled reg aw (sortedKeys (wf_Tasks aw)) s1" "maps_ok reg aw s2" "s_nodes s2 = s_nodes s1"
      "compileExecutionStrategy aw s2 = Inr s3" "gd = sortEdges (cs_gd s3)" .
  have "s_nodes s3 = s_nodes s1" using sequential_done[of aw s2 s3 reg] s assms(4) by (simp add: compileExecutionStrategy_def)
  then have "gd_Nodes gd = s_nodes s1" by (simp add: s(5) s_nodes_def)
  then show "distinct (map nd_ID (gd_Nodes gd))" "plain_nodes (gd_Nodes gd)"
    using s(1) assms(2,3) by (simp_all add: compiled_def unique_ids_def ids_nodes)
qed

text \<open>
  C17: An accepted sequential workflow compiles to a graph that graph validation accepts: if the validator
  reports no error, the tasks appear once each in \<open>task_order\<close>, every reference is to a task earlier in the order,
  the compiled node IDs do not collide and no tool is called \<open>conditional\<close>, then \<open>Compile\<close> succeeds, \<open>GraphDefinition.Validate\<close>
  reports no error whatever expression checker is installed, and the entry is the first node of the first task.
\<close>

theorem sequential_valid:
  assumes "\<not> diag_HasErrors (agent_Validate validator reg (Some aw))" "ex_Strategy (wf_Execution aw) = ''sequential''"
    and "distinct (ex_TaskOrder (wf_Execution aw))" "unique_ids reg aw" "no_conditional_tool reg"
    and "\<And>i. i \<in> task_ids aw \<Longrightarrow> task_refs (task_at aw i) \<subseteq> set (takeWhile (\<lambda>y. y \<noteq> i) (ex_TaskOrder (wf_Execution aw)))"
  shows "\<exists>gd. Compile now reg (Some aw) = Inr gd \<and> \<not> diag_HasErrors (gd_Validate v gd) \<and>
    gd_Entry gd = hd (task_chain reg aw (hd (ex_TaskOrder (wf_Execution aw))))"
proof -
  let ?o = "ex_TaskOrder (wf_Execution aw)"
  note acc = agent_accepted[OF assms(1)]
  have o: "?o \<noteq> []" "set ?o = task_ids aw" using acc(5)[OF assms(2)] by simp_all
  have "\<exists>s'. compileExecutionStrategy aw s = Inr s'" if "maps_ok reg aw s" for s
    using chain_edges_succeeds[of reg aw "set_entry (str_at (cs_starts s) (hd ?o)) s" ?o] that o assms(2)
    by (cases ?o) (auto simp: compileExecutionStrategy_def compileSequential_def)
  from Compile_succeeds[OF acc(1) this] obtain gd where gd: "Compile now reg (Some aw) = Inr gd" by blast
  have "refs_ranked aw (position ?o)" using position_before[OF assms(3)] assms(6) o(2) by (auto simp: refs_ranked_def)
  then have t: "p \<in> task_rel reg aw \<Longrightarrow> ranked reg aw (position ?o) p" for p by (rule task_rel_ranked)
  have "ranked reg aw (position ?o) (link reg aw a b)" if ab: "(a, b) \<in> set (steps ?o)" for a b
    using ab o(2) position_steps[OF assms(3) ab] by (intro ranked_link) (auto simp: steps_def dest: set_zip_leftD set_zip_rightD list.set_sel(2)[OF o(1)])
  then have "p \<in> strategy_rel reg aw \<Longrightarrow> ranked reg aw (position ?o) p" for p by (auto simp: strategy_rel_def assms(2))
  with t have r: "p \<in> described_rel reg aw \<Longrightarrow> ranked reg aw (position ?o) p" for p unfolding described_rel_def by blast
  have h: "hd ?o \<in> task_ids aw" using o by (metis hd_in_set)
  then have e: "described_entry reg aw = hd (task_chain reg aw (hd ?o))" by (simp add: described_entry_def assms(2))
  then have e': "described_entry reg aw \<in> described_ids reg aw" using start_described[OF h] by simp
  have "well_formed v gd" using Compile_nodes[OF gd assms(4,5,2)]
    by (intro ranked_well_formed[OF gd assms(4) r]) (simp_all add: plain_conditional_ok e')
  then show ?thesis using gd graph_refines(3)[OF gd] e by (auto simp: Validate_errors)
qed

lemma demo_accepted: "\<not> diag_HasErrors (agent_Validate None Global (Some (demo_workflow demo_sequential)))" by code_simp

lemma demo_sequential_facts: "ex_Strategy (wf_Execution (demo_workflow demo_sequential)) = ''sequential''" "ex_TaskOrder (wf_Execution (demo_workflow demo_sequential)) = [''a'', ''b'']"
  "task_ids (demo_workflow demo_sequential) = {''a'', ''b''}"
  "task_refs (task_at (demo_workflow demo_sequential) ''a'') = {}" "task_refs (task_at (demo_workflow demo_sequential) ''b'') = {''a''}"
  by (auto simp: demo_workflow_def demo_sequential_def task_ids_def task_refs_def task_at_def demo_task_def)

lemma demo_unique: "unique_ids Global (demo_workflow demo_sequential)" "no_conditional_tool Global" "hd (task_chain Global (demo_workflow demo_sequential) ''a'') = ''a__ed''"
  by code_simp+

theorem sequential_valid_witness:
  "\<exists>gd. Compile [] Global (Some (demo_workflow demo_sequential)) = Inr gd \<and> \<not> diag_HasErrors (gd_Validate None gd) \<and> gd_Entry gd = ''a__ed''"
proof -
  have "i \<in> task_ids (demo_workflow demo_sequential) \<Longrightarrow> task_refs (task_at (demo_workflow demo_sequential) i) \<subseteq>
      set (takeWhile (\<lambda>y. y \<noteq> i) (ex_TaskOrder (wf_Execution (demo_workflow demo_sequential))))" for i
    unfolding demo_sequential_facts by (auto simp: demo_sequential_facts)
  then show ?thesis
    using sequential_valid[OF demo_accepted demo_sequential_facts(1) _ demo_unique(1,2), of "[]" None] by (simp add: demo_sequential_facts(2) demo_unique(3))
qed

text \<open>The hierarchical strategy links the manager to every task and back.\<close>

lemma steps_path: "xs \<noteq> [] \<Longrightarrow> set (steps xs) \<subseteq> R \<Longrightarrow> (hd xs, last xs) \<in> R\<^sup>*"
proof (induction xs rule: induct_list012)
  case (3 x y zs)
  then have "(x, y) \<in> R" "(y, last (y # zs)) \<in> R\<^sup>*" by simp_all
  then show ?case by (simp add: converse_rtrancl_into_rtrancl)
qed simp_all

text \<open>
  The hierarchical strategy never gives a valid graph: whatever a workflow with at least one task compiles to
  under it, \<open>GraphDefinition.Validate\<close> reports an error, because every task is linked from the manager and back to it.
\<close>

theorem hierarchical_rejected:
  assumes "Compile now reg (Some aw) = Inr gd" "ex_Strategy (wf_Execution aw) = ''hierarchical''" "wf_Tasks aw \<noteq> []"
  shows "diag_HasErrors (gd_Validate v gd)"
proof -
  have "task_ids aw \<noteq> {}" using assms(3) by (simp add: task_ids_def)
  then obtain i where i: "i \<in> task_ids aw" by blast
  let ?R = "def_rel gd" and ?c = "task_chain reg aw i" and ?m = "manager_id aw"
  have R: "?R = task_rel reg aw \<union> strategy_rel reg aw" using graph_refines(2)[OF assms(1)] by (simp add: described_rel_def)
  have "(?m, hd ?c) \<in> strategy_rel reg aw" "(last ?c, ?m) \<in> strategy_rel reg aw" using i assms(2) by (simp_all add: strategy_rel_def)
  then have "(?m, hd ?c) \<in> ?R" "(last ?c, ?m) \<in> ?R" by (simp_all add: R)
  moreover have "(hd ?c, last ?c) \<in> ?R\<^sup>*" by (rule steps_path) (use i in \<open>auto simp: R task_rel_def\<close>)
  ultimately have "(?m, ?m) \<in> ?R\<^sup>+" by (meson rtrancl_into_trancl1 rtrancl_into_trancl2 trancl_trans rtrancl_trancl_trancl trancl.r_into_trancl)
  then have "\<not> well_formed v gd" by (auto simp: well_formed_def acyclic_def)
  then show ?thesis by (simp add: Validate_errors)
qed

definition demo_hierarchical :: ExecutionConfig where
  "demo_hierarchical = \<lparr>ex_Strategy = ''hierarchical'', ex_TaskOrder = [], ex_MergeStrategy = [], ex_ManagerAgent = ''ed'', ex_Tasks = None\<rparr>"

theorem hierarchical_rejected_witness:
  "\<not> diag_HasErrors (agent_Validate None Global (Some (demo_workflow demo_hierarchical))) \<and>
   (\<exists>gd. Compile [] Global (Some (demo_workflow demo_hierarchical)) = Inr gd \<and> diag_HasErrors (gd_Validate None gd))"
proof -
  have v: "\<not> diag_HasErrors (agent_Validate None Global (Some (demo_workflow demo_hierarchical)))" by code_simp
  have "\<not> isl (Compile [] Global (Some (demo_workflow demo_hierarchical)))" by code_simp
  then obtain gd where gd: "Compile [] Global (Some (demo_workflow demo_hierarchical)) = Inr gd" by (metis isl_def sum.exhaust)
  show ?thesis using v gd hierarchical_rejected[OF gd, of None] by (simp add: demo_workflow_def demo_hierarchical_def)
qed


subsection \<open>Custom dependencies\<close>

definition out_map :: "Registry \<Rightarrow> AgentWorkflow \<Rightarrow> string gomap" where
  "out_map reg aw = map (\<lambda>i. (i, last (task_chain reg aw i))) (sortedKeys (wf_Tasks aw))"

lemma rewrite_cong: "mget m = mget m' \<Longrightarrow> rewriteConditionExpr e m = rewriteConditionExpr e m'"
  unfolding rewriteConditionExpr_def match_cond_def[abs_def] by (simp only:)

lemma out_map_at: "mget (out_map reg aw) j = (if j \<in> task_ids aw then Some (last (task_chain reg aw j)) else None)"
proof -
  have "mget (map (\<lambda>i. (i, f i)) xs) j = (if j \<in> set xs then Some (f j) else None)" for xs and f :: "string \<Rightarrow> string" by (induction xs) auto
  then show ?thesis by (simp add: out_map_def)
qed

lemma reserved_start: "\<not> reservedPort (hd (task_chain reg aw i))"
proof -
  obtain r where r: "hd (task_chain reg aw i) = i @ ''__'' @ r" using chain_member[OF hd_in_set[OF chain_nonempty]] by blast
  show ?thesis unfolding reservedPort_def r by (auto simp: append_eq_Cons_conv)
qed

definition rewritten_parse :: "Registry \<Rightarrow> AgentWorkflow \<Rightarrow> TaskDependencies gomap \<Rightarrow> ExprValidator option \<Rightarrow> bool" where
  "rewritten_parse reg aw ts v \<longleftrightarrow> list_all (\<lambda>(i, d). td_Condition d = [] \<or>
     (case v of None \<Rightarrow> True | Some chk \<Rightarrow> chk (rewriteConditionExpr (td_Condition d) (out_map reg aw)) = None)) ts"

lemma cond_nodes_ok:
  assumes "cond_ok_nodes reg aw ts outs ns" "mget outs = mget (out_map reg aw)" "rewritten_parse reg aw ts v"
  shows "list_all (conditional_ok v) ns"
  unfolding list_all_iff
proof
  fix n assume n: "n \<in> set ns"
  show "conditional_ok v n"
  proof (cases "nd_Type n = ''conditional''")
    case True
    then obtain d i c where c: "(d, i, c) \<in> deps_of aw ts" "c \<noteq> []"
        "n = conditional_node (cond_id d i) (hd (task_chain reg aw i)) (rewriteConditionExpr c (out_map reg aw))"
      using assms(1) n rewrite_cong[OF assms(2)] unfolding cond_ok_nodes_def list_all_iff by metis
    obtain x where "(i, x) \<in> set ts" "c = td_Condition x" using c(1) by (auto simp: deps_of_def dest: mget_pair)
    then have "case v of None \<Rightarrow> True | Some chk \<Rightarrow> chk (rewriteConditionExpr c (out_map reg aw)) = None"
      using assms(3) c(2) by (auto simp: rewritten_parse_def list_all_iff)
    then have "condition_ok v (VMap [(''name'', VStr (hd (task_chain reg aw i))), (''expression'', VStr (rewriteConditionExpr c (out_map reg aw)))])"
      using reserved_start[of reg aw i] by (auto simp: condition_ok_def str_field_def)
    then show ?thesis by (simp add: conditional_ok_def c(3) conditional_node_def)
  qed (simp add: conditional_ok_def)
qed

lemma finite_depends: "finite (depends aw ts)" by (simp add: depends_def)

lemma custom_rel_ranked:
  assumes "ex_Strategy (wf_Execution aw) = ''custom''" "ex_Tasks (wf_Execution aw) = Some ts" "\<And>d i. (d, i) \<in> depends aw ts \<Longrightarrow> f d < f i"
    and "p \<in> strategy_rel reg aw"
  shows "ranked reg aw f p"
proof -
  from assms(4) obtain d i c where D: "(d, i, c) \<in> deps_of aw ts"
    and p: "p \<in> (if c = [] then {link reg aw d i} else {(last (task_chain reg aw d), cond_id d i), (cond_id d i, hd (task_chain reg aw i))})"
    by (auto simp: strategy_rel_def assms(1,2) Let_def split del: if_split)
  have di: "d \<in> task_ids aw" "i \<in> task_ids aw" "f d < f i" using D assms(3)[OF deps_of_depends[OF D]] by (auto simp: deps_of_def)
  show ?thesis
  proof (cases "c = []")
    case True
    then show ?thesis using p ranked_link[of d aw i f reg] di by simp
  next
    case False
    then have "(d, i) \<in> set (gates aw)" using D gates_iff[OF assms(2,1)] by blast
    then show ?thesis using p False ranked_gate[OF di(1,2) _ di(3)] by auto
  qed
qed

lemma custom_nodes:
  assumes c: "Compile now reg (Some aw) = Inr gd" and "unique_ids reg aw" "no_conditional_tool reg" "ex_Strategy (wf_Execution aw) = ''custom''"
    and "ex_Tasks (wf_Execution aw) = Some ts" "rewritten_parse reg aw ts v"
  shows "distinct (map nd_ID (gd_Nodes gd))" "list_all (conditional_ok v) (gd_Nodes gd)"
proof -
  from Compile_inv[OF c] obtain s1 s2 s3 where s: "compiled reg aw (sortedKeys (wf_Tasks aw)) s1" "maps_ok reg aw s2" "s_nodes s2 = s_nodes s1" "s_entry s2 = []"
      "compileExecutionStrategy aw s2 = Inr s3" "gd = sortEdges (cs_gd s3)" .
  have run: "compileCustom aw s2 = Inr s3" using s(5) assms(4) by (simp add: compileExecutionStrategy_def)
  have "distinct (s_ids s2)" "plain_nodes (s_nodes s2)" using s(1,3) assms(2,3) by (simp_all add: compiled_def unique_ids_def ids_nodes)
  then have d: "distinct (s_ids s3)" "cond_ok_nodes reg aw ts (cs_outs s2) (s_nodes s3)"
    using custom_done[OF run s(2,4) assms(4)] assms(5) by simp_all
  have "mget (cs_outs s2) = mget (out_map reg aw)" by (rule ext) (simp add: maps_outs[OF s(2)] out_map_at)
  then show "list_all (conditional_ok v) (gd_Nodes gd)" using cond_nodes_ok[OF d(2) _ assms(6)] by (simp add: s(6) s_nodes_def)
  show "distinct (map nd_ID (gd_Nodes gd))" using d(1) by (simp add: s(6) s_ids_def)
qed

text \<open>
  C18: An accepted workflow with declared dependencies compiles to a graph that graph validation accepts: if the validator reports no
  error, every key of \<open>execution.tasks\<close> is a task, the dependencies are what references between tasks follow, node IDs do not
  collide, no tool is called \<open>conditional\<close> and the checker accepts the rewritten conditions, then the declared
  dependencies have no cycle, \<open>Compile\<close> succeeds, and \<open>GraphDefinition.Validate\<close> reports no error.
\<close>

theorem custom_valid:
  assumes "\<not> diag_HasErrors (agent_Validate validator reg (Some aw))" "ex_Strategy (wf_Execution aw) = ''custom''"
    and "ex_Tasks (wf_Execution aw) = Some ts" "gomap_ok (wf_Tasks aw)" "set (mkeys ts) \<subseteq> task_ids aw"
    and "unique_ids reg aw" "no_conditional_tool reg" "rewritten_parse reg aw ts v"
    and "\<And>i. i \<in> task_ids aw \<Longrightarrow> task_refs (task_at aw i) \<subseteq> {r. (r, i) \<in> (depends aw ts)\<^sup>+}"
  shows "acyclic (depends aw ts) \<and> (\<exists>gd. Compile now reg (Some aw) = Inr gd \<and> \<not> diag_HasErrors (gd_Validate v gd))"
proof -
  note acc = agent_accepted[OF assms(1)]
  have "deps_wf (aw, ts)" using assms(4,5) by (simp add: deps_wf_def)
  from validateCustom_errors[OF assms(3) this] acc(6)[OF assms(2)] have ac: "acyclic (depends aw ts)" by blast
  obtain f :: "string \<Rightarrow> nat" where f: "\<forall>a b. (a, b) \<in> (depends aw ts)\<^sup>+ \<longrightarrow> f a < f b" using acyclic_rank[OF finite_depends ac] by blast
  have "\<exists>s'. compileExecutionStrategy aw s = Inr s'" for s
    using assms(2,3) by (simp add: compileExecutionStrategy_def compileCustom_def Let_def split: option.split)
  from Compile_succeeds[OF acc(1) this] obtain gd where gd: "Compile now reg (Some aw) = Inr gd" by blast
  have "refs_ranked aw f" using assms(9) f by (auto simp: refs_ranked_def)
  then have "p \<in> task_rel reg aw \<Longrightarrow> ranked reg aw f p" for p by (rule task_rel_ranked)
  moreover have "p \<in> strategy_rel reg aw \<Longrightarrow> ranked reg aw f p" for p by (rule custom_rel_ranked[OF assms(2,3)]) (use f in blast)
  ultimately have r: "p \<in> described_rel reg aw \<Longrightarrow> ranked reg aw f p" for p unfolding described_rel_def by blast
  have "List.find (is_root ts) (sortedKeys (wf_Tasks aw)) = Some i \<Longrightarrow> i \<in> task_ids aw" for i
    by (metis find_Some_iff nth_mem set_sorted_tasks)
  then have e: "described_entry reg aw = [] \<or> described_entry reg aw \<in> described_ids reg aw"
    using assms(2,3) by (auto simp: described_entry_def start_described split: option.split)
  have "well_formed v gd" by (rule ranked_well_formed[OF gd assms(6) r custom_nodes[OF gd assms(6,7,2,3,8)] e])
  then show ?thesis using gd ac by (auto simp: Validate_errors)
qed

definition demo_deps :: "string list \<Rightarrow> string \<Rightarrow> TaskDependencies" where
  "demo_deps ds c = \<lparr>td_DependsOn = ds, td_Condition = c\<rparr>"

definition demo_custom :: "TaskDependencies gomap \<Rightarrow> ExecutionConfig" where
  "demo_custom ts = \<lparr>ex_Strategy = ''custom'', ex_TaskOrder = [], ex_MergeStrategy = [], ex_ManagerAgent = [], ex_Tasks = Some ts\<rparr>"

definition demo_gated :: AgentWorkflow where
  "demo_gated = demo_workflow (demo_custom [(''b'', demo_deps [''a''] ''tasks.a.output'')])"

lemma demo_gated_checks: "\<not> diag_HasErrors (agent_Validate None Global (Some demo_gated))" "unique_ids Global demo_gated" "no_conditional_tool Global"
  "known_deps demo_gated [(''b'', demo_deps [''a''] ''tasks.a.output'')] = [(''b'', ''a'')]"
  "rewriteConditionExpr ''tasks.a.output'' (out_map Global demo_gated) = ''a__ed__hitl_output''"
  by code_simp+

lemma demo_gated_facts: "ex_Strategy (wf_Execution demo_gated) = ''custom''" "ex_Tasks (wf_Execution demo_gated) = Some [(''b'', demo_deps [''a''] ''tasks.a.output'')]"
  "gomap_ok (wf_Tasks demo_gated)" "task_ids demo_gated = {''a'', ''b''}"
  "task_refs (task_at demo_gated ''a'') = {}" "task_refs (task_at demo_gated ''b'') = {''a''}"
  "depends demo_gated [(''b'', demo_deps [''a''] ''tasks.a.output'')] = {(''a'', ''b'')}"
  by (auto simp: demo_gated_def demo_workflow_def demo_custom_def task_ids_def task_refs_def task_at_def demo_task_def gomap_ok_def depends_def
      demo_gated_checks(4)[unfolded demo_gated_def demo_workflow_def demo_custom_def demo_task_def])

theorem custom_valid_witness:
  "\<exists>gd. Compile [] Global (Some demo_gated) = Inr gd \<and> \<not> diag_HasErrors (gd_Validate None gd)"
proof -
  have "i \<in> task_ids demo_gated \<Longrightarrow> task_refs (task_at demo_gated i) \<subseteq> {r. (r, i) \<in> (depends demo_gated [(''b'', demo_deps [''a''] ''tasks.a.output'')])\<^sup>+}" for i
    unfolding demo_gated_facts by (auto simp: demo_gated_facts)
  then show ?thesis
    using custom_valid[OF demo_gated_checks(1) demo_gated_facts(1,2,3) _ demo_gated_checks(2,3), of None "[]"]
    by (simp add: demo_gated_facts(4) rewritten_parse_def)
qed

text \<open>A key of \<open>execution.tasks\<close> that is no task is not reported, and the loop counts it among the visited tasks, which
  hides a cycle: here a task depends on itself and the workflow is accepted.\<close>

definition demo_ghost :: AgentWorkflow where
  "demo_ghost = demo_workflow (demo_custom [(''ghost'', demo_deps [''a''] []), (''b'', demo_deps [''b''] [])])"

lemma ghost_hides_cycle:
  "\<not> diag_HasErrors (agent_Validate None Global (Some demo_ghost))"
  "(''b'', ''b'') \<in> depends demo_ghost [(''ghost'', demo_deps [''a''] []), (''b'', demo_deps [''b''] [])]"
proof -
  show "\<not> diag_HasErrors (agent_Validate None Global (Some demo_ghost))" by code_simp
  have "known_deps demo_ghost [(''ghost'', demo_deps [''a''] []), (''b'', demo_deps [''b''] [])] = [(''ghost'', ''a''), (''b'', ''b'')]" by code_simp
  then show "(''b'', ''b'') \<in> depends demo_ghost [(''ghost'', demo_deps [''a''] []), (''b'', demo_deps [''b''] [])]" by (simp add: depends_def)
qed

text \<open>A task listed twice in \<open>task_order\<close> is accepted, and its graph has a cycle.\<close>

lemma repeated_order_cycle:
  "\<not> diag_HasErrors (agent_Validate None Global (Some (demo_workflow (demo_sequential\<lparr>ex_TaskOrder := [''a'', ''b'', ''a'']\<rparr>))))"
  "diag_HasErrors (gd_Validate None (demo_gd (demo_workflow (demo_sequential\<lparr>ex_TaskOrder := [''a'', ''b'', ''a'']\<rparr>))))"
  by code_simp+

text \<open>A reference is rewritten only if the task it names has been compiled, and tasks are compiled in the order of
  their names: the same reference is resolved in one direction and left as it stands in the other.\<close>

lemma rewrite_only_earlier:
  "rewriteTemplate ''{{tasks.a.output}}'' [(''a'', ''a__ed'')] = ''{{.a__ed_output}}''"
  "rewriteTemplate ''{{tasks.b.output}}'' [(''a'', ''a__ed'')] = ''{{tasks.b.output}}''"
  by code_simp+


subsection \<open>The parallel strategy\<close>

text \<open>Under this strategy no edge enters a task's chain from outside when no task refers to another.\<close>

lemma parallel_rel:
  assumes "Compile now reg (Some aw) = Inr gd" "ex_Strategy (wf_Execution aw) = ''parallel''"
    and "\<And>i. i \<in> task_ids aw \<Longrightarrow> task_refs (task_at aw i) = {}"
  shows "def_rel gd = (\<Union>i \<in> task_ids aw. set (steps (task_chain reg aw i))) \<union> (\<lambda>i. (last (task_chain reg aw i), merge_id aw)) ` task_ids aw"
  using graph_refines(2)[OF assms(1)] assms(2,3) by (auto simp: described_rel_def task_rel_def strategy_rel_def)

lemma step_members: "(a, b) \<in> set (steps xs) \<Longrightarrow> a \<in> set xs \<and> b \<in> set (tl xs)"
  by (auto simp: steps_def dest: set_zip_leftD set_zip_rightD)

lemma parallel_closed:
  assumes R: "R = (\<Union>i \<in> task_ids aw. set (steps (task_chain reg aw i))) \<union> (\<lambda>i. (last (task_chain reg aw i), merge_id aw)) ` task_ids aw"
    and dis: "\<And>i j. i \<in> task_ids aw \<Longrightarrow> j \<in> task_ids aw \<Longrightarrow> i \<noteq> j \<Longrightarrow> set (task_chain reg aw i) \<inter> set (task_chain reg aw j) = {}"
    and m: "\<And>i. i \<in> task_ids aw \<Longrightarrow> merge_id aw \<notin> set (task_chain reg aw i)"
    and j: "j \<in> task_ids aw" and path: "(hd (task_chain reg aw j), x) \<in> R\<^sup>*"
  shows "x \<in> set (task_chain reg aw j) \<or> x = merge_id aw"
  using path
proof (induction rule: rtrancl_induct)
  case base
  then show ?case by simp
next
  case (step y z)
  have "z = merge_id aw" if "(y, z) \<in> (\<lambda>i. (last (task_chain reg aw i), merge_id aw)) ` task_ids aw" using that by auto
  moreover have "z \<in> set (task_chain reg aw j)" if i: "i \<in> task_ids aw" "(y, z) \<in> set (steps (task_chain reg aw i))" for i
  proof -
    have yz: "y \<in> set (task_chain reg aw i)" "z \<in> set (task_chain reg aw i)"
      using step_members[OF i(2)] by (auto dest: list.set_sel(2)[OF chain_nonempty])
    then have "i = j" using step.IH m[OF i(1)] dis[OF i(1) j] by blast
    then show ?thesis using yz by simp
  qed
  ultimately show ?case using step.hyps(2) unfolding R by blast
qed

lemma chain_inbound: "x \<in> set xs \<Longrightarrow> x \<noteq> hd xs \<Longrightarrow> \<exists>y. (y, x) \<in> set (steps xs)"
proof (induction xs rule: induct_list012)
  case (3 a b zs)
  then show ?case by (cases "x = b") auto
qed simp_all

lemma resolve_entry_source:
  assumes "gd_Entry gd = []" "n \<in> nd_ID ` set (gd_Nodes gd)" "n \<notin> Range (def_rel gd)" "\<And>m. m \<in> nd_ID ` set (gd_Nodes gd) \<Longrightarrow> m \<noteq> []"
  shows "resolve_entry gd \<in> nd_ID ` set (gd_Nodes gd) \<and> resolve_entry gd \<notin> Range (def_rel gd)"
proof -
  let ?in = "fold (\<lambda>e. mput (ed_Target e) True) (gd_Edges gd) ([] :: bool gomap)"
  have "is_set (fold (\<lambda>e. mput (ed_Target e) True) es m) i \<longleftrightarrow> is_set m i \<or> i \<in> ed_Target ` set es" for es :: "EdgeDef list" and m :: "bool gomap" and i
    by (induction es arbitrary: m) auto
  moreover have "Range (def_rel gd) = ed_Target ` set (gd_Edges gd)" by (force simp: def_rel_def)
  ultimately have inb: "is_set ?in i \<longleftrightarrow> i \<in> Range (def_rel gd)" for i by (simp add: is_set_def[of "[]"])
  obtain nd where nd: "List.find (\<lambda>nd. \<not> is_set ?in (nd_ID nd)) (gd_Nodes gd) = Some nd"
    using assms(2,3) inb by (cases "List.find (\<lambda>nd. \<not> is_set ?in (nd_ID nd)) (gd_Nodes gd)") (auto simp: find_None_iff)
  then have m: "nd \<in> set (gd_Nodes gd)" "\<not> is_set ?in (nd_ID nd)" by (auto simp: find_Some_iff)
  have "resolve_entry gd = nd_ID nd" using assms(1,4) m(1) by (auto simp: resolve_entry_def nd Let_def)
  then show ?thesis using m inb by simp
qed

lemma chains_disjoint:
  assumes "unique_ids reg aw" "i \<in> task_ids aw" "j \<in> task_ids aw" "i \<noteq> j"
  shows "set (task_chain reg aw i) \<inter> set (task_chain reg aw j) = {}"
  using distinct_concat_chains[of "task_chain reg aw" "sortedKeys (wf_Tasks aw)" i j] assms by (fastforce simp: unique_ids_def in_set_conv_nth)

lemma start_is_source:
  assumes R: "R = (\<Union>i \<in> task_ids aw. set (steps (task_chain reg aw i))) \<union> (\<lambda>i. (last (task_chain reg aw i), merge_id aw)) ` task_ids aw"
    and u: "unique_ids reg aw" and m: "merge_id aw \<notin> (\<Union>i \<in> task_ids aw. set (task_chain reg aw i))" and i: "i \<in> task_ids aw"
  shows "hd (task_chain reg aw i) \<notin> Range R"
proof
  assume "hd (task_chain reg aw i) \<in> Range R"
  then have "(\<exists>j \<in> task_ids aw. hd (task_chain reg aw i) \<in> set (tl (task_chain reg aw j))) \<or> hd (task_chain reg aw i) = merge_id aw"
    unfolding R using step_members by fastforce
  then obtain j where j: "j \<in> task_ids aw" "hd (task_chain reg aw i) \<in> set (tl (task_chain reg aw j))"
    using m i hd_in_set[OF chain_nonempty[of reg aw i]] by (metis UN_I)
  then have "i = j" using chains_disjoint[OF u i j(1)] hd_in_set[OF chain_nonempty[of reg aw i]] list.set_sel(2)[OF chain_nonempty] by blast
  moreover have "distinct (task_chain reg aw j)" using u j(1) by (auto simp: unique_ids_def distinct_concat_iff)
  ultimately show False using j(2) by (cases "task_chain reg aw j") auto
qed

lemma parallel_entry:
  assumes "Compile now reg (Some aw) = Inr gd" "ex_Strategy (wf_Execution aw) = ''parallel''" "i \<in> task_ids aw"
    and R: "def_rel gd = (\<Union>i \<in> task_ids aw. set (steps (task_chain reg aw i))) \<union> (\<lambda>i. (last (task_chain reg aw i), merge_id aw)) ` task_ids aw"
    and u: "unique_ids reg aw" and m: "merge_id aw \<notin> (\<Union>i \<in> task_ids aw. set (task_chain reg aw i))"
  shows "\<exists>j \<in> task_ids aw. resolve_entry gd = hd (task_chain reg aw j)"
proof -
  have ids: "nd_ID ` set (gd_Nodes gd) = (\<Union>i \<in> task_ids aw. set (task_chain reg aw i)) \<union> {merge_id aw}" "gd_Entry gd = []"
    using graph_refines(1,3)[OF assms(1)] assms(2) by (simp_all add: described_ids_def strategy_nodes_def described_entry_def)
  have nonempty: "n \<noteq> []" if "n \<in> nd_ID ` set (gd_Nodes gd)" for n
    using that chain_member[of n reg aw] unfolding ids by (auto simp: merge_id_def)
  from resolve_entry_source[OF ids(2) _ start_is_source[OF R u m assms(3)] nonempty]
  have e: "resolve_entry gd \<in> nd_ID ` set (gd_Nodes gd)" "resolve_entry gd \<notin> Range (def_rel gd)"
    using assms(3) hd_in_set[OF chain_nonempty] unfolding ids by blast+
  have "merge_id aw \<in> Range (def_rel gd)" using assms(3) unfolding R by blast
  then have "resolve_entry gd \<noteq> merge_id aw" using e(2) by metis
  with e(1) obtain j where j: "j \<in> task_ids aw" "resolve_entry gd \<in> set (task_chain reg aw j)" unfolding ids by blast
  then have "resolve_entry gd = hd (task_chain reg aw j)" using chain_inbound[OF j(2)] e(2) unfolding R by blast
  with j(1) show ?thesis by blast
qed

text \<open>
  C19: The graph of a parallel workflow runs one task only: under the parallel strategy, when no task refers to another and
  the node IDs are distinct, the entry of the built graph is the start of one task, and no node of any other task can be
  reached from it.
\<close>

theorem parallel_runs_one_task:
  assumes "Compile now reg (Some aw) = Inr gd" "ex_Strategy (wf_Execution aw) = ''parallel''" "wf_Tasks aw \<noteq> []"
    and "\<And>i. i \<in> task_ids aw \<Longrightarrow> task_refs (task_at aw i) = {}" "unique_ids reg aw" "merge_id aw \<notin> (\<Union>i \<in> task_ids aw. set (task_chain reg aw i))"
  shows "\<exists>j \<in> task_ids aw. resolve_entry gd = hd (task_chain reg aw j) \<and>
    (\<forall>i \<in> task_ids aw. i \<noteq> j \<longrightarrow> (\<forall>x \<in> set (task_chain reg aw i). (resolve_entry gd, x) \<notin> ((\<lambda>e. (ed_Source e, ed_Target e)) ` set (gd_Edges gd))\<^sup>*))"
proof -
  have R: "def_rel gd = (\<Union>i \<in> task_ids aw. set (steps (task_chain reg aw i))) \<union> (\<lambda>i. (last (task_chain reg aw i), merge_id aw)) ` task_ids aw"
    by (rule parallel_rel[OF assms(1,2)]) (rule assms(4))
  have "task_ids aw \<noteq> {}" using assms(3) by (simp add: task_ids_def)
  then obtain j where j: "j \<in> task_ids aw" "resolve_entry gd = hd (task_chain reg aw j)"
    using parallel_entry[OF assms(1,2) _ R assms(5,6)] by blast
  have m: "merge_id aw \<notin> set (task_chain reg aw i)" if "i \<in> task_ids aw" for i using assms(6) that by blast
  have "x \<notin> set (task_chain reg aw i)" if i: "i \<in> task_ids aw" "i \<noteq> j" "(resolve_entry gd, x) \<in> (def_rel gd)\<^sup>*" for i x
    using parallel_closed[OF R chains_disjoint[OF assms(5)] m j(1), of x] i(3) j(2) m[OF i(1)] chains_disjoint[OF assms(5) i(1) j(1) i(2)] by auto
  then show ?thesis using j unfolding def_rel_def by blast
qed

definition demo_parallel :: AgentWorkflow where
  "demo_parallel = (demo_workflow \<lparr>ex_Strategy = ''parallel'', ex_TaskOrder = [], ex_MergeStrategy = [], ex_ManagerAgent = [], ex_Tasks = None\<rparr>)
     \<lparr>wf_Tasks := [(''a'', demo_task [] []), (''b'', demo_task [] [])]\<rparr>"

lemma demo_parallel_checks: "\<not> isl (Compile [] Global (Some demo_parallel))" "unique_ids Global demo_parallel"
    "\<not> diag_HasErrors (agent_Validate None Global (Some demo_parallel))"
    "task_chain Global demo_parallel ''a'' = [''a__ed'']" "task_chain Global demo_parallel ''b'' = [''b__ed'']" "merge_id demo_parallel = ''w__merge''"
    "map_sum (\<lambda>_. ()) resolve_entry (Compile [] Global (Some demo_parallel)) = Inr ''a__ed''"
  by code_simp+

lemma demo_parallel_facts: "ex_Strategy (wf_Execution demo_parallel) = ''parallel''" "wf_Tasks demo_parallel \<noteq> []" "task_ids demo_parallel = {''a'', ''b''}"
    "task_refs (task_at demo_parallel ''a'') = {}" "task_refs (task_at demo_parallel ''b'') = {}"
  by (auto simp: demo_parallel_def demo_workflow_def task_ids_def task_refs_def task_at_def demo_task_def)

theorem parallel_runs_one_task_witness:
  "\<exists>gd. Compile [] Global (Some demo_parallel) = Inr gd \<and> resolve_entry gd = ''a__ed'' \<and>
     (''a__ed'', ''b__ed'') \<notin> ((\<lambda>e. (ed_Source e, ed_Target e)) ` set (gd_Edges gd))\<^sup>*"
proof -
  obtain gd where gd: "Compile [] Global (Some demo_parallel) = Inr gd" using demo_parallel_checks(1) by (metis isl_def sum.exhaust)
  then have e: "resolve_entry gd = ''a__ed''" using demo_parallel_checks(7) by simp
  have refs: "task_refs (task_at demo_parallel i) = {}" if "i \<in> task_ids demo_parallel" for i using that by (auto simp: demo_parallel_facts)
  have "merge_id demo_parallel \<notin> (\<Union>i \<in> task_ids demo_parallel. set (task_chain Global demo_parallel i))" by (simp add: demo_parallel_facts demo_parallel_checks)
  from parallel_runs_one_task[OF gd demo_parallel_facts(1,2) refs demo_parallel_checks(2) this]
  show ?thesis using gd e by (auto simp: demo_parallel_facts demo_parallel_checks)
qed

end
