(* ===== verification/Event_Bus.thy ===== *)
theory Event_Bus
  imports Runtime_Events "HOL-Library.Multiset" "HOL-Library.Sublist"
begin

section \<open>Package bus: the in-memory event bus and the throttled emitter\<close>

text \<open>
  \<open>bus/membus.go\<close>, \<open>bus/throttle.go\<close> and \<open>bus/store_subscriber.go\<close>. Subscriptions are shared between the bus and
  the subscriber, so they live in a store and the bus holds their indices. \<open>Publish\<close> holds a read lock: several
  calls run at once and their sends interleave, while \<open>Subscribe\<close>, \<open>SubscribeAll\<close> and \<open>Close\<close> hold the write
  lock and run alone. The step relation \<open>bus_step\<close> has one step per send, and per call otherwise. Fields named
  \<open>gs_\<close>, \<open>gb_\<close> and \<open>gt_\<close> are history that the code does not have: what a reader has received, which sends were dropped, what was
  published.
\<close>


subsection \<open>Subscriptions\<close>

record memSub =
  sub_ch :: "Event list"
  sub_closed :: bool
  gs_received :: "Event list"
  gs_dropped :: "Event list"
  gs_run :: "string option"
  gs_since :: nat

definition newMemSub :: "string option \<Rightarrow> nat \<Rightarrow> memSub" where
  "newMemSub run since = \<lparr>sub_ch = [], sub_closed = False, gs_received = [], gs_dropped = [], gs_run = run, gs_since = since\<rparr>"

definition sub_close :: "memSub \<Rightarrow> memSub" where
  "sub_close s = (if \<not> sub_closed s then s\<lparr>sub_closed := True\<rparr> else s)"

definition sub_send :: "nat \<Rightarrow> Event \<Rightarrow> memSub \<Rightarrow> memSub" where
  "sub_send cap e s =
     (if sub_closed s then s\<lparr>gs_dropped := gs_dropped s @ [e]\<rparr>
      else if length (sub_ch s) < cap then s\<lparr>sub_ch := sub_ch s @ [e]\<rparr>
      else s\<lparr>gs_dropped := gs_dropped s @ [e]\<rparr>)"

definition sub_receive :: "memSub \<Rightarrow> memSub" where
  "sub_receive s = (case sub_ch s of [] \<Rightarrow> s | e # es \<Rightarrow> s\<lparr>sub_ch := es, gs_received := gs_received s @ [e]\<rparr>)"


subsection \<open>The bus\<close>

record MemBus =
  mb_subs :: "nat list gomap"
  mb_globalSubs :: "nat list"
  mb_bufSize :: nat
  mb_closed :: bool
  mb_store :: "memSub list"
  gb_log :: "Event list"

definition NewMemBus :: "int \<Rightarrow> MemBus" where
  "NewMemBus subscriberBufferSize =
     \<lparr>mb_subs = [], mb_globalSubs = [], mb_bufSize = (if subscriberBufferSize \<le> 0 then 256 else nat subscriberBufferSize),
      mb_closed = False, mb_store = [], gb_log = []\<rparr>"

definition subs_at :: "MemBus \<Rightarrow> string \<Rightarrow> nat list" where
  "subs_at b run = (case mget (mb_subs b) run of None \<Rightarrow> [] | Some ids \<Rightarrow> ids)"

definition Subscribe :: "string \<Rightarrow> MemBus \<Rightarrow> nat \<times> MemBus" where
  "Subscribe run b = (length (mb_store b),
     b\<lparr>mb_store := mb_store b @ [newMemSub (Some run) (length (gb_log b))],
       mb_subs := mput run (subs_at b run @ [length (mb_store b)]) (mb_subs b)\<rparr>)"

definition SubscribeAll :: "MemBus \<Rightarrow> nat \<times> MemBus" where
  "SubscribeAll b = (length (mb_store b),
     b\<lparr>mb_store := mb_store b @ [newMemSub None (length (gb_log b))],
       mb_globalSubs := mb_globalSubs b @ [length (mb_store b)]\<rparr>)"

definition upd_sub :: "nat \<Rightarrow> (memSub \<Rightarrow> memSub) \<Rightarrow> MemBus \<Rightarrow> MemBus" where
  "upd_sub i f b = b\<lparr>mb_store := (mb_store b)[i := f (mb_store b ! i)]\<rparr>"

definition mb_Close :: "MemBus \<Rightarrow> MemBus" where
  "mb_Close b = fold (\<lambda>i. upd_sub i sub_close) (concat (map snd (mb_subs b)) @ mb_globalSubs b) (b\<lparr>mb_closed := True\<rparr>)"

text \<open>\<open>Publish\<close> in pieces: the subscriptions it will send to, none when the bus is closed, and one send. A call
  that is not disturbed is all its sends in order.\<close>

definition publish_targets :: "MemBus \<Rightarrow> Event \<Rightarrow> nat list" where
  "publish_targets b e = (if mb_closed b then [] else subs_at b (ev_RunID e) @ mb_globalSubs b)"

definition Publish :: "Event \<Rightarrow> MemBus \<Rightarrow> MemBus" where
  "Publish e b = fold (\<lambda>i. upd_sub i (sub_send (mb_bufSize b) e)) (publish_targets b e)
     (if mb_closed b then b else b\<lparr>gb_log := gb_log b @ [e]\<rparr>)"

text \<open>The running \<open>Publish\<close> calls: the event and the sends left.\<close>

record BusSystem =
  bs_bus :: MemBus
  bs_active :: "(Event \<times> nat list) list"

inductive bus_step :: "BusSystem \<Rightarrow> BusSystem \<Rightarrow> bool" where
  publish_closed: "mb_closed (bs_bus s) \<Longrightarrow> bus_step s s"
| publish_begin: "\<not> mb_closed (bs_bus s) \<Longrightarrow>
    bus_step s \<lparr>bs_bus = (bs_bus s)\<lparr>gb_log := gb_log (bs_bus s) @ [e]\<rparr>, bs_active = bs_active s @ [(e, publish_targets (bs_bus s) e)]\<rparr>"
| publish_send: "bs_active s = xs @ (e, i # ids) # ys \<Longrightarrow>
    bus_step s \<lparr>bs_bus = upd_sub i (sub_send (mb_bufSize (bs_bus s)) e) (bs_bus s), bs_active = xs @ (e, ids) # ys\<rparr>"
| publish_end: "bs_active s = xs @ (e, []) # ys \<Longrightarrow> bus_step s (s\<lparr>bs_active := xs @ ys\<rparr>)"
| subscribe: "bs_active s = [] \<Longrightarrow> bus_step s (s\<lparr>bs_bus := snd (Subscribe run (bs_bus s))\<rparr>)"
| subscribe_all: "bs_active s = [] \<Longrightarrow> bus_step s (s\<lparr>bs_bus := snd (SubscribeAll (bs_bus s))\<rparr>)"
| bus_close: "bs_active s = [] \<Longrightarrow> bus_step s (s\<lparr>bs_bus := mb_Close (bs_bus s)\<rparr>)"
| unsubscribe: "i < length (mb_store (bs_bus s)) \<Longrightarrow> bus_step s (s\<lparr>bs_bus := upd_sub i sub_close (bs_bus s)\<rparr>)"
| receive: "i < length (mb_store (bs_bus s)) \<Longrightarrow> bus_step s (s\<lparr>bs_bus := upd_sub i sub_receive (bs_bus s)\<rparr>)"

definition bus_reachable :: "BusSystem \<Rightarrow> bool" where
  "bus_reachable s \<longleftrightarrow> (\<exists>n. bus_step\<^sup>*\<^sup>* \<lparr>bs_bus = NewMemBus n, bs_active = []\<rparr> s)"


subsection \<open>Storing events\<close>

text \<open>\<open>StoreSubscriber.Handle\<close>: the store's \<open>Append\<close> is an argument; a failure is logged and the event is lost.\<close>

definition store_Handle :: "(Event \<Rightarrow> 'st \<Rightarrow> (string + unit) \<times> 'st) \<Rightarrow> Event \<Rightarrow> 'st \<times> (Event \<times> string) list \<Rightarrow> 'st \<times> (Event \<times> string) list" where
  "store_Handle store_append e sl = (case store_append e (fst sl) of
       (Inl err, st) \<Rightarrow> (st, snd sl @ [(e, err)])
     | (Inr _, st) \<Rightarrow> (st, snd sl))"


subsection \<open>Accounting for every event\<close>

definition wants :: "memSub \<Rightarrow> Event \<Rightarrow> bool" where
  "wants s e \<longleftrightarrow> gs_run s = None \<or> gs_run s = Some (ev_RunID e)"

definition due :: "MemBus \<Rightarrow> memSub \<Rightarrow> Event list" where
  "due b s = filter (wants s) (drop (gs_since s) (gb_log b))"

text \<open>The sends to a subscription that running calls still have to do.\<close>

definition in_flight :: "nat \<Rightarrow> (Event \<times> nat list) list \<Rightarrow> Event multiset" where
  "in_flight i as = (\<Sum>(e, ids) \<leftarrow> as. replicate_mset (count_list ids i) e)"

definition sub_ok :: "BusSystem \<Rightarrow> nat \<Rightarrow> bool" where
  "sub_ok s i \<longleftrightarrow> (let b = bs_bus s; u = mb_store b ! i in
     length (sub_ch u) \<le> mb_bufSize b \<and> gs_since u \<le> length (gb_log b) \<and>
     mset (gs_received u @ sub_ch u) + mset (gs_dropped u) + in_flight i (bs_active s) = mset (due b u) \<and>
     (gs_dropped u \<noteq> [] \<longrightarrow> sub_closed u \<or> mb_bufSize b \<le> length (gs_received u @ sub_ch u)))"

definition bus_inv :: "BusSystem \<Rightarrow> bool" where
  "bus_inv s \<longleftrightarrow> (let b = bs_bus s in
     (\<forall>i < length (mb_store b). sub_ok s i) \<and>
     (\<forall>(e, ids) \<in> set (bs_active s). set ids \<subseteq> {..< length (mb_store b)}) \<and>
     (\<forall>run i. count_list (subs_at b run) i = (if i < length (mb_store b) \<and> gs_run (mb_store b ! i) = Some run then 1 else 0)) \<and>
     (\<forall>i. count_list (mb_globalSubs b) i = (if i < length (mb_store b) \<and> gs_run (mb_store b ! i) = None then 1 else 0)))"

lemma in_flight_simps [simp]:
  "in_flight i [] = {#}" "in_flight i ((e, ids) # as) = replicate_mset (count_list ids i) e + in_flight i as"
  "in_flight i (as @ bs) = in_flight i as + in_flight i bs"
  by (simp_all add: in_flight_def)

lemma upd_sub_simps [simp]:
  "length (mb_store (upd_sub i f b)) = length (mb_store b)" "mb_bufSize (upd_sub i f b) = mb_bufSize b"
  "gb_log (upd_sub i f b) = gb_log b" "mb_subs (upd_sub i f b) = mb_subs b" "mb_globalSubs (upd_sub i f b) = mb_globalSubs b"
  "mb_closed (upd_sub i f b) = mb_closed b" "subs_at (upd_sub i f b) run = subs_at b run"
  by (simp_all add: upd_sub_def subs_at_def)

lemma upd_sub_nth: "j < length (mb_store b) \<Longrightarrow> mb_store (upd_sub i f b) ! j = (if j = i then f (mb_store b ! i) else mb_store b ! j)"
  by (simp add: upd_sub_def)

lemma sub_op_run [simp]:
  "gs_run (sub_send c e u) = gs_run u" "gs_run (sub_close u) = gs_run u" "gs_run (sub_receive u) = gs_run u"
  "gs_since (sub_send c e u) = gs_since u" "gs_since (sub_close u) = gs_since u" "gs_since (sub_receive u) = gs_since u"
  by (simp_all add: sub_send_def sub_close_def sub_receive_def split: list.split)

lemma due_cong: "gs_run u = gs_run v \<Longrightarrow> gs_since u = gs_since v \<Longrightarrow> gb_log b = gb_log c \<Longrightarrow> due b u = due c v"
  by (simp add: due_def wants_def[abs_def])

text \<open>Steps that change one subscription and nothing of the bus.\<close>

lemma bus_inv_upd:
  assumes inv: "bus_inv s" and run: "\<And>u. gs_run (f u) = gs_run u"
    and active: "\<forall>(e, ids) \<in> set as. set ids \<subseteq> {..< length (mb_store (bs_bus s))}"
    and other: "\<And>j. j \<noteq> i \<Longrightarrow> in_flight j as = in_flight j (bs_active s)"
    and here: "i < length (mb_store (bs_bus s)) \<Longrightarrow> sub_ok s i \<Longrightarrow> sub_ok \<lparr>bs_bus = upd_sub i f (bs_bus s), bs_active = as\<rparr> i"
  shows "bus_inv \<lparr>bs_bus = upd_sub i f (bs_bus s), bs_active = as\<rparr>"
proof -
  let ?t = "\<lparr>bs_bus = upd_sub i f (bs_bus s), bs_active = as\<rparr>"
  have "sub_ok ?t j" if j: "j < length (mb_store (bs_bus s))" for j
  proof (cases "j = i")
    case True
    then show ?thesis using here inv j by (simp add: bus_inv_def Let_def)
  next
    case False
    have "sub_ok s j" using inv j by (simp add: bus_inv_def Let_def)
    then show ?thesis using False j other[OF False] by (simp add: sub_ok_def Let_def upd_sub_nth due_def)
  qed
  moreover have "gs_run (mb_store (upd_sub i f (bs_bus s)) ! j) = gs_run (mb_store (bs_bus s) ! j)" if "j < length (mb_store (bs_bus s))" for j
    using that run by (simp add: upd_sub_nth)
  ultimately show ?thesis using inv active by (simp add: bus_inv_def Let_def cong: conj_cong)
qed

lemma bus_inv_send:
  assumes inv: "bus_inv s" and as: "bs_active s = xs @ (e, i # ids) # ys"
  shows "bus_inv \<lparr>bs_bus = upd_sub i (sub_send (mb_bufSize (bs_bus s)) e) (bs_bus s), bs_active = xs @ (e, ids) # ys\<rparr>"
proof (rule bus_inv_upd[OF inv])
  show "\<forall>(e, ids) \<in> set (xs @ (e, ids) # ys). set ids \<subseteq> {..< length (mb_store (bs_bus s))}"
    using inv as by (auto simp: bus_inv_def Let_def)
  show "in_flight j (xs @ (e, ids) # ys) = in_flight j (bs_active s)" if "j \<noteq> i" for j using that as by simp
  assume i: "i < length (mb_store (bs_bus s))" and ok: "sub_ok s i"
  let ?u = "mb_store (bs_bus s) ! i" and ?b = "bs_bus s"
  have flight: "in_flight i (bs_active s) = add_mset e (in_flight i (xs @ (e, ids) # ys))" by (simp add: as)
  have d: "due (upd_sub i (sub_send (mb_bufSize ?b) e) ?b) (sub_send (mb_bufSize ?b) e ?u) = due ?b ?u" by (rule due_cong) simp_all
  have m: "mset (gs_received (sub_send c e ?u) @ sub_ch (sub_send c e ?u)) + mset (gs_dropped (sub_send c e ?u)) =
      add_mset e (mset (gs_received ?u @ sub_ch ?u) + mset (gs_dropped ?u))" for c
    by (simp add: sub_send_def)
  show "sub_ok \<lparr>bs_bus = upd_sub i (sub_send (mb_bufSize ?b) e) ?b, bs_active = xs @ (e, ids) # ys\<rparr> i"
    using ok i unfolding sub_ok_def Let_def
    by (simp add: upd_sub_nth d m flight del: mset_append in_flight_simps(3)) (auto simp: sub_send_def)
qed simp

lemma bus_inv_begin:
  assumes inv: "bus_inv s" and opened: "\<not> mb_closed (bs_bus s)"
  shows "bus_inv \<lparr>bs_bus = (bs_bus s)\<lparr>gb_log := gb_log (bs_bus s) @ [e]\<rparr>, bs_active = bs_active s @ [(e, publish_targets (bs_bus s) e)]\<rparr>"
    (is "bus_inv ?t")
proof -
  let ?b = "bs_bus s"
  have counts: "count_list (subs_at ?b run) i = (if i < length (mb_store ?b) \<and> gs_run (mb_store ?b ! i) = Some run then 1 else 0)"
      "count_list (mb_globalSubs ?b) i = (if i < length (mb_store ?b) \<and> gs_run (mb_store ?b ! i) = None then 1 else 0)" for run i
    using inv unfolding bus_inv_def Let_def by blast+
  have target: "count_list (publish_targets ?b e) i = (if i < length (mb_store ?b) \<and> wants (mb_store ?b ! i) e then 1 else 0)" for i
    using opened by (simp add: publish_targets_def counts wants_def)
  have "sub_ok ?t i" if i: "i < length (mb_store ?b)" for i
  proof -
    let ?u = "mb_store ?b ! i"
    have ok: "sub_ok s i" using inv i by (simp add: bus_inv_def Let_def)
    then have "due (?b\<lparr>gb_log := gb_log ?b @ [e]\<rparr>) ?u = due ?b ?u @ (if wants ?u e then [e] else [])"
      by (simp add: due_def sub_ok_def Let_def)
    then show ?thesis using ok i by (simp add: sub_ok_def Let_def target)
  qed
  moreover have "set (publish_targets ?b e) \<subseteq> {..< length (mb_store ?b)}"
  proof
    fix i assume "i \<in> set (publish_targets ?b e)"
    then have "count_list (publish_targets ?b e) i \<noteq> 0" by (simp add: count_list_0_iff)
    then show "i \<in> {..< length (mb_store ?b)}" by (simp add: target split: if_splits)
  qed
  moreover have "\<forall>(e, ids) \<in> set (bs_active s). set ids \<subseteq> {..< length (mb_store ?b)}" using inv by (simp add: bus_inv_def Let_def)
  moreover have "subs_at (?b\<lparr>gb_log := gb_log ?b @ [e]\<rparr>) = subs_at ?b" by (simp add: subs_at_def fun_eq_iff)
  ultimately show ?thesis using counts by (simp add: bus_inv_def Let_def)
qed

text \<open>A new subscription: nothing is due for it yet.\<close>

lemma sub_ok_new:
  assumes "bs_active s = []" "bus_inv s" "mb_store b' = mb_store (bs_bus s) @ [newMemSub r (length (gb_log (bs_bus s)))]"
    "mb_bufSize b' = mb_bufSize (bs_bus s)" "gb_log b' = gb_log (bs_bus s)" "i < length (mb_store b')"
  shows "sub_ok (s\<lparr>bs_bus := b'\<rparr>) i"
proof (cases "i < length (mb_store (bs_bus s))")
  case True
  then have "sub_ok s i" using assms(2) by (simp add: bus_inv_def Let_def)
  then show ?thesis using True assms(1,3-5) by (simp add: sub_ok_def Let_def nth_append due_def)
next
  case False
  then have "i = length (mb_store (bs_bus s))" using assms(3,6) by simp
  then show ?thesis using assms(1,3-5) by (simp add: sub_ok_def Let_def nth_append due_def newMemSub_def)
qed

lemma bus_inv_subscribe:
  assumes inv: "bus_inv s" and idle: "bs_active s = []"
  shows "bus_inv (s\<lparr>bs_bus := snd (Subscribe run (bs_bus s))\<rparr>)" "bus_inv (s\<lparr>bs_bus := snd (SubscribeAll (bs_bus s))\<rparr>)"
proof -
  let ?b = "bs_bus s"
  have counts: "count_list (subs_at ?b r) i = (if i < length (mb_store ?b) \<and> gs_run (mb_store ?b ! i) = Some r then 1 else 0)"
      "count_list (mb_globalSubs ?b) i = (if i < length (mb_store ?b) \<and> gs_run (mb_store ?b ! i) = None then 1 else 0)" for r i
    using inv unfolding bus_inv_def Let_def by blast+
  have at: "subs_at (snd (Subscribe run ?b)) r = (if r = run then subs_at ?b run @ [length (mb_store ?b)] else subs_at ?b r)"
      "subs_at (snd (SubscribeAll ?b)) r = subs_at ?b r" for r
    by (simp_all add: subs_at_def Subscribe_def SubscribeAll_def)
  have "sub_ok (s\<lparr>bs_bus := snd (Subscribe run ?b)\<rparr>) i" if "i < Suc (length (mb_store ?b))" for i
    by (rule sub_ok_new[OF idle inv]) (use that in \<open>simp_all add: Subscribe_def\<close>)
  then show "bus_inv (s\<lparr>bs_bus := snd (Subscribe run ?b)\<rparr>)"
    by (simp add: bus_inv_def Let_def at idle counts) (auto simp: Subscribe_def newMemSub_def nth_append less_Suc_eq counts)
  have "sub_ok (s\<lparr>bs_bus := snd (SubscribeAll ?b)\<rparr>) i" if "i < Suc (length (mb_store ?b))" for i
    by (rule sub_ok_new[OF idle inv]) (use that in \<open>simp_all add: SubscribeAll_def\<close>)
  then show "bus_inv (s\<lparr>bs_bus := snd (SubscribeAll ?b)\<rparr>)"
    by (simp add: bus_inv_def Let_def at idle counts) (auto simp: SubscribeAll_def newMemSub_def nth_append less_Suc_eq counts)
qed

lemma bus_inv_quiet:
  assumes "bus_inv s" "f = sub_close \<or> f = sub_receive"
  shows "bus_inv \<lparr>bs_bus = upd_sub i f (bs_bus s), bs_active = bs_active s\<rparr>"
proof (rule bus_inv_upd[OF assms(1)])
  show "\<forall>(e, ids) \<in> set (bs_active s). set ids \<subseteq> {..< length (mb_store (bs_bus s))}" using assms(1) by (simp add: bus_inv_def Let_def)
  show "gs_run (f u) = gs_run u" for u using assms(2) by auto
  assume i: "i < length (mb_store (bs_bus s))" and ok: "sub_ok s i"
  let ?b = "bs_bus s" and ?u = "mb_store (bs_bus s) ! i"
  have d: "due (upd_sub i f ?b) (f ?u) = due ?b ?u" by (rule due_cong) (use assms(2) in auto)
  have "gs_received (f ?u) @ sub_ch (f ?u) = gs_received ?u @ sub_ch ?u" "gs_dropped (f ?u) = gs_dropped ?u"
      "length (sub_ch (f ?u)) \<le> length (sub_ch ?u)" "sub_closed ?u \<longrightarrow> sub_closed (f ?u)" "gs_since (f ?u) = gs_since ?u"
    using assms(2) by (auto simp: sub_close_def sub_receive_def split: list.split)
  then show "sub_ok \<lparr>bs_bus = upd_sub i f ?b, bs_active = bs_active s\<rparr> i"
    using ok i unfolding sub_ok_def Let_def by (simp add: upd_sub_nth d del: mset_append length_append) linarith
qed simp

lemma bus_inv_close:
  assumes "bus_inv s" shows "bus_inv (s\<lparr>bs_bus := mb_Close (bs_bus s)\<rparr>)"
proof -
  have "bus_inv \<lparr>bs_bus = fold (\<lambda>i. upd_sub i sub_close) ids b, bs_active = as\<rparr>" if "bus_inv \<lparr>bs_bus = b, bs_active = as\<rparr>" for ids b as
    using that
  proof (induction ids arbitrary: b)
    case (Cons i ids)
    then show ?case using bus_inv_quiet[OF Cons.prems, of sub_close i] by simp
  qed simp
  moreover have "bus_inv \<lparr>bs_bus = (bs_bus s)\<lparr>mb_closed := True\<rparr>, bs_active = bs_active s\<rparr>"
    using assms by (simp add: bus_inv_def sub_ok_def due_def subs_at_def Let_def)
  ultimately show ?thesis by (cases s) (simp add: mb_Close_def)
qed

lemma bus_inv_step: "bus_step s t \<Longrightarrow> bus_inv s \<Longrightarrow> bus_inv t"
proof (induction rule: bus_step.induct)
  case (publish_end s xs e ys)
  then show ?case by (simp add: bus_inv_def sub_ok_def Let_def)
next
  case (unsubscribe i s)
  then show ?case using bus_inv_quiet[of s sub_close i] by (cases s) simp
next
  case (receive i s)
  then show ?case using bus_inv_quiet[of s sub_receive i] by (cases s) simp
qed (blast intro: bus_inv_send bus_inv_begin bus_inv_subscribe bus_inv_close)+

lemma bus_reachable_inv: "bus_reachable s \<Longrightarrow> bus_inv s"
proof -
  have "bus_inv \<lparr>bs_bus = NewMemBus n, bs_active = []\<rparr>" for n by (simp add: bus_inv_def NewMemBus_def subs_at_def Let_def)
  moreover have "bus_step\<^sup>*\<^sup>* s t \<Longrightarrow> bus_inv s \<Longrightarrow> bus_inv t" for s t by (induction rule: rtranclp_induct) (auto intro: bus_inv_step)
  ultimately show "bus_reachable s \<Longrightarrow> bus_inv s" unfolding bus_reachable_def by blast
qed

text \<open>
  C20: The bus accounts for every event, under every interleaving of publishers, subscribers and readers. Of the
  events published since a subscription was made that it wants (those of its run, or all), each was received
  or waits in its channel exactly once, or was dropped, or is still to be sent by a call of \<open>Publish\<close> that has not
  returned; the channel stays within its buffer. Nothing is dropped while the subscription is open and has had fewer
  events than its buffer holds.
\<close>

theorem bus_conservation:
  assumes "bus_reachable s" "i < length (mb_store (bs_bus s))"
  shows "let b = bs_bus s; u = mb_store b ! i in
    mset (gs_received u) + mset (sub_ch u) + mset (gs_dropped u) + in_flight i (bs_active s) =
      mset (filter (wants u) (drop (gs_since u) (gb_log b))) \<and>
    length (sub_ch u) \<le> mb_bufSize b \<and>
    (gs_dropped u \<noteq> [] \<longrightarrow> sub_closed u \<or> mb_bufSize b \<le> length (gs_received u) + length (sub_ch u))"
proof -
  have "sub_ok s i" using bus_reachable_inv[OF assms(1)] assms(2) by (simp add: bus_inv_def Let_def)
  then show ?thesis by (simp add: sub_ok_def due_def Let_def)
qed

definition demo_bus :: MemBus where
  "demo_bus = Publish (NewEvent EventRunStarted ''r'') (snd (SubscribeAll (snd (Subscribe ''r'' (NewMemBus 1)))))"

lemma bus_steps_Publish:
  assumes "bs_active s = []" shows "bus_step\<^sup>*\<^sup>* s (s\<lparr>bs_bus := Publish e (bs_bus s)\<rparr>)"
proof (cases "mb_closed (bs_bus s)")
  case True
  then show ?thesis by (simp add: Publish_def publish_targets_def)
next
  case False
  have sends: "bus_step\<^sup>*\<^sup>* \<lparr>bs_bus = b, bs_active = [(e, ids)]\<rparr>
      \<lparr>bs_bus = fold (\<lambda>i. upd_sub i (sub_send (mb_bufSize b) e)) ids b, bs_active = []\<rparr>" for b ids
  proof (induction ids arbitrary: b)
    case Nil
    show ?case using publish_end[of "\<lparr>bs_bus = b, bs_active = [(e, [])]\<rparr>" "[]" e "[]"] by auto
  next
    case (Cons i ids)
    have "bus_step \<lparr>bs_bus = b, bs_active = [(e, i # ids)]\<rparr> \<lparr>bs_bus = upd_sub i (sub_send (mb_bufSize b) e) b, bs_active = [(e, ids)]\<rparr>"
      using publish_send[of "\<lparr>bs_bus = b, bs_active = [(e, i # ids)]\<rparr>" "[]" e i ids "[]"] by simp
    with Cons[of "upd_sub i (sub_send (mb_bufSize b) e) b"] show ?case by (auto intro: converse_rtranclp_into_rtranclp)
  qed
  have "bus_step s \<lparr>bs_bus = (bs_bus s)\<lparr>gb_log := gb_log (bs_bus s) @ [e]\<rparr>, bs_active = [(e, publish_targets (bs_bus s) e)]\<rparr>"
    using publish_begin[OF False, of e] assms by simp
  with sends[of "(bs_bus s)\<lparr>gb_log := gb_log (bs_bus s) @ [e]\<rparr>" "publish_targets (bs_bus s) e"] assms False show ?thesis
    by (cases s) (auto simp: Publish_def intro: converse_rtranclp_into_rtranclp)
qed

theorem bus_conservation_witness:
  "bus_reachable \<lparr>bs_bus = demo_bus, bs_active = []\<rparr> \<and> length (sub_ch (mb_store demo_bus ! 1)) \<le> 1"
proof -
  let ?s0 = "\<lparr>bs_bus = NewMemBus 1, bs_active = []\<rparr>"
  have "bus_step ?s0 (?s0\<lparr>bs_bus := snd (Subscribe ''r'' (NewMemBus 1))\<rparr>)" using subscribe[of ?s0] by simp
  moreover have "bus_step (?s0\<lparr>bs_bus := snd (Subscribe ''r'' (NewMemBus 1))\<rparr>) (?s0\<lparr>bs_bus := snd (SubscribeAll (snd (Subscribe ''r'' (NewMemBus 1))))\<rparr>)"
    using subscribe_all[of "?s0\<lparr>bs_bus := snd (Subscribe ''r'' (NewMemBus 1))\<rparr>"] by simp
  moreover have "bus_step\<^sup>*\<^sup>* (?s0\<lparr>bs_bus := snd (SubscribeAll (snd (Subscribe ''r'' (NewMemBus 1))))\<rparr>) \<lparr>bs_bus = demo_bus, bs_active = []\<rparr>"
    using bus_steps_Publish[of "?s0\<lparr>bs_bus := snd (SubscribeAll (snd (Subscribe ''r'' (NewMemBus 1))))\<rparr>" "NewEvent EventRunStarted ''r''"]
    by (simp add: demo_bus_def)
  ultimately have r: "bus_reachable \<lparr>bs_bus = demo_bus, bs_active = []\<rparr>"
    unfolding bus_reachable_def by (meson converse_rtranclp_into_rtranclp)
  have "1 < length (mb_store demo_bus)" "mb_bufSize demo_bus = 1" by code_simp+
  with bus_conservation[OF r, of 1] r show ?thesis by (simp add: Let_def)
qed

text \<open>A subscription made after \<open>Close\<close> is never closed by the bus and never gets an event: a second \<open>Close\<close> aside,
  its reader waits for good. Closing a subscription leaves it registered with the bus.\<close>

lemma subscribe_after_close:
  assumes "mb_closed b"
  shows "let (i, b') = Subscribe run b in \<not> sub_closed (mb_store b' ! i) \<and> publish_targets b' e = []"
  using assms by (simp add: Subscribe_def newMemSub_def publish_targets_def)

lemma unsubscribe_keeps_registration:
  "mb_subs (upd_sub i sub_close b) = mb_subs b \<and> mb_globalSubs (upd_sub i sub_close b) = mb_globalSubs b"
  by simp



subsection \<open>The throttled emitter\<close>

text \<open>
  \<open>Emit\<close> passes events on, except that of the output deltas only the latest of each node is kept for the next
  flush. \<open>flush\<close> swaps the map of pending deltas under the lock and emits them afterwards, in the order in which
  the map is ranged over, so other calls of \<open>Emit\<close> fall between. The step relation has the swap and each emission
  as steps of the background goroutine: \<open>th_flushing\<close> are the events it still has to emit, and it is done
  (\<open>th_done\<close>) after the flush that follows \<open>Close\<close>. \<open>th_out\<close> is what the wrapped emitter got and \<open>gt_in\<close> is the
  history of calls that were not ignored.
\<close>

record ThrottledEmitter =
  th_pending :: "Event gomap"
  th_closed :: bool
  th_flushing :: "Event list"
  th_stopping :: bool
  th_done :: bool
  th_out :: "Event list"
  gt_in :: "Event list"

definition NewThrottledEmitter :: ThrottledEmitter where
  "NewThrottledEmitter = \<lparr>th_pending = [], th_closed = False, th_flushing = [], th_stopping = False, th_done = False,
     th_out = [], gt_in = []\<rparr>"

definition is_delta :: "Event \<Rightarrow> bool" where "is_delta e \<longleftrightarrow> ev_Kind e = EventNodeOutputDelta"

definition th_Emit :: "Event \<Rightarrow> ThrottledEmitter \<Rightarrow> ThrottledEmitter" where
  "th_Emit e te =
     (if ev_Kind e \<noteq> EventNodeOutputDelta then te\<lparr>th_out := th_out te @ [e], gt_in := gt_in te @ [e]\<rparr>
      else if th_closed te then te
      else te\<lparr>th_pending := mput (ev_NodeID e) e (th_pending te), gt_in := gt_in te @ [e]\<rparr>)"

definition th_Close :: "ThrottledEmitter \<Rightarrow> ThrottledEmitter" where
  "th_Close te = (if th_closed te then te else te\<lparr>th_closed := True\<rparr>)"

text \<open>The swap at the start of \<open>flush\<close>, for one order of the map.\<close>

definition flush_swap :: "Event list \<Rightarrow> ThrottledEmitter \<Rightarrow> ThrottledEmitter" where
  "flush_swap order te = (if length (th_pending te) = 0 then te else te\<lparr>th_flushing := order, th_pending := []\<rparr>)"

definition flush_emit :: "ThrottledEmitter \<Rightarrow> ThrottledEmitter" where
  "flush_emit te = (case th_flushing te of [] \<Rightarrow> te | e # es \<Rightarrow> te\<lparr>th_flushing := es, th_out := th_out te @ [e]\<rparr>)"

inductive th_step :: "ThrottledEmitter \<Rightarrow> ThrottledEmitter \<Rightarrow> bool" where
  th_emit: "th_step te (th_Emit e te)"
| th_close: "th_step te (th_Close te)"
| th_tick: "\<not> th_done te \<Longrightarrow> \<not> th_stopping te \<Longrightarrow> th_flushing te = [] \<Longrightarrow> mset order = mset (map snd (th_pending te)) \<Longrightarrow>
    th_step te (flush_swap order te)"
| th_flush: "th_step te (flush_emit te)"
| th_stop: "th_closed te \<Longrightarrow> \<not> th_stopping te \<Longrightarrow> th_flushing te = [] \<Longrightarrow> mset order = mset (map snd (th_pending te)) \<Longrightarrow>
    th_step te ((flush_swap order te)\<lparr>th_stopping := True\<rparr>)"
| th_finish: "th_stopping te \<Longrightarrow> th_flushing te = [] \<Longrightarrow> th_step te (te\<lparr>th_done := True\<rparr>)"

definition deltas_of :: "string \<Rightarrow> Event list \<Rightarrow> Event list" where
  "deltas_of n es = filter (\<lambda>e. is_delta e \<and> ev_NodeID e = n) es"

text \<open>What is on the way out for a node: emitted, being flushed, pending.\<close>

definition outgoing :: "ThrottledEmitter \<Rightarrow> string \<Rightarrow> Event list" where
  "outgoing te n = deltas_of n (th_out te) @ deltas_of n (th_flushing te) @ (case mget (th_pending te) n of None \<Rightarrow> [] | Some e \<Rightarrow> [e])"

definition keeps_last :: "Event list \<Rightarrow> Event list \<Rightarrow> bool" where
  "keeps_last os is \<longleftrightarrow> subseq os is \<and> (is \<noteq> [] \<longrightarrow> os \<noteq> [] \<and> last os = last is)"

definition th_base :: "ThrottledEmitter \<Rightarrow> bool" where
  "th_base te \<longleftrightarrow> gomap_ok (th_pending te) \<and>
     (\<forall>n e. mget (th_pending te) n = Some e \<longrightarrow> is_delta e \<and> ev_NodeID e = n) \<and> list_all is_delta (th_flushing te) \<and>
     filter (\<lambda>e. \<not> is_delta e) (th_out te) = filter (\<lambda>e. \<not> is_delta e) (gt_in te) \<and>
     (th_stopping te \<longrightarrow> th_closed te \<and> th_pending te = []) \<and> (th_done te \<longrightarrow> th_stopping te \<and> th_flushing te = [])"

definition th_inv :: "ThrottledEmitter \<Rightarrow> bool" where
  "th_inv te \<longleftrightarrow> th_base te \<and> (\<forall>n. keeps_last (outgoing te n) (deltas_of n (gt_in te)))"

lemma th_invI:
  assumes "th_inv te" "th_base te'" "\<And>n. outgoing te' n = outgoing te n" "\<And>n. deltas_of n (gt_in te') = deltas_of n (gt_in te)"
  shows "th_inv te'"
  using assms by (simp add: th_inv_def)

lemma deltas_of_simps [simp]:
  "deltas_of n [] = []" "deltas_of n (es @ fs) = deltas_of n es @ deltas_of n fs"
  "deltas_of n (e # es) = (if is_delta e \<and> ev_NodeID e = n then e # deltas_of n es else deltas_of n es)"
  by (simp_all add: deltas_of_def)

lemma subseq_replace_last:
  assumes "subseq (xs @ as) ys" shows "subseq (xs @ [b]) (ys @ [b])"
proof -
  have "subseq xs (xs @ as)" by (rule prefix_imp_subseq) simp
  with assms have "subseq xs ys" by (metis subseq_order.trans)
  then show ?thesis by (rule list_emb_append_mono) simp
qed

lemma deltas_of_pending:
  assumes "gomap_ok m" "\<forall>n e. mget m n = Some e \<longrightarrow> is_delta e \<and> ev_NodeID e = n" "mset order = mset (map snd m)"
  shows "deltas_of n order = (case mget m n of None \<Rightarrow> [] | Some e \<Rightarrow> [e])" "list_all is_delta order"
proof -
  have keys: "is_delta e \<and> ev_NodeID e = k" if "(k, e) \<in> set m" for k e
    using assms(1,2) that by (simp add: gomap_ok_def)
  have "deltas_of n (map snd m) = (case mget m n of None \<Rightarrow> [] | Some e \<Rightarrow> [e])" using assms(1) keys
  proof (induction m)
    case (Cons p m)
    obtain k e where p: "p = (k, e)" by force
    have e: "is_delta e \<and> ev_NodeID e = k" using Cons.prems(2)[of k e] p by simp
    have "deltas_of n (map snd m) = (case mget m n of None \<Rightarrow> [] | Some e \<Rightarrow> [e])"
      by (rule Cons.IH) (use Cons.prems in \<open>auto simp: gomap_ok_def\<close>)
    moreover have "mget m k = None" using Cons.prems(1) p by (auto simp: gomap_ok_def map_of_eq_None_iff)
    ultimately show ?case using p e by auto
  qed simp
  moreover have "mset (deltas_of n order) = mset (deltas_of n (map snd m))" using assms(3) by (simp add: deltas_of_def)
  ultimately show "deltas_of n order = (case mget m n of None \<Rightarrow> [] | Some e \<Rightarrow> [e])" by (auto split: option.splits)
  have "set order = snd ` set m" using assms(3) by (metis mset_eq_setD set_map)
  then show "list_all is_delta order" using keys by (force simp: list_all_iff)
qed

lemma th_inv_swap:
  assumes "th_inv te" "th_flushing te = []" "mset order = mset (map snd (th_pending te))" "\<not> th_stopping te"
  shows "th_inv (flush_swap order te)" "th_pending (flush_swap order te) = []"
proof -
  have base: "th_base te" using assms(1) by (simp add: th_inv_def)
  then have ok: "gomap_ok (th_pending te)" "\<forall>n e. mget (th_pending te) n = Some e \<longrightarrow> is_delta e \<and> ev_NodeID e = n"
    unfolding th_base_def by blast+
  note d = deltas_of_pending[OF ok assms(3)]
  show "th_inv (flush_swap order te)" using assms(1)
  proof (rule th_invI)
    show "outgoing (flush_swap order te) n = outgoing te n" for n
      using assms(2) d(1)[of n] by (auto simp: outgoing_def flush_swap_def)
    show "th_base (flush_swap order te)" using base d(2) assms(4) by (simp add: th_base_def flush_swap_def)
    show "deltas_of n (gt_in (flush_swap order te)) = deltas_of n (gt_in te)" for n by (simp add: flush_swap_def)
  qed
  show "th_pending (flush_swap order te) = []" by (simp add: flush_swap_def)
qed

lemma th_inv_Emit:
  assumes "th_inv te" shows "th_inv (th_Emit e te)"
proof (cases "is_delta e")
  case False
  have base: "th_base te" using assms by (simp add: th_inv_def)
  show ?thesis using assms
  proof (rule th_invI)
    show "th_base (th_Emit e te)" using base False by (simp add: th_base_def th_Emit_def is_delta_def)
    show "outgoing (th_Emit e te) n = outgoing te n" "deltas_of n (gt_in (th_Emit e te)) = deltas_of n (gt_in te)" for n
      using False by (simp_all add: outgoing_def th_Emit_def is_delta_def)
  qed
next
  case True
  show ?thesis
  proof (cases "th_closed te")
    case True
    then show ?thesis using assms \<open>is_delta e\<close> by (simp add: th_Emit_def is_delta_def)
  next
    case opened: False
    let ?t = "te\<lparr>th_pending := mput (ev_NodeID e) e (th_pending te), gt_in := gt_in te @ [e]\<rparr>" and ?n = "ev_NodeID e"
    have emit: "th_Emit e te = ?t" using opened True by (simp add: th_Emit_def is_delta_def)
    have base: "th_base te" using assms by (simp add: th_inv_def)
    have "th_base ?t" using base opened True by (auto simp: th_base_def)
    moreover have "keeps_last (outgoing ?t n) (deltas_of n (gt_in ?t))" for n
    proof (cases "n = ?n")
      case False
      then have "outgoing ?t n = outgoing te n" "deltas_of n (gt_in ?t) = deltas_of n (gt_in te)" by (simp_all add: outgoing_def)
      then show ?thesis using assms by (simp add: th_inv_def)
    next
      case here: True
      let ?pre = "deltas_of ?n (th_out te) @ deltas_of ?n (th_flushing te)"
      have "keeps_last (outgoing te ?n) (deltas_of ?n (gt_in te))" using assms by (simp add: th_inv_def)
      then have "subseq (?pre @ (case mget (th_pending te) ?n of None \<Rightarrow> [] | Some e \<Rightarrow> [e])) (deltas_of ?n (gt_in te))"
        by (simp add: keeps_last_def outgoing_def)
      then have "subseq (?pre @ [e]) (deltas_of ?n (gt_in te) @ [e])" by (rule subseq_replace_last)
      moreover have "outgoing ?t ?n = ?pre @ [e]" "deltas_of ?n (gt_in ?t) = deltas_of ?n (gt_in te) @ [e]"
        using True by (simp_all add: outgoing_def)
      ultimately show ?thesis unfolding here keeps_last_def by simp
    qed
    ultimately show ?thesis unfolding emit th_inv_def by blast
  qed
qed

lemma th_inv_step: "th_step te te' \<Longrightarrow> th_inv te \<Longrightarrow> th_inv te'"
proof (induction rule: th_step.induct)
  case (th_emit te e)
  then show ?case by (rule th_inv_Emit)
next
  case (th_close te)
  then show ?case by (rule th_invI) (use th_close in \<open>auto simp: th_inv_def th_base_def th_Close_def outgoing_def\<close>)
next
  case (th_tick te order)
  show ?case by (rule th_inv_swap(1)[OF th_tick.prems th_tick.hyps(3,4,2)])
next
  case (th_flush te)
  show ?case
  proof (cases "th_flushing te")
    case (Cons e es)
    have "th_base te" using th_flush by (simp add: th_inv_def)
    with th_flush Cons show ?thesis by (elim th_invI) (auto simp: th_base_def flush_emit_def outgoing_def)
  qed (use th_flush in \<open>simp add: flush_emit_def\<close>)
next
  case (th_stop te order)
  note sw = th_inv_swap[OF th_stop.prems th_stop.hyps(3,4,2)]
  have "th_closed (flush_swap order te)" using th_stop.hyps(1) by (simp add: flush_swap_def)
  moreover have "th_base (flush_swap order te)" using sw(1) by (simp add: th_inv_def)
  ultimately show ?case using sw by (elim th_invI[of "flush_swap order te"]) (auto simp: th_base_def outgoing_def)
next
  case (th_finish te)
  have "th_base te" using th_finish by (simp add: th_inv_def)
  with th_finish show ?case by (elim th_invI) (auto simp: th_base_def outgoing_def)
qed

text \<open>
  C21: Throttling loses nothing that matters. In every interleaving of callers and the background goroutine, all
  events other than output deltas have reached the wrapped emitter in their order; the deltas that reached it are,
  for each node, some of those emitted for it, in their order; and once the goroutine has finished after \<open>Close\<close>,
  the last delta of each node is the last one that was accepted for it.
\<close>

theorem throttle_coalesces:
  assumes "th_step\<^sup>*\<^sup>* NewThrottledEmitter te"
  shows "filter (\<lambda>e. \<not> is_delta e) (th_out te) = filter (\<lambda>e. \<not> is_delta e) (gt_in te) \<and>
    subseq (deltas_of n (th_out te)) (deltas_of n (gt_in te)) \<and>
    (th_done te \<and> deltas_of n (gt_in te) \<noteq> [] \<longrightarrow>
       deltas_of n (th_out te) \<noteq> [] \<and> last (deltas_of n (th_out te)) = last (deltas_of n (gt_in te)))"
proof -
  have "th_inv NewThrottledEmitter" by (simp add: th_inv_def th_base_def keeps_last_def NewThrottledEmitter_def outgoing_def)
  with assms have inv: "th_inv te" by (induction rule: rtranclp_induct) (auto intro: th_inv_step)
  have "subseq (deltas_of n (th_out te)) (outgoing te n)" unfolding outgoing_def by (rule prefix_imp_subseq) simp
  moreover have "outgoing te n = deltas_of n (th_out te)" if "th_done te" using inv that by (simp add: th_inv_def th_base_def outgoing_def)
  moreover have "th_base te" "keeps_last (outgoing te n) (deltas_of n (gt_in te))" using inv by (simp_all add: th_inv_def)
  ultimately show ?thesis unfolding th_base_def keeps_last_def by (metis subseq_order.trans)
qed

definition demo_delta :: "string \<Rightarrow> Event" where
  "demo_delta txt = WithPayload ''text'' (VStr txt) (WithNode ''n'' ''llm'' (NewEvent EventNodeOutputDelta ''r''))"

definition demo_throttle :: ThrottledEmitter where
  "demo_throttle = (flush_emit ((flush_swap [demo_delta ''b''] (th_Close (th_Emit (demo_delta ''b'') (th_Emit (demo_delta ''a'') NewThrottledEmitter))))
     \<lparr>th_stopping := True\<rparr>))\<lparr>th_done := True\<rparr>"

theorem throttle_coalesces_witness:
  "th_step\<^sup>*\<^sup>* NewThrottledEmitter demo_throttle \<and> deltas_of ''n'' (th_out demo_throttle) = [demo_delta ''b'']"
proof -
  let ?a = "th_Emit (demo_delta ''b'') (th_Emit (demo_delta ''a'') NewThrottledEmitter)"
  let ?c = "(flush_swap [demo_delta ''b''] (th_Close ?a))\<lparr>th_stopping := True\<rparr>"
  have "th_step\<^sup>*\<^sup>* NewThrottledEmitter (th_Close ?a)" by (meson th_emit th_close rtranclp.intros)
  moreover have "th_step (th_Close ?a) ?c"
    by (rule th_stop) (simp_all add: th_Close_def th_Emit_def NewThrottledEmitter_def demo_delta_def)
  moreover have "th_step ?c (flush_emit ?c)" by (rule th_flush)
  moreover have "th_step (flush_emit ?c) demo_throttle" unfolding demo_throttle_def
    by (rule th_finish) (simp_all add: flush_emit_def flush_swap_def th_Close_def th_Emit_def NewThrottledEmitter_def demo_delta_def)
  ultimately have r: "th_step\<^sup>*\<^sup>* NewThrottledEmitter demo_throttle" by (meson rtranclp.intros)
  have "deltas_of ''n'' (gt_in demo_throttle) = [demo_delta ''a'', demo_delta ''b'']" "th_done demo_throttle" "length (deltas_of ''n'' (th_out demo_throttle)) = 1"
    by code_simp+
  with throttle_coalesces[OF r, of "''n''"] r show ?thesis by (auto simp: length_Suc_conv)
qed

end
