(* ===== verification/Filter_Node.thy ===== *)
theory Filter_Node
  imports "HOL-Library.Multiset" Node_Helpers Core_Node Expr_Eval
begin

section \<open>The filter node\<close>

text \<open>
  \<open>nodes/filter.go\<close> and the conversions of \<open>nodes/helpers.go\<close> it uses. An element of the \<open>[]any\<close> it works on is a
  value, an artifact or a message. A custom function gets a pointer to the result envelope, so it is threaded
  through; \<open>cancelled\<close> says whether the context is done when an element is looked at. The regular expression
  engine, the \<open>%v\<close> text of floats and structs and the order \<open>sort.Slice\<close> gives to elements that compare
  equal are arguments; \<open>sorts\<close> is what package \<open>sort\<close> promises.
\<close>

datatype item = IVal val | IArt artifact | IMsg message

definition artifactsToAny :: "artifact list \<Rightarrow> item list" where "artifactsToAny as = map IArt as"
definition messagesToAny :: "message list \<Rightarrow> item list" where "messagesToAny ms = map IMsg ms"

definition anyToArtifacts :: "item list \<Rightarrow> artifact list" where
  "anyToArtifacts items = concat (map (\<lambda>i. case i of IArt a \<Rightarrow> [a] | _ \<Rightarrow> []) items)"

definition anyToMessages :: "item list \<Rightarrow> message list" where
  "anyToMessages items = concat (map (\<lambda>i. case i of IMsg m \<Rightarrow> [m] | _ \<Rightarrow> []) items)"

definition item_val :: "item \<Rightarrow> val" where
  "item_val i = (case i of IVal v \<Rightarrow> v | IArt a \<Rightarrow> artifact_val a | IMsg m \<Rightarrow> message_val m)"

record FilterOp =
  fo_Type :: string
  fo_N :: int
  fo_ScoreField :: string
  fo_Order :: string
  fo_Min :: "f64 option"
  fo_Max :: "f64 option"
  fo_Field :: string
  fo_Value :: val
  fo_Pattern :: string
  fo_IncludeTypes :: "string list"
  fo_ExcludeTypes :: "string list"
  fo_Keep :: string
  fo_CustomFunc :: "(item \<Rightarrow> nat \<Rightarrow> Envelope \<Rightarrow> (string + bool) \<times> Envelope) option"

record FilterNodeConfig =
  fc_Target :: string
  fc_InputVar :: string
  fc_Filters :: "FilterOp list"
  fc_OutputVar :: string
  fc_StatsVar :: string

record FilterNode =
  fn_id :: string
  fn_config :: FilterNodeConfig

definition NewFilterNode :: "string \<Rightarrow> FilterNodeConfig \<Rightarrow> FilterNode" where
  "NewFilterNode nid cfg = \<lparr>fn_id = nid, fn_config = (if fc_Target cfg = [] then cfg\<lparr>fc_Target := ''artifacts''\<rparr> else cfg)\<rparr>"

datatype filter_error =
    DedupeNoField | BadPattern string string | NoCustomFunc | CustomError nat string | FilterCancelled | UnknownFilter string
  | NoInputVar | VarNotFound string | NotSlice string | UnknownTarget string | AtFilter nat string filter_error


subsection \<open>Fields\<close>

definition getArtifactField :: "artifact \<Rightarrow> string \<Rightarrow> val" where
  "getArtifactField a field =
     (if field \<in> {''ID'', ''id''} then VStr (art_ID a)
      else if field \<in> {''Type'', ''type''} then VStr (art_Type a)
      else if field \<in> {''MimeType'', ''mimeType'', ''mime_type''} then VStr (art_MimeType a)
      else if field \<in> {''Text'', ''text''} then VStr (art_Text a)
      else if field \<in> {''URI'', ''uri''} then VStr (art_URI a)
      else if field \<in> {''Meta'', ''meta''} then meta_val (art_Meta a)
      else (case art_Meta a of None \<Rightarrow> VNil | Some m \<Rightarrow> (case mget m field of None \<Rightarrow> VNil | Some v \<Rightarrow> v)))"

definition getMessageField :: "message \<Rightarrow> string \<Rightarrow> val" where
  "getMessageField m field =
     (if field \<in> {''Role'', ''role''} then VStr (msg_Role m)
      else if field \<in> {''Content'', ''content''} then VStr (msg_Content m)
      else if field \<in> {''Name'', ''name''} then VStr (msg_Name m)
      else if field \<in> {''Meta'', ''meta''} then meta_val (msg_Meta m)
      else (case msg_Meta m of None \<Rightarrow> VNil | Some mm \<Rightarrow> (case mget mm field of None \<Rightarrow> VNil | Some v \<Rightarrow> v)))"

text \<open>
  A single artifact or message stored in a variable, as an element of a list or under a key of a map, is the value
  \<open>artifact_val\<close> or \<open>message_val\<close> gives; the type switches read it (or a pointer to one) back.
\<close>

definition field_str :: "(string \<times> val) list \<Rightarrow> string \<Rightarrow> string" where
  "field_str fs f = (case mget fs f of Some (VStr s) \<Rightarrow> s | _ \<Rightarrow> [])"

definition field_bytes :: "(string \<times> val) list \<Rightarrow> string \<Rightarrow> string" where
  "field_bytes fs f = (case mget fs f of Some (VStruct _ bs) \<Rightarrow> field_str bs ''data'' | _ \<Rightarrow> [])"

definition field_meta :: "(string \<times> val) list \<Rightarrow> string \<Rightarrow> (string \<times> val) list option" where
  "field_meta fs f = (case mget fs f of Some (VMap m) \<Rightarrow> Some m | _ \<Rightarrow> None)"

definition val_item :: "val \<Rightarrow> item" where
  "val_item v = (case v of
       VStruct ty fs \<Rightarrow>
         if ty \<in> {''core.Artifact'', ''*core.Artifact''} then
           IArt (Artifact (field_str fs ''ID'') (field_str fs ''Type'') (field_str fs ''MimeType'') (field_str fs ''Text'')
             (field_bytes fs ''Bytes'') (field_str fs ''URI'') (field_meta fs ''Meta''))
         else if ty \<in> {''core.Message'', ''*core.Message''} then
           IMsg (Message (field_str fs ''Role'') (field_str fs ''Content'') (field_str fs ''Name'') (field_meta fs ''Meta''))
         else IVal v
     | _ \<Rightarrow> IVal v)"

lemma val_item_item_val [simp]: "val_item (artifact_val a) = IArt a" "val_item (message_val m) = IMsg m"
  by (cases a; simp add: val_item_def artifact_val_def field_str_def field_bytes_def field_meta_def meta_val_def split: option.split)
    (cases m; simp add: val_item_def message_val_def field_str_def field_meta_def meta_val_def split: option.split)

fun extract_path :: "val \<Rightarrow> string list \<Rightarrow> val option" where
  "extract_path cur [] = Some cur"
| "extract_path cur (part # parts) = (case val_item cur of
       IVal (VMap m) \<Rightarrow> (case mget m part of None \<Rightarrow> None | Some v \<Rightarrow> extract_path v parts)
     | IVal _ \<Rightarrow> None
     | IArt a \<Rightarrow> if getArtifactField a part = VNil then None else extract_path (getArtifactField a part) parts
     | IMsg m \<Rightarrow> if getMessageField m part = VNil then None else extract_path (getMessageField m part) parts)"

definition extractValue :: "item \<Rightarrow> string \<Rightarrow> val option" where
  "extractValue i fieldPath = (if fieldPath = [] then None else extract_path (item_val i) (split_on (CHR ''.'') fieldPath))"

text \<open>The fields of an artifact or a message are read at any step of the path.\<close>

lemma extract_artifact_field:
  "extractValue (IArt a) ''text'' = Some (VStr (art_Text a))"
  "extractValue (IVal (VMap [(''best'', artifact_val a)])) ''best.text'' = Some (VStr (art_Text a))"
  by (simp_all add: extractValue_def item_val_def getArtifactField_def val_item_def[of "VMap _"])

definition extractFloat :: "item \<Rightarrow> string \<Rightarrow> f64 option" where
  "extractFloat i fieldPath =
     (if fieldPath = [] then None
      else (case extractValue i fieldPath of
              None \<Rightarrow> None
            | Some v \<Rightarrow> (case v of
                  VF64 x \<Rightarrow> Some x | VF32 x \<Rightarrow> Some x
                | VInt n \<Rightarrow> Some (f64_of_int n) | VInt64 n \<Rightarrow> Some (f64_of_int n) | VInt32 n \<Rightarrow> Some (f64_of_int n)
                | _ \<Rightarrow> None)))"

definition score_of :: "FilterOp \<Rightarrow> item \<Rightarrow> f64" where
  "score_of op i = (case extractFloat i (fo_ScoreField op) of None \<Rightarrow> F64 0 | Some x \<Rightarrow> x)"


subsection \<open>Operations\<close>

type_synonym scored = "nat \<times> item \<times> f64"
type_synonym slice_sort = "(scored \<Rightarrow> scored \<Rightarrow> bool) \<Rightarrow> scored list \<Rightarrow> scored list"

definition top_less :: "FilterOp \<Rightarrow> scored \<Rightarrow> scored \<Rightarrow> bool" where
  "top_less op a b = (if fo_Order op \<noteq> ''asc'' then f64_lt (snd (snd b)) (snd (snd a)) else f64_lt (snd (snd a)) (snd (snd b)))"

definition filterTopN :: "slice_sort \<Rightarrow> FilterOp \<Rightarrow> item list \<Rightarrow> item list" where
  "filterTopN srt op items =
     (if fo_N op \<le> 0 then items
      else if int (length items) \<le> fo_N op then items
      else let scoredItems = map (\<lambda>(i, it). (i, it, score_of op it)) (enumerate 0 items)
           in map (\<lambda>(i, it, s). it) (take (nat (fo_N op)) (srt (top_less op) scoredItems)))"

definition filterThreshold :: "FilterOp \<Rightarrow> item list \<Rightarrow> item list" where
  "filterThreshold op items =
     (if fo_Min op = None \<and> fo_Max op = None then items
      else filter (\<lambda>it. case extractFloat it (fo_ScoreField op) of
          None \<Rightarrow> False
        | Some s \<Rightarrow> \<not> (case fo_Min op of None \<Rightarrow> False | Some mn \<Rightarrow> f64_lt s mn) \<and> \<not> (case fo_Max op of None \<Rightarrow> False | Some mx \<Rightarrow> f64_lt mx s)) items)"

definition dedupe_key :: "(val \<Rightarrow> string) \<Rightarrow> FilterOp \<Rightarrow> item \<Rightarrow> string" where
  "dedupe_key other op i = fmt_v other (case extractValue i (fo_Field op) of None \<Rightarrow> VNil | Some v \<Rightarrow> v)"

definition dedupe_step :: "(val \<Rightarrow> string) \<Rightarrow> FilterOp \<Rightarrow> string \<Rightarrow> nat \<Rightarrow> item \<Rightarrow> scored gomap \<Rightarrow> scored gomap" where
  "dedupe_step other op keep i it seen =
     (let key = dedupe_key other op it in
      case mget seen key of
        None \<Rightarrow> mput key (i, it, if keep = ''highest_score'' \<and> fo_ScoreField op \<noteq> [] then score_of op it else F64 0) seen
      | Some (j, old, score) \<Rightarrow>
          if keep = ''first'' then seen
          else if keep = ''last'' then mput key (i, it, score) seen
          else if keep = ''highest_score'' then
            (if f64_lt score (score_of op it) then mput key (i, it, score_of op it) seen else seen)
          else seen)"

fun dedupe_loop :: "(val \<Rightarrow> string) \<Rightarrow> FilterOp \<Rightarrow> string \<Rightarrow> nat \<Rightarrow> item list \<Rightarrow> scored gomap \<Rightarrow> scored gomap" where
  "dedupe_loop other op keep i [] seen = seen"
| "dedupe_loop other op keep i (it # items) seen = dedupe_loop other op keep (Suc i) items (dedupe_step other op keep i it seen)"

definition filterDedupe :: "(val \<Rightarrow> string) \<Rightarrow> FilterOp \<Rightarrow> item list \<Rightarrow> filter_error + item list" where
  "filterDedupe other op items =
     (if fo_Field op = [] then Inl DedupeNoField
      else let keep = (if fo_Keep op = [] then ''first'' else fo_Keep op);
               seen = dedupe_loop other op keep 0 items [];
               indices = sort (map (\<lambda>p. fst (snd p)) seen);
               indexToEntry = map (\<lambda>p. (fst (snd p), snd p)) seen
           in Inr (map (\<lambda>idx. case mget indexToEntry idx of None \<Rightarrow> IVal VNil | Some e \<Rightarrow> fst (snd e)) indices))"

definition item_type :: "item \<Rightarrow> string" where
  "item_type i = (case val_item (item_val i) of
       IArt a \<Rightarrow> art_Type a
     | IVal (VMap m) \<Rightarrow> (case mget m ''Type'' of
           Some (VStr t) \<Rightarrow> t
         | _ \<Rightarrow> (case mget m ''type'' of Some (VStr t) \<Rightarrow> t | _ \<Rightarrow> []))
     | _ \<Rightarrow> [])"

definition filterByType :: "FilterOp \<Rightarrow> item list \<Rightarrow> item list" where
  "filterByType op items =
     (if length (fo_IncludeTypes op) = 0 \<and> length (fo_ExcludeTypes op) = 0 then items
      else filter (\<lambda>it. \<not> (fo_IncludeTypes op \<noteq> [] \<and> item_type it \<notin> set (fo_IncludeTypes op)) \<and> item_type it \<notin> set (fo_ExcludeTypes op)) items)"

definition filterMatch :: "regex_engine \<Rightarrow> (val \<Rightarrow> string) \<Rightarrow> FilterOp \<Rightarrow> bool \<Rightarrow> item list \<Rightarrow> filter_error + item list" where
  "filterMatch rx other op keepMatches items =
     rbind (if fo_Pattern op \<noteq> [] then
              (case rx (fo_Pattern op) of Inl err \<Rightarrow> Inl (BadPattern (fo_Pattern op) err) | Inr m \<Rightarrow> Inr (Some m))
            else Inr None)
       (\<lambda>re. Inr (filter (\<lambda>it.
          let matches = (if fo_Field op \<noteq> [] then
                           (case extractValue it (fo_Field op) of
                              None \<Rightarrow> False
                            | Some v \<Rightarrow> (case re of
                                  Some m \<Rightarrow> m (fmt_v other v)
                                | None \<Rightarrow> if fo_Value op \<noteq> VNil then valuesEqual other v (fo_Value op) else True))
                         else False)
          in (keepMatches \<and> matches) \<or> (\<not> keepMatches \<and> \<not> matches)) items))"

fun custom_loop :: "(nat \<Rightarrow> bool) \<Rightarrow> (item \<Rightarrow> nat \<Rightarrow> Envelope \<Rightarrow> (string + bool) \<times> Envelope) \<Rightarrow> nat \<Rightarrow> item list \<Rightarrow> Envelope \<Rightarrow>
    (filter_error + item list) \<times> Envelope" where
  "custom_loop cancelled f i [] env = (Inr [], env)"
| "custom_loop cancelled f i (it # items) env =
     (if cancelled i then (Inl FilterCancelled, env)
      else (case f it i env of
              (Inl err, env1) \<Rightarrow> (Inl (CustomError i err), env1)
            | (Inr keep, env1) \<Rightarrow>
                (case custom_loop cancelled f (Suc i) items env1 of
                   (Inl err, env2) \<Rightarrow> (Inl err, env2)
                 | (Inr rest, env2) \<Rightarrow> (Inr (if keep then it # rest else rest), env2))))"

definition filterCustom :: "(nat \<Rightarrow> bool) \<Rightarrow> FilterOp \<Rightarrow> item list \<Rightarrow> Envelope \<Rightarrow> (filter_error + item list) \<times> Envelope" where
  "filterCustom cancelled op items env = (case fo_CustomFunc op of
       None \<Rightarrow> (Inl NoCustomFunc, env)
     | Some f \<Rightarrow> custom_loop cancelled f 0 items env)"

record filter_context =
  fx_rx :: regex_engine
  fx_other :: "val \<Rightarrow> string"
  fx_sort :: slice_sort
  fx_cancelled :: "nat \<Rightarrow> bool"

definition applyFilter :: "filter_context \<Rightarrow> Envelope \<Rightarrow> item list \<Rightarrow> FilterOp \<Rightarrow> (filter_error + item list) \<times> Envelope" where
  "applyFilter x env items op =
     (if fo_Type op = ''top_n'' then (Inr (filterTopN (fx_sort x) op items), env)
      else if fo_Type op = ''threshold'' then (Inr (filterThreshold op items), env)
      else if fo_Type op = ''dedupe'' then (filterDedupe (fx_other x) op items, env)
      else if fo_Type op = ''type'' then (Inr (filterByType op items), env)
      else if fo_Type op = ''match'' then (filterMatch (fx_rx x) (fx_other x) op True items, env)
      else if fo_Type op = ''exclude'' then (filterMatch (fx_rx x) (fx_other x) op False items, env)
      else if fo_Type op = ''custom'' then filterCustom (fx_cancelled x) op items env
      else (Inl (UnknownFilter (fo_Type op)), env))"

fun filter_loop :: "filter_context \<Rightarrow> nat \<Rightarrow> FilterOp list \<Rightarrow> Envelope \<Rightarrow> item list \<Rightarrow> (filter_error + item list) \<times> Envelope" where
  "filter_loop x i [] env items = (Inr items, env)"
| "filter_loop x i (op # ops) env items = (case applyFilter x env items op of
       (Inl err, env1) \<Rightarrow> (Inl (AtFilter i (fo_Type op) err), env1)
     | (Inr items1, env1) \<Rightarrow> filter_loop x (Suc i) ops env1 items1)"

definition filter_items :: "FilterNodeConfig \<Rightarrow> Envelope \<Rightarrow> filter_error + item list" where
  "filter_items cfg env =
     (if fc_Target cfg = ''artifacts'' then Inr (artifactsToAny (Artifacts env))
      else if fc_Target cfg = ''messages'' then Inr (messagesToAny (Messages env))
      else if fc_Target cfg = ''var'' then
        (if fc_InputVar cfg = [] then Inl NoInputVar
         else (case GetVarNested env (fc_InputVar cfg) of
                 None \<Rightarrow> Inl (VarNotFound (fc_InputVar cfg))
               | Some v \<Rightarrow> (case toSlice v of Inl err \<Rightarrow> Inl (NotSlice err) | Inr vs \<Rightarrow> Inr (map IVal vs))))
      else Inl (UnknownTarget (fc_Target cfg)))"

definition store_items :: "FilterNodeConfig \<Rightarrow> item list \<Rightarrow> Envelope \<Rightarrow> Envelope" where
  "store_items cfg items env =
     (if fc_Target cfg = ''artifacts'' then
        (if fc_OutputVar cfg \<noteq> [] then SetVar (fc_OutputVar cfg) (VArts (anyToArtifacts items)) env else env\<lparr>Artifacts := anyToArtifacts items\<rparr>)
      else if fc_Target cfg = ''messages'' then
        (if fc_OutputVar cfg \<noteq> [] then SetVar (fc_OutputVar cfg) (VMsgs (anyToMessages items)) env else env\<lparr>Messages := anyToMessages items\<rparr>)
      else if fc_Target cfg = ''var'' then
        SetVar (if fc_OutputVar cfg = [] then fc_InputVar cfg else fc_OutputVar cfg) (VList (map item_val items)) env
      else env)"

definition FilterStats :: "nat \<Rightarrow> nat \<Rightarrow> val" where
  "FilterStats inputCount outputCount = VStruct ''FilterStats'' [(''input_count'', VInt (int inputCount)),
     (''output_count'', VInt (int outputCount)), (''removed'', VInt (int inputCount - int outputCount))]"

definition filter_Run :: "filter_context \<Rightarrow> FilterNode \<Rightarrow> Envelope \<Rightarrow> filter_error + Envelope" where
  "filter_Run x n env =
     (let cfg = fn_config n; result = the (Clone (Some env)) in
      rbind (filter_items cfg result) (\<lambda>items.
        (case filter_loop x 0 (fc_Filters cfg) result items of
           (Inl err, result1) \<Rightarrow> Inl err
         | (Inr items1, result1) \<Rightarrow>
             (let result2 = store_items cfg items1 result1 in
              Inr (if fc_StatsVar cfg \<noteq> [] then SetVar (fc_StatsVar cfg) (FilterStats (length items) (length items1)) result2 else result2)))))"


subsection \<open>Duplicates\<close>

text \<open>What the map holds after \<open>n\<close> elements.\<close>

definition kept_ok :: "(val \<Rightarrow> string) \<Rightarrow> FilterOp \<Rightarrow> string \<Rightarrow> item list \<Rightarrow> nat \<Rightarrow> nat \<Rightarrow> bool" where
  "kept_ok other op keep items n i \<longleftrightarrow>
     (keep = ''first'' \<longrightarrow> (\<forall>j < i. dedupe_key other op (items ! j) \<noteq> dedupe_key other op (items ! i))) \<and>
     (keep = ''last'' \<longrightarrow> (\<forall>j. i < j \<and> j < n \<longrightarrow> dedupe_key other op (items ! j) \<noteq> dedupe_key other op (items ! i))) \<and>
     (keep = ''highest_score'' \<longrightarrow> (\<forall>j < n. dedupe_key other op (items ! j) = dedupe_key other op (items ! i) \<longrightarrow>
        \<not> f64_lt (score_of op (items ! i)) (score_of op (items ! j))))"

definition entry_ok :: "(val \<Rightarrow> string) \<Rightarrow> FilterOp \<Rightarrow> string \<Rightarrow> item list \<Rightarrow> nat \<Rightarrow> string \<Rightarrow> scored \<Rightarrow> bool" where
  "entry_ok other op keep items n k e \<longleftrightarrow> fst e < n \<and> fst (snd e) = items ! fst e \<and> dedupe_key other op (items ! fst e) = k \<and>
     (keep = ''highest_score'' \<longrightarrow> snd (snd e) = score_of op (items ! fst e)) \<and> kept_ok other op keep items n (fst e)"

definition seen_ok :: "(val \<Rightarrow> string) \<Rightarrow> FilterOp \<Rightarrow> string \<Rightarrow> item list \<Rightarrow> nat \<Rightarrow> scored gomap \<Rightarrow> bool" where
  "seen_ok other op keep items n seen \<longleftrightarrow> gomap_ok seen \<and> (\<forall>k e. mget seen k = Some e \<longrightarrow> entry_ok other op keep items n k e) \<and>
     (\<forall>j < n. mget seen (dedupe_key other op (items ! j)) \<noteq> None)"

lemma score_default: "(if keep = ''highest_score'' \<and> fo_ScoreField op \<noteq> [] then score_of op it else F64 0) = score_of op it"
  if "keep = ''highest_score''"
  using that by (simp add: score_of_def extractFloat_def)

lemma kept_okI:
  assumes "\<And>j. keep = ''first'' \<Longrightarrow> j < i \<Longrightarrow> dedupe_key other op (items ! j) \<noteq> dedupe_key other op (items ! i)"
    and "\<And>j. keep = ''last'' \<Longrightarrow> i < j \<Longrightarrow> j < n \<Longrightarrow> dedupe_key other op (items ! j) \<noteq> dedupe_key other op (items ! i)"
    and "\<And>j. keep = ''highest_score'' \<Longrightarrow> j < n \<Longrightarrow> dedupe_key other op (items ! j) = dedupe_key other op (items ! i) \<Longrightarrow>
      \<not> f64_lt (score_of op (items ! i)) (score_of op (items ! j))"
  shows "kept_ok other op keep items n i"
  unfolding kept_ok_def using assms by blast

lemma kept_okD:
  assumes "kept_ok other op keep items n i"
  shows "keep = ''first'' \<Longrightarrow> j < i \<Longrightarrow> dedupe_key other op (items ! j) \<noteq> dedupe_key other op (items ! i)"
    and "keep = ''last'' \<Longrightarrow> i < j \<Longrightarrow> j < n \<Longrightarrow> dedupe_key other op (items ! j) \<noteq> dedupe_key other op (items ! i)"
    and "keep = ''highest_score'' \<Longrightarrow> j < n \<Longrightarrow> dedupe_key other op (items ! j) = dedupe_key other op (items ! i) \<Longrightarrow>
      \<not> f64_lt (score_of op (items ! i)) (score_of op (items ! j))"
  using assms unfolding kept_ok_def by blast+

lemma f64_lt_irrefl: "\<not> f64_lt x x" using f64_lt_eq(2)[of x x] by blast

lemma entry_later:
  assumes "entry_ok other op keep items n k e" "dedupe_key other op (items ! n) \<noteq> k"
  shows "entry_ok other op keep items (Suc n) k e"
proof -
  have e: "fst e < n" "dedupe_key other op (items ! fst e) = k" "kept_ok other op keep items n (fst e)" using assms(1) by (simp_all add: entry_ok_def)
  have "kept_ok other op keep items (Suc n) (fst e)"
    by (rule kept_okI) (use kept_okD[OF e(3)] assms(2) e(2) in \<open>metis less_Suc_eq\<close>)+
  then show ?thesis using assms(1) by (simp add: entry_ok_def)
qed

lemma entry_same:
  assumes "entry_ok other op keep items n k e" "keep \<noteq> ''last''" "keep = ''highest_score'' \<Longrightarrow> \<not> f64_lt (snd (snd e)) (score_of op (items ! n))"
  shows "entry_ok other op keep items (Suc n) k e"
proof -
  have e: "kept_ok other op keep items n (fst e)" "keep = ''highest_score'' \<Longrightarrow> snd (snd e) = score_of op (items ! fst e)"
    using assms(1) by (simp_all add: entry_ok_def)
  have "kept_ok other op keep items (Suc n) (fst e)"
    by (rule kept_okI) (use kept_okD[OF e(1)] e(2) assms(2,3) in \<open>metis less_Suc_eq\<close>)+
  then show ?thesis using assms(1) by (simp add: entry_ok_def)
qed

lemma entry_new:
  assumes "\<And>j. j < n \<Longrightarrow> dedupe_key other op (items ! j) \<noteq> k" "dedupe_key other op (items ! n) = k" "keep = ''highest_score'' \<Longrightarrow> s = score_of op (items ! n)"
  shows "entry_ok other op keep items (Suc n) k (n, items ! n, s)"
proof -
  have "kept_ok other op keep items (Suc n) n" by (rule kept_okI) (use assms(1,2) f64_lt_irrefl in \<open>metis less_Suc_eq not_less_eq\<close>)+
  then show ?thesis using assms(2,3) by (simp add: entry_ok_def)
qed

lemma entry_last:
  assumes "dedupe_key other op (items ! n) = k" "keep = ''last''"
  shows "entry_ok other op keep items (Suc n) k (n, items ! n, s)"
proof -
  have "kept_ok other op keep items (Suc n) n" by (rule kept_okI) (use assms(2) in simp_all)
  then show ?thesis using assms by (simp add: entry_ok_def)
qed

lemma entry_better:
  assumes "entry_ok other op keep items n k e" "dedupe_key other op (items ! n) = k" "keep = ''highest_score''"
    "f64_lt (snd (snd e)) (score_of op (items ! n))"
  shows "entry_ok other op keep items (Suc n) k (n, items ! n, score_of op (items ! n))"
proof -
  have e: "kept_ok other op keep items n (fst e)" "snd (snd e) = score_of op (items ! fst e)" "dedupe_key other op (items ! fst e) = k"
    using assms(1,3) by (simp_all add: entry_ok_def)
  have "\<not> f64_lt (score_of op (items ! n)) (score_of op (items ! j))" if "j < Suc n" "dedupe_key other op (items ! j) = dedupe_key other op (items ! n)" for j
    using that kept_okD(3)[OF e(1) assms(3)] f64_lt_trans f64_lt_irrefl assms(2,4) e(2,3) by (metis less_Suc_eq)
  then have "kept_ok other op keep items (Suc n) n" by (intro kept_okI) (use assms(3) in simp_all)
  then show ?thesis using assms(2,3) by (simp add: entry_ok_def)
qed

lemma seen_okI:
  assumes "gomap_ok seen" "\<And>k e. mget seen k = Some e \<Longrightarrow> entry_ok other op keep items n k e" "\<And>j. j < n \<Longrightarrow> mget seen (dedupe_key other op (items ! j)) \<noteq> None"
  shows "seen_ok other op keep items n seen"
  using assms unfolding seen_ok_def by blast

lemma seen_okD:
  assumes "seen_ok other op keep items n seen"
  shows "gomap_ok seen" "mget seen k = Some e \<Longrightarrow> entry_ok other op keep items n k e" "j < n \<Longrightarrow> mget seen (dedupe_key other op (items ! j)) \<noteq> None"
  using assms unfolding seen_ok_def by blast+

lemma seen_put:
  assumes "seen_ok other op keep items n seen" "dedupe_key other op (items ! n) = k" "entry_ok other op keep items (Suc n) k e"
  shows "seen_ok other op keep items (Suc n) (mput k e seen)"
proof (rule seen_okI)
  show "gomap_ok (mput k e seen)" using seen_okD(1)[OF assms(1)] by simp
  fix k' e' assume "mget (mput k e seen) k' = Some e'"
  then show "entry_ok other op keep items (Suc n) k' e'"
    using assms(2,3) entry_later[OF seen_okD(2)[OF assms(1)]] by (cases "k' = k") (simp, metis mget_mput)
next
  fix j assume "j < Suc n"
  then show "mget (mput k e seen) (dedupe_key other op (items ! j)) \<noteq> None"
    using seen_okD(3)[OF assms(1), of j] assms(2) by (cases "dedupe_key other op (items ! j) = k") (auto simp: less_Suc_eq)
qed

lemma seen_keep:
  assumes "seen_ok other op keep items n seen" "dedupe_key other op (items ! n) = k" "mget seen k = Some e" "entry_ok other op keep items (Suc n) k e"
  shows "seen_ok other op keep items (Suc n) seen"
proof (rule seen_okI)
  show "gomap_ok seen" by (rule seen_okD(1)[OF assms(1)])
  fix k' e' assume "mget seen k' = Some e'"
  then show "entry_ok other op keep items (Suc n) k' e'"
    using assms(2-4) entry_later[OF seen_okD(2)[OF assms(1)], of k' e'] by (cases "k' = k") simp_all
next
  fix j assume "j < Suc n"
  then show "mget seen (dedupe_key other op (items ! j)) \<noteq> None"
    using seen_okD(3)[OF assms(1), of j] assms(2,3) by (cases "j = n") simp_all
qed

lemma dedupe_step_new:
  assumes "mget seen (dedupe_key other op it) = None"
  shows "dedupe_step other op keep i it seen = mput (dedupe_key other op it)
    (i, it, if keep = ''highest_score'' \<and> fo_ScoreField op \<noteq> [] then score_of op it else F64 0) seen"
  unfolding dedupe_step_def Let_def assms option.case ..

lemma dedupe_step_old:
  assumes "mget seen (dedupe_key other op it) = Some (j, old, score)"
  shows "dedupe_step other op keep i it seen = (if keep = ''first'' then seen
     else if keep = ''last'' then mput (dedupe_key other op it) (i, it, score) seen
     else if keep = ''highest_score'' then (if f64_lt score (score_of op it) then mput (dedupe_key other op it) (i, it, score_of op it) seen else seen)
     else seen)"
  unfolding dedupe_step_def Let_def assms option.case prod.case ..

lemma dedupe_step_ok:
  assumes ok: "seen_ok other op keep items n seen" and it: "items ! n = it"
  shows "seen_ok other op keep items (Suc n) (dedupe_step other op keep n it seen)"
proof (cases "mget seen (dedupe_key other op it)")
  case None
  let ?s = "if keep = ''highest_score'' \<and> fo_ScoreField op \<noteq> [] then score_of op it else F64 0"
  have new: "\<And>j. j < n \<Longrightarrow> dedupe_key other op (items ! j) \<noteq> dedupe_key other op (items ! n)" using seen_okD(3)[OF ok] None it by metis
  have "entry_ok other op keep items (Suc n) (dedupe_key other op (items ! n)) (n, items ! n, ?s)"
    by (rule entry_new[OF new refl]) (use score_default[of keep op it] it in simp_all)
  then show ?thesis unfolding dedupe_step_new[OF None] using seen_put[OF ok refl] it by metis
next
  case (Some e)
  obtain j old score where e: "e = (j, old, score)" by (metis prod_cases3)
  note some = Some[unfolded e]
  have eo: "entry_ok other op keep items n (dedupe_key other op (items ! n)) (j, old, score)" using seen_okD(2)[OF ok some] it by metis
  note put = seen_put[OF ok refl, unfolded it]
  consider (last) "keep = ''last''" | (high) "keep = ''highest_score''" "f64_lt score (score_of op it)"
    | (stay) "keep \<noteq> ''last''" "keep = ''highest_score'' \<Longrightarrow> \<not> f64_lt score (score_of op it)" by blast
  then show ?thesis
  proof cases
    case last
    then show ?thesis using put[OF entry_last[OF refl last, of other op items n score, unfolded it]] by (simp add: dedupe_step_old[OF some])
  next
    case high
    then show ?thesis using put[OF entry_better[OF eo refl high(1), unfolded it snd_conv, OF high(2)]] by (simp add: dedupe_step_old[OF some])
  next
    case stay
    then have "dedupe_step other op keep n it seen = seen" unfolding dedupe_step_old[OF some] by metis
    moreover have "entry_ok other op keep items (Suc n) (dedupe_key other op (items ! n)) (j, old, score)"
      by (rule entry_same[OF eo stay(1)]) (use stay(2) it in simp)
    ultimately show ?thesis using seen_keep[OF ok refl] some it by metis
  qed
qed

lemma dedupe_loop_ok:
  assumes "seen_ok other op keep items n seen" "drop n items = rest" "n \<le> length items"
  shows "seen_ok other op keep items (length items) (dedupe_loop other op keep n rest seen)"
  using assms
proof (induction other op keep n rest seen rule: dedupe_loop.induct)
  case (1 other op keep i seen)
  then show ?case by simp
next
  case (2 other op keep n it rest seen)
  then have d: "drop n items = it # rest" by simp
  have "items ! n = it" using d by (rule nth_via_drop)
  moreover have "n < length items" using d by (cases "n < length items") simp_all
  moreover have "drop (Suc n) items = rest" using d by (metis drop_Suc list.sel(3) tl_drop)
  ultimately have "items ! n = it" "n < length items" "drop (Suc n) items = rest" by blast+
  then show ?case using 2 dedupe_step_ok by simp
qed

lemma seen_entry: "seen_ok other op keep items n seen \<Longrightarrow> p \<in> set seen \<Longrightarrow> entry_ok other op keep items n (fst p) (snd p)"
  using seen_okD(1,2)[of other op keep items n seen] by (cases p) (simp add: gomap_ok_def)

lemma seen_inj:
  assumes "seen_ok other op keep items n seen" shows "inj_on (\<lambda>p. fst (snd p)) (set seen)"
proof (rule inj_onI)
  fix p q assume a: "p \<in> set seen" "q \<in> set seen" "fst (snd p) = fst (snd q)"
  have "fst p = fst q" using seen_entry[OF assms a(1)] seen_entry[OF assms a(2)] a(3) by (simp add: entry_ok_def)
  moreover have "distinct (map fst seen)" using seen_okD(1)[OF assms] by (simp add: gomap_ok_def)
  ultimately show "p = q" using a(1,2) by (metis eq_key_imp_eq_value prod.collapse)
qed

lemma seen_lookup:
  assumes "seen_ok other op keep items n seen" "p \<in> set seen"
  shows "mget (map (\<lambda>p. (fst (snd p), snd p)) seen) (fst (snd p)) = Some (snd p)"
proof (rule map_of_is_SomeI)
  have "distinct seen" using seen_okD(1)[OF assms(1)] by (simp add: gomap_ok_def distinct_map)
  then show "distinct (map fst (map (\<lambda>p. (fst (snd p), snd p)) seen))" using seen_inj[OF assms(1)] by (simp add: distinct_map comp_def)
  show "(fst (snd p), snd p) \<in> set (map (\<lambda>p. (fst (snd p), snd p)) seen)" using assms(2) by auto
qed

lemma seen_unique:
  assumes "seen_ok other op keep items (length items) seen" "j < length items"
  shows "\<exists>!i. i \<in> (\<lambda>p. fst (snd p)) ` set seen \<and> dedupe_key other op (items ! i) = dedupe_key other op (items ! j)"
proof -
  obtain e where e: "mget seen (dedupe_key other op (items ! j)) = Some e" using seen_okD(3)[OF assms] by blast
  then have m: "(dedupe_key other op (items ! j), e) \<in> set seen" by (rule map_of_SomeD)
  have dist: "distinct (map fst seen)" using seen_okD(1)[OF assms(1)] by (simp add: gomap_ok_def)
  show ?thesis
  proof (rule ex1I[of _ "fst e"])
    show "fst e \<in> (\<lambda>p. fst (snd p)) ` set seen \<and> dedupe_key other op (items ! fst e) = dedupe_key other op (items ! j)"
      using imageI[OF m, of "\<lambda>p. fst (snd p)"] seen_entry[OF assms(1) m] by (simp add: entry_ok_def)
    fix i assume i: "i \<in> (\<lambda>p. fst (snd p)) ` set seen \<and> dedupe_key other op (items ! i) = dedupe_key other op (items ! j)"
    then obtain p where p: "p \<in> set seen" "i = fst (snd p)" by blast
    then have "fst p = dedupe_key other op (items ! j)" using seen_entry[OF assms(1) p(1)] i by (simp add: entry_ok_def)
    then show "i = fst e" using p m dist by (metis eq_key_imp_eq_value prod.collapse)
  qed
qed

lemma dedupe_positions:
  assumes "filterDedupe other op items = Inr out"
  shows "\<exists>ps. out = map ((!) items) ps \<and> sorted_wrt (<) ps \<and> set ps \<subseteq> {..< length items} \<and>
    (\<forall>j < length items. \<exists>!i. i \<in> set ps \<and> dedupe_key other op (items ! i) = dedupe_key other op (items ! j)) \<and>
    (\<forall>i \<in> set ps. kept_ok other op (if fo_Keep op = [] then ''first'' else fo_Keep op) items (length items) i)"
proof -
  let ?keep = "if fo_Keep op = [] then ''first'' else fo_Keep op"
  define seen where "seen = dedupe_loop other op ?keep 0 items []"
  define ps where "ps = sort (map (\<lambda>p. fst (snd p)) seen)"
  have "seen_ok other op ?keep items 0 []" by (rule seen_okI) simp_all
  then have ok: "seen_ok other op ?keep items (length items) seen" unfolding seen_def by (rule dedupe_loop_ok) simp_all
  have set: "set ps = (\<lambda>p. fst (snd p)) ` set seen" by (simp add: ps_def)
  have "distinct seen" using seen_okD(1)[OF ok] by (simp add: gomap_ok_def distinct_map)
  then have "distinct (map (\<lambda>p. fst (snd p)) seen)" using seen_inj[OF ok] by (simp add: distinct_map)
  then have sorted: "sorted_wrt (<) ps" by (simp add: ps_def strict_sorted_iff)
  have at: "i < length items \<and> fst (snd (snd p)) = items ! i \<and> kept_ok other op ?keep items (length items) i"
    if "p \<in> set seen" "i = fst (snd p)" for p i
    using seen_entry[OF ok that(1)] that(2) unfolding entry_ok_def by blast
  have "out = map (\<lambda>idx. case mget (map (\<lambda>p. (fst (snd p), snd p)) seen) idx of None \<Rightarrow> IVal VNil | Some e \<Rightarrow> fst (snd e)) ps"
    using assms unfolding filterDedupe_def Let_def seen_def ps_def by (simp split: if_splits)
  also have "\<dots> = map ((!) items) ps"
  proof (rule map_cong[OF refl])
    fix idx assume "idx \<in> set ps"
    then obtain p where p: "p \<in> set seen" "idx = fst (snd p)" unfolding set by blast
    show "(case mget (map (\<lambda>p. (fst (snd p), snd p)) seen) idx of None \<Rightarrow> IVal VNil | Some e \<Rightarrow> fst (snd e)) = items ! idx"
      using seen_lookup[OF ok p(1)] at[OF p] p(2) by simp
  qed
  finally have out: "out = map ((!) items) ps" .
  have "set ps \<subseteq> {..< length items}" "\<forall>i \<in> set ps. kept_ok other op ?keep items (length items) i"
    unfolding set using at by blast+
  then show ?thesis using out sorted seen_unique[OF ok, folded set] by blast
qed

text \<open>
  C34: Removing duplicates keeps one element of each key. Whatever the field, when \<open>dedupe\<close> succeeds its result consists of
  the elements at an increasing list of positions such that every element of the input has exactly one kept element with the
  same key; the kept one is the first, the last, or one whose score no other beats, as configured.
\<close>

theorem filterDedupe_correct:
  assumes "filterDedupe other op items = Inr out"
  shows "\<exists>ps. out = map ((!) items) ps \<and> sorted_wrt (<) ps \<and> set ps \<subseteq> {..< length items} \<and>
    (\<forall>j < length items. \<exists>!i. i \<in> set ps \<and> dedupe_key other op (items ! i) = dedupe_key other op (items ! j)) \<and>
    (\<forall>i \<in> set ps. kept_ok other op (if fo_Keep op = [] then ''first'' else fo_Keep op) items (length items) i)"
  by (rule dedupe_positions[OF assms])

definition demo_items :: "item list" where
  "demo_items = map (\<lambda>(u, s). IVal (VMap [(''u'', VStr u), (''s'', VF64 (F64 s))])) [(''a'', 1), (''b'', 5), (''a'', 3)]"

definition zero_op :: FilterOp where
  "zero_op = \<lparr>fo_Type = [], fo_N = 0, fo_ScoreField = [], fo_Order = [], fo_Min = None, fo_Max = None, fo_Field = [], fo_Value = VNil,
     fo_Pattern = [], fo_IncludeTypes = [], fo_ExcludeTypes = [], fo_Keep = [], fo_CustomFunc = None\<rparr>"

lemma demo_keys: "map (dedupe_key (\<lambda>_. []) (zero_op\<lparr>fo_Field := ''u'', fo_ScoreField := ''s'', fo_Keep := ''highest_score''\<rparr>)) demo_items = [''a'', ''b'', ''a'']"
  by (simp add: dedupe_key_def zero_op_def demo_items_def extractValue_def item_val_def val_item_def)

lemma demo_scores: "map (score_of (op\<lparr>fo_ScoreField := ''s''\<rparr>)) demo_items = [F64 1, F64 5, F64 3]"
  by (simp add: demo_items_def extractValue_def item_val_def val_item_def score_of_def extractFloat_def)

lemma dedupe_three:
  assumes "dedupe_key other op a = ''a''" "dedupe_key other op b = ''b''" "dedupe_key other op c = ''a''"
    and "score_of op a = F64 1" "score_of op b = F64 5" "score_of op c = F64 3" "fo_ScoreField op = ''s''"
    and "fo_Field op = ''u''" "fo_Keep op = ''highest_score''"
  shows "filterDedupe other op [a, b, c] = Inr [b, c]"
proof -
  have "dedupe_loop other op ''highest_score'' 0 [a, b, c] [] = [(''a'', 2, c, F64 3), (''b'', 1, b, F64 5)]"
    by (simp add: dedupe_step_def assms Let_def)
  then show ?thesis by (simp add: filterDedupe_def assms(8,9) del: dedupe_loop.simps)
qed

lemma demo_deduped:
  "filterDedupe (\<lambda>_. []) (zero_op\<lparr>fo_Field := ''u'', fo_ScoreField := ''s'', fo_Keep := ''highest_score''\<rparr>) demo_items = Inr [demo_items ! 1, demo_items ! 2]"
proof -
  let ?op = "zero_op\<lparr>fo_Field := ''u'', fo_ScoreField := ''s'', fo_Keep := ''highest_score''\<rparr>"
  have l: "demo_items = [demo_items ! 0, demo_items ! 1, demo_items ! 2]" by (simp add: demo_items_def)
  have "map (score_of ?op) demo_items = [F64 1, F64 5, F64 3]" using demo_scores[of ?op] by (simp add: zero_op_def)
  then have s: "score_of ?op (demo_items ! 0) = F64 1" "score_of ?op (demo_items ! 1) = F64 5" "score_of ?op (demo_items ! 2) = F64 3"
    by (subst (asm) l, simp)+
  have k: "dedupe_key (\<lambda>_. []) ?op (demo_items ! 0) = ''a''" "dedupe_key (\<lambda>_. []) ?op (demo_items ! 1) = ''b''" "dedupe_key (\<lambda>_. []) ?op (demo_items ! 2) = ''a''"
    using demo_keys by (subst (asm) l, simp)+
  show ?thesis by (subst l, rule dedupe_three[OF k s]) simp_all
qed

theorem filterDedupe_correct_witness:
  "\<exists>ps. [demo_items ! 1, demo_items ! 2] = map ((!) demo_items) ps \<and> sorted_wrt (<) ps"
  using filterDedupe_correct[OF demo_deduped] by (elim exE conjE) (intro exI conjI)


subsection \<open>The best elements\<close>

definition weak_order :: "('a \<Rightarrow> 'a \<Rightarrow> bool) \<Rightarrow> 'a set \<Rightarrow> bool" where
  "weak_order lt A \<longleftrightarrow> (\<forall>x \<in> A. \<not> lt x x) \<and> (\<forall>x \<in> A. \<forall>y \<in> A. \<forall>z \<in> A. lt x y \<longrightarrow> lt y z \<longrightarrow> lt x z) \<and>
     (\<forall>x \<in> A. \<forall>y \<in> A. \<forall>z \<in> A. lt x z \<longrightarrow> lt x y \<or> lt y z)"

text \<open>\<open>sort.Slice\<close>: a permutation, in which no element is less than an earlier one if the comparison is a strict weak ordering.\<close>

definition sorts :: "(('a \<Rightarrow> 'a \<Rightarrow> bool) \<Rightarrow> 'a list \<Rightarrow> 'a list) \<Rightarrow> bool" where
  "sorts srt \<longleftrightarrow> (\<forall>lt xs. mset (srt lt xs) = mset xs \<and> (weak_order lt (set xs) \<longrightarrow> sorted_wrt (\<lambda>a b. \<not> lt b a) (srt lt xs)))"

lemma sortsD:
  assumes "sorts srt"
  shows "mset (srt lt xs) = mset xs" "weak_order lt (set xs) \<Longrightarrow> sorted_wrt (\<lambda>a b. \<not> lt b a) (srt lt xs)"
  using assms unfolding sorts_def by blast+

definition better :: "FilterOp \<Rightarrow> item \<Rightarrow> item \<Rightarrow> bool" where
  "better op a b = (if fo_Order op \<noteq> ''asc'' then f64_lt (score_of op b) (score_of op a) else f64_lt (score_of op a) (score_of op b))"

lemma f64_lt_total: "x \<noteq> NaN \<Longrightarrow> y \<noteq> NaN \<Longrightarrow> z \<noteq> NaN \<Longrightarrow> f64_lt x z \<Longrightarrow> f64_lt x y \<or> f64_lt y z"
  by (cases x; cases y; cases z) auto

lemma top_less_weak:
  assumes "\<And>a. a \<in> A \<Longrightarrow> snd (snd a) \<noteq> NaN"
  shows "weak_order (top_less op) A"
proof (cases "fo_Order op = ''asc''")
  case True
  then have l: "top_less op = (\<lambda>a b. f64_lt (snd (snd a)) (snd (snd b)))" by (simp add: top_less_def fun_eq_iff)
  show ?thesis unfolding weak_order_def l using f64_lt_irrefl f64_lt_trans f64_lt_total assms by blast
next
  case False
  then have l: "top_less op = (\<lambda>a b. f64_lt (snd (snd b)) (snd (snd a)))" by (simp add: top_less_def fun_eq_iff)
  show ?thesis unfolding weak_order_def l using f64_lt_irrefl f64_lt_trans f64_lt_total assms by blast
qed

lemma map_item_scored: "map (\<lambda>(i, it, s). it) (map (\<lambda>(i, it). (i, it, score_of op it)) (enumerate n items)) = items"
  by (induction items arbitrary: n) simp_all

lemma scored_score:
  assumes "a \<in> set (map (\<lambda>(i, it). (i, it, score_of op it)) (enumerate n items))"
  shows "fst (snd a) \<in> set items \<and> snd (snd a) = score_of op (fst (snd a))"
proof -
  obtain p where p: "p \<in> set (enumerate n items)" "a = (\<lambda>(i, it). (i, it, score_of op it)) p" using assms unfolding set_map by blast
  have "snd p \<in> set (map snd (enumerate n items))" unfolding set_map using p(1) by (rule imageI)
  then show ?thesis using p(2) by (simp add: case_prod_beta)
qed

lemma top_less_better:
  assumes "a \<in> set (map (\<lambda>(i, it). (i, it, score_of op it)) (enumerate 0 items))" "b \<in> set (map (\<lambda>(i, it). (i, it, score_of op it)) (enumerate 0 items))"
  shows "top_less op b a = better op (fst (snd b)) (fst (snd a))"
  using assms by (auto simp: top_less_def better_def)

text \<open>
  C35: \<open>top_n\<close> keeps the best elements: for every sorting function that does what package \<open>sort\<close> promises, when there are
  more elements than \<open>N\<close> and no score is NaN, the result has \<open>N\<close> elements of the input and none of those left out has a better
  score (higher, or lower when the order is \<open>asc\<close>) than one that is kept.
\<close>

theorem filterTopN_best:
  assumes "sorts srt" "0 < fo_N op" "fo_N op < int (length items)" "\<And>it. it \<in> set items \<Longrightarrow> score_of op it \<noteq> NaN"
  shows "\<exists>rest. mset items = mset (filterTopN srt op items) + mset rest \<and> int (length (filterTopN srt op items)) = fo_N op \<and>
    (\<forall>a \<in> set (filterTopN srt op items). \<forall>b \<in> set rest. \<not> better op b a)"
proof -
  define sc where "sc = map (\<lambda>(i, it). (i, it, score_of op it)) (enumerate 0 items)"
  define so where "so = srt (top_less op) sc"
  let ?n = "nat (fo_N op)" and ?f = "\<lambda>(i, it, s). it :: item"
  have perm: "mset so = mset sc" unfolding so_def by (rule sortsD(1)[OF assms(1)])
  then have set: "set so = set sc" by (metis set_mset_mset)
  have "snd (snd a) \<noteq> NaN" if "a \<in> set sc" for a
    using scored_score[OF that[unfolded sc_def]] assms(4)[of "fst (snd a)"] by (elim conjE) (simp only: not_False_eq_True)
  then have "weak_order (top_less op) (set sc)" by (rule top_less_weak)
  then have "sorted_wrt (\<lambda>a b. \<not> top_less op b a) (take ?n so @ drop ?n so)" unfolding so_def append_take_drop_id by (rule sortsD(2)[OF assms(1)])
  then have *: "\<not> top_less op b a" if "a \<in> set (take ?n so)" "b \<in> set (drop ?n so)" for a b using that unfolding sorted_wrt_append by blast
  have out: "filterTopN srt op items = map ?f (take ?n so)" using assms(2,3) by (simp add: filterTopN_def Let_def so_def sc_def)
  have "mset (map ?f so) = mset (map ?f sc)" using perm by (simp only: mset_map)
  then have "mset (map ?f so) = mset items" unfolding sc_def map_item_scored .
  moreover have "map ?f so = map ?f (take ?n so) @ map ?f (drop ?n so)" by (simp flip: map_append)
  ultimately have 1: "mset items = mset (map ?f (take ?n so)) + mset (map ?f (drop ?n so))" by simp
  have "length so = length sc" using perm by (rule mset_eq_length)
  then have "length so = length items" by (simp add: sc_def)
  then have 2: "int (length (map ?f (take ?n so))) = fo_N op" using assms(2,3) by simp
  have 3: "\<not> better op (?f b) (?f a)" if a: "a \<in> set (take ?n so)" and b: "b \<in> set (drop ?n so)" for a b
  proof -
    have "a \<in> set sc" "b \<in> set sc" using in_set_takeD[OF a] in_set_dropD[OF b] set by blast+
    then show ?thesis using *[OF a b] top_less_better[of a op items b] unfolding sc_def by (simp add: case_prod_beta)
  qed
  show ?thesis unfolding out
  proof (intro exI conjI)
    show "mset items = mset (map ?f (take ?n so)) + mset (map ?f (drop ?n so))" by (rule 1)
    show "int (length (map ?f (take ?n so))) = fo_N op" by (rule 2)
    show "\<forall>a \<in> set (map ?f (take ?n so)). \<forall>b \<in> set (map ?f (drop ?n so)). \<not> better op b a" using 3 by auto
  qed
qed

fun insert_by :: "('a \<Rightarrow> 'a \<Rightarrow> bool) \<Rightarrow> 'a \<Rightarrow> 'a list \<Rightarrow> 'a list" where
  "insert_by lt x [] = [x]"
| "insert_by lt x (y # ys) = (if lt y x then y # insert_by lt x ys else x # y # ys)"

fun insertion_sort :: "('a \<Rightarrow> 'a \<Rightarrow> bool) \<Rightarrow> 'a list \<Rightarrow> 'a list" where
  "insertion_sort lt [] = []"
| "insertion_sort lt (x # xs) = insert_by lt x (insertion_sort lt xs)"

lemma insert_by_mset: "mset (insert_by lt x ys) = add_mset x (mset ys)"
  by (induction ys) simp_all

lemma insertion_sort_mset: "mset (insertion_sort lt xs) = mset xs"
  by (induction xs) (simp_all add: insert_by_mset)

lemma insert_by_sorted:
  assumes "weak_order lt A" "insert x (set ys) \<subseteq> A" "sorted_wrt (\<lambda>a b. \<not> lt b a) ys"
  shows "sorted_wrt (\<lambda>a b. \<not> lt b a) (insert_by lt x ys)"
  using assms(2,3)
proof (induction ys)
  case (Cons y ys)
  have w: "x \<in> A" "y \<in> A" "\<And>z. z \<in> set ys \<Longrightarrow> z \<in> A" using Cons.prems(1) by auto
  have mem: "set (insert_by lt x ys) = insert x (set ys)" using insert_by_mset[of lt x ys] by (metis set_mset_add_mset_insert set_mset_mset)
  show ?case
  proof (cases "lt y x")
    case True
    then have "\<not> lt x y" using assms(1) w(1,2) unfolding weak_order_def by blast
    then show ?thesis using True Cons mem by auto
  next
    case False
    then have "\<not> lt z x" if "z \<in> set ys" for z using that Cons.prems(2) assms(1) w unfolding weak_order_def by (metis sorted_wrt.simps(2))
    then show ?thesis using False Cons.prems(2) by auto
  qed
qed simp

lemma insertion_sort_sorts: "sorts insertion_sort"
proof -
  have "sorted_wrt (\<lambda>a b. \<not> lt b a) (insertion_sort lt xs)" if "weak_order lt A" "set xs \<subseteq> A" for lt :: "'a \<Rightarrow> 'a \<Rightarrow> bool" and xs A
    using that(2)
  proof (induction xs)
    case (Cons x xs)
    have "set (insertion_sort lt xs) = set xs" by (metis insertion_sort_mset set_mset_mset)
    with Cons show ?case by (auto intro: insert_by_sorted[OF that(1)])
  qed simp
  then show ?thesis unfolding sorts_def using insertion_sort_mset by blast
qed

theorem filterTopN_best_witness:
  "\<exists>rest. mset demo_items = mset (filterTopN insertion_sort (zero_op\<lparr>fo_N := 1, fo_ScoreField := ''s''\<rparr>) demo_items) + mset rest"
proof -
  let ?op = "zero_op\<lparr>fo_N := 1, fo_ScoreField := ''s''\<rparr>"
  have "NaN \<notin> set (map (score_of ?op) demo_items)" unfolding demo_scores by simp
  then have n: "\<And>it. it \<in> set demo_items \<Longrightarrow> score_of ?op it \<noteq> NaN" by (metis image_eqI list.set_map)
  have "0 < fo_N ?op" "fo_N ?op < int (length demo_items)" by (simp_all add: zero_op_def demo_items_def)
  then show ?thesis using filterTopN_best[OF insertion_sort_sorts _ _ n] by blast
qed


subsection \<open>A run\<close>

lemma map_take_sub: "mset (map f (take k xs)) \<subseteq># mset (map f xs)"
proof -
  have "map f xs = map f (take k xs) @ map f (drop k xs)" by (simp flip: map_append)
  then show ?thesis by simp
qed

lemma filterTopN_sub:
  assumes "sorts srt"
  shows "mset (filterTopN srt op items) \<subseteq># mset items"
proof -
  let ?f = "\<lambda>(i, it, s). it :: item"
  define sc where "sc = map (\<lambda>(i, it). (i, it, score_of op it)) (enumerate 0 items)"
  define so where "so = srt (top_less op) sc"
  have "mset so = mset sc" unfolding so_def by (rule sortsD(1)[OF assms])
  then have "mset (map ?f so) = mset (map ?f sc)" by (simp only: mset_map)
  then have "mset (map ?f so) = mset items" unfolding sc_def map_item_scored .
  then have "mset (map ?f (take k so)) \<subseteq># mset items" for k using map_take_sub[of ?f k so] by (simp only:)
  then show ?thesis unfolding filterTopN_def Let_def sc_def[symmetric] so_def[symmetric] by simp
qed

lemma positions_sub:
  assumes "sorted_wrt (<) ps" "set ps \<subseteq> {..< length items}"
  shows "mset (map ((!) items) ps) \<subseteq># mset items"
proof -
  have "mset ps = mset_set (set ps)" using assms(1) strict_sorted_iff by (metis mset_set_set)
  then have "mset ps \<subseteq># mset_set {..< length items}" using assms(2) by (simp add: subset_imp_msubset_mset_set)
  then have "image_mset ((!) items) (mset ps) \<subseteq># image_mset ((!) items) (mset_set {..< length items})" by (rule image_mset_subseteq_mono)
  moreover have "image_mset ((!) items) (mset_set {..< length items}) = mset items"
    by (metis atLeast_upt map_nth mset_map mset_upt atLeast0LessThan)
  ultimately show ?thesis by simp
qed

lemma filterDedupe_sub: "filterDedupe other op items = Inr out \<Longrightarrow> mset out \<subseteq># mset items"
  by (drule dedupe_positions) (elim exE conjE, simp only: positions_sub)

lemma filter_sub: "mset (filter P xs) \<subseteq># mset xs"
  by (simp add: mset_filter)

lemma custom_loop_sub: "custom_loop cancelled f i items env = (Inr out, env') \<Longrightarrow> mset out \<subseteq># mset items"
proof (induction cancelled f i items env arbitrary: out env' rule: custom_loop.induct)
  case (2 cancelled f i it items env)
  from "2.prems" obtain keep env1 where f: "\<not> cancelled i" "f it i env = (Inr keep, env1)"
    by (auto split: if_splits prod.splits sum.splits)
  with "2.prems" obtain rest where r: "custom_loop cancelled f (Suc i) items env1 = (Inr rest, env')" "out = (if keep then it # rest else rest)"
    by (auto split: prod.splits sum.splits)
  have "mset rest \<subseteq># mset items" by (rule "2.IH"[OF f(1) f(2)[symmetric] refl r(1)])
  then show ?case using r(2) by (auto intro: subset_mset.order_trans)
qed simp

lemma applyFilter_sub:
  assumes "sorts (fx_sort x)" "applyFilter x env items op = (Inr out, env')"
  shows "mset out \<subseteq># mset items"
proof -
  have m: "filterMatch rx other op k items = Inr out \<Longrightarrow> mset out \<subseteq># mset items" for rx other k
    by (auto simp: filterMatch_def rbind_def mset_filter split: sum.splits if_splits)
  have c: "filterCustom cc op items env = (Inr out, env') \<Longrightarrow> mset out \<subseteq># mset items" for cc
    by (auto simp: filterCustom_def split: option.splits dest: custom_loop_sub)
  show ?thesis using assms(2) unfolding applyFilter_def
    by (auto split: if_splits intro: m c filterDedupe_sub filterTopN_sub[OF assms(1)] simp: filterThreshold_def filterByType_def mset_filter)
qed

lemma filter_loop_sub: "sorts (fx_sort x) \<Longrightarrow> filter_loop x i ops env items = (Inr out, env') \<Longrightarrow> mset out \<subseteq># mset items"
proof (induction x i ops env items rule: filter_loop.induct)
  case (2 x i op ops env items)
  from "2.prems"(2) obtain items1 env1 where a: "applyFilter x env items op = (Inr items1, env1)" "filter_loop x (Suc i) ops env1 items1 = (Inr out, env')"
    by (auto split: prod.splits sum.splits)
  show ?case using "2.IH"[OF a(1)[symmetric] refl "2.prems"(1) a(2)] applyFilter_sub[OF "2.prems"(1) a(1)] by (rule subset_mset.order_trans)
qed simp


lemma unwrap_sub:
  assumes "mset out \<subseteq># mset (map C xs)" "\<And>y. g (C y) = y"
  obtains ys where "out = map C ys" "mset ys \<subseteq># mset xs"
proof -
  have "set out \<subseteq> C ` set xs" using set_mset_mono[OF assms(1)] by simp
  then have "C (g z) = z" if "z \<in> set out" for z using that assms(2) by auto
  then have o: "out = map C (map g out)" by (simp add: map_idI)
  have "mset (map g out) \<subseteq># mset (map g (map C xs))" using image_mset_subseteq_mono[OF assms(1), of g] by (simp only: mset_map)
  then have "mset (map g out) \<subseteq># mset xs" by (simp add: assms(2) comp_def)
  with o show ?thesis by (rule that)
qed

lemma anyToArtifacts_wrap [simp]: "anyToArtifacts (map IArt as) = as"
  by (induction as) (simp_all add: anyToArtifacts_def)

lemma anyToMessages_wrap [simp]: "anyToMessages (map IMsg ms) = ms"
  by (induction ms) (simp_all add: anyToMessages_def)

lemma filter_Run_parts:
  assumes "sorts (fx_sort x)" "filter_Run x n env = Inr env'"
  obtains items out env1 where "filter_items (fn_config n) env = Inr items" "mset out \<subseteq># mset items"
    "env' = (let e = store_items (fn_config n) out env1 in
       if fc_StatsVar (fn_config n) \<noteq> [] then SetVar (fc_StatsVar (fn_config n)) (FilterStats (length items) (length out)) e else e)"
proof -
  obtain items where i: "filter_items (fn_config n) env = Inr items" using assms(2) by (auto simp: filter_Run_def Let_def rbind_def split: sum.splits)
  obtain out env1 where l: "filter_loop x 0 (fc_Filters (fn_config n)) env items = (Inr out, env1)"
    using assms(2) i by (auto simp: filter_Run_def Let_def rbind_def split: sum.splits prod.splits)
  have "env' = (let e = store_items (fn_config n) out env1 in
       if fc_StatsVar (fn_config n) \<noteq> [] then SetVar (fc_StatsVar (fn_config n)) (FilterStats (length items) (length out)) e else e)"
    using assms(2) i l by (simp add: filter_Run_def Let_def rbind_def)
  with that[OF i filter_loop_sub[OF assms(1) l]] show ?thesis .
qed

lemma filter_Run_artifacts:
  assumes "sorts (fx_sort x)" "filter_Run x n env = Inr env'" "fc_Target (fn_config n) = ''artifacts''"
    "fc_OutputVar (fn_config n) = [] \<or> fc_StatsVar (fn_config n) \<noteq> fc_OutputVar (fn_config n)"
  shows "\<exists>kept. mset kept \<subseteq># mset (Artifacts env) \<and>
    (if fc_OutputVar (fn_config n) = [] then Artifacts env' = kept else GetVar env' (fc_OutputVar (fn_config n)) = Some (VArts kept)) \<and>
    (fc_StatsVar (fn_config n) \<noteq> [] \<longrightarrow>
      GetVar env' (fc_StatsVar (fn_config n)) = Some (FilterStats (length (Artifacts env)) (length kept)))"
proof (rule filter_Run_parts[OF assms(1,2)])
  fix items out env1
  assume i: "filter_items (fn_config n) env = Inr items" and s: "mset out \<subseteq># mset items"
    and e: "env' = (let e = store_items (fn_config n) out env1 in
       if fc_StatsVar (fn_config n) \<noteq> [] then SetVar (fc_StatsVar (fn_config n)) (FilterStats (length items) (length out)) e else e)"
  have m: "items = map IArt (Artifacts env)" using i assms(3) by (simp add: filter_items_def artifactsToAny_def)
  obtain ys where "out = map IArt ys" "mset ys \<subseteq># mset (Artifacts env)"
    by (rule unwrap_sub[OF s[unfolded m], of "\<lambda>i. case i of IArt a \<Rightarrow> a"]) simp
  then show ?thesis using assms(3,4) by (intro exI[of _ ys]) (auto simp: e m store_items_def Let_def)
qed

lemma filter_Run_messages:
  assumes "sorts (fx_sort x)" "filter_Run x n env = Inr env'" "fc_Target (fn_config n) = ''messages''"
    "fc_OutputVar (fn_config n) = [] \<or> fc_StatsVar (fn_config n) \<noteq> fc_OutputVar (fn_config n)"
  shows "\<exists>kept. mset kept \<subseteq># mset (Messages env) \<and>
    (if fc_OutputVar (fn_config n) = [] then Messages env' = kept else GetVar env' (fc_OutputVar (fn_config n)) = Some (VMsgs kept)) \<and>
    (fc_StatsVar (fn_config n) \<noteq> [] \<longrightarrow>
      GetVar env' (fc_StatsVar (fn_config n)) = Some (FilterStats (length (Messages env)) (length kept)))"
proof (rule filter_Run_parts[OF assms(1,2)])
  fix items out env1
  assume i: "filter_items (fn_config n) env = Inr items" and s: "mset out \<subseteq># mset items"
    and e: "env' = (let e = store_items (fn_config n) out env1 in
       if fc_StatsVar (fn_config n) \<noteq> [] then SetVar (fc_StatsVar (fn_config n)) (FilterStats (length items) (length out)) e else e)"
  have m: "items = map IMsg (Messages env)" using i assms(3) by (simp add: filter_items_def messagesToAny_def)
  obtain ys where "out = map IMsg ys" "mset ys \<subseteq># mset (Messages env)"
    by (rule unwrap_sub[OF s[unfolded m], of "\<lambda>i. case i of IMsg a \<Rightarrow> a"]) simp
  then show ?thesis using assms(3,4) by (intro exI[of _ ys]) (auto simp: e m store_items_def Let_def)
qed

definition filter_var :: "FilterNodeConfig \<Rightarrow> string" where
  "filter_var cfg = (if fc_OutputVar cfg = [] then fc_InputVar cfg else fc_OutputVar cfg)"

lemma filter_Run_var:
  assumes "sorts (fx_sort x)" "filter_Run x n env = Inr env'" "fc_Target (fn_config n) = ''var''" "fc_StatsVar (fn_config n) \<noteq> filter_var (fn_config n)"
  shows "\<exists>v vs ws. GetVarNested env (fc_InputVar (fn_config n)) = Some v \<and> toSlice v = Inr vs \<and> mset ws \<subseteq># mset vs \<and>
    GetVar env' (filter_var (fn_config n)) = Some (VList ws) \<and> (fc_StatsVar (fn_config n) \<noteq> [] \<longrightarrow>
    GetVar env' (fc_StatsVar (fn_config n)) = Some (FilterStats (length vs) (length ws)))"
proof (rule filter_Run_parts[OF assms(1,2)])
  fix items out env1
  assume i: "filter_items (fn_config n) env = Inr items" and s: "mset out \<subseteq># mset items"
    and e: "env' = (let e = store_items (fn_config n) out env1 in
       if fc_StatsVar (fn_config n) \<noteq> [] then SetVar (fc_StatsVar (fn_config n)) (FilterStats (length items) (length out)) e else e)"
  obtain v vs where m: "GetVarNested env (fc_InputVar (fn_config n)) = Some v" "toSlice v = Inr vs" "items = map IVal vs"
    using i assms(3) by (auto simp: filter_items_def split: if_splits option.splits sum.splits)
  obtain ws where y: "out = map IVal ws" "mset ws \<subseteq># mset vs"
    by (rule unwrap_sub[OF s[unfolded m], of "\<lambda>i. case i of IVal a \<Rightarrow> a"]) simp
  have "store_items (fn_config n) out env1 = SetVar (filter_var (fn_config n)) (VList ws) env1"
    using assms(3) y(1) by (simp add: store_items_def filter_var_def item_val_def comp_def)
  then show ?thesis using assms(4) m y by (simp add: e Let_def)
qed

text \<open>
  C33: Filtering only removes. Whatever filters are configured, custom ones included, and whatever order the sort gives to equal
  elements, when a run succeeds: for the target \<open>artifacts\<close> or \<open>messages\<close>, the list it leaves (in the envelope when no output
  variable is set, otherwise under the output variable) has, with their multiplicities, only elements of the envelope's list; for
  the target \<open>var\<close>, what it stores under the output variable, or under the input variable's name as written when there is none
  (a dotted input path is read inside nested maps and the result is stored under the dotted name), has only elements of the list
  the input path leads to. The statistics variable, when it is set, counts what was given and what is left. In each case the
  statistics must not be stored under the same name as the result.
\<close>

theorem filter_Run_sound:
  assumes "sorts (fx_sort x)" "filter_Run x n env = Inr env'" "cfg = fn_config n"
  shows "(fc_Target cfg = ''artifacts'' \<and> (fc_OutputVar cfg = [] \<or> fc_StatsVar cfg \<noteq> fc_OutputVar cfg) \<longrightarrow>
      (\<exists>kept. mset kept \<subseteq># mset (Artifacts env) \<and>
        (if fc_OutputVar cfg = [] then Artifacts env' = kept else GetVar env' (fc_OutputVar cfg) = Some (VArts kept)) \<and>
        (fc_StatsVar cfg \<noteq> [] \<longrightarrow> GetVar env' (fc_StatsVar cfg) = Some (FilterStats (length (Artifacts env)) (length kept))))) \<and>
    (fc_Target cfg = ''messages'' \<and> (fc_OutputVar cfg = [] \<or> fc_StatsVar cfg \<noteq> fc_OutputVar cfg) \<longrightarrow>
      (\<exists>kept. mset kept \<subseteq># mset (Messages env) \<and>
        (if fc_OutputVar cfg = [] then Messages env' = kept else GetVar env' (fc_OutputVar cfg) = Some (VMsgs kept)) \<and>
        (fc_StatsVar cfg \<noteq> [] \<longrightarrow> GetVar env' (fc_StatsVar cfg) = Some (FilterStats (length (Messages env)) (length kept))))) \<and>
    (fc_Target cfg = ''var'' \<and> fc_StatsVar cfg \<noteq> filter_var cfg \<longrightarrow>
      (\<exists>v vs kept. GetVarNested env (fc_InputVar cfg) = Some v \<and> toSlice v = Inr vs \<and> mset kept \<subseteq># mset vs \<and>
        GetVar env' (filter_var cfg) = Some (VList kept) \<and>
        (fc_StatsVar cfg \<noteq> [] \<longrightarrow> GetVar env' (fc_StatsVar cfg) = Some (FilterStats (length vs) (length kept)))))"
  unfolding assms(3) using filter_Run_artifacts[OF assms(1,2)] filter_Run_messages[OF assms(1,2)] filter_Run_var[OF assms(1,2)]
  by (intro conjI impI; elim conjE) blast+

definition demo_filter_node :: FilterNode where
  "demo_filter_node = NewFilterNode ''f'' \<lparr>fc_Target = ''var'', fc_InputVar = ''a.xs'',
     fc_Filters = [zero_op\<lparr>fo_Type := ''threshold'', fo_ScoreField := ''s'', fo_Min := Some (F64 2)\<rparr>], fc_OutputVar = [], fc_StatsVar = ''st''\<rparr>"

definition demo_filter_env :: Envelope where
  "demo_filter_env = SetVar ''a'' (VMap [(''xs'', VList [VMap [(''s'', VF64 (F64 1))], VMap [(''s'', VF64 (F64 3))]])]) NewEnvelope"

definition demo_filter_ctx :: filter_context where
  "demo_filter_ctx = \<lparr>fx_rx = (\<lambda>_. Inl []), fx_other = (\<lambda>_. []), fx_sort = insertion_sort, fx_cancelled = (\<lambda>_. False)\<rparr>"

lemma demo_filter_run:
  "filter_Run demo_filter_ctx demo_filter_node demo_filter_env =
     Inr (SetVar ''st'' (FilterStats 2 1) (SetVar ''a.xs'' (VList [VMap [(''s'', VF64 (F64 3))]]) demo_filter_env))"
  by (simp add: filter_Run_def demo_filter_ctx_def demo_filter_node_def demo_filter_env_def NewFilterNode_def Let_def filter_items_def
      GetVarNested_def SetVar_def NewEnvelope_def toSlice_def zero_op_def applyFilter_def filterThreshold_def extractFloat_def
      extractValue_def val_item_def store_items_def item_val_def numeral_2_eq_2)

theorem filter_Run_sound_witness:
  "\<exists>v vs ws. GetVarNested demo_filter_env ''a.xs'' = Some v \<and> toSlice v = Inr vs \<and> mset ws \<subseteq># mset vs \<and>
    GetVar (SetVar ''st'' (FilterStats 2 1) (SetVar ''a.xs'' (VList [VMap [(''s'', VF64 (F64 3))]]) demo_filter_env)) ''a.xs'' = Some (VList ws)"
proof -
  have c: "fc_Target (fn_config demo_filter_node) = ''var''" "fc_InputVar (fn_config demo_filter_node) = ''a.xs''"
    "fc_StatsVar (fn_config demo_filter_node) = ''st''" "filter_var (fn_config demo_filter_node) = ''a.xs''"
    by (simp_all add: demo_filter_node_def NewFilterNode_def filter_var_def)
  have "sorts (fx_sort demo_filter_ctx)" by (simp add: demo_filter_ctx_def insertion_sort_sorts)
  from filter_Run_sound[OF this demo_filter_run refl] show ?thesis unfolding c by blast
qed

text \<open>
  The field comment says that without an output variable the result replaces the input variable. A dotted input variable is read
  inside nested maps but written under its dotted name: the nested list is unchanged, and a later node that reads the path sees
  it unfiltered.
\<close>

lemma nested_input_kept:
  "\<exists>env'. filter_Run demo_filter_ctx demo_filter_node demo_filter_env = Inr env' \<and>
     GetVarNested env' ''a.xs'' = GetVarNested demo_filter_env ''a.xs''"
  unfolding demo_filter_run by (simp add: demo_filter_env_def GetVarNested_def SetVar_def NewEnvelope_def)

text \<open>Elements that lack the field all have the key of nil: \<open>dedupe\<close> keeps one of them.\<close>

lemma missing_field_duplicates:
  "extractValue a (fo_Field op) = None \<Longrightarrow> extractValue b (fo_Field op) = None \<Longrightarrow> dedupe_key other op a = dedupe_key other op b"
  by (simp add: dedupe_key_def)

end
