(* ===== verification/Map_Node.thy ===== *)
theory Map_Node
  imports Node_Helpers Core_Node
begin

section \<open>The map node\<close>

text \<open>
  \<open>nodes/map.go\<close>. \<open>mapSequential\<close> is a recursion over the items; \<open>mapConcurrent\<close> is a step relation on the state of the
  worker pool: the submitting loop, the bounded channel, the workers, the shared results, the first error and the
  worker context. A mapper is a function of the number of calls made before, which stands for whatever state
  it keeps between calls, of whether it sees a cancelled context, of the item and of the index; a call of the pool
  is numbered when its effect takes place. A mapper node is called in the same way, on the envelope of the item,
  and returns a non-nil envelope or an error. \<open>Run\<close> has checked that there is one of the two before
  \<open>processItem\<close> is called, so its case for neither is not reached. \<open>may\<close> says whether the context of the run can be cancelled.
\<close>

type_synonym mapper = "nat \<Rightarrow> bool \<Rightarrow> val \<Rightarrow> nat \<Rightarrow> string + val"
type_synonym mapper_node = "nat \<Rightarrow> bool \<Rightarrow> Envelope \<Rightarrow> string + Envelope"

record MapNodeConfig =
  mp_InputVar :: string
  mp_OutputVar :: string
  mp_ItemVar :: string
  mp_IndexVar :: string
  mp_Concurrency :: int
  mp_Mapper :: "mapper option"
  mp_MapperNode :: "mapper_node option"
  mp_ContinueOnError :: bool
  mp_PreserveOrder :: bool

record MapNode =
  mpn_id :: string
  mpn_config :: MapNodeConfig

definition NewMapNode :: "string \<Rightarrow> MapNodeConfig \<Rightarrow> MapNode" where
  "NewMapNode nid config = \<lparr>mpn_id = nid, mpn_config = config
     \<lparr>mp_OutputVar := (if mp_OutputVar config = [] then nid @ ''_output'' else mp_OutputVar config),
      mp_ItemVar := (if mp_ItemVar config = [] then ''item'' else mp_ItemVar config),
      mp_Concurrency := (if mp_Concurrency config \<le> 0 then 1 else mp_Concurrency config)\<rparr>\<rparr>"

datatype map_error = MapInputMissing string | MapNotSlice string | NoMapper | MapItem nat string | MapCancelled

definition processItem :: "MapNode \<Rightarrow> Envelope \<Rightarrow> nat \<Rightarrow> bool \<Rightarrow> val \<Rightarrow> nat \<Rightarrow> string + val" where
  "processItem n env call stopped item index = (case mp_Mapper (mpn_config n) of
       Some f \<Rightarrow> f call stopped item index
     | None \<Rightarrow> (case mp_MapperNode (mpn_config n) of
           None \<Rightarrow> Inl ''nil''
         | Some run \<Rightarrow>
             (let e1 = SetVar (mp_ItemVar (mpn_config n)) item (the (Clone (Some env)));
                  e2 = (if mp_IndexVar (mpn_config n) \<noteq> [] then SetVar (mp_IndexVar (mpn_config n)) (VInt (int index)) e1 else e1);
                  e3 = e2\<lparr>Trace := (Trace e2)\<lparr>ParentID := RunID (Trace e2), SpanID := mpn_id n @ ''-item-'' @ show_nat index\<rparr>\<rparr>
              in rbind (run call stopped e3) (\<lambda>r. Inr (case Vars r of None \<Rightarrow> VNilMap | Some m \<Rightarrow> VMap m)))))"


subsection \<open>One item at a time\<close>

text \<open>\<open>polled i\<close>: the context is done when item \<open>i\<close> is looked at; \<open>sees i\<close>: while it is mapped.\<close>

definition ctx_trace :: "bool \<Rightarrow> (nat \<Rightarrow> bool) \<Rightarrow> (nat \<Rightarrow> bool) \<Rightarrow> bool" where
  "ctx_trace may polled sees \<longleftrightarrow> (\<forall>i. (polled i \<longrightarrow> sees i) \<and> (sees i \<longrightarrow> polled (Suc i)) \<and> (sees i \<longrightarrow> may))"

fun mapSequential :: "bool \<Rightarrow> (nat \<Rightarrow> bool \<Rightarrow> val \<Rightarrow> nat \<Rightarrow> string + val) \<Rightarrow> (nat \<Rightarrow> bool) \<Rightarrow> (nat \<Rightarrow> bool) \<Rightarrow> nat \<Rightarrow> val list \<Rightarrow> val list \<Rightarrow>
    val list \<times> map_error option" where
  "mapSequential cont proc polled sees i [] results = (results, None)"
| "mapSequential cont proc polled sees i (item # items) results =
     (if polled i then (results, Some MapCancelled)
      else (case proc i (sees i) item i of
              Inl err \<Rightarrow> if cont then mapSequential cont proc polled sees (Suc i) items (results[i := VNil]) else ([], Some (MapItem i err))
            | Inr v \<Rightarrow> mapSequential cont proc polled sees (Suc i) items (results[i := v])))"


subsection \<open>The worker pool\<close>

datatype worker = Idle | Busy nat | Exited

record map_pool =
  pl_next :: nat
  pl_closed :: bool
  pl_chan :: "nat list"
  pl_workers :: "worker list"
  pl_results :: "val list"
  pl_err :: "map_error option"
  pl_done :: bool
  pl_calls :: nat

definition pool_init :: "nat \<Rightarrow> nat \<Rightarrow> map_pool" where
  "pool_init conc n = \<lparr>pl_next = 0, pl_closed = False, pl_chan = [], pl_workers = replicate conc Idle,
     pl_results = replicate n VNil, pl_err = None, pl_done = False, pl_calls = 0\<rparr>"

text \<open>A worker has the outcome of its item: a result, an error that is skipped, or the first error, which cancels the others.\<close>

definition item_done :: "bool \<Rightarrow> nat \<Rightarrow> string + val \<Rightarrow> map_pool \<Rightarrow> map_pool" where
  "item_done cont i r s = (case r of
       Inr v \<Rightarrow> s\<lparr>pl_results := (pl_results s)[i := v]\<rparr>
     | Inl err \<Rightarrow>
         if cont then s\<lparr>pl_results := (pl_results s)[i := VNil]\<rparr>
         else if pl_err s = None then s\<lparr>pl_err := Some (MapItem i err), pl_done := True\<rparr>
         else s)"

inductive pool_step :: "bool \<Rightarrow> bool \<Rightarrow> nat \<Rightarrow> (nat \<Rightarrow> bool \<Rightarrow> val \<Rightarrow> nat \<Rightarrow> string + val) \<Rightarrow> val list \<Rightarrow> map_pool \<Rightarrow> map_pool \<Rightarrow> bool"
  for may cont :: bool and conc :: nat and proc :: "nat \<Rightarrow> bool \<Rightarrow> val \<Rightarrow> nat \<Rightarrow> string + val" and items :: "val list" where
  submit: "\<not> pl_closed s \<Longrightarrow> pl_next s < length items \<Longrightarrow> length (pl_chan s) < conc \<Longrightarrow>
    pool_step may cont conc proc items s (s\<lparr>pl_chan := pl_chan s @ [pl_next s], pl_next := Suc (pl_next s)\<rparr>)"
| submitted: "\<not> pl_closed s \<Longrightarrow> pl_next s = length items \<Longrightarrow> pool_step may cont conc proc items s (s\<lparr>pl_closed := True\<rparr>)"
| give_up: "\<not> pl_closed s \<Longrightarrow> pl_next s < length items \<Longrightarrow> pl_done s \<Longrightarrow> pool_step may cont conc proc items s (s\<lparr>pl_closed := True\<rparr>)"
| take: "w < length (pl_workers s) \<Longrightarrow> pl_workers s ! w = Idle \<Longrightarrow> pl_chan s = i # rest \<Longrightarrow>
    pool_step may cont conc proc items s (s\<lparr>pl_chan := rest, pl_workers := (pl_workers s)[w := Busy i]\<rparr>)"
| finish: "w < length (pl_workers s) \<Longrightarrow> pl_workers s ! w = Busy i \<Longrightarrow> (stopped \<longrightarrow> pl_done s) \<Longrightarrow>
    pool_step may cont conc proc items s (item_done cont i (proc (pl_calls s) stopped (items ! i) i)
      (s\<lparr>pl_workers := (pl_workers s)[w := Idle], pl_calls := Suc (pl_calls s)\<rparr>))"
| stop: "w < length (pl_workers s) \<Longrightarrow> pl_workers s ! w = Idle \<Longrightarrow> pl_done s \<or> (pl_closed s \<and> pl_chan s = []) \<Longrightarrow>
    pool_step may cont conc proc items s (s\<lparr>pl_workers := (pl_workers s)[w := Exited]\<rparr>)"
| cancel: "may \<Longrightarrow> \<not> pl_done s \<Longrightarrow> pool_step may cont conc proc items s (s\<lparr>pl_done := True\<rparr>)"

definition pool_final :: "map_pool \<Rightarrow> bool" where
  "pool_final s \<longleftrightarrow> pl_closed s \<and> list_all (\<lambda>w. w = Exited) (pl_workers s)"

inductive_cases pool_stepE: "pool_step may cont conc proc items s s'"

definition mapConcurrent :: "bool \<Rightarrow> bool \<Rightarrow> nat \<Rightarrow> (nat \<Rightarrow> bool \<Rightarrow> val \<Rightarrow> nat \<Rightarrow> string + val) \<Rightarrow> val list \<Rightarrow> val list \<times> map_error option \<Rightarrow> bool" where
  "mapConcurrent may cont conc proc items r \<longleftrightarrow>
     (\<exists>s. (pool_step may cont conc proc items)\<^sup>*\<^sup>* (pool_init conc (length items)) s \<and> pool_final s \<and> r = (pl_results s, pl_err s))"


subsection \<open>A run\<close>

definition store_results :: "MapNode \<Rightarrow> Envelope \<Rightarrow> val list \<times> map_error option \<Rightarrow> map_error + Envelope" where
  "store_results n env r = (case r of (results, mapErr) \<Rightarrow>
     (case mapErr of
        Some err \<Rightarrow> if \<not> mp_ContinueOnError (mpn_config n) then Inl err else Inr (SetVar (mp_OutputVar (mpn_config n)) (VList results) (the (Clone (Some env))))
      | None \<Rightarrow> Inr (SetVar (mp_OutputVar (mpn_config n)) (VList results) (the (Clone (Some env))))))"

inductive map_Run :: "bool \<Rightarrow> MapNode \<Rightarrow> Envelope \<Rightarrow> map_error + Envelope \<Rightarrow> bool" for may :: bool and n :: MapNode and env :: Envelope where
  no_input: "GetVar env (mp_InputVar (mpn_config n)) = None \<Longrightarrow> map_Run may n env (Inl (MapInputMissing (mp_InputVar (mpn_config n))))"
| no_slice: "GetVar env (mp_InputVar (mpn_config n)) = Some v \<Longrightarrow> toSlice v = Inl err \<Longrightarrow> map_Run may n env (Inl (MapNotSlice err))"
| no_mapper: "GetVar env (mp_InputVar (mpn_config n)) = Some v \<Longrightarrow> toSlice v = Inr items \<Longrightarrow>
    mp_Mapper (mpn_config n) = None \<Longrightarrow> mp_MapperNode (mpn_config n) = None \<Longrightarrow> map_Run may n env (Inl NoMapper)"
| sequential: "GetVar env (mp_InputVar (mpn_config n)) = Some v \<Longrightarrow> toSlice v = Inr items \<Longrightarrow>
    mp_Mapper (mpn_config n) \<noteq> None \<or> mp_MapperNode (mpn_config n) \<noteq> None \<Longrightarrow> mp_Concurrency (mpn_config n) = 1 \<Longrightarrow>
    ctx_trace may polled sees \<Longrightarrow>
    r = mapSequential (mp_ContinueOnError (mpn_config n)) (processItem n env) polled sees 0 items (replicate (length items) VNil) \<Longrightarrow>
    map_Run may n env (store_results n env r)"
| concurrent: "GetVar env (mp_InputVar (mpn_config n)) = Some v \<Longrightarrow> toSlice v = Inr items \<Longrightarrow>
    mp_Mapper (mpn_config n) \<noteq> None \<or> mp_MapperNode (mpn_config n) \<noteq> None \<Longrightarrow> mp_Concurrency (mpn_config n) \<noteq> 1 \<Longrightarrow>
    mapConcurrent may (mp_ContinueOnError (mpn_config n)) (nat (mp_Concurrency (mpn_config n))) (processItem n env) items r \<Longrightarrow>
    map_Run may n env (store_results n env r)"

inductive_cases map_RunE: "map_Run may n env r"


subsection \<open>The pool ends\<close>

definition worker_weight :: "worker \<Rightarrow> nat" where
  "worker_weight w = (case w of Idle \<Rightarrow> 1 | Busy _ \<Rightarrow> 2 | Exited \<Rightarrow> 0)"

definition pool_weight :: "nat \<Rightarrow> map_pool \<Rightarrow> nat" where
  "pool_weight n s = 3 * (n - pl_next s) + 2 * length (pl_chan s) + sum_list (map worker_weight (pl_workers s)) +
     (if pl_closed s then 0 else 1) + (if pl_done s then 0 else 1)"

lemma weight_update: "w < length ws \<Longrightarrow> sum_list (map worker_weight (ws[w := x])) + worker_weight (ws ! w) = sum_list (map worker_weight ws) + worker_weight x"
proof (induction ws arbitrary: w)
  case (Cons a ws)
  then show ?case by (cases w) auto
qed simp

lemma item_done_fields [simp]:
  "pl_next (item_done cont i r s) = pl_next s" "pl_closed (item_done cont i r s) = pl_closed s"
  "pl_chan (item_done cont i r s) = pl_chan s" "pl_workers (item_done cont i r s) = pl_workers s"
  "length (pl_results (item_done cont i r s)) = length (pl_results s)" "pl_done s \<Longrightarrow> pl_done (item_done cont i r s)"
  by (auto simp: item_done_def split: sum.splits)

lemma pool_weight_less: "pool_step may cont conc proc items s s' \<Longrightarrow> pool_weight (length items) s' < pool_weight (length items) s"
proof (induction rule: pool_step.induct)
  case (take w s i rest)
  then show ?case using weight_update[of w "pl_workers s" "Busy i"] by (simp add: pool_weight_def worker_weight_def)
next
  case (finish w s i stopped)
  have "(if pl_done (item_done cont i r t) then 0 else (1::nat)) \<le> (if pl_done t then 0 else 1)" for r t by simp
  from this[of "proc (pl_calls s) stopped (items ! i) i" "s\<lparr>pl_workers := (pl_workers s)[w := Idle], pl_calls := Suc (pl_calls s)\<rparr>"]
  show ?case using finish weight_update[of w "pl_workers s" Idle] by (simp add: pool_weight_def worker_weight_def)
next
  case (stop w s)
  then show ?case using weight_update[of w "pl_workers s" Exited] by (simp add: pool_weight_def worker_weight_def)
qed (simp_all add: pool_weight_def)

lemma pool_progress:
  assumes "\<not> pool_final s" "0 < conc" "pl_next s \<le> length items"
    and "\<And>w. w \<in> set (pl_workers s) \<Longrightarrow> w = Exited \<Longrightarrow> pl_done s \<or> pl_closed s" "length (pl_workers s) = conc"
  shows "\<exists>s'. pool_step may cont conc proc items s s'"
proof -
  consider (busy) w i where "w < conc" "pl_workers s ! w = Busy i" | (idle) w where "w < conc" "pl_workers s ! w = Idle" | (out) "list_all (\<lambda>w. w = Exited) (pl_workers s)"
    unfolding list_all_length assms(5) by (metis worker.exhaust)
  then show ?thesis
  proof cases
    case busy
    then show ?thesis using pool_step.finish[of w s i False] assms(5) by blast
  next
    case idle
    show ?thesis
    proof (cases "pl_chan s")
      case Nil
      consider "pl_closed s" | "\<not> pl_closed s" "pl_next s = length items" | "\<not> pl_closed s" "pl_next s < length items" using assms(3) by linarith
      then show ?thesis
      proof cases
        case 1
        with Nil idle assms(5) show ?thesis using pool_step.stop[of w s] by blast
      next
        case 2
        then show ?thesis using pool_step.submitted[of s items] by blast
      next
        case 3
        with Nil assms(2) show ?thesis using pool_step.submit[of s items conc] by (metis list.size(3))
      qed
    next
      case (Cons i rest)
      then show ?thesis using pool_step.take[of w s i rest] idle assms(5) by blast
    qed
  next
    case out
    then have "\<not> pl_closed s" using assms(1) by (simp add: pool_final_def)
    moreover have "pl_workers s ! 0 \<in> set (pl_workers s)" using assms(2,5) by (intro nth_mem) simp
    moreover have "pl_workers s ! 0 = Exited" using out assms(2,5) by (simp add: list_all_length)
    ultimately have "\<not> pl_closed s" "pl_done s" using assms(4) by blast+
    then show ?thesis using pool_step.submitted[of s items] pool_step.give_up[of s items] assms(3) by (metis le_neq_implies_less)
  qed
qed

definition pool_shape :: "nat \<Rightarrow> val list \<Rightarrow> map_pool \<Rightarrow> bool" where
  "pool_shape conc items s \<longleftrightarrow> length (pl_workers s) = conc \<and> length (pl_results s) = length items \<and> pl_next s \<le> length items \<and>
     (Exited \<in> set (pl_workers s) \<longrightarrow> pl_done s \<or> (pl_closed s \<and> pl_chan s = [])) \<and>
     (\<forall>i. i \<in> set (pl_chan s) \<or> Busy i \<in> set (pl_workers s) \<longrightarrow> i < pl_next s) \<and>
     (pl_closed s \<longrightarrow> pl_done s \<or> pl_next s = length items)"

lemma in_update: "x \<in> set (xs[w := y]) \<Longrightarrow> x = y \<or> x \<in> set xs"
  using set_update_subset_insert by fastforce

lemma pool_shape_init: "pool_shape conc items (pool_init conc (length items))"
  by (auto simp: pool_shape_def pool_init_def)

lemma pool_shape_step: "pool_step may cont conc proc items s s' \<Longrightarrow> pool_shape conc items s \<Longrightarrow> pool_shape conc items s'"
proof (induction rule: pool_step.induct)
  case (take w s i rest)
  then show ?case unfolding pool_shape_def by (auto dest!: in_update)
next
  case (finish w s i stopped)
  then show ?case unfolding pool_shape_def by (auto dest!: in_update)
next
  case (stop w s)
  then show ?case unfolding pool_shape_def by (auto dest!: in_update)
qed (auto simp: pool_shape_def)

lemma pool_shape_reach: "(pool_step may cont conc proc items)\<^sup>*\<^sup>* (pool_init conc (length items)) s \<Longrightarrow> pool_shape conc items s"
  by (induction rule: rtranclp_induct) (simp_all add: pool_shape_init pool_shape_step)

lemma pool_shape_progress:
  "pool_shape conc items s \<Longrightarrow> 0 < conc \<Longrightarrow> \<not> pool_final s \<Longrightarrow> \<exists>s'. pool_step may cont conc proc items s s'"
  by (rule pool_progress) (auto simp: pool_shape_def)

lemma pool_ends: "pool_shape conc items s \<Longrightarrow> 0 < conc \<Longrightarrow> \<exists>s'. (pool_step may cont conc proc items)\<^sup>*\<^sup>* s s' \<and> pool_final s'"
proof (induction "pool_weight (length items) s" arbitrary: s rule: less_induct)
  case less
  show ?case
  proof (cases "pool_final s")
    case False
    then obtain s1 where s1: "pool_step may cont conc proc items s s1" using pool_shape_progress less.prems by blast
    then obtain s' where "(pool_step may cont conc proc items)\<^sup>*\<^sup>* s1 s'" "pool_final s'"
      using less.hyps[OF pool_weight_less[OF s1] pool_shape_step[OF s1 less.prems(1)] less.prems(2)] by blast
    with s1 show ?thesis by (meson converse_rtranclp_into_rtranclp)
  qed blast
qed

lemma pool_bound: "(pool_step may cont conc proc items ^^ k) s s' \<Longrightarrow> k + pool_weight (length items) s' \<le> pool_weight (length items) s"
proof (induction k arbitrary: s')
  case (Suc k)
  then obtain m where "(pool_step may cont conc proc items ^^ k) s m" "pool_step may cont conc proc items m s'" by auto
  with Suc.IH[of m] pool_weight_less[of may cont conc proc items m s'] show ?case by simp
qed simp

lemma pool_init_weight: "pool_weight n (pool_init conc n) = 3 * n + conc + 2"
  by (simp add: pool_weight_def pool_init_def worker_weight_def sum_list_replicate)

text \<open>
  C27: The worker pool always ends. With any number of workers, whatever the mapper returns, however the workers, the submitting
  loop and a cancellation interleave: no run of the pool takes more than \<open>3 * n + workers + 2\<close> steps, and a state in which no
  step is possible is one where the channel is closed and all workers have returned, so \<open>mapConcurrent\<close> never waits for ever.
\<close>

theorem map_pool_ends:
  assumes "0 < conc" "(pool_step may cont conc proc items ^^ k) (pool_init conc (length items)) s"
  shows "k \<le> 3 * length items + conc + 2 \<and> (pool_final s \<or> (\<exists>s'. pool_step may cont conc proc items s s'))"
proof -
  have "(pool_step may cont conc proc items)\<^sup>*\<^sup>* (pool_init conc (length items)) s" using assms(2) by (rule relpowp_imp_rtranclp)
  then have "pool_shape conc items s" by (rule pool_shape_reach)
  then show ?thesis using pool_bound[OF assms(2)] pool_shape_progress assms(1) unfolding pool_init_weight by fastforce
qed

theorem map_pool_ends_witness:
  "pool_final (pool_init 2 (length [VNil])) \<or> (\<exists>s'. pool_step True False 2 (\<lambda>_ _ v _. Inr v) [VNil] (pool_init 2 (length [VNil])) s')"
  using map_pool_ends[of 2 0 True False "\<lambda>_ _ v _. Inr v" "[VNil]" "pool_init 2 (length [VNil])"] by simp


subsection \<open>Both ways of mapping agree\<close>

definition outcome :: "(nat \<Rightarrow> bool \<Rightarrow> val \<Rightarrow> nat \<Rightarrow> string + val) \<Rightarrow> val list \<Rightarrow> nat \<Rightarrow> val" where
  "outcome proc items i = (case proc 0 False (items ! i) i of Inr v \<Rightarrow> v | Inl _ \<Rightarrow> VNil)"

definition fails :: "(nat \<Rightarrow> bool \<Rightarrow> val \<Rightarrow> nat \<Rightarrow> string + val) \<Rightarrow> val list \<Rightarrow> nat \<Rightarrow> string \<Rightarrow> bool" where
  "fails proc items i e \<longleftrightarrow> i < length items \<and> proc 0 False (items ! i) i = Inl e"

text \<open>A mapper without state of its own: the number of the call does not matter.\<close>

definition steady :: "(nat \<Rightarrow> bool \<Rightarrow> val \<Rightarrow> nat \<Rightarrow> string + val) \<Rightarrow> bool" where
  "steady proc \<longleftrightarrow> (\<forall>k stopped item i. proc k stopped item i = proc 0 stopped item i)"

lemma steadyD: "steady proc \<Longrightarrow> proc k = proc 0"
  by (simp add: steady_def fun_eq_iff)

definition pool_inv :: "bool \<Rightarrow> (nat \<Rightarrow> bool \<Rightarrow> val \<Rightarrow> nat \<Rightarrow> string + val) \<Rightarrow> val list \<Rightarrow> map_pool \<Rightarrow> bool" where
  "pool_inv cont proc items s \<longleftrightarrow>
     (if pl_done s then \<not> cont \<and> (\<exists>i e. pl_err s = Some (MapItem i e) \<and> fails proc items i e)
      else pl_err s = None \<and> (\<forall>i < pl_next s. i \<notin> set (pl_chan s) \<longrightarrow> Busy i \<notin> set (pl_workers s) \<longrightarrow>
        (cont \<or> (\<nexists>e. fails proc items i e)) \<and> pl_results s ! i = outcome proc items i))"

lemma pool_invD:
  assumes "pool_inv cont proc items s" "\<not> pl_done s"
  shows "pl_err s = None" "i < pl_next s \<Longrightarrow> i \<notin> set (pl_chan s) \<Longrightarrow> Busy i \<notin> set (pl_workers s) \<Longrightarrow>
    (cont \<or> (\<nexists>e. fails proc items i e)) \<and> pl_results s ! i = outcome proc items i"
  using assms by (simp_all add: pool_inv_def)

lemma pool_invI:
  assumes "pl_err s = None" "\<And>i. i < pl_next s \<Longrightarrow> i \<notin> set (pl_chan s) \<Longrightarrow> Busy i \<notin> set (pl_workers s) \<Longrightarrow>
    (cont \<or> (\<nexists>e. fails proc items i e)) \<and> pl_results s ! i = outcome proc items i" "\<not> pl_done s"
  shows "pool_inv cont proc items s"
  using assms by (simp add: pool_inv_def)

lemma kept_in_update: "Busy j \<in> set ws \<Longrightarrow> w < length ws \<Longrightarrow> ws ! w \<noteq> Busy j \<Longrightarrow> Busy j \<in> set (ws[w := x])"
  by (metis in_set_conv_nth length_list_update nth_list_update_neq)

lemma finish_inv:
  assumes "steady proc" and "pool_shape conc items s" "pool_inv cont proc items s" "w < length (pl_workers s)" "pl_workers s ! w = Busy i" "stopped \<longrightarrow> pl_done s"
  shows "pool_inv cont proc items (item_done cont i (proc (pl_calls s) stopped (items ! i) i)
      (s\<lparr>pl_workers := (pl_workers s)[w := Idle], pl_calls := Suc (pl_calls s)\<rparr>))"
proof (cases "pl_done s")
  case True
  then show ?thesis using assms(3) by (auto simp: pool_inv_def item_done_def split: sum.splits)
next
  case False
  then have st: "\<not> stopped" using assms(6) by blast
  have "Busy i \<in> set (pl_workers s)" using assms(4,5) by (metis nth_mem)
  then have i: "i < length items" "i < length (pl_results s)" using assms(2) unfolding pool_shape_def by (metis less_le_trans)+
  have old: "(cont \<or> (\<nexists>e. fails proc items j e)) \<and> pl_results s ! j = outcome proc items j"
    if "j < pl_next s" "j \<notin> set (pl_chan s)" "Busy j \<notin> set ((pl_workers s)[w := Idle])" "j \<noteq> i" for j
    using pool_invD(2)[OF assms(3) False that(1,2)] that(3,4) kept_in_update[of j "pl_workers s" w Idle] assms(4,5) by (metis worker.inject)
  have new: "pool_inv cont proc items (s\<lparr>pl_workers := (pl_workers s)[w := Idle], pl_calls := Suc (pl_calls s), pl_results := (pl_results s)[i := outcome proc items i]\<rparr>)"
    if "cont \<or> (\<nexists>e. fails proc items i e)"
  proof (rule pool_invI, simp_all add: False pool_invD(1)[OF assms(3) False])
    fix j assume "j < pl_next s" "j \<notin> set (pl_chan s)" "Busy j \<notin> set ((pl_workers s)[w := Idle])"
    then show "(cont \<or> (\<forall>e. \<not> fails proc items j e)) \<and> (pl_results s)[i := outcome proc items i] ! j = outcome proc items j"
      using old[of j] that i(2) by (cases "j = i") auto
  qed
  show ?thesis
  proof (cases "proc 0 False (items ! i) i")
    case (Inr v)
    then have "\<nexists>e. fails proc items i e" "outcome proc items i = v" by (simp_all add: fails_def outcome_def)
    with new Inr st show ?thesis by (simp add: item_done_def steadyD[OF assms(1), of "pl_calls s"])
  next
    case (Inl e)
    then have f: "fails proc items i e" "outcome proc items i = VNil" using i by (simp_all add: fails_def outcome_def)
    show ?thesis
    proof (cases cont)
      case True
      with new Inl st f(2) show ?thesis by (simp add: item_done_def steadyD[OF assms(1), of "pl_calls s"])
    next
      case no: False
      then show ?thesis using Inl st f(1) pool_invD(1)[OF assms(3) False] by (auto simp: item_done_def pool_inv_def steadyD[OF assms(1), of "pl_calls s"])
    qed
  qed
qed

lemma pool_inv_step:
  "pool_step False cont conc proc items s s' \<Longrightarrow> steady proc \<Longrightarrow> pool_shape conc items s \<Longrightarrow> pool_inv cont proc items s \<Longrightarrow>
    pool_inv cont proc items s'"
proof (induction rule: pool_step.induct)
  case (take w s i rest)
  show ?case
  proof (cases "pl_done s")
    case False
    have b: "Busy j \<in> set ((pl_workers s)[w := Busy i])" if "Busy j \<in> set (pl_workers s)" for j
      using kept_in_update[OF that take.hyps(1)] take.hyps(2) by simp
    have "Busy i \<in> set ((pl_workers s)[w := Busy i])" using take.hyps(1) by (rule set_update_memI)
    then show ?thesis using False take.hyps(3) pool_invD[OF take.prems(3) False] b by (intro pool_invI) auto
  qed (use take.prems in \<open>simp add: pool_inv_def\<close>)
next
  case (finish w s i stopped)
  then show ?case by (intro finish_inv)
next
  case (stop w s)
  show ?case
  proof (cases "pl_done s")
    case False
    have b: "Busy j \<in> set ((pl_workers s)[w := Exited])" if "Busy j \<in> set (pl_workers s)" for j
      using kept_in_update[OF that stop.hyps(1)] stop.hyps(2) by simp
    show ?thesis using False pool_invD[OF stop.prems(3) False] b by (intro pool_invI) auto
  qed (use stop.prems in \<open>simp add: pool_inv_def\<close>)
qed (auto simp: pool_inv_def less_Suc_eq)

lemma pool_inv_reach:
  assumes "steady proc" "(pool_step False cont conc proc items)\<^sup>*\<^sup>* (pool_init conc (length items)) s"
  shows "pool_inv cont proc items s"
  using assms(2)
proof (induction rule: rtranclp_induct)
  case base
  show ?case by (simp add: pool_inv_def pool_init_def)
next
  case (step y z)
  show ?case by (rule pool_inv_step[OF step.hyps(2) assms(1) pool_shape_reach[OF step.hyps(1)] step.IH])
qed

lemma mapConcurrent_spec:
  assumes "mapConcurrent False cont conc proc items (results, err)" "0 < conc" "steady proc"
  shows "if cont \<or> (\<nexists>i e. fails proc items i e) then err = None \<and> results = map (outcome proc items) [0..<length items]
    else \<exists>i e. err = Some (MapItem i e) \<and> fails proc items i e"
proof -
  obtain s where s: "(pool_step False cont conc proc items)\<^sup>*\<^sup>* (pool_init conc (length items)) s" "pool_final s" "results = pl_results s" "err = pl_err s"
    using assms(1) by (auto simp: mapConcurrent_def)
  note sh = pool_shape_reach[OF s(1), unfolded pool_shape_def] and inv = pool_inv_reach[OF assms(3) s(1)]
  show ?thesis
  proof (cases "pl_done s")
    case True
    then show ?thesis using inv s(4) by (auto simp: pool_inv_def)
  next
    case False
    have "Exited \<in> set (pl_workers s)" using s(2) sh assms(2) by (auto simp: pool_final_def list_all_length in_set_conv_nth)
    then have c: "pl_chan s = []" "pl_next s = length items" using sh False by blast+
    have "Busy i \<notin> set (pl_workers s)" for i using s(2) by (auto simp: pool_final_def list_all_iff)
    then have r: "(cont \<or> (\<nexists>e. fails proc items i e)) \<and> pl_results s ! i = outcome proc items i" if "i < length items" for i
      using pool_invD(2)[OF inv False] c that by simp
    then have "results = map (outcome proc items) [0..<length items]" using s(3) sh by (intro nth_equalityI) auto
    moreover have "cont \<or> (\<nexists>i e. fails proc items i e)" using r by (metis fails_def)
    ultimately show ?thesis using s(4) pool_invD(1)[OF inv False] by simp
  qed
qed

lemma mapSequential_spec:
  assumes "drop i all = items" "length results = length all" "take i results = map (outcome proc all) [0..<i]" "\<nexists>j e. j < i \<and> \<not> cont \<and> fails proc all j e" "steady proc"
  shows "if cont \<or> (\<nexists>j e. fails proc all j e) then mapSequential cont proc (\<lambda>_. False) (\<lambda>_. False) i items results = (map (outcome proc all) [0..<length all], None)
    else \<exists>j e. mapSequential cont proc (\<lambda>_. False) (\<lambda>_. False) i items results = ([], Some (MapItem j e)) \<and> fails proc all j e \<and>
      (\<forall>k < j. \<nexists>e. fails proc all k e)"
  using assms(1-4)
proof (induction items arbitrary: i results)
  case Nil
  then have "length all \<le> i" by simp
  moreover have "length results = length all" "min (length results) i = i" using Nil.prems(2) arg_cong[OF Nil.prems(3), of length] by simp_all
  ultimately have i: "i = length all" "take i results = results" by simp_all
  have "\<not> fails proc all j e" if "\<not> cont" for j e using Nil.prems(4) that i(1) by (auto simp: fails_def)
  then show ?case using Nil.prems(3) unfolding i(2) by (auto simp: i(1))
next
  case (Cons item items)
  have i: "i < length all" "all ! i = item" "drop (Suc i) all = items"
    using Cons.prems(1) by (metis drop_all list.discI not_le, metis Cons_nth_drop_Suc drop_all list.discI list.inject not_le, metis drop_Suc list.sel(3) tl_drop)
  have t: "take (Suc i) (results[i := outcome proc all i]) = map (outcome proc all) [0..<Suc i]"
    using i(1) Cons.prems(2,3) by (simp add: take_Suc_conv_app_nth)
  show ?case
  proof (cases "cont \<or> (\<nexists>e. fails proc all i e)")
    case True
    then have "\<nexists>j e. j < Suc i \<and> \<not> cont \<and> fails proc all j e" using Cons.prems(4) by (metis less_Suc_eq)
    then have ih: ?thesis if "mapSequential cont proc (\<lambda>_. False) (\<lambda>_. False) i (item # items) results =
        mapSequential cont proc (\<lambda>_. False) (\<lambda>_. False) (Suc i) items (results[i := outcome proc all i])"
      unfolding that by (rule Cons.IH[OF i(3) _ t, rotated]) (simp add: Cons.prems(2))
    have e: "mapSequential cont proc (\<lambda>_. False) (\<lambda>_. False) i (item # items) results =
        mapSequential cont proc (\<lambda>_. False) (\<lambda>_. False) (Suc i) items (results[i := outcome proc all i])"
      using True i(1,2) steadyD[OF assms(5), of i] by (auto simp: outcome_def fails_def split: sum.splits)
    show ?thesis by (rule ih[OF e])
  next
    case False
    then obtain e where e: "fails proc all i e" "\<not> cont" by blast
    then have "mapSequential cont proc (\<lambda>_. False) (\<lambda>_. False) i (item # items) results = ([], Some (MapItem i e))"
      using i(2) steadyD[OF assms(5), of i] by (auto simp: fails_def)
    then show ?thesis using e Cons.prems(4) by auto
  qed
qed

lemma mapSequential_all:
  assumes "steady proc"
  shows "if cont \<or> (\<nexists>j e. fails proc items j e) then mapSequential cont proc (\<lambda>_. False) (\<lambda>_. False) 0 items (replicate (length items) VNil) = (map (outcome proc items) [0..<length items], None)
    else \<exists>j e. mapSequential cont proc (\<lambda>_. False) (\<lambda>_. False) 0 items (replicate (length items) VNil) = ([], Some (MapItem j e)) \<and> fails proc items j e \<and>
      (\<forall>k < j. \<nexists>e. fails proc items k e)"
  by (rule mapSequential_spec[OF _ _ _ _ assms]) simp_all

lemma ctx_trace_never: "ctx_trace False polled sees \<longleftrightarrow> polled = (\<lambda>_. False) \<and> sees = (\<lambda>_. False)"
  by (auto simp: ctx_trace_def fun_eq_iff)

definition with_concurrency :: "int \<Rightarrow> MapNode \<Rightarrow> MapNode" where
  "with_concurrency c n = n\<lparr>mpn_config := (mpn_config n)\<lparr>mp_Concurrency := c\<rparr>\<rparr>"

lemma with_concurrency_simps [simp]:
  "mp_InputVar (mpn_config (with_concurrency c n)) = mp_InputVar (mpn_config n)"
  "mp_Mapper (mpn_config (with_concurrency c n)) = mp_Mapper (mpn_config n)"
  "mp_MapperNode (mpn_config (with_concurrency c n)) = mp_MapperNode (mpn_config n)"
  "mp_ContinueOnError (mpn_config (with_concurrency c n)) = mp_ContinueOnError (mpn_config n)"
  "mp_Concurrency (mpn_config (with_concurrency c n)) = c"
  "processItem (with_concurrency c n) env = processItem n env"
  "store_results (with_concurrency c n) env = store_results n env"
  by (simp_all add: with_concurrency_def processItem_def store_results_def fun_eq_iff Let_def split: option.splits)

text \<open>One item at a time, \<open>Run\<close> is a function.\<close>

definition map_result :: "MapNode \<Rightarrow> Envelope \<Rightarrow> map_error + Envelope" where
  "map_result n env = (case GetVar env (mp_InputVar (mpn_config n)) of
       None \<Rightarrow> Inl (MapInputMissing (mp_InputVar (mpn_config n)))
     | Some v \<Rightarrow> (case toSlice v of
           Inl err \<Rightarrow> Inl (MapNotSlice err)
         | Inr items \<Rightarrow>
             if mp_Mapper (mpn_config n) = None \<and> mp_MapperNode (mpn_config n) = None then Inl NoMapper
             else store_results n env (mapSequential (mp_ContinueOnError (mpn_config n)) (processItem n env) (\<lambda>_. False) (\<lambda>_. False) 0 items
               (replicate (length items) VNil))))"

lemma map_Run_sequential: "map_Run False (with_concurrency 1 n) env r \<longleftrightarrow> r = map_result n env"
proof
  assume "map_Run False (with_concurrency 1 n) env r"
  then show "r = map_result n env" by (cases rule: map_Run.cases) (auto simp: map_result_def ctx_trace_never)
next
  assume r: "r = map_result n env"
  show "map_Run False (with_concurrency 1 n) env r"
  proof (cases "GetVar env (mp_InputVar (mpn_config n))")
    case None
    then show ?thesis using map_Run.no_input[of env "with_concurrency 1 n" False] r by (simp add: map_result_def)
  next
    case v: (Some v)
    show ?thesis
    proof (cases "toSlice v")
      case (Inl err)
      then show ?thesis using map_Run.no_slice[of env "with_concurrency 1 n" v err False] v r by (simp add: map_result_def)
    next
      case (Inr items)
      then show ?thesis using map_Run.no_mapper[of env "with_concurrency 1 n" v items False] v r
          map_Run.sequential[of env "with_concurrency 1 n" v items False "\<lambda>_. False" "\<lambda>_. False", OF _ _ _ _ _ refl]
        by (cases "mp_Mapper (mpn_config n) = None \<and> mp_MapperNode (mpn_config n) = None") (auto simp: map_result_def ctx_trace_never)
    qed
  qed
qed

lemma map_Run_exists:
  assumes "0 < c"
  shows "\<exists>r. map_Run False (with_concurrency c n) env r"
proof (cases "c = 1 \<or> GetVar env (mp_InputVar (mpn_config n)) = None \<or> (\<exists>v. GetVar env (mp_InputVar (mpn_config n)) = Some v \<and> (\<exists>e. toSlice v = Inl e)) \<or>
    (mp_Mapper (mpn_config n) = None \<and> mp_MapperNode (mpn_config n) = None)")
  case True
  then show ?thesis using map_Run_sequential[of n env] by (auto simp: map_Run.simps)
next
  case False
  then obtain v items where v: "GetVar env (mp_InputVar (mpn_config n)) = Some v" "toSlice v = Inr items" by (metis obj_sumE option.exhaust)
  obtain s where "(pool_step False (mp_ContinueOnError (mpn_config n)) (nat c) (processItem n env) items)\<^sup>*\<^sup>* (pool_init (nat c) (length items)) s" "pool_final s"
    using pool_ends[OF pool_shape_init, of "nat c" False _ _ items] assms by (metis zero_less_nat_eq)
  then have "mapConcurrent False (mp_ContinueOnError (mpn_config n)) (nat c) (processItem n env) items (pl_results s, pl_err s)"
    unfolding mapConcurrent_def by blast
  then show ?thesis using map_Run.concurrent[of env "with_concurrency c n" v items] v False by auto
qed

text \<open>Two errors of the same run, both of an item for which the mapper fails; one item at a time it is the first such item.\<close>

definition item_errors :: "MapNode \<Rightarrow> Envelope \<Rightarrow> map_error + Envelope \<Rightarrow> map_error + Envelope \<Rightarrow> bool" where
  "item_errors n env r r1 \<longleftrightarrow> (\<exists>v items i e j e1.
     GetVar env (mp_InputVar (mpn_config n)) = Some v \<and> toSlice v = Inr items \<and>
     r = Inl (MapItem i e) \<and> i < length items \<and> processItem n env 0 False (items ! i) i = Inl e \<and>
     r1 = Inl (MapItem j e1) \<and> j < length items \<and> processItem n env 0 False (items ! j) j = Inl e1 \<and>
     (\<forall>k < j. \<nexists>e. processItem n env 0 False (items ! k) k = Inl e))"

lemma item_errorsI:
  assumes "GetVar env (mp_InputVar (mpn_config n)) = Some v" "toSlice v = Inr items" "fails (processItem n env) items i e"
    "fails (processItem n env) items j e1" "\<forall>k < j. \<nexists>e. fails (processItem n env) items k e"
  shows "item_errors n env (Inl (MapItem i e)) (Inl (MapItem j e1))"
  unfolding item_errors_def using assms by (intro exI conjI) (auto simp: fails_def)

lemma map_Run_agrees:
  assumes "0 < c" "steady (processItem n env)" "map_Run False (with_concurrency c n) env r"
  shows "r = map_result n env \<or> (\<not> mp_ContinueOnError (mpn_config n) \<and> item_errors n env r (map_result n env))"
  using assms(3)
proof (cases rule: map_Run.cases)
  case (concurrent v items rr)
  obtain results err where rr: "rr = (results, err)" by force
  let ?cont = "mp_ContinueOnError (mpn_config n)" and ?proc = "processItem n env"
  have m: "map_result n env = store_results n env (mapSequential ?cont ?proc (\<lambda>_. False) (\<lambda>_. False) 0 items (replicate (length items) VNil))"
    using concurrent by (auto simp: map_result_def)
  have v: "GetVar env (mp_InputVar (mpn_config n)) = Some v" using concurrent by simp
  have "mapConcurrent False ?cont (nat c) ?proc items (results, err)" using concurrent rr by simp
  note con = mapConcurrent_spec[OF this _ assms(2)] and sq = mapSequential_all[OF assms(2), of ?cont items]
  show ?thesis
  proof (cases "?cont \<or> (\<nexists>i e. fails ?proc items i e)")
    case True
    then show ?thesis using con sq assms(1) concurrent(1) rr unfolding m by simp
  next
    case False
    then obtain i e where i: "err = Some (MapItem i e)" "fails ?proc items i e" using con assms(1) by auto
    from False obtain j e1 where j: "mapSequential ?cont ?proc (\<lambda>_. False) (\<lambda>_. False) 0 items (replicate (length items) VNil) = ([], Some (MapItem j e1))"
      "fails ?proc items j e1" "\<forall>k < j. \<nexists>e. fails ?proc items k e" using sq by auto
    have "r = Inl (MapItem i e)" "map_result n env = Inl (MapItem j e1)"
      using False concurrent(1) rr i(1) j(1) unfolding m by (simp_all add: store_results_def)
    with item_errorsI[OF v concurrent(3) i(2) j(2,3)] False show ?thesis by simp
  qed
qed (auto simp: map_result_def ctx_trace_never)

text \<open>
  C26: Mapping in parallel gives what mapping one item at a time gives. Take a mapper (or mapper node) that keeps no state of its
  own: its answer depends only on the context, the item and the index, not on which calls were made before. When the context is
  not cancelled, a map node with one worker has exactly one result; with any number of workers it has a result, and every schedule
  gives that same result, the items in the same order, except when items fail and errors are not skipped: then both runs fail
  with the index and the error of an item for which the mapper fails, one worker with those of the first such item.
\<close>

theorem map_concurrent_sequential:
  assumes "0 < c" "\<forall>k stopped item i. processItem n env k stopped item i = processItem n env 0 stopped item i"
  shows "\<exists>r1. (\<forall>r. map_Run False (with_concurrency 1 n) env r \<longleftrightarrow> r = r1) \<and> (\<exists>r. map_Run False (with_concurrency c n) env r) \<and>
    (\<forall>r. map_Run False (with_concurrency c n) env r \<longrightarrow>
      r = r1 \<or> (\<not> mp_ContinueOnError (mpn_config n) \<and> item_errors n env r r1))"
proof -
  have "steady (processItem n env)" using assms(2) by (simp add: steady_def)
  then show ?thesis
    using map_Run_sequential[of n env] map_Run_exists[OF assms(1)] map_Run_agrees[OF assms(1)] by (intro exI[of _ "map_result n env"]) blast
qed

definition demo_map_node :: MapNode where
  "demo_map_node = NewMapNode ''m'' \<lparr>mp_InputVar = ''xs'', mp_OutputVar = [], mp_ItemVar = [], mp_IndexVar = [], mp_Concurrency = 3,
     mp_Mapper = Some (\<lambda>_ _ v i. Inr (VList [v, VInt (int i)])), mp_MapperNode = None, mp_ContinueOnError = False, mp_PreserveOrder = False\<rparr>"

theorem map_concurrent_sequential_witness:
  "\<exists>r1 r. map_Run False (with_concurrency 1 demo_map_node) (SetVar ''xs'' (VStrs [''a'', ''b'']) NewEnvelope) r1 \<and>
     map_Run False (with_concurrency 3 demo_map_node) (SetVar ''xs'' (VStrs [''a'', ''b'']) NewEnvelope) r"
proof -
  let ?env = "SetVar ''xs'' (VStrs [''a'', ''b'']) NewEnvelope"
  have "\<forall>k stopped item i. processItem demo_map_node ?env k stopped item i = processItem demo_map_node ?env 0 stopped item i"
    by (simp add: processItem_def demo_map_node_def NewMapNode_def)
  from map_concurrent_sequential[OF _ this, of 3] show ?thesis by auto
qed

text \<open>
  A cancelled run: one item at a time the context's error is returned; the pool gives up without an error, so \<open>Run\<close>
  succeeds with nil in the place of the results that are missing.
\<close>

lemma cancelled_sequential:
  assumes "GetVar env (mp_InputVar (mpn_config n)) = Some v" "toSlice v = Inr (x # xs)" "mp_Mapper (mpn_config n) = Some f"
    "mp_Concurrency (mpn_config n) = 1" "\<not> mp_ContinueOnError (mpn_config n)"
  shows "map_Run True n env (Inl MapCancelled)"
proof -
  have "ctx_trace True (\<lambda>_. True) (\<lambda>_. True)" by (simp add: ctx_trace_def)
  from map_Run.sequential[OF assms(1,2) _ assms(4) this refl] show ?thesis using assms(3,5) by (simp add: store_results_def)
qed

lemma pool_stop_all:
  assumes "pl_done s" "k \<le> length (pl_workers s)" "\<forall>w < length (pl_workers s). pl_workers s ! w = (if w < k then Exited else Idle)"
  shows "(pool_step may cont conc proc items)\<^sup>*\<^sup>* s (s\<lparr>pl_workers := replicate (length (pl_workers s)) Exited\<rparr>)"
  using assms
proof (induction "length (pl_workers s) - k" arbitrary: s k)
  case 0
  then have "pl_workers s = replicate (length (pl_workers s)) Exited" by (intro nth_equalityI) auto
  then show ?case by (metis map_pool.surjective map_pool.update_convs(4) rtranclp.rtrancl_refl)
next
  case (Suc m)
  let ?s = "s\<lparr>pl_workers := (pl_workers s)[k := Exited]\<rparr>"
  have k: "k < length (pl_workers s)" using Suc.hyps(2) by simp
  have "pool_step may cont conc proc items s ?s" using k Suc.prems by (intro pool_step.stop) auto
  moreover have "(pool_step may cont conc proc items)\<^sup>*\<^sup>* ?s (?s\<lparr>pl_workers := replicate (length (pl_workers ?s)) Exited\<rparr>)"
    by (rule Suc.hyps(1)[of ?s "Suc k"]) (use Suc.hyps(2) Suc.prems k in \<open>auto simp: nth_list_update less_Suc_eq\<close>)
  ultimately show ?case by (simp add: converse_rtranclp_into_rtranclp)
qed

lemma cancelled_concurrent:
  assumes "GetVar env (mp_InputVar (mpn_config n)) = Some v" "toSlice v = Inr items" "items \<noteq> []" "mp_Mapper (mpn_config n) = Some f"
    "1 < mp_Concurrency (mpn_config n)"
  shows "map_Run True n env (Inr (SetVar (mp_OutputVar (mpn_config n)) (VList (replicate (length items) VNil)) env))"
proof -
  let ?c = "nat (mp_Concurrency (mpn_config n))" and ?cont = "mp_ContinueOnError (mpn_config n)"
  define s0 where "s0 = pool_init ?c (length items)"
  define s1 where "s1 = s0\<lparr>pl_done := True\<rparr>"
  define s2 where "s2 = s1\<lparr>pl_closed := True\<rparr>"
  define s3 where "s3 = s2\<lparr>pl_workers := replicate (length (pl_workers s2)) Exited\<rparr>"
  let ?step = "pool_step True ?cont ?c (processItem n env) items"
  have "?step s0 s1" unfolding s1_def by (rule pool_step.cancel) (simp_all add: s0_def pool_init_def)
  moreover have "?step s1 s2" unfolding s2_def by (rule pool_step.give_up) (use assms(3) in \<open>simp_all add: s1_def s0_def pool_init_def\<close>)
  moreover have "?step\<^sup>*\<^sup>* s2 s3" unfolding s3_def by (rule pool_stop_all[of _ 0]) (simp_all add: s2_def s1_def s0_def pool_init_def)
  ultimately have "?step\<^sup>*\<^sup>* s0 s3" by (meson converse_rtranclp_into_rtranclp)
  moreover have "pool_final s3" by (simp add: pool_final_def s3_def s2_def list_all_iff)
  ultimately have "mapConcurrent True ?cont ?c (processItem n env) items (replicate (length items) VNil, None)"
    unfolding mapConcurrent_def by (intro exI[of _ s3]) (simp add: s0_def s1_def s2_def s3_def pool_init_def)
  from map_Run.concurrent[OF assms(1,2) _ _ this] show ?thesis using assms(4,5) by (simp add: store_results_def)
qed

end
