(* ===== verification/Cache_Node.thy ===== *)
theory Cache_Node
  imports "HOL-Library.Multiset" Node_Helpers Core_Node
begin

section \<open>The cache node\<close>

text \<open>
  \<open>nodes/cache.go\<close>: the store interface, the in-memory store with expiry, the key of an envelope and the node. A clock reading
  is an argument (nanoseconds), so is what \<open>ctx.Err()\<close> returns at each call. The template engine, \<open>json.Marshal\<close> and
  the hexadecimal SHA-256 are arguments of the functions that use them. \<open>MemoryCacheStore.Get\<close> has two critical
  sections, so it is also given as two steps that other operations can come between.
\<close>

subsection \<open>Stores\<close>

type_synonym time = int

record 's CacheStore =
  cs_Get :: "string option \<Rightarrow> time \<Rightarrow> string \<Rightarrow> 's \<Rightarrow> (string + Envelope option) \<times> 's"
  cs_Set :: "string option \<Rightarrow> time \<Rightarrow> string \<Rightarrow> Envelope \<Rightarrow> int \<Rightarrow> 's \<Rightarrow> string option \<times> 's"
  cs_Delete :: "string option \<Rightarrow> string \<Rightarrow> 's \<Rightarrow> string option \<times> 's"

record cacheEntry =
  ce_envelope :: Envelope
  ce_storedAt :: time
  ce_expiresAt :: "time option"

type_synonym mem_store = "cacheEntry gomap"

definition NewMemoryCacheStore :: mem_store where
  "NewMemoryCacheStore = []"

definition expired :: "time \<Rightarrow> cacheEntry \<Rightarrow> bool" where
  "expired now e = (case ce_expiresAt e of None \<Rightarrow> False | Some t \<Rightarrow> t < now)"

text \<open>The two critical sections of \<open>Get\<close>, and \<open>Get\<close> when nothing comes between them.\<close>

definition get_read :: "time \<Rightarrow> string \<Rightarrow> mem_store \<Rightarrow> Envelope option \<times> bool" where
  "get_read now key s = (case mget s key of
       None \<Rightarrow> (None, False)
     | Some entry \<Rightarrow> if expired now entry then (None, True) else (Some (ce_envelope entry), False))"

definition get_evict :: "string \<Rightarrow> bool \<Rightarrow> mem_store \<Rightarrow> mem_store" where
  "get_evict key evict s = (if evict then mdel key s else s)"

definition mcs_Get :: "string option \<Rightarrow> time \<Rightarrow> string \<Rightarrow> mem_store \<Rightarrow> (string + Envelope option) \<times> mem_store" where
  "mcs_Get ctxerr now key s = (case ctxerr of
       Some err \<Rightarrow> (Inl err, s)
     | None \<Rightarrow> (case get_read now key s of (r, evict) \<Rightarrow> (Inr r, get_evict key evict s)))"

definition mcs_Set :: "string option \<Rightarrow> time \<Rightarrow> string \<Rightarrow> Envelope \<Rightarrow> int \<Rightarrow> mem_store \<Rightarrow> string option \<times> mem_store" where
  "mcs_Set ctxerr now key env ttl s = (case ctxerr of
       Some err \<Rightarrow> (Some err, s)
     | None \<Rightarrow> (None, mput key \<lparr>ce_envelope = env, ce_storedAt = now, ce_expiresAt = (if ttl > 0 then Some (now + ttl) else None)\<rparr> s))"

definition mcs_Delete :: "string option \<Rightarrow> string \<Rightarrow> mem_store \<Rightarrow> string option \<times> mem_store" where
  "mcs_Delete ctxerr key s = (case ctxerr of Some err \<Rightarrow> (Some err, s) | None \<Rightarrow> (None, mdel key s))"

definition MemoryCacheStore :: "mem_store CacheStore" where
  "MemoryCacheStore = \<lparr>cs_Get = mcs_Get, cs_Set = mcs_Set, cs_Delete = mcs_Delete\<rparr>"

definition mcs_Size :: "mem_store \<Rightarrow> nat" where "mcs_Size s = length s"
definition mcs_Clear :: "mem_store \<Rightarrow> mem_store" where "mcs_Clear s = []"

definition mcs_Prune :: "time \<Rightarrow> mem_store \<Rightarrow> nat \<times> mem_store" where
  "mcs_Prune now s = (length (filter (\<lambda>(k, e). expired now e) s), filter (\<lambda>(k, e). \<not> expired now e) s)"

text \<open>\<open>sort.Strings\<close> of the keys, with what they stand for.\<close>

fun insert_pair :: "string \<times> 'a \<Rightarrow> (string \<times> 'a) list \<Rightarrow> (string \<times> 'a) list" where
  "insert_pair e [] = [e]"
| "insert_pair e (f # fs) = (if str_compare (fst e) (fst f) < 0 then e # f # fs else f # insert_pair e fs)"

definition sort_pairs :: "(string \<times> 'a) list \<Rightarrow> (string \<times> 'a) list" where
  "sort_pairs es = fold insert_pair es []"

definition mcs_Keys :: "mem_store \<Rightarrow> string list" where
  "mcs_Keys s = map fst (sort_pairs s)"


subsection \<open>Keys\<close>

definition stable_pairs :: "(string \<times> val) list \<Rightarrow> val" where
  "stable_pairs m = VList (concat (map (\<lambda>(k, v). [VStr k, v]) (sort_pairs m)))"

primrec toStableValue :: "val \<Rightarrow> val" and stable_artifact :: "artifact \<Rightarrow> val" where
  "toStableValue VNil = VNil"
| "toStableValue (VBool b) = VBool b"
| "toStableValue (VInt n) = VInt n"
| "toStableValue (VInt32 n) = VInt32 n"
| "toStableValue (VInt64 n) = VInt64 n"
| "toStableValue (VF32 x) = VF32 x"
| "toStableValue (VF64 x) = VF64 x"
| "toStableValue (VStr s) = VStr s"
| "toStableValue (VList xs) = VList (map toStableValue xs)"
| "toStableValue (VStrs ss) = VStrs ss"
| "toStableValue VNilMap = stable_pairs []"
| "toStableValue (VMap m) = stable_pairs (map (map_prod id toStableValue) m)"
| "toStableValue (VMaps ms) = VMaps ms"
| "toStableValue (VArts as) = VList (map stable_artifact as)"
| "toStableValue (VMsgs ms) = VMsgs ms"
| "toStableValue (VDecision d) = VDecision d"
| "toStableValue (VStruct n fs) = VStruct n fs"
| "stable_artifact (Artifact aid ty mime tx bytes uri meta) = stable_pairs [(''id'', VStr aid), (''type'', VStr ty), (''text'', VStr tx),
     (''meta'', case map_option (map (map_prod id toStableValue)) meta of None \<Rightarrow> stable_pairs [] | Some m \<Rightarrow> stable_pairs m)]"

record CacheNodeConfig =
  cc_CacheKey :: string
  cc_InputVars :: "string list"
  cc_WrappedNode :: "(Envelope \<Rightarrow> string + Envelope) option"
  cc_TTL :: int
  cc_OutputVar :: string
  cc_IncludeArtifacts :: bool
  cc_IncludeInput :: bool

record CacheNode =
  can_id :: string
  can_config :: CacheNodeConfig

definition NewCacheNode :: "string \<Rightarrow> CacheNodeConfig \<Rightarrow> mem_store option \<Rightarrow> CacheNode \<times> mem_store" where
  "NewCacheNode nid cfg store = (\<lparr>can_id = nid, can_config = cfg\<rparr>, case store of None \<Rightarrow> NewMemoryCacheStore | Some s \<Rightarrow> s)"

record key_context =
  kx_template :: "string \<Rightarrow> val gomap \<Rightarrow> string + string"
  kx_json :: "val \<Rightarrow> string + string"
  kx_sha :: "string \<Rightarrow> string"

definition vars_val :: "Envelope \<Rightarrow> val" where
  "vars_val env = (case Vars env of None \<Rightarrow> VNilMap | Some m \<Rightarrow> VMap m)"

definition stableJSONMarshal :: "key_context \<Rightarrow> val \<Rightarrow> string + string" where
  "stableJSONMarshal x v = kx_json x (toStableValue v)"

definition computeStableHash :: "key_context \<Rightarrow> val \<Rightarrow> string + string" where
  "computeStableHash x data = rbind (stableJSONMarshal x data) (\<lambda>bytes. Inr (kx_sha x bytes))"

definition selected_vars :: "string list \<Rightarrow> Envelope \<Rightarrow> val gomap" where
  "selected_vars names env = fold (\<lambda>n m. case GetVar env n of None \<Rightarrow> m | Some v \<Rightarrow> mput n v m) names []"

definition hash_data :: "CacheNodeConfig \<Rightarrow> Envelope \<Rightarrow> val gomap" where
  "hash_data cfg env =
     (let d1 = (if cc_IncludeInput cfg then mput ''input'' (Input env) [] else []);
          d2 = mput ''vars'' (if length (cc_InputVars cfg) > 0 then VMap (selected_vars (cc_InputVars cfg) env) else vars_val env) d1
      in if cc_IncludeArtifacts cfg then mput ''artifacts'' (VArts (Artifacts env)) d2 else d2)"

definition computeCacheKeyHash :: "key_context \<Rightarrow> CacheNode \<Rightarrow> Envelope \<Rightarrow> string + string" where
  "computeCacheKeyHash x n env =
     rbind (computeStableHash x (VMap (hash_data (can_config n) env))) (\<lambda>hash. Inr (can_id n @ '':'' @ hash))"

definition renderCacheKeyTemplate :: "key_context \<Rightarrow> CacheNode \<Rightarrow> Envelope \<Rightarrow> string + string" where
  "renderCacheKeyTemplate x n env =
     rbind (kx_template x (cc_CacheKey (can_config n)) [(''input'', Input env), (''vars'', vars_val env)])
       (\<lambda>text. Inr (can_id n @ '':'' @ text))"

definition generateCacheKey :: "key_context \<Rightarrow> CacheNode \<Rightarrow> Envelope \<Rightarrow> string + string" where
  "generateCacheKey x n env =
     (if cc_CacheKey (can_config n) \<noteq> [] then renderCacheKeyTemplate x n env else computeCacheKeyHash x n env)"


subsection \<open>A run\<close>

datatype cache_error = CacheContext string | CacheKeyError string | CacheGetError string | NoWrappedNode | WrappedFailed string | CacheSetError string

text \<open>What the context and the clock answer: at the start, to the store's \<open>Get\<close>, after the wrapped node and to its \<open>Set\<close>.\<close>

record run_context =
  rx_start :: "string option"
  rx_get :: "string option"
  rx_get_time :: time
  rx_stored :: time
  rx_set :: "string option"
  rx_set_time :: time

definition CacheResult :: "bool \<Rightarrow> string \<Rightarrow> time option \<Rightarrow> time option \<Rightarrow> val" where
  "CacheResult hit key storedAt expiresAt = VStruct ''CacheResult'' [(''hit'', VBool hit), (''key'', VStr key),
     (''stored_at'', case storedAt of None \<Rightarrow> VNil | Some t \<Rightarrow> VInt64 t), (''expires_at'', case expiresAt of None \<Rightarrow> VNil | Some t \<Rightarrow> VInt64 t)]"

definition with_result :: "CacheNodeConfig \<Rightarrow> val \<Rightarrow> Envelope \<Rightarrow> Envelope" where
  "with_result cfg r env = (if cc_OutputVar cfg \<noteq> [] then SetVar (cc_OutputVar cfg) r env else env)"

definition cache_Run :: "'s CacheStore \<Rightarrow> key_context \<Rightarrow> CacheNode \<Rightarrow> run_context \<Rightarrow> Envelope \<Rightarrow> 's \<Rightarrow> (cache_error + Envelope) \<times> 's" where
  "cache_Run st x n rx env s =
     (let cfg = can_config n in
      case rx_start rx of Some err \<Rightarrow> (Inl (CacheContext err), s)
    | None \<Rightarrow> (case generateCacheKey x n env of Inl err \<Rightarrow> (Inl (CacheKeyError err), s)
    | Inr key \<Rightarrow> (case cs_Get st (rx_get rx) (rx_get_time rx) key s of
        (Inl err, s1) \<Rightarrow> (Inl (CacheGetError err), s1)
      | (Inr (Some cachedEnv), s1) \<Rightarrow> (Inr (with_result cfg (CacheResult True key None None) (the (Clone (Some cachedEnv)))), s1)
      | (Inr None, s1) \<Rightarrow> (case cc_WrappedNode cfg of None \<Rightarrow> (Inl NoWrappedNode, s1)
        | Some run \<Rightarrow> (case run env of Inl err \<Rightarrow> (Inl (WrappedFailed err), s1)
          | Inr resultEnv \<Rightarrow>
              (let expiresAt = (if cc_TTL cfg > 0 then Some (rx_stored rx + cc_TTL cfg) else None) in
               case cs_Set st (rx_set rx) (rx_set_time rx) key (the (Clone (Some resultEnv))) (cc_TTL cfg) s1 of
                 (Some err, s2) \<Rightarrow> (Inl (CacheSetError err), s2)
               | (None, s2) \<Rightarrow>
                   (Inr (with_result cfg (CacheResult False key (Some (rx_stored rx)) expiresAt) (the (Clone (Some resultEnv)))), s2)))))))"

record MockNode =
  mk_ReturnValue :: val
  mk_ReturnError :: "string option"
  mk_CallCount :: nat

definition mock_Run :: "MockNode \<Rightarrow> Envelope \<Rightarrow> (string + Envelope) \<times> MockNode" where
  "mock_Run n env = (case mk_ReturnError n of
       Some err \<Rightarrow> Inl err
     | None \<Rightarrow> Inr (if mk_ReturnValue n \<noteq> VNil then SetVar ''mock_result'' (mk_ReturnValue n) env else env),
     n\<lparr>mk_CallCount := mk_CallCount n + 1\<rparr>)"


subsection \<open>The key builder\<close>

definition key_part :: "(val \<Rightarrow> string) \<Rightarrow> (val \<Rightarrow> string + string) \<Rightarrow> string \<Rightarrow> val \<Rightarrow> string" where
  "key_part other json key v = key @ ''='' @ (case as_str v of
       Some s \<Rightarrow> s
     | None \<Rightarrow> (case json v of Inl err \<Rightarrow> fmt_v other v | Inr s \<Rightarrow> s))"

definition kb_Add :: "(val \<Rightarrow> string) \<Rightarrow> (val \<Rightarrow> string + string) \<Rightarrow> string \<Rightarrow> val \<Rightarrow> string list \<Rightarrow> string list" where
  "kb_Add other json key v parts = parts @ [key_part other json key v]"

definition kb_Build :: "string list \<Rightarrow> string" where
  "kb_Build parts = join_with ''&'' (map fst (sort_pairs (map (\<lambda>p. (p, ())) parts)))"

definition kb_Hash :: "(string \<Rightarrow> string) \<Rightarrow> string list \<Rightarrow> string" where
  "kb_Hash sha parts = sha (kb_Build parts)"


subsection \<open>What a store promises\<close>

text \<open>
  \<open>look t s k\<close> is what a lookup at time \<open>t\<close> finds. The laws are the comments of the interface \<open>CacheStore\<close>: a lookup finds
  what was stored until its time to live is over, and does not change what later lookups find.
\<close>

locale cache_store =
  fixes st :: "'s CacheStore" and look :: "time \<Rightarrow> 's \<Rightarrow> string \<Rightarrow> Envelope option"
  assumes get_err: "cs_Get st (Some err) t k s = (Inl err, s)"
    and set_err: "cs_Set st (Some err) t k e ttl s = (Some err, s)"
    and get_found: "fst (cs_Get st None t k s) = Inr (look t s k)"
    and get_keeps: "t \<le> t' \<Longrightarrow> look t' (snd (cs_Get st None t k s)) k' = look t' s k'"
    and set_ok: "fst (cs_Set st None t k e ttl s) = None"
    and set_look: "t \<le> t' \<Longrightarrow> look t' (snd (cs_Set st None t k e ttl s)) k' =
      (if k' = k then (if ttl > 0 \<and> t + ttl < t' then None else Some e) else look t' s k')"
begin

text \<open>Every entry that can still be found was computed by the wrapped node for an envelope with its key.\<close>

definition honest :: "(Envelope \<Rightarrow> string + string) \<Rightarrow> (Envelope \<Rightarrow> string + Envelope) \<Rightarrow> time \<Rightarrow> 's \<Rightarrow> bool" where
  "honest key run t s \<longleftrightarrow> (\<forall>t' k e. t \<le> t' \<longrightarrow> look t' s k = Some e \<longrightarrow> (\<exists>env. key env = Inr k \<and> run env = Inr e))"

lemma honestD: "honest key run t s \<Longrightarrow> t \<le> t' \<Longrightarrow> look t' s k = Some e \<Longrightarrow> \<exists>env. key env = Inr k \<and> run env = Inr e"
  unfolding honest_def by blast

lemma honest_later: "honest key run t s \<Longrightarrow> t \<le> t' \<Longrightarrow> honest key run t' s"
  unfolding honest_def by (meson order_trans)

lemma honest_get: "honest key run t s \<Longrightarrow> t \<le> t' \<Longrightarrow> honest key run t' (snd (cs_Get st ctx t' k s))"
  by (cases ctx) (auto simp: get_err honest_later honest_def get_keeps intro: order_trans)

lemma honest_set:
  assumes "honest key run t s" "t \<le> t'" "key env = Inr k" "run env = Inr e"
  shows "honest key run t' (snd (cs_Set st ctx t' k e ttl s))"
proof (cases ctx)
  case None
  show ?thesis unfolding honest_def None
  proof (intro allI impI)
    fix u k' e' assume u: "t' \<le> u" "look u (snd (cs_Set st None t' k e ttl s)) k' = Some e'"
    show "\<exists>env. key env = Inr k' \<and> run env = Inr e'"
      using u assms honestD[OF assms(1), of u k' e'] by (cases "k' = k") (auto simp: set_look split: if_splits)
  qed
qed (simp add: set_err honest_later[OF assms(1,2)])

lemma get_cases:
  obtains (error) err where "ctx = Some err" "cs_Get st ctx t k s = (Inl err, s)"
    | (found) s1 where "ctx = None" "cs_Get st ctx t k s = (Inr (look t s k), s1)"
  using get_found[of t k s] get_err[of _ t k s] by (cases ctx; cases "cs_Get st None t k s") auto

lemma set_cases:
  obtains (error) err where "cs_Set st ctx t k e ttl s = (Some err, s)" "ctx = Some err"
    | (stored) s1 where "ctx = None" "cs_Set st ctx t k e ttl s = (None, s1)"
  using set_ok[of t k e ttl s] set_err[of _ t k e ttl s] by (cases ctx; cases "cs_Set st None t k e ttl s") auto

lemma run_transparent:
  assumes "honest (generateCacheKey x n) run t s" "t \<le> rx_get_time rx" "rx_get_time rx \<le> rx_set_time rx"
    and "cc_WrappedNode (can_config n) = Some run"
    and "\<And>e1 e2. generateCacheKey x n e1 = generateCacheKey x n e2 \<Longrightarrow> run e1 = run e2"
    and "cache_Run st x n rx env s = (Inr out, s')"
  shows "\<exists>e r. run env = Inr e \<and> out = with_result (can_config n) r e"
proof -
  obtain key where key: "rx_start rx = None" "generateCacheKey x n env = Inr key"
    using assms(6) by (auto simp: cache_Run_def Let_def split: option.splits sum.splits)
  show ?thesis
  proof (cases rule: get_cases[of "rx_get rx" "rx_get_time rx" key s])
    case (error err)
    then show ?thesis using assms(6) key by (simp add: cache_Run_def)
  next
    case (found s1)
    show ?thesis
    proof (cases "look (rx_get_time rx) s key")
      case None
      then show ?thesis using assms(4,6) key found by (auto simp: cache_Run_def Let_def split: sum.splits option.splits prod.splits)
    next
      case (Some e)
      then obtain env0 where "generateCacheKey x n env0 = Inr key" "run env0 = Inr e" using honestD[OF assms(1,2)] by blast
      then have "run env = Inr e" using assms(5)[of env env0] key(2) by simp
      moreover have "out = with_result (can_config n) (CacheResult True key None None) e"
        using assms(6) key found Some by (simp add: cache_Run_def Let_def)
      ultimately show ?thesis by blast
    qed
  qed
qed

lemma run_honest:
  assumes "honest (generateCacheKey x n) run t s" "t \<le> rx_get_time rx" "rx_get_time rx \<le> rx_set_time rx"
    and "cc_WrappedNode (can_config n) = Some run"
  shows "honest (generateCacheKey x n) run (rx_set_time rx) (snd (cache_Run st x n rx env s))"
proof (cases "rx_start rx = None \<and> (\<exists>key. generateCacheKey x n env = Inr key)")
  case True
  then obtain key where key: "rx_start rx = None" "generateCacheKey x n env = Inr key" by blast
  obtain r s1 where g: "cs_Get st (rx_get rx) (rx_get_time rx) key s = (r, s1)" by force
  have h1: "honest (generateCacheKey x n) run (rx_get_time rx) s1" using honest_get[OF assms(1,2), of "rx_get rx" key] g by simp
  note h2 = honest_later[OF h1 assms(3)]
  show ?thesis
  proof (cases "r = Inr None \<and> (\<exists>e. run env = Inr e)")
    case True
    then obtain e where e: "r = Inr None" "run env = Inr e" by blast
    have "honest (generateCacheKey x n) run (rx_set_time rx) (snd (cs_Set st (rx_set rx) (rx_set_time rx) key e (cc_TTL (can_config n)) s1))"
      by (rule honest_set[OF h1 assms(3) key(2) e(2)])
    then show ?thesis using key g e assms(4) by (auto simp: cache_Run_def Let_def split: prod.splits option.splits)
  next
    case False
    then consider (err) err where "r = Inl err" | (hit) e where "r = Inr (Some e)" | (miss) err where "r = Inr None" "run env = Inl err"
      by (metis obj_sumE option.exhaust)
    then have "snd (cache_Run st x n rx env s) = s1" using key g assms(4) by cases (simp_all add: cache_Run_def Let_def)
    with h2 show ?thesis by simp
  qed
next
  case False
  then have "snd (cache_Run st x n rx env s) = s" by (auto simp: cache_Run_def Let_def split: option.splits sum.splits)
  then show ?thesis using honest_later[OF assms(1)] assms(2,3) by simp
qed

lemma run_hit:
  assumes "cache_Run st x n rx env s = (Inr out, s1)" "look (rx_get_time rx) s key = None" "generateCacheKey x n env = Inr key"
    and "generateCacheKey x n env' = Inr key" "rx_start rx' = None" "rx_get rx' = None" "rx_set_time rx \<le> rx_get_time rx'"
    and "cc_TTL (can_config n) \<le> 0 \<or> rx_get_time rx' \<le> rx_set_time rx + cc_TTL (can_config n)"
  shows "\<exists>run e. cc_WrappedNode (can_config n) = Some run \<and> run env = Inr e \<and>
    fst (cache_Run st x n rx' env' s1) = Inr (with_result (can_config n) (CacheResult True key None None) e)"
proof -
  have ok: "rx_start rx = None" using assms(1) by (cases "rx_start rx") (simp_all add: cache_Run_def Let_def)
  show ?thesis
  proof (cases rule: get_cases[of "rx_get rx" "rx_get_time rx" key s])
    case (error err)
    then show ?thesis using assms(1,3) ok by (simp add: cache_Run_def)
  next
    case (found s2)
    obtain run e where r: "cc_WrappedNode (can_config n) = Some run" "run env = Inr e"
      using assms(1,2,3) ok found by (auto simp: cache_Run_def Let_def split: option.splits sum.splits)
    show ?thesis
    proof (cases rule: set_cases[of "rx_set rx" "rx_set_time rx" key e "cc_TTL (can_config n)" s2])
      case (error err)
      then show ?thesis using assms(1,2,3) ok found r by (simp add: cache_Run_def Let_def)
    next
      case (stored s3)
      then have s1: "s1 = s3" using assms(1,2,3) ok found r by (simp add: cache_Run_def Let_def)
      have "look (rx_get_time rx') s1 key = Some e"
        using set_look[OF assms(7), of key e "cc_TTL (can_config n)" s2 key] stored s1 assms(8) by (auto split: if_splits)
      then obtain s4 where "cs_Get st None (rx_get_time rx') key s1 = (Inr (Some e), s4)"
        using get_found[of "rx_get_time rx'" key s1] by (metis prod.collapse)
      then show ?thesis using r assms(4,5,6) by (simp add: cache_Run_def Let_def)
    qed
  qed
qed

end

subsection \<open>The memory store keeps the promise\<close>

definition mem_look :: "time \<Rightarrow> mem_store \<Rightarrow> string \<Rightarrow> Envelope option" where
  "mem_look t s k = fst (get_read t k s)"

lemma mem_look_del: "mem_look t (mdel k s) k' = (if k' = k then None else mem_look t s k')"
  by (simp add: mem_look_def get_read_def delete_conv')

interpretation mem: cache_store MemoryCacheStore mem_look
proof
  fix t t' :: time and k k' :: string and s :: mem_store
  assume "t \<le> t'"
  moreover have "mem_look t' s k = None" if "mget s k = Some e" "expired t e" "t \<le> t'" for e
    using that by (auto simp: mem_look_def get_read_def expired_def split: option.splits)
  ultimately show "mem_look t' (snd (cs_Get MemoryCacheStore None t k s)) k' = mem_look t' s k'"
    by (auto simp: MemoryCacheStore_def mcs_Get_def get_evict_def get_read_def mem_look_del split: option.splits)
next
  fix t t' :: time and k k' :: string and s :: mem_store and e :: Envelope and ttl :: int
  show "mem_look t' (snd (cs_Set MemoryCacheStore None t k e ttl s)) k' =
      (if k' = k then (if ttl > 0 \<and> t + ttl < t' then None else Some e) else mem_look t' s k')"
    by (simp add: MemoryCacheStore_def mcs_Set_def mem_look_def get_read_def expired_def update_conv')
qed (simp_all add: MemoryCacheStore_def mcs_Get_def mcs_Set_def mem_look_def split: prod.splits)



inductive mem_reach :: "key_context \<Rightarrow> CacheNode \<Rightarrow> time \<Rightarrow> mem_store \<Rightarrow> bool" for x :: key_context and n :: CacheNode where
  new: "mem_reach x n t NewMemoryCacheStore"
| ran: "mem_reach x n t s \<Longrightarrow> t \<le> rx_get_time rx \<Longrightarrow> rx_get_time rx \<le> rx_set_time rx \<Longrightarrow>
    mem_reach x n (rx_set_time rx) (snd (cache_Run MemoryCacheStore x n rx env s))"
| got: "mem_reach x n t s \<Longrightarrow> t \<le> now \<Longrightarrow> mem_reach x n now (snd (mcs_Get ctx now k s))"
| deleted: "mem_reach x n t s \<Longrightarrow> mem_reach x n t (snd (mcs_Delete ctx k s))"
| pruned: "mem_reach x n t s \<Longrightarrow> t \<le> now \<Longrightarrow> mem_reach x n now (snd (mcs_Prune now s))"
| cleared: "mem_reach x n t s \<Longrightarrow> mem_reach x n t (mcs_Clear s)"

lemma get_ok: "gomap_ok s \<Longrightarrow> gomap_ok (snd (mcs_Get ctx t k s))"
  by (auto simp: mcs_Get_def get_evict_def split: option.splits prod.splits)

lemma set_gomap_ok: "gomap_ok s \<Longrightarrow> gomap_ok (snd (mcs_Set ctx t k e ttl s))"
  by (auto simp: mcs_Set_def split: option.splits)

lemma run_ok:
  assumes "gomap_ok s"
  shows "gomap_ok (snd (cache_Run MemoryCacheStore x n rx env s))"
proof -
  have "gomap_ok s1" if "mcs_Get ctx t k s = (r, s1)" for ctx t k r s1 using get_ok[OF assms, of ctx t k] that by simp
  moreover have "gomap_ok s2" if "mcs_Set ctx t k e ttl s1 = (r, s2)" "gomap_ok s1" for ctx t k e ttl r s1 s2
    using set_gomap_ok[OF that(2), of ctx t k e ttl] that(1) by simp
  ultimately show ?thesis using assms
    by (auto simp: cache_Run_def Let_def MemoryCacheStore_def split: option.splits sum.splits prod.splits)
qed

lemma mget_filter: "gomap_ok s \<Longrightarrow> mget (filter (\<lambda>(k, e). P e) s) k = (case mget s k of None \<Rightarrow> None | Some e \<Rightarrow> if P e then Some e else None)"
proof (induction s)
  case (Cons p s)
  then have "fst p \<notin> set (mkeys s)" by (simp add: gomap_ok_def)
  then have "mget s (fst p) = None" by (metis in_mkeys_iff)
  with Cons show ?case by (auto simp: gomap_ok_def split: option.splits)
qed simp

lemma mem_look_prune: "gomap_ok s \<Longrightarrow> t \<le> t' \<Longrightarrow> mem_look t' (snd (mcs_Prune t s)) k = mem_look t' s k"
  by (auto simp: mcs_Prune_def mem_look_def get_read_def mget_filter expired_def split: option.splits)

lemma mem_look_empty: "mem_look t [] k = None"
  by (simp add: mem_look_def get_read_def)

lemma honest_fewer:
  assumes "mem.honest key run t s" "t \<le> u" "\<And>t' k e. u \<le> t' \<Longrightarrow> mem_look t' s' k = Some e \<Longrightarrow> mem_look t' s k = Some e"
  shows "mem.honest key run u s'"
  using assms unfolding mem.honest_def by (meson order_trans)

lemma mem_reach_honest:
  assumes "mem_reach x n t s" "cc_WrappedNode (can_config n) = Some run"
  shows "gomap_ok s \<and> mem.honest (generateCacheKey x n) run t s"
  using assms(1)
proof (induction rule: mem_reach.induct)
  case (new t)
  show ?case by (simp add: NewMemoryCacheStore_def mem.honest_def mem_look_empty)
next
  case (ran t s rx env)
  then show ?case using mem.run_honest[OF _ ran.hyps(2,3) assms(2)] run_ok by blast
next
  case (got t s now ctx k)
  then show ?case using mem.honest_get[of "generateCacheKey x n" run t s now ctx k] get_ok[of s ctx now k] by (simp add: MemoryCacheStore_def)
next
  case (deleted t s ctx k)
  then show ?case by (cases ctx) (auto simp: mcs_Delete_def mem_look_del intro: honest_fewer split: if_splits)
next
  case (pruned t s now)
  moreover have "gomap_ok (snd (mcs_Prune now s))" using pruned.IH by (auto simp: mcs_Prune_def gomap_ok_def distinct_map_filter)
  ultimately show ?case by (auto simp: mem_look_prune intro: honest_fewer)
next
  case (cleared t s)
  show ?case by (simp add: mcs_Clear_def mem.honest_def mem_look_empty)
qed

text \<open>
  C28: A cache node is transparent. Suppose that envelopes with equal keys get equal results from the wrapped node. Then after
  any sequence of runs, lookups, deletions, prunings and clearings of the node's store, at any later time, expired entries or not: a
  run that succeeds returns what the wrapped node returns for this envelope, up to the variable with the cache's own report.
\<close>

theorem cache_transparent:
  assumes "cc_WrappedNode (can_config n) = Some run"
    and "\<And>e1 e2. generateCacheKey x n e1 = generateCacheKey x n e2 \<Longrightarrow> run e1 = run e2"
    and "mem_reach x n t s" "t \<le> rx_get_time rx" "rx_get_time rx \<le> rx_set_time rx"
    and "cache_Run MemoryCacheStore x n rx env s = (Inr out, s')"
  shows "\<exists>e r. run env = Inr e \<and> out = with_result (can_config n) r e"
  by (rule mem.run_transparent[OF conjunct2[OF mem_reach_honest[OF assms(3,1)]] assms(4,5,1)]) (use assms(2,6) in blast)+

definition demo_key_ctx :: key_context where
  "demo_key_ctx = \<lparr>kx_template = (\<lambda>_ d. Inr (case nested_get (VMap d) [''vars'', ''q''] of Some v \<Rightarrow> (case as_str v of Some s \<Rightarrow> s | None \<Rightarrow> []) | None \<Rightarrow> [])),
     kx_json = (\<lambda>_. Inr []), kx_sha = id\<rparr>"

definition demo_wrapped :: "Envelope \<Rightarrow> string + Envelope" where
  "demo_wrapped env = Inr (SetVar ''echo'' (VStr (GetVarString env ''q'')) NewEnvelope)"

definition demo_cache_node :: CacheNode where
  "demo_cache_node = \<lparr>can_id = ''c'', can_config = \<lparr>cc_CacheKey = ''{{.vars.q}}'', cc_InputVars = [], cc_WrappedNode = Some demo_wrapped,
     cc_TTL = 10, cc_OutputVar = ''hit'', cc_IncludeArtifacts = False, cc_IncludeInput = False\<rparr>\<rparr>"

definition demo_clock :: "time \<Rightarrow> run_context" where
  "demo_clock t = \<lparr>rx_start = None, rx_get = None, rx_get_time = t, rx_stored = t, rx_set = None, rx_set_time = t\<rparr>"

lemma demo_key: "generateCacheKey demo_key_ctx demo_cache_node env = Inr (''c:'' @ GetVarString env ''q'')"
  by (auto simp: generateCacheKey_def renderCacheKeyTemplate_def demo_key_ctx_def demo_cache_node_def vars_val_def GetVarString_def GetVar_def
      split: option.splits)

lemma demo_key_determines: "generateCacheKey demo_key_ctx demo_cache_node e1 = generateCacheKey demo_key_ctx demo_cache_node e2 \<Longrightarrow> demo_wrapped e1 = demo_wrapped e2"
  unfolding demo_key by (simp add: demo_wrapped_def)

definition demo_query :: "string \<Rightarrow> Envelope" where
  "demo_query run = (SetVar ''q'' (VStr ''hello'') NewEnvelope)\<lparr>Trace := empty_trace\<lparr>RunID := run\<rparr>\<rparr>"

definition demo_filled :: mem_store where
  "demo_filled = snd (cache_Run MemoryCacheStore demo_key_ctx demo_cache_node (demo_clock 0) (demo_query ''1'') NewMemoryCacheStore)"

lemma demo_wrapped_config: "cc_WrappedNode (can_config demo_cache_node) = Some demo_wrapped"
  by (simp add: demo_cache_node_def)

lemma demo_reach: "mem_reach demo_key_ctx demo_cache_node 0 demo_filled"
  using mem_reach.ran[OF mem_reach.new, of 0 "demo_clock 0" demo_key_ctx demo_cache_node "demo_query ''1''"] by (simp add: demo_filled_def demo_clock_def)

lemma demo_entry: "mget demo_filled ''c:hello'' = Some \<lparr>ce_envelope = SetVar ''echo'' (VStr ''hello'') NewEnvelope, ce_storedAt = 0, ce_expiresAt = Some 10\<rparr>"
  by (simp add: demo_filled_def cache_Run_def demo_key demo_wrapped_config demo_clock_def Let_def)
     (simp add: demo_wrapped_def demo_query_def GetVarString_def GetVar_def SetVar_def NewEnvelope_def NewMemoryCacheStore_def MemoryCacheStore_def
       mcs_Get_def get_read_def get_evict_def mcs_Set_def demo_cache_node_def)

lemma demo_hit:
  "cache_Run MemoryCacheStore demo_key_ctx demo_cache_node (demo_clock 5) (demo_query ''2'') demo_filled =
     (Inr (with_result (can_config demo_cache_node) (CacheResult True ''c:hello'' None None) (SetVar ''echo'' (VStr ''hello'') NewEnvelope)), demo_filled)"
proof -
  have "GetVarString (demo_query ''2'') ''q'' = ''hello''" by (simp add: demo_query_def GetVarString_def GetVar_def SetVar_def NewEnvelope_def)
  moreover have "cs_Get MemoryCacheStore None 5 ''c:hello'' demo_filled = (Inr (Some (SetVar ''echo'' (VStr ''hello'') NewEnvelope)), demo_filled)"
    by (simp add: MemoryCacheStore_def mcs_Get_def get_read_def demo_entry expired_def get_evict_def)
  ultimately show ?thesis by (simp add: cache_Run_def demo_key demo_clock_def)
qed

theorem cache_transparent_witness:
  "\<exists>e r. demo_wrapped (demo_query ''2'') = Inr e \<and>
     with_result (can_config demo_cache_node) (CacheResult True ''c:hello'' None None) (SetVar ''echo'' (VStr ''hello'') NewEnvelope) = with_result (can_config demo_cache_node) r e"
  by (rule cache_transparent[OF demo_wrapped_config demo_key_determines demo_reach _ _ demo_hit]) (simp_all add: demo_clock_def)


text \<open>
  C29: Within the time to live a result is reused. After a run that found nothing under its key and succeeded, a run with the same
  key that asks no later than the entry's expiry (at any time if there is none) returns the stored result marked as a hit, whatever the second
  envelope is; the wrapped node's result for the first envelope is what comes back.
\<close>

theorem cache_hit_reuses:
  assumes "cache_Run MemoryCacheStore x n rx env s = (Inr out, s1)" "mem_look (rx_get_time rx) s key = None" "generateCacheKey x n env = Inr key"
    and "generateCacheKey x n env' = Inr key" "rx_start rx' = None" "rx_get rx' = None" "rx_set_time rx \<le> rx_get_time rx'"
    and "cc_TTL (can_config n) \<le> 0 \<or> rx_get_time rx' \<le> rx_set_time rx + cc_TTL (can_config n)"
  shows "\<exists>run e. cc_WrappedNode (can_config n) = Some run \<and> run env = Inr e \<and>
    fst (cache_Run MemoryCacheStore x n rx' env' s1) = Inr (with_result (can_config n) (CacheResult True key None None) e)"
  by (rule mem.run_hit[OF assms])

lemma demo_first: "\<exists>out. cache_Run MemoryCacheStore demo_key_ctx demo_cache_node (demo_clock 0) (demo_query ''1'') NewMemoryCacheStore = (Inr out, demo_filled)"
proof -
  have g: "cs_Get MemoryCacheStore None 0 k NewMemoryCacheStore = (Inr None, NewMemoryCacheStore)" for k
    by (simp add: NewMemoryCacheStore_def MemoryCacheStore_def mcs_Get_def get_read_def get_evict_def)
  have "\<exists>out. fst (cache_Run MemoryCacheStore demo_key_ctx demo_cache_node (demo_clock 0) (demo_query ''1'') NewMemoryCacheStore) = Inr out"
    unfolding cache_Run_def Let_def demo_key demo_wrapped_config by (simp add: demo_clock_def g demo_wrapped_def) (simp add: MemoryCacheStore_def mcs_Set_def)
  then show ?thesis unfolding demo_filled_def by (metis prod.collapse)
qed

theorem cache_hit_reuses_witness:
  "\<exists>run e. cc_WrappedNode (can_config demo_cache_node) = Some run \<and> run (demo_query ''1'') = Inr e \<and>
    fst (cache_Run MemoryCacheStore demo_key_ctx demo_cache_node (demo_clock 10) (demo_query ''2'') demo_filled) =
      Inr (with_result (can_config demo_cache_node) (CacheResult True ''c:hello'' None None) e)"
proof -
  obtain out where o: "cache_Run MemoryCacheStore demo_key_ctx demo_cache_node (demo_clock 0) (demo_query ''1'') NewMemoryCacheStore = (Inr out, demo_filled)"
    using demo_first by blast
  have q: "generateCacheKey demo_key_ctx demo_cache_node (demo_query r) = Inr ''c:hello''" for r
    unfolding demo_key by (simp add: demo_query_def GetVarString_def GetVar_def SetVar_def NewEnvelope_def)
  show ?thesis by (rule cache_hit_reuses[OF o _ q q])
      (simp_all add: demo_clock_def NewMemoryCacheStore_def mem_look_empty demo_cache_node_def)
qed

text \<open>
  A hit returns the whole stored envelope: a run gets the trace, the messages and the variables of the run that filled the
  cache, also where the key does not depend on them.
\<close>

lemma hit_has_old_trace:
  "\<exists>out. fst (cache_Run MemoryCacheStore demo_key_ctx demo_cache_node (demo_clock 5) (demo_query ''2'') demo_filled) = Inr out \<and>
     RunID (Trace out) \<noteq> RunID (Trace (demo_query ''2'')) \<and> GetVar out ''q'' = None"
  unfolding demo_hit by (simp add: with_result_def demo_cache_node_def demo_query_def GetVar_def SetVar_def NewEnvelope_def empty_trace_def)

text \<open>An entry stored between the two critical sections of a lookup that found an expired entry is lost.\<close>

lemma late_evict_loses:
  assumes "get_read t k s = (r, True)"
  shows "mem_look t' (get_evict k True (snd (mcs_Set None t2 k e ttl s))) k = None"
  by (simp add: get_evict_def mem_look_del)


subsection \<open>Keys do not depend on the order of maps\<close>

abbreviation pair_le :: "string \<times> 'a \<Rightarrow> string \<times> 'a \<Rightarrow> bool" where
  "pair_le a b \<equiv> \<not> str_compare (fst b) (fst a) < 0"

lemma pair_le_trans: "pair_le a b \<Longrightarrow> pair_le b c \<Longrightarrow> pair_le a c"
proof -
  assume "pair_le a b" "pair_le b c"
  moreover have "str_compare (fst b) (fst c) < 0 \<or> fst b = fst c" using calculation str_compare_neg[of "fst c" "fst b"] str_compare_eq[of "fst b" "fst c"] by linarith
  moreover have "str_compare (fst a) (fst b) < 0 \<or> fst a = fst b" using calculation str_compare_neg[of "fst b" "fst a"] str_compare_eq[of "fst a" "fst b"] by linarith
  ultimately show ?thesis using str_compare_trans[of "fst a" "fst b" "fst c"] str_compare_neg[of "fst c" "fst a"] by auto
qed

lemma mset_insert_pair: "mset (insert_pair e fs) = add_mset e (mset fs)"
  by (induction fs) auto

lemma insert_pair_sorted: "sorted_wrt pair_le fs \<Longrightarrow> sorted_wrt pair_le (insert_pair e fs)"
proof (induction fs)
  case (Cons f fs)
  have s: "set (insert_pair e fs) = insert e (set fs)" using mset_insert_pair[of e fs] by (metis set_mset_add_mset_insert set_mset_mset)
  show ?case
  proof (cases "str_compare (fst e) (fst f) < 0")
    case True
    then have ef: "pair_le e f" using str_compare_neg[of "fst f" "fst e"] by linarith
    then have "pair_le e g" if "g \<in> set fs" for g using Cons.prems that pair_le_trans[OF ef, of g] by simp
    then show ?thesis using True ef Cons.prems by simp
  next
    case False
    then show ?thesis using Cons s by simp
  qed
qed simp

lemma sort_pairs_spec: "mset (sort_pairs es) = mset es \<and> sorted_wrt pair_le (sort_pairs es)"
proof -
  have "sorted_wrt pair_le acc \<Longrightarrow> mset (fold insert_pair es acc) = mset es + mset acc \<and> sorted_wrt pair_le (fold insert_pair es acc)" for acc
  proof (induction es arbitrary: acc)
    case (Cons e es)
    from Cons.IH[OF insert_pair_sorted[OF Cons.prems, of e]] show ?case by (simp add: mset_insert_pair)
  qed simp
  from this[of "[]"] show ?thesis by (simp add: sort_pairs_def)
qed

lemma sorted_pairs_unique:
  assumes "sorted_wrt pair_le xs" "sorted_wrt pair_le ys" "mset xs = mset ys" "\<And>a b. a \<in> set xs \<Longrightarrow> b \<in> set xs \<Longrightarrow> fst a = fst b \<Longrightarrow> a = b"
  shows "xs = ys"
  using assms
proof (induction xs arbitrary: ys)
  case (Cons x xs)
  obtain y ys' where y: "ys = y # ys'" using Cons.prems(3) by (cases ys) auto
  have mem: "x \<in> set ys" "y \<in> set (x # xs)" using Cons.prems(3) y by (metis list.set_intros(1) set_mset_mset)+
  have "x = y"
  proof (rule ccontr)
    assume ne: "x \<noteq> y"
    then have "pair_le x y" "pair_le y x" using Cons.prems(1,2) mem y by auto
    then have "fst x = fst y" using str_compare_eq[of "fst x" "fst y"] str_compare_neg[of "fst y" "fst x"] by linarith
    then show False using Cons.prems(4)[of x y] mem(2) ne by simp
  qed
  moreover have "xs = ys'" by (rule Cons.IH) (use Cons.prems y \<open>x = y\<close> in auto)
  ultimately show ?case using y by simp
qed simp

lemma sort_pairs_cong:
  assumes "mset xs = mset ys" "\<And>a b. a \<in> set xs \<Longrightarrow> b \<in> set xs \<Longrightarrow> fst a = fst b \<Longrightarrow> a = b"
  shows "sort_pairs xs = sort_pairs ys"
proof (rule sorted_pairs_unique)
  have "set (sort_pairs xs) = set xs" using sort_pairs_spec[of xs] by (metis set_mset_mset)
  then show "a = b" if "a \<in> set (sort_pairs xs)" "b \<in> set (sort_pairs xs)" "fst a = fst b" for a b using that assms(2) by simp
qed (simp_all add: sort_pairs_spec assms(1))

text \<open>Equal up to the order of map entries, at every depth that \<open>toStableValue\<close> looks into.\<close>

inductive same_val :: "val \<Rightarrow> val \<Rightarrow> bool" where
  same: "same_val v v"
| lists: "list_all2 same_val vs ws \<Longrightarrow> same_val (VList vs) (VList ws)"
| maps: "gomap_ok m \<Longrightarrow> gomap_ok m' \<Longrightarrow> set (mkeys m) = set (mkeys m') \<Longrightarrow>
    (\<And>k v w. mget m k = Some v \<Longrightarrow> mget m' k = Some w \<Longrightarrow> same_val v w) \<Longrightarrow> same_val (VMap m) (VMap m')"

lemma stable_entry:
  assumes "(k, v) \<in> set a" "gomap_ok a" "set (mkeys a) = set (mkeys b)" "\<And>k v w. mget a k = Some v \<Longrightarrow> mget b k = Some w \<Longrightarrow> f v = f w"
  shows "(k, f v) \<in> set (map (map_prod id f) b)"
proof -
  have a: "mget a k = Some v" using assms(1,2) by (simp add: gomap_ok_def)
  then have "k \<in> set (mkeys b)" using assms(3) mget_in_keys by metis
  then obtain w where w: "mget b k = Some w" unfolding in_mkeys_iff by blast
  have "(k, w) \<in> set b" using w by (rule map_of_SomeD)
  then show ?thesis using assms(4)[OF a w] by force
qed

lemma stable_pairs_cong:
  assumes "gomap_ok m" "gomap_ok m'" "set (mkeys m) = set (mkeys m')"
    and "\<And>k v w. mget m k = Some v \<Longrightarrow> mget m' k = Some w \<Longrightarrow> f v = f w"
  shows "stable_pairs (map (map_prod id f) m) = stable_pairs (map (map_prod id f) m')"
proof -
  have "set (map (map_prod id f) m) \<subseteq> set (map (map_prod id f) m')"
    using stable_entry[OF _ assms(1,3), of _ _ f] assms(4) by fastforce
  moreover have "set (map (map_prod id f) m') \<subseteq> set (map (map_prod id f) m)"
    using stable_entry[OF _ assms(2) assms(3)[symmetric], of _ _ f] assms(4) by (fastforce dest: sym)
  ultimately have "set (map (map_prod id f) m) = set (map (map_prod id f) m')" by (rule subset_antisym)
  moreover have d: "distinct (map (map_prod id f) m)" "distinct (map (map_prod id f) m')"
    using assms(1,2) distinct_map[of fst "map (map_prod id f) m"] distinct_map[of fst "map (map_prod id f) m'"] by (simp_all add: gomap_ok_def comp_def)
  ultimately have "mset (map (map_prod id f) m) = mset (map (map_prod id f) m')" by (metis set_eq_iff_mset_eq_distinct)
  then have "sort_pairs (map (map_prod id f) m) = sort_pairs (map (map_prod id f) m')"
    by (rule sort_pairs_cong) (use assms(1) in \<open>auto simp: gomap_ok_def dest: eq_key_imp_eq_value\<close>)
  then show ?thesis by (simp add: stable_pairs_def)
qed

lemma stable_same: "same_val v w \<Longrightarrow> toStableValue v = toStableValue w"
proof (induction rule: same_val.induct)
  case (lists vs ws)
  have "list_all2 (\<lambda>v w. toStableValue v = toStableValue w) vs ws" using lists by (rule list_all2_mono) simp
  then show ?case by (simp add: list_eq_iff_nth_eq list_all2_conv_all_nth)
next
  case (maps m m')
  then show ?case using stable_pairs_cong[of m m' toStableValue] by simp
qed simp

lemma selected_get: "mget (selected_vars names env) k = (if k \<in> set names then GetVar env k else None) \<and> gomap_ok (selected_vars names env)"
proof -
  have "gomap_ok m \<Longrightarrow> mget (fold (\<lambda>n m. case GetVar env n of None \<Rightarrow> m | Some v \<Rightarrow> mput n v m) names m) k =
      (if k \<in> set names \<and> GetVar env k \<noteq> None then GetVar env k else mget m k) \<and>
    gomap_ok (fold (\<lambda>n m. case GetVar env n of None \<Rightarrow> m | Some v \<Rightarrow> mput n v m) names m)" for m
  proof (induction names arbitrary: m)
    case (Cons a names)
    then show ?case by (cases "GetVar env a") (auto simp: update_conv')
  qed simp
  from this[of "[]"] show ?thesis by (auto simp: selected_vars_def)
qed

lemma same_GetVar:
  assumes "same_val (vars_val env) (vars_val env')"
  shows "rel_option same_val (GetVar env k) (GetVar env' k)"
proof -
  have "rel_option same_val (case as_map v of None \<Rightarrow> None | Some m \<Rightarrow> mget m k) (case as_map w of None \<Rightarrow> None | Some m \<Rightarrow> mget m k)"
    if "same_val v w" for v w
    using that
  proof (cases rule: same_val.cases)
    case same
    then show ?thesis by (auto intro!: option.rel_refl same_val.same)
  next
    case (maps m m')
    have "(mget m k = None) = (mget m' k = None)" using maps(5) in_mkeys_iff[of k m] in_mkeys_iff[of k m'] by blast
    then show ?thesis using maps(1,2,6) by (cases "mget m k"; cases "mget m' k") auto
  qed simp
  from this[OF assms] show ?thesis by (simp add: vars_val_def GetVar_def split: option.splits)
qed

lemma same_selected:
  assumes "same_val (vars_val env) (vars_val env')"
  shows "same_val (VMap (selected_vars names env)) (VMap (selected_vars names env'))"
proof (rule same_val.maps)
  note r = same_GetVar[OF assms]
  have n: "(GetVar env k = None) = (GetVar env' k = None)" for k using r[of k] by (cases "GetVar env k"; cases "GetVar env' k") auto
  show "set (mkeys (selected_vars names env)) = set (mkeys (selected_vars names env'))"
    unfolding set_eq_iff in_mkeys_iff selected_get[THEN conjunct1] using n by (simp del: not_None_eq)
  show "same_val v w" if "mget (selected_vars names env) k = Some v" "mget (selected_vars names env') k = Some w" for k v w
    using that r[of k] by (simp add: selected_get split: if_splits)
qed (simp_all add: selected_get)

text \<open>
  C30: Keys are deterministic. Two envelopes whose variables and input are equal up to the order of the entries of their maps, at
  any depth of maps and lists, and whose artifacts are equal get the same hash key, whatever is configured to go into it and
  whatever the encoder and the hash function are.
\<close>

theorem cache_key_stable:
  assumes "same_val (vars_val env) (vars_val env')" "same_val (Input env) (Input env')" "Artifacts env = Artifacts env'"
  shows "computeCacheKeyHash x n env = computeCacheKeyHash x n env'"
proof -
  have "toStableValue (Input env) = toStableValue (Input env')" "toStableValue (vars_val env) = toStableValue (vars_val env')"
    "toStableValue (VMap (selected_vars names env)) = toStableValue (VMap (selected_vars names env'))" for names
    using stable_same assms(1,2) same_selected[OF assms(1)] by blast+
  then have "map (map_prod id toStableValue) (hash_data (can_config n) env) = map (map_prod id toStableValue) (hash_data (can_config n) env')"
    using assms(3) by (simp add: hash_data_def Let_def)
  then show ?thesis by (simp add: computeCacheKeyHash_def computeStableHash_def stableJSONMarshal_def)
qed

theorem cache_key_stable_witness:
  "computeCacheKeyHash demo_key_ctx demo_cache_node (NewEnvelope\<lparr>Vars := Some [(''a'', VInt 1), (''b'', VNil)]\<rparr>) =
   computeCacheKeyHash demo_key_ctx demo_cache_node (NewEnvelope\<lparr>Vars := Some [(''b'', VNil), (''a'', VInt 1)]\<rparr>)"
proof (rule cache_key_stable)
  show "same_val (vars_val (NewEnvelope\<lparr>Vars := Some [(''a'', VInt 1), (''b'', VNil)]\<rparr>)) (vars_val (NewEnvelope\<lparr>Vars := Some [(''b'', VNil), (''a'', VInt 1)]\<rparr>))"
    by (auto simp: vars_val_def gomap_ok_def intro!: same_val.maps same_val.same split: if_splits)
qed (simp_all add: same_val.same NewEnvelope_def)

text \<open>A map and the list of its keys and values have the same stable form, so different variables can have the same key.\<close>

lemma stable_collision: "toStableValue (VMap [(''a'', VInt 1)]) = toStableValue (VList [VStr ''a'', VInt 1])"
  by (simp add: stable_pairs_def sort_pairs_def)

text \<open>The key builder: the order of the parts does not matter; a part that contains the separator looks like two.\<close>

lemma kb_Build_perm: "mset ps = mset qs \<Longrightarrow> kb_Build ps = kb_Build qs"
  unfolding kb_Build_def by (rule arg_cong[where f = "\<lambda>x. join_with ''&'' (map fst x)"], rule sort_pairs_cong) auto

lemma kb_Build_collision:
  "kb_Build (kb_Add other json ''a'' (VStr ''1&b=2'') []) = kb_Build (kb_Add other json ''b'' (VStr ''2'') (kb_Add other json ''a'' (VStr ''1'') []))"
  by (simp add: kb_Build_def kb_Add_def key_part_def sort_pairs_def byte_def)

end
