(* ===== verification/Transform_Node.thy ===== *)
theory Transform_Node
  imports Node_Helpers Core_Node
begin

section \<open>The transform node\<close>

text \<open>
  \<open>nodes/transform.go\<close>. A configuration can contain another one, for the items of a list, so it is a datatype. A transformation
  returns an error, a value, or \<open>None\<close> when it panics (an assignment to an entry of a nil map). The template engine, the JSON
  encoder and decoder, the text of floats and structs and custom functions (which only read the envelope) are arguments;
  \<open>cancelled\<close> says whether the context is done when an item is looked at. A rename goes through its mapping in the order of
  the association list. Maps are values here. Only a deep merge writes into a map that it did not make, so \<open>transform_Run\<close> gives
  what a transformation returns, and what it leaves in the envelope unless the transformation is, or maps, a deep merge; the
  last part of the theory puts the maps in a store and shows what a deep merge does to the variables it reads.
\<close>

datatype TransformNodeConfig = TransformNodeConfig
  (tc_Transform: string) (tc_InputVar: string) (tc_InputVars: "string list") (tc_OutputVar: string) (tc_Fields: "string list")
  (tc_Mapping: "(string \<times> string) list") (tc_Template: string) (tc_Format: string) (tc_Separator: string) (tc_MaxDepth: int)
  (tc_MergeStrategy: string) (tc_ItemTransform: "TransformNodeConfig option") (tc_CustomFunc: "(Envelope \<Rightarrow> string + val) option")

definition NewTransformNode :: "TransformNodeConfig \<Rightarrow> TransformNodeConfig" where
  "NewTransformNode c = TransformNodeConfig (tc_Transform c) (tc_InputVar c) (tc_InputVars c) (tc_OutputVar c) (tc_Fields c) (tc_Mapping c)
     (tc_Template c) (if tc_Format c = [] then ''json'' else tc_Format c) (if tc_Separator c = [] then ''.'' else tc_Separator c) (tc_MaxDepth c)
     (if tc_MergeStrategy c = [] then ''shallow'' else tc_MergeStrategy c) (tc_ItemTransform c) (tc_CustomFunc c)"

datatype transform_error =
    Requires string string | VariableNotFound string | NotMap string val | BadTemplate string | MarshalFailed string | BadFormat string string
  | NotString val | ParseFailed string | MapNotSliceInput string | MapItemFailed nat transform_error | TransformCancelled | CustomFailed string
  | UnknownTransform string | NoOutputVar

type_synonym transform_result = "(transform_error + val) option"

record transform_context =
  tx_template :: "string \<Rightarrow> Envelope \<Rightarrow> string + string"
  tx_marshal :: "val \<Rightarrow> string + string"
  tx_unmarshal :: "string \<Rightarrow> string + val"
  tx_other :: "val \<Rightarrow> string"
  tx_cancelled :: "nat \<Rightarrow> bool"

definition getInput :: "TransformNodeConfig \<Rightarrow> Envelope \<Rightarrow> transform_error + val" where
  "getInput c env =
     (if tc_InputVar c = [] then Inl (Requires ''input'' ''InputVar'')
      else (case GetVarNested env (tc_InputVar c) of None \<Rightarrow> Inl (VariableNotFound (tc_InputVar c)) | Some v \<Rightarrow> Inr v))"

definition input_map :: "string \<Rightarrow> TransformNodeConfig \<Rightarrow> Envelope \<Rightarrow> transform_error + val gomap" where
  "input_map what c env = rbind (getInput c env) (\<lambda>v. case toMap v of None \<Rightarrow> Inl (NotMap what v) | Some m \<Rightarrow> Inr m)"


subsection \<open>Fields\<close>

fun pick_loop :: "val gomap \<Rightarrow> string list \<Rightarrow> val gomap \<Rightarrow> val gomap option" where
  "pick_loop inputMap [] result = Some result"
| "pick_loop inputMap (field # fs) result = (case getNestedValue inputMap field of
       None \<Rightarrow> pick_loop inputMap fs result
     | Some v \<Rightarrow> (case setNestedValue result field v of None \<Rightarrow> None | Some result1 \<Rightarrow> pick_loop inputMap fs result1))"

definition transformPick :: "TransformNodeConfig \<Rightarrow> Envelope \<Rightarrow> transform_result" where
  "transformPick c env =
     (if length (tc_Fields c) = 0 then Some (Inl (Requires ''pick'' ''Fields''))
      else (case input_map ''pick'' c env of
              Inl err \<Rightarrow> Some (Inl err)
            | Inr m \<Rightarrow> map_option (\<lambda>r. Inr (VMap r)) (pick_loop m (tc_Fields c) [])))"

definition transformOmit :: "TransformNodeConfig \<Rightarrow> Envelope \<Rightarrow> transform_result" where
  "transformOmit c env =
     (if length (tc_Fields c) = 0 then Some (Inl (Requires ''omit'' ''Fields''))
      else (case input_map ''omit'' c env of
              Inl err \<Rightarrow> Some (Inl err)
            | Inr m \<Rightarrow> Some (Inr (VMap (fold (\<lambda>field result. deleteNestedValue result field) (tc_Fields c) (deepCopyMap m))))))"

fun rename_loop :: "(string \<times> string) list \<Rightarrow> val gomap \<Rightarrow> val gomap option" where
  "rename_loop [] result = Some result"
| "rename_loop ((oldName, newName) # rest) result = (case getNestedValue result oldName of
       None \<Rightarrow> rename_loop rest result
     | Some v \<Rightarrow> (case setNestedValue (deleteNestedValue result oldName) newName v of
           None \<Rightarrow> None
         | Some result1 \<Rightarrow> rename_loop rest result1))"

definition transformRename :: "TransformNodeConfig \<Rightarrow> Envelope \<Rightarrow> transform_result" where
  "transformRename c env =
     (if length (tc_Mapping c) = 0 then Some (Inl (Requires ''rename'' ''Mapping''))
      else (case input_map ''rename'' c env of
              Inl err \<Rightarrow> Some (Inl err)
            | Inr m \<Rightarrow> map_option (\<lambda>r. Inr (VMap r)) (rename_loop (tc_Mapping c) (deepCopyMap m))))"

definition transformFlatten :: "TransformNodeConfig \<Rightarrow> Envelope \<Rightarrow> transform_result" where
  "transformFlatten c env = (case input_map ''flatten'' c env of
       Inl err \<Rightarrow> Some (Inl err)
     | Inr m \<Rightarrow> Some (Inr (VMap (flattenMap (tc_Separator c) (tc_MaxDepth c) 0 [] m []))))"


subsection \<open>Merging, text and lists\<close>

text \<open>The merged map as a value; the writes of a deep merge into the variables are those of \<open>sMerge\<close> below.\<close>

fun merge_loop :: "TransformNodeConfig \<Rightarrow> Envelope \<Rightarrow> string list \<Rightarrow> val gomap \<Rightarrow> val gomap option" where
  "merge_loop c env [] result = Some result"
| "merge_loop c env (varName # vars) result = (case GetVarNested env varName of
       None \<Rightarrow> merge_loop c env vars result
     | Some v \<Rightarrow> (case toMap v of
           None \<Rightarrow> merge_loop c env vars (mput varName v result)
         | Some valMap \<Rightarrow>
             if tc_MergeStrategy c = ''deep'' then (case deepMerge result valMap of None \<Rightarrow> None | Some r \<Rightarrow> merge_loop c env vars r)
             else merge_loop c env vars (fold (\<lambda>(k, w) r. mput k w r) valMap result)))"

definition transformMerge :: "TransformNodeConfig \<Rightarrow> Envelope \<Rightarrow> transform_result" where
  "transformMerge c env =
     (if length (tc_InputVars c) = 0 then Some (Inl (Requires ''merge'' ''InputVars''))
      else map_option (\<lambda>r. Inr (VMap r)) (merge_loop c env (tc_InputVars c) []))"

definition transformTemplate :: "transform_context \<Rightarrow> TransformNodeConfig \<Rightarrow> Envelope \<Rightarrow> transform_result" where
  "transformTemplate x c env =
     (if tc_Template c = [] then Some (Inl (Requires ''template'' ''Template''))
      else (case tx_template x (tc_Template c) env of Inl err \<Rightarrow> Some (Inl (BadTemplate err)) | Inr s \<Rightarrow> Some (Inr (VStr s))))"

definition transformStringify :: "transform_context \<Rightarrow> TransformNodeConfig \<Rightarrow> Envelope \<Rightarrow> transform_result" where
  "transformStringify x c env = Some (rbind (getInput c env) (\<lambda>v.
     if tc_Format c = ''json'' then (case tx_marshal x v of Inl err \<Rightarrow> Inl (MarshalFailed err) | Inr s \<Rightarrow> Inr (VStr s))
     else if tc_Format c = ''text'' then Inr (VStr (fmt_v (tx_other x) v))
     else Inl (BadFormat ''stringify'' (tc_Format c))))"

definition transformParse :: "transform_context \<Rightarrow> TransformNodeConfig \<Rightarrow> Envelope \<Rightarrow> transform_result" where
  "transformParse x c env = Some (rbind (getInput c env) (\<lambda>v. case as_str v of
       None \<Rightarrow> Inl (NotString v)
     | Some s \<Rightarrow>
         if tc_Format c = ''json'' then (case tx_unmarshal x s of Inl err \<Rightarrow> Inl (ParseFailed err) | Inr w \<Rightarrow> Inr w)
         else Inl (BadFormat ''parse'' (tc_Format c))))"

definition transformCustom :: "TransformNodeConfig \<Rightarrow> Envelope \<Rightarrow> transform_result" where
  "transformCustom c env = Some (case tc_CustomFunc c of
       None \<Rightarrow> Inl (Requires ''custom'' ''CustomFunc'')
     | Some f \<Rightarrow> (case f env of Inl err \<Rightarrow> Inl (CustomFailed err) | Inr v \<Rightarrow> Inr v))"

fun map_items :: "(nat \<Rightarrow> bool) \<Rightarrow> (Envelope \<Rightarrow> (transform_error + Envelope) option) \<Rightarrow> string \<Rightarrow> Envelope \<Rightarrow> nat \<Rightarrow> val list \<Rightarrow>
    (transform_error + val list) option" where
  "map_items cancelled run out env i [] = Some (Inr [])"
| "map_items cancelled run out env i (item # items) =
     (if cancelled i then Some (Inl TransformCancelled)
      else (case run (SetVar ''_item'' item (the (Clone (Some env)))) of
              None \<Rightarrow> None
            | Some (Inl err) \<Rightarrow> Some (Inl (MapItemFailed i err))
            | Some (Inr resultEnv) \<Rightarrow>
                (case map_items cancelled run out env (Suc i) items of
                   None \<Rightarrow> None
                 | Some (Inl err) \<Rightarrow> Some (Inl err)
                 | Some (Inr rest) \<Rightarrow> Some (Inr ((case GetVar resultEnv out of None \<Rightarrow> VNil | Some v \<Rightarrow> v) # rest)))))"

primrec config_depth :: "TransformNodeConfig \<Rightarrow> nat" where
  "config_depth (TransformNodeConfig a b c d e f g h i j k item m) = Suc (case map_option config_depth item of None \<Rightarrow> 0 | Some n \<Rightarrow> n)"

lemma item_depth: "tc_ItemTransform c = Some it \<Longrightarrow> config_depth (NewTransformNode it) < config_depth c"
  by (cases c; cases it) (auto simp: NewTransformNode_def)

definition store_output :: "TransformNodeConfig \<Rightarrow> Envelope \<Rightarrow> transform_result \<Rightarrow> (transform_error + Envelope) option" where
  "store_output c env r = map_option (\<lambda>r1. rbind r1 (\<lambda>v.
     if tc_OutputVar c = [] then Inl NoOutputVar else Inr (SetVar (tc_OutputVar c) v (the (Clone (Some env)))))) r"

function transform_Run :: "transform_context \<Rightarrow> TransformNodeConfig \<Rightarrow> Envelope \<Rightarrow> (transform_error + Envelope) option" where
  "transform_Run x c env =
     (if tc_Transform c = ''pick'' then store_output c env (transformPick c env)
      else if tc_Transform c = ''omit'' then store_output c env (transformOmit c env)
      else if tc_Transform c = ''rename'' then store_output c env (transformRename c env)
      else if tc_Transform c = ''flatten'' then store_output c env (transformFlatten c env)
      else if tc_Transform c = ''merge'' then store_output c env (transformMerge c env)
      else if tc_Transform c = ''template'' then store_output c env (transformTemplate x c env)
      else if tc_Transform c = ''stringify'' then store_output c env (transformStringify x c env)
      else if tc_Transform c = ''parse'' then store_output c env (transformParse x c env)
      else if tc_Transform c = ''map'' then store_output c env
        (case tc_ItemTransform c of
           None \<Rightarrow> Some (Inl (Requires ''map'' ''ItemTransform''))
         | Some it \<Rightarrow> (case getInput c env of
               Inl err \<Rightarrow> Some (Inl err)
             | Inr v \<Rightarrow> (case toSlice v of
                   Inl err \<Rightarrow> Some (Inl (MapNotSliceInput err))
                 | Inr items \<Rightarrow> map_option (map_sum id VList)
                     (map_items (tx_cancelled x) (\<lambda>e. transform_Run x (NewTransformNode it) e) (tc_OutputVar it) env 0 items))))
      else if tc_Transform c = ''custom'' then store_output c env (transformCustom c env)
      else Some (Inl (UnknownTransform (tc_Transform c))))"
  by pat_completeness auto
termination
  by (relation "measure (\<lambda>(x, c, env). config_depth c)") (auto simp: item_depth)

declare transform_Run.simps [simp del]


subsection \<open>Paths\<close>

lemma set_nested_same: "nested_get (VMap m) ps = Some v \<Longrightarrow> ps \<noteq> [] \<Longrightarrow> set_nested ps v m = Some m"
proof (induction ps v m rule: set_nested.induct)
  case (2 p v m)
  then show ?case by (auto simp: update_triv split: option.splits)
next
  case (3 p q ps v m)
  from "3.prems"(1) obtain w where w: "mget m p = Some w" "nested_get w (q # ps) = Some v" by (auto simp del: nested_get.simps(2) simp: nested_get.simps(2)[of "VMap m"] split: option.splits)
  then obtain sub where s: "w = VMap sub" by (cases w) auto
  then have c: "child_map m p = Some sub" using w(1) by (simp add: child_map_def)
  have "set_nested (q # ps) v sub = Some sub" by (rule "3.IH"[OF c]) (use w(2) s in simp_all)
  then show ?case using c w(1) s by (simp add: update_triv)
qed simp

lemma set_nested_above:
  assumes "set_nested (p @ r) v m = Some m'" "p \<noteq> []" "r \<noteq> []"
  shows "\<exists>sub. nested_get (VMap m') p = Some (VMap sub)"
  using assms
proof (induction p arbitrary: m m')
  case (Cons a p)
  obtain q qs where q: "p @ r = q # qs" using Cons.prems(3) by (cases "p @ r") auto
  then obtain sub sub' where s: "set_nested (p @ r) v sub = Some sub'" "m' = mput a (VMap sub') m"
    using Cons.prems(1) by (auto split: option.splits)
  show ?case
  proof (cases "p = []")
    case False
    then show ?thesis using Cons.IH[OF s(1) False Cons.prems(3)] s(2) by simp
  qed (use s(2) in simp)
qed simp

lemma set_nested_total:
  assumes "\<And>p r. ps = p @ r \<Longrightarrow> p \<noteq> [] \<Longrightarrow> r \<noteq> [] \<Longrightarrow> nested_get (VMap m) p \<noteq> Some VNilMap"
  shows "\<exists>m'. set_nested ps v m = Some m'"
  using assms
proof (induction ps v m rule: set_nested.induct)
  case (3 p q ps v m)
  have "mget m p \<noteq> Some VNilMap" using "3.prems"[of "[p]" "q # ps"] by (auto split: option.splits)
  then have "child_map m p \<noteq> None" by (auto simp: child_map_def split: option.splits val.splits)
  then obtain sub where c: "child_map m p = Some sub" by blast
  have "nested_get (VMap sub) p' \<noteq> Some VNilMap" if "q # ps = p' @ r" "p' \<noteq> []" "r \<noteq> []" for p' r
    using "3.prems"[of "p # p'" r] that child_map_get[OF c that(2)] by simp
  from "3.IH"[OF c this] show ?case using c by auto
qed auto

lemma deepCopy_get: "nested_get (deepCopy v) ps = map_option deepCopy (nested_get v ps)"
proof (induction ps arbitrary: v)
  case (Cons p ps)
  show ?case
  proof (cases v)
    case (VMap m)
    have "mget (map (map_prod id deepCopy) m) p = map_option deepCopy (mget m p)" by (induction m) auto
    then show ?thesis using VMap Cons.IH by (auto split: option.splits)
  qed simp_all
qed simp

lemma nested_get_delete_frame: "ps \<parallel> qs \<Longrightarrow> nested_get (VMap (delete_nested ps m)) qs = nested_get (VMap m) qs"
proof (induction ps m arbitrary: qs rule: delete_nested.induct)
  case (2 p m)
  then show ?case by (cases qs) (auto simp: delete_conv')
next
  case (3 p q ps m)
  obtain r rs where qs: "qs = r # rs" using "3.prems" by (cases qs) auto
  show ?case
  proof (cases "r = p")
    case True
    then have "(q # ps) \<parallel> rs" using "3.prems" qs by (auto simp: parallel_def)
    then show ?thesis using "3.IH" qs True by (auto split: option.splits val.splits)
  qed (use qs in \<open>auto split: option.splits val.splits\<close>)
qed (auto simp: parallel_def)

lemma nested_get_delete_None: "nested_get (VMap m) qs = None \<Longrightarrow> nested_get (VMap (delete_nested ps m)) qs = None"
proof (induction ps m arbitrary: qs rule: delete_nested.induct)
  case (2 p m)
  then show ?case by (cases qs) (auto simp: delete_conv' split: option.splits)
next
  case (3 p q ps m)
  then show ?case by (cases qs) (auto split: option.splits val.splits)
qed simp


subsection \<open>Picking and omitting\<close>

text \<open>What has been picked is taken from the input: where that has nothing there is nothing, and everything but maps is the same.\<close>

definition taken_from :: "val gomap \<Rightarrow> val gomap \<Rightarrow> bool" where
  "taken_from m out \<longleftrightarrow> (\<forall>p. (nested_get (VMap m) p = None \<longrightarrow> nested_get (VMap out) p = None) \<and>
     (p \<noteq> [] \<longrightarrow> nested_get (VMap out) p = Some VNilMap \<longrightarrow> nested_get (VMap m) p = Some VNilMap))"

lemma path_cases:
  obtains (same_or_below) r where "p = g @ r" | (above) r where "g = p @ r" "r \<noteq> []" | (apart) "g \<parallel> p"
  by (metis append_Nil2 parallelI prefix_def)

lemma set_below: "set_nested g v out = Some out' \<Longrightarrow> g \<noteq> [] \<Longrightarrow> nested_get (VMap out') (g @ r) = nested_get v r"
  by (simp add: nested_get_append nested_get_set del: nested_get.simps)

lemma taken_set:
  assumes "taken_from m out" "g \<noteq> []" "nested_get (VMap m) g = Some v" "set_nested g v out = Some out'"
  shows "taken_from m out'"
  unfolding taken_from_def
proof (intro allI)
  fix p
  show "(nested_get (VMap m) p = None \<longrightarrow> nested_get (VMap out') p = None) \<and>
    (p \<noteq> [] \<longrightarrow> nested_get (VMap out') p = Some VNilMap \<longrightarrow> nested_get (VMap m) p = Some VNilMap)"
  proof (cases rule: path_cases[of p g])
    case (same_or_below r)
    have "nested_get (VMap m) p = nested_get v r" unfolding same_or_below nested_get_append assms(3) by simp
    moreover have "nested_get (VMap out') p = nested_get v r" unfolding same_or_below by (rule set_below[OF assms(4,2)])
    ultimately show ?thesis by simp
  next
    case (above r)
    have "nested_get (VMap m) p \<noteq> None" using assms(3) unfolding above nested_get_append by (auto split: option.splits)
    moreover have "\<exists>sub. nested_get (VMap out') p = Some (VMap sub)" if "p \<noteq> []"
      using set_nested_above[OF assms(4)[unfolded above(1)] that above(2)] .
    ultimately show ?thesis by auto
  next
    case apart
    then show ?thesis using nested_get_set_frame[OF assms(4) apart] assms(1) unfolding taken_from_def by simp
  qed
qed

lemma taken_settable:
  assumes "taken_from m out" "nested_get (VMap m) g = Some v"
  shows "\<exists>out'. set_nested g v out = Some out'"
proof (rule set_nested_total)
  fix p r assume p: "g = p @ r" "p \<noteq> []" "r \<noteq> []"
  show "nested_get (VMap out) p \<noteq> Some VNilMap"
  proof
    assume "nested_get (VMap out) p = Some VNilMap"
    then have "nested_get (VMap m) p = Some VNilMap" using assms(1) p(2) unfolding taken_from_def by blast
    then show False using assms(2) p(1,3) unfolding p(1) nested_get_append by (cases r) simp_all
  qed
qed

lemma picked_kept:
  assumes "nested_get (VMap out) f = nested_get (VMap m) f" "g \<noteq> []" "nested_get (VMap m) g = Some v" "set_nested g v out = Some out'"
  shows "nested_get (VMap out') f = nested_get (VMap m) f"
proof (cases rule: path_cases[of f g])
  case (same_or_below r)
  have "nested_get (VMap m) f = nested_get v r" unfolding same_or_below nested_get_append assms(3) by simp
  then show ?thesis using set_below[OF assms(4,2), of r] unfolding same_or_below by simp
next
  case (above r)
  have "nested_get (VMap out) g = Some v" using assms(1,3) unfolding above(1) nested_get_append by simp
  then have "out' = out" using set_nested_same[OF _ assms(2)] assms(4) by simp
  then show ?thesis using assms(1) by simp
next
  case apart
  then show ?thesis using nested_get_set_frame[OF assms(4)] assms(1) by simp
qed

lemma pick_loop_correct:
  assumes "taken_from m out"
  shows "\<exists>out'. pick_loop m fs out = Some out' \<and> taken_from m out' \<and> (\<forall>f \<in> set fs. getNestedValue out' f = getNestedValue m f) \<and>
    (\<forall>p. nested_get (VMap out) p = nested_get (VMap m) p \<longrightarrow> nested_get (VMap out') p = nested_get (VMap m) p) \<and>
    (\<forall>p. (\<forall>f \<in> set fs. split_on (CHR ''.'') f \<parallel> p) \<longrightarrow> nested_get (VMap out') p = nested_get (VMap out) p)"
  using assms
proof (induction fs arbitrary: out)
  case (Cons f fs)
  let ?g = "split_on (CHR ''.'') f"
  show ?case
  proof (cases "getNestedValue m f")
    case None
    then have "nested_get (VMap out) ?g = nested_get (VMap m) ?g" using Cons.prems unfolding taken_from_def getNestedValue_def by metis
    moreover obtain out' where o: "pick_loop m fs out = Some out'" "taken_from m out'" "\<forall>h \<in> set fs. getNestedValue out' h = getNestedValue m h"
      "\<forall>p. nested_get (VMap out) p = nested_get (VMap m) p \<longrightarrow> nested_get (VMap out') p = nested_get (VMap m) p"
      "\<forall>p. (\<forall>h \<in> set fs. split_on (CHR ''.'') h \<parallel> p) \<longrightarrow> nested_get (VMap out') p = nested_get (VMap out) p" using Cons.IH[OF Cons.prems] by blast
    ultimately have "getNestedValue out' f = getNestedValue m f" unfolding getNestedValue_def by blast
    then show ?thesis using o None by (intro exI[of _ out']) simp
  next
    case (Some v)
    then have g: "nested_get (VMap m) ?g = Some v" unfolding getNestedValue_def .
    obtain out1 where s: "set_nested ?g v out = Some out1" using taken_settable[OF Cons.prems g] by blast
    obtain out' where o: "pick_loop m fs out1 = Some out'" "taken_from m out'" "\<forall>h \<in> set fs. getNestedValue out' h = getNestedValue m h"
      "\<forall>p. nested_get (VMap out1) p = nested_get (VMap m) p \<longrightarrow> nested_get (VMap out') p = nested_get (VMap m) p"
      "\<forall>p. (\<forall>h \<in> set fs. split_on (CHR ''.'') h \<parallel> p) \<longrightarrow> nested_get (VMap out') p = nested_get (VMap out1) p"
      using Cons.IH[OF taken_set[OF Cons.prems split_on_nonempty g s]] by blast
    have "nested_get (VMap out1) ?g = nested_get (VMap m) ?g" unfolding g by (rule nested_get_set[OF s split_on_nonempty])
    then have "getNestedValue out' f = getNestedValue m f" using o(4) unfolding getNestedValue_def by blast
    moreover have "pick_loop m (f # fs) out = Some out'" using Some s o(1) by (simp add: setNestedValue_def)
    moreover have "nested_get (VMap out) p = nested_get (VMap m) p \<longrightarrow> nested_get (VMap out') p = nested_get (VMap m) p" for p
      using picked_kept[OF _ split_on_nonempty g s] o(4) by blast
    moreover have "nested_get (VMap out') p = nested_get (VMap out) p" if "\<forall>h \<in> set (f # fs). split_on (CHR ''.'') h \<parallel> p" for p
      using nested_get_set_frame[OF s, of p] o(5) that by simp
    ultimately show ?thesis using o(2,3) by (intro exI[of _ out']) auto
  qed
qed simp

text \<open>
  C31: Picking takes exactly the listed fields. On a map \<open>pick\<close> never panics; in the result each listed field, nested
  or not and however the fields overlap, reads as in the input, nothing reads as present that the input lacks, and a path
  apart from all listed ones is absent.
\<close>

theorem transformPick_correct:
  assumes "tc_Fields c \<noteq> []" "input_map ''pick'' c env = Inr m"
  shows "\<exists>out. transformPick c env = Some (Inr (VMap out)) \<and> (\<forall>f \<in> set (tc_Fields c). getNestedValue out f = getNestedValue m f) \<and>
    (\<forall>p. getNestedValue m p = None \<longrightarrow> getNestedValue out p = None) \<and>
    (\<forall>p. (\<forall>f \<in> set (tc_Fields c). split_on (CHR ''.'') f \<parallel> split_on (CHR ''.'') p) \<longrightarrow> getNestedValue out p = None)"
proof -
  have none: "nested_get (VMap []) p = None" if "p \<noteq> []" for p using that by (cases p) auto
  have "taken_from m []" unfolding taken_from_def using none by (metis nested_get.simps(1) option.distinct(1))
  from pick_loop_correct[OF this, of "tc_Fields c"] obtain out where o: "pick_loop m (tc_Fields c) [] = Some out" "taken_from m out"
    "\<forall>f \<in> set (tc_Fields c). getNestedValue out f = getNestedValue m f"
    "\<forall>p. (\<forall>f \<in> set (tc_Fields c). split_on (CHR ''.'') f \<parallel> p) \<longrightarrow> nested_get (VMap out) p = nested_get (VMap []) p" by blast
  have "transformPick c env = Some (Inr (VMap out))" using assms o(1) by (simp add: transformPick_def)
  moreover have "getNestedValue m p = None \<longrightarrow> getNestedValue out p = None" for p using o(2) unfolding taken_from_def getNestedValue_def by blast
  moreover have "getNestedValue out p = None" if "\<forall>f \<in> set (tc_Fields c). split_on (CHR ''.'') f \<parallel> split_on (CHR ''.'') p" for p
    using o(4) that none[OF split_on_nonempty] unfolding getNestedValue_def by metis
  ultimately show ?thesis using o(3) by blast
qed

definition demo_transform :: "string \<Rightarrow> string list \<Rightarrow> TransformNodeConfig" where
  "demo_transform kind fs = NewTransformNode (TransformNodeConfig kind ''d'' [] ''out'' fs [] [] [] [] 0 [] None None)"

definition demo_transform_env :: Envelope where
  "demo_transform_env = SetVar ''d'' (VMap [(''a'', VMap [(''b'', VInt 1), (''c'', VInt 2)]), (''x'', VNil)]) NewEnvelope"

lemma demo_transform_input: "input_map what (demo_transform kind fs) demo_transform_env = Inr [(''a'', VMap [(''b'', VInt 1), (''c'', VInt 2)]), (''x'', VNil)]"
  by (simp add: input_map_def getInput_def demo_transform_def NewTransformNode_def demo_transform_env_def GetVarNested_def SetVar_def NewEnvelope_def toMap_def)

lemma demo_transform_fields [simp]: "tc_Fields (demo_transform kind fs) = fs"
  by (simp add: demo_transform_def NewTransformNode_def)

theorem transformPick_correct_witness:
  "\<exists>out. transformPick (demo_transform ''pick'' [''a.b'']) demo_transform_env = Some (Inr (VMap out)) \<and>
     getNestedValue out ''a.b'' = getNestedValue [(''a'', VMap [(''b'', VInt 1), (''c'', VInt 2)]), (''x'', VNil)] ''a.b''"
  using transformPick_correct[OF _ demo_transform_input, of "''pick''" "[''a.b'']"] by auto

lemma omit_loop:
  "(\<forall>f \<in> set fs. getNestedValue (fold (\<lambda>field r. deleteNestedValue r field) fs m) f = None) \<and>
   (\<forall>p. nested_get (VMap m) p = None \<longrightarrow> nested_get (VMap (fold (\<lambda>field r. deleteNestedValue r field) fs m)) p = None) \<and>
   (\<forall>p. (\<forall>f \<in> set fs. split_on (CHR ''.'') f \<parallel> p) \<longrightarrow> nested_get (VMap (fold (\<lambda>field r. deleteNestedValue r field) fs m)) p = nested_get (VMap m) p)"
proof (induction fs arbitrary: m)
  case (Cons f fs)
  let ?g = "split_on (CHR ''.'') f"
  have d: "nested_get (VMap (delete_nested ?g m)) ?g = None" by (rule nested_get_delete[OF split_on_nonempty])
  note ih = Cons.IH[of "delete_nested ?g m"]
  have "fold (\<lambda>field r. deleteNestedValue r field) (f # fs) m = fold (\<lambda>field r. deleteNestedValue r field) fs (delete_nested ?g m)"
    by (simp add: deleteNestedValue_def)
  moreover have "nested_get (VMap m) p = None \<Longrightarrow> nested_get (VMap (delete_nested ?g m)) p = None" for p by (rule nested_get_delete_None)
  moreover have "?g \<parallel> p \<Longrightarrow> nested_get (VMap (delete_nested ?g m)) p = nested_get (VMap m) p" for p by (rule nested_get_delete_frame)
  ultimately show ?case using ih d unfolding getNestedValue_def by (metis list.set_intros set_ConsD)
qed simp

text \<open>
  Omitting removes exactly the listed fields. On a map \<open>omit\<close> succeeds; in the result no listed field is present,
  whatever the other fields are, and a path apart from all listed ones reads as a copy of what the input has there.
\<close>

theorem transformOmit_correct:
  assumes "tc_Fields c \<noteq> []" "input_map ''omit'' c env = Inr m"
  shows "\<exists>out. transformOmit c env = Some (Inr (VMap out)) \<and> (\<forall>f \<in> set (tc_Fields c). getNestedValue out f = None) \<and>
    (\<forall>p. (\<forall>f \<in> set (tc_Fields c). split_on (CHR ''.'') f \<parallel> split_on (CHR ''.'') p) \<longrightarrow>
      getNestedValue out p = map_option deepCopy (getNestedValue m p))"
proof -
  have "nested_get (VMap (deepCopyMap m)) p = map_option deepCopy (nested_get (VMap m) p)" for p using deepCopy_get[of "VMap m" p] by (simp add: deepCopyMap_def)
  then show ?thesis using assms omit_loop[of "tc_Fields c" "deepCopyMap m"] by (auto simp: transformOmit_def getNestedValue_def)
qed

theorem transformOmit_correct_witness:
  "\<exists>out. transformOmit (demo_transform ''omit'' [''a.b'']) demo_transform_env = Some (Inr (VMap out)) \<and> getNestedValue out ''a.b'' = None"
  using transformOmit_correct[OF _ demo_transform_input, of "''omit''" "[''a.b'']"] by auto



subsection \<open>A run\<close>

lemma store_output_Some: "store_output c env r = Some (Inr out) \<longleftrightarrow> (\<exists>v. r = Some (Inr v) \<and> tc_OutputVar c \<noteq> [] \<and> out = SetVar (tc_OutputVar c) v env)"
  by (auto simp: store_output_def rbind_Inr_iff split: if_splits)

lemma listed: "map_option (map_sum id VList) r = Some (Inr v) \<longleftrightarrow> (\<exists>vs. r = Some (Inr vs) \<and> v = VList vs)"
proof (cases r)
  case (Some s)
  then show ?thesis by (cases s) auto
qed simp

lemma transform_Run_frame:
  assumes "transform_Run x c env = Some (Inr out)"
  shows "tc_OutputVar c \<noteq> [] \<and> (\<exists>v. out = SetVar (tc_OutputVar c) v env)"
proof -
  have "\<exists>r. store_output c env r = Some (Inr out)"
    using assms unfolding transform_Run.simps[of x c env] by (simp split: if_split_asm) blast+
  then show ?thesis by (auto simp: store_output_Some)
qed

text \<open>Neither the transformation nor, at any depth, the one of the items is a deep merge.\<close>

primrec no_deep_merge :: "TransformNodeConfig \<Rightarrow> bool" where
  "no_deep_merge (TransformNodeConfig kind a b c d e f g h i strategy item m) \<longleftrightarrow>
     \<not> (kind = ''merge'' \<and> strategy = ''deep'') \<and> (case map_option no_deep_merge item of None \<Rightarrow> True | Some ok \<Rightarrow> ok)"

lemma map_items_length:
  "map_items cancelled run o' env i items = Some (Inr vs) \<Longrightarrow> length vs = length items \<and>
    (\<forall>k < length items. \<exists>e. run (SetVar ''_item'' (items ! k) env) = Some (Inr e) \<and> vs ! k = (case GetVar e o' of None \<Rightarrow> VNil | Some v \<Rightarrow> v))"
proof (induction items arbitrary: i vs)
  case (Cons item items)
  from Cons.prems obtain e rest where r: "run (SetVar ''_item'' item env) = Some (Inr e)" "map_items cancelled run o' env (Suc i) items = Some (Inr rest)"
    "vs = (case GetVar e o' of None \<Rightarrow> VNil | Some v \<Rightarrow> v) # rest"
    by (auto split: if_splits option.splits sum.splits)
  from Cons.IH[OF r(2)] r(1,3) show ?case by (auto simp: nth_Cons less_Suc_eq_0_disj split: nat.splits)
qed simp

text \<open>
  C32: Mapping a transformation over a list transforms every item. Take a transform node of kind \<open>map\<close> whose item
  transformation is not, and does not map, a deep merge (a deep merge would write into maps that the items' envelopes share)
  and whose custom functions only read the envelope. When the node succeeds, it changes only its output variable, and this holds
  a list as long as the input list whose k-th element is what the item transformation stores for the k-th item, run on
  the envelope with that item; an item transformation may itself map.
\<close>

theorem transform_map_items:
  assumes "tc_Transform c = ''map''" "no_deep_merge c" "transform_Run x c env = Some (Inr out)"
  shows "\<exists>it v items vs. tc_ItemTransform c = Some it \<and> getInput c env = Inr v \<and> toSlice v = Inr items \<and>
    out = SetVar (tc_OutputVar c) (VList vs) env \<and> length vs = length items \<and>
    (\<forall>k < length items. \<exists>w. transform_Run x (NewTransformNode it) (SetVar ''_item'' (items ! k) env) =
       Some (Inr (SetVar (tc_OutputVar it) w (SetVar ''_item'' (items ! k) env))) \<and> vs ! k = w)"
proof -
  obtain it v items where i: "tc_ItemTransform c = Some it" "getInput c env = Inr v" "toSlice v = Inr items"
    and s: "store_output c env (map_option (map_sum id VList)
      (map_items (tx_cancelled x) (\<lambda>e. transform_Run x (NewTransformNode it) e) (tc_OutputVar it) env 0 items)) = Some (Inr out)"
    using assms(3) unfolding transform_Run.simps[of x c env] assms(1) by (auto simp: store_output_Some split: option.splits sum.splits)
  then obtain vs where vs: "map_items (tx_cancelled x) (\<lambda>e. transform_Run x (NewTransformNode it) e) (tc_OutputVar it) env 0 items = Some (Inr vs)"
    "out = SetVar (tc_OutputVar c) (VList vs) env" unfolding store_output_Some listed by blast
  note l = map_items_length[OF vs(1)]
  have "\<exists>w. transform_Run x (NewTransformNode it) (SetVar ''_item'' (items ! k) env) =
      Some (Inr (SetVar (tc_OutputVar it) w (SetVar ''_item'' (items ! k) env))) \<and> vs ! k = w" if k: "k < length items" for k
  proof -
    obtain e where e: "transform_Run x (NewTransformNode it) (SetVar ''_item'' (items ! k) env) = Some (Inr e)"
      "vs ! k = (case GetVar e (tc_OutputVar it) of None \<Rightarrow> VNil | Some v \<Rightarrow> v)" using l k by blast
    moreover obtain w where "e = SetVar (tc_OutputVar it) w (SetVar ''_item'' (items ! k) env)"
      using transform_Run_frame[OF e(1)] by (auto simp: NewTransformNode_def)
    ultimately show ?thesis by simp
  qed
  then show ?thesis using i vs(2) l by blast
qed

definition demo_tx :: transform_context where
  "demo_tx = \<lparr>tx_template = (\<lambda>_ _. Inl []), tx_marshal = (\<lambda>_. Inl []), tx_unmarshal = (\<lambda>_. Inl []), tx_other = (\<lambda>_. []), tx_cancelled = (\<lambda>_. False)\<rparr>"

definition demo_item_transform :: TransformNodeConfig where
  "demo_item_transform = TransformNodeConfig ''stringify'' ''_item'' [] ''s'' [] [] [] ''text'' [] 0 [] None None"

definition demo_map_transform :: TransformNodeConfig where
  "demo_map_transform = NewTransformNode (TransformNodeConfig ''map'' ''xs'' [] ''ys'' [] [] [] [] [] 0 [] (Some demo_item_transform) None)"

definition demo_map_env :: Envelope where
  "demo_map_env = SetVar ''xs'' (VList [VBool True]) NewEnvelope"

lemma demo_item_run: "transform_Run demo_tx (NewTransformNode demo_item_transform) (SetVar ''_item'' (VBool True) demo_map_env) =
    Some (Inr (SetVar ''s'' (VStr ''true'') (SetVar ''_item'' (VBool True) demo_map_env)))"
  by (simp add: transform_Run.simps demo_item_transform_def NewTransformNode_def transformStringify_def getInput_def GetVarNested_def SetVar_def
      demo_map_env_def NewEnvelope_def store_output_def)

lemma demo_map_run: "transform_Run demo_tx demo_map_transform demo_map_env = Some (Inr (SetVar ''ys'' (VList [VStr ''true'']) demo_map_env))"
proof -
  have c: "tc_Transform demo_map_transform = ''map''" "tc_ItemTransform demo_map_transform = Some demo_item_transform" "tc_OutputVar demo_map_transform = ''ys''"
    "getInput demo_map_transform demo_map_env = Inr (VList [VBool True])" "tc_OutputVar demo_item_transform = ''s''"
    by (simp_all add: demo_map_transform_def NewTransformNode_def getInput_def demo_map_env_def GetVarNested_def SetVar_def NewEnvelope_def demo_item_transform_def)
  show ?thesis unfolding transform_Run.simps[of demo_tx demo_map_transform] c by (simp add: toSlice_def demo_tx_def[THEN arg_cong, of tx_cancelled] demo_item_run store_output_def c)
qed

theorem transform_map_items_witness:
  "\<exists>it v items vs. tc_ItemTransform demo_map_transform = Some it \<and> getInput demo_map_transform demo_map_env = Inr v \<and> toSlice v = Inr items \<and>
     SetVar ''ys'' (VList [VStr ''true'']) demo_map_env = SetVar (tc_OutputVar demo_map_transform) (VList vs) demo_map_env \<and> length vs = length items"
proof -
  have "tc_Transform demo_map_transform = ''map''" "no_deep_merge demo_map_transform"
    by (simp_all add: demo_map_transform_def demo_item_transform_def NewTransformNode_def)
  from transform_map_items[OF this demo_map_run] show ?thesis by blast
qed

text \<open>
  A rename ranges over a Go map, in no fixed order, and each step sees the result of the one before: exchanging two fields
  loses one of them, and which one depends on the order.
\<close>

lemma rename_order_matters:
  "rename_loop [(''a'', ''b''), (''b'', ''a'')] [(''a'', VInt 1), (''b'', VInt 2)] = Some [(''a'', VInt 1)]"
  "rename_loop [(''b'', ''a''), (''a'', ''b'')] [(''a'', VInt 1), (''b'', VInt 2)] = Some [(''b'', VInt 2)]"
  by (simp_all add: getNestedValue_def deleteNestedValue_def setNestedValue_def)

text \<open>A deep merge of a map into an entry that is a nil map assigns to an entry of the nil map.\<close>

lemma deep_merge_panics:
  "transformMerge (TransformNodeConfig ''merge'' [] [''p'', ''q''] ''o'' [] [] [] [] [] 0 ''deep'' None None)
     (NewEnvelope\<lparr>Vars := Some [(''p'', VMap [(''k'', VNilMap)]), (''q'', VMap [(''k'', VMap [(''x'', VNil)])])]\<rparr>) = None"
  by (simp add: transformMerge_def GetVarNested_def toMap_def map_pair_def)


subsection \<open>Deep merging writes into the variables\<close>

text \<open>
  The same code with maps as objects. An \<open>sval\<close> is a value that is no map, or the address of a map in the store. \<open>sput\<close> loads
  a value, one object for each map in it; \<open>sread\<close> reads one back, down to a depth. \<open>sMerge\<close> is \<open>deepMerge\<close> on
  objects, with \<open>Some None\<close> for the panic on a nil map; two maps that contain each other can make it run for ever, which
  is \<open>None\<close>. The entries of the source are those it has when its loop starts.
\<close>

datatype sval = SVal val | SMap nat
type_synonym store = "(string \<times> sval) list list"

fun sput :: "val \<Rightarrow> store \<Rightarrow> sval \<times> store" and sput_entries :: "(string \<times> val) list \<Rightarrow> store \<Rightarrow> (string \<times> sval) list \<times> store" where
  "sput (VMap m) h = (case sput_entries m h of (es, h1) \<Rightarrow> (SMap (length h1), h1 @ [es]))"
| "sput v h = (SVal v, h)"
| "sput_entries [] h = ([], h)"
| "sput_entries ((k, v) # m) h = (case sput v h of (x, h1) \<Rightarrow> (case sput_entries m h1 of (es, h2) \<Rightarrow> ((k, x) # es, h2)))"

fun sread :: "nat \<Rightarrow> store \<Rightarrow> sval \<Rightarrow> val" where
  "sread d h (SVal v) = v"
| "sread 0 h (SMap a) = VNilMap"
| "sread (Suc d) h (SMap a) = VMap (map (\<lambda>(k, x). (k, sread d h x)) (h ! a))"

text \<open>The type assertions on an entry of the target and of the source: both are maps, each nil or an object.\<close>

definition smap :: "sval \<Rightarrow> nat option option" where
  "smap x = (case x of SMap a \<Rightarrow> Some (Some a) | SVal VNilMap \<Rightarrow> Some None | SVal _ \<Rightarrow> None)"

definition smap_pair :: "sval option \<Rightarrow> sval \<Rightarrow> (nat option \<times> nat option) option" where
  "smap_pair dstVal srcVal = (case dstVal of None \<Rightarrow> None | Some x \<Rightarrow>
     (case (smap x, smap srcVal) of (Some d, Some s) \<Rightarrow> Some (d, s) | _ \<Rightarrow> None))"

partial_function (option) sMerge :: "nat \<Rightarrow> (string \<times> sval) list \<Rightarrow> store \<Rightarrow> store option option" where
  "sMerge dst src h = (case src of
       [] \<Rightarrow> Some (Some h)
     | e # rest \<Rightarrow> (case smap_pair (mget (h ! dst) (fst e)) (snd e) of
           None \<Rightarrow> sMerge dst rest (h[dst := mput (fst e) (snd e) (h ! dst)])
         | Some ds \<Rightarrow> (case snd ds of
               None \<Rightarrow> sMerge dst rest h
             | Some s \<Rightarrow> (case fst ds of
                   None \<Rightarrow> if h ! s = [] then sMerge dst rest h else Some None
                 | Some d \<Rightarrow> Option.bind (sMerge d (h ! s) h)
                     (\<lambda>r. case r of None \<Rightarrow> Some None | Some h1 \<Rightarrow> sMerge dst rest h1)))))"

declare sMerge.simps [code]

fun sget :: "store \<Rightarrow> sval \<Rightarrow> string list \<Rightarrow> sval option" where
  "sget h x [] = Some x"
| "sget h (SMap a) (p # ps) = (case mget (h ! a) p of None \<Rightarrow> None | Some y \<Rightarrow> sget h y ps)"
| "sget h (SVal v) (p # ps) = None"

fun sMerge_loop :: "sval \<Rightarrow> nat \<Rightarrow> string list \<Rightarrow> store \<Rightarrow> store option option" where
  "sMerge_loop vars result [] h = Some (Some h)"
| "sMerge_loop vars result (varName # names) h = (case sget h vars (split_on (CHR ''.'') varName) of
       None \<Rightarrow> sMerge_loop vars result names h
     | Some (SVal VNilMap) \<Rightarrow> sMerge_loop vars result names h
     | Some (SVal v) \<Rightarrow> sMerge_loop vars result names (h[result := mput varName (SVal v) (h ! result)])
     | Some (SMap a) \<Rightarrow> Option.bind (sMerge result (h ! a) h) (\<lambda>r. case r of None \<Rightarrow> Some None | Some h1 \<Rightarrow> sMerge_loop vars result names h1))"

text \<open>The result of a deep merge of these variables, and the variables afterwards, both read down to a depth.\<close>

definition deep_merge_vars :: "nat \<Rightarrow> val gomap \<Rightarrow> string list \<Rightarrow> (val \<times> val) option option" where
  "deep_merge_vars d vars names = (case sput (VMap vars) [] of (v, h) \<Rightarrow>
     map_option (map_option (\<lambda>h1. (sread d h1 (SMap (length h)), sread d h1 v))) (sMerge_loop v (length h) names (h @ [[]])))"

text \<open>
  Merging \<open>p\<close> and \<open>q\<close> adds the entries of the map under \<open>k\<close> in \<open>q\<close> to the map under \<open>k\<close> in the variable \<open>p\<close>; the node
  was to set only its output variable.
\<close>

lemma deep_merge_writes_variable:
  "deep_merge_vars 5 [(''p'', VMap [(''k'', VMap [(''a'', VInt 1)])]), (''q'', VMap [(''k'', VMap [(''b'', VInt 2)])])] [''p'', ''q''] =
     Some (Some (VMap [(''k'', VMap [(''a'', VInt 1), (''b'', VInt 2)])],
       VMap [(''p'', VMap [(''k'', VMap [(''a'', VInt 1), (''b'', VInt 2)])]), (''q'', VMap [(''k'', VMap [(''b'', VInt 2)])])]))"
  by code_simp

text \<open>Merging a map after a part of it ties the part into itself: at every depth \<open>k\<close> is there again.\<close>

lemma deep_merge_ties_knot:
  "map_option (map_option fst) (deep_merge_vars 4 [(''p'', VMap [(''k'', VMap [(''k'', VMap [])])])] [''p.k'', ''p'']) =
     Some (Some (VMap [(''k'', VMap [(''k'', VMap [(''k'', VMap [(''k'', VNilMap)])])])]))"
  by code_simp

end
