(* ===== verification/Spec2Isabelle.thy ===== *)
theory Spec2Isabelle
  imports Core_Envelope Graph_Builder Step_Transparent Parallel_Correct Expr_Roundtrip Conditional_Node Merge_Node Gate_Router Agent_Valid Event_Bus Filter_Node Map_Node Cache_Node Transform_Node
begin

text \<open>
  Verification library for petalflow, a Go engine that runs workflows of nodes connected in a graph.

  \<^bold>\<open>The program.\<close> A workflow is a graph of nodes (\<open>graph/\<close>). It is built by calls (\<open>graph/builder.go\<close>) or from
  a document (\<open>graph/definition.go\<close>), which is validated against a registry of node types (\<open>registry/\<close>) first. Such a
  document can be the result of compiling a workflow of agents and tasks (\<open>agent/\<close>).
  The runtime (\<open>runtime/runtime.go\<close>) starts at the entry node, gives each node an envelope (\<open>core/envelope.go\<close>),
  and takes the next nodes from the graph, from a router's decision or from a gate's redirect; it works in one
  goroutine or with a pool of workers, can be stepped by a controller (\<open>runtime/step_controller.go\<close>) and reports
  events (\<open>runtime/events.go\<close>), which a bus hands to subscribers (\<open>bus/\<close>). Nodes (\<open>nodes/\<close>) compute, merge branches, or route; the conditional node has an
  expression language of its own (\<open>nodes/conditional/expr/\<close>).

  \<^bold>\<open>How Go is modelled.\<close> A struct is a record, a dynamic value (\<open>any\<close>) is the datatype \<open>val\<close> with one constructor
  per type the code switches on, a map is an association list with distinct keys (\<open>mget\<close>, \<open>mput\<close>, \<open>mdel\<close>), a
  string is a list of bytes, \<open>float64\<close> is \<open>f64\<close> (a rational, an infinity or NaN, with round to nearest even), a
  \<open>(T, error)\<close> result is a sum, a nil pointer is \<open>None\<close>. A method that mutates its receiver returns the new state.
  A panic is the value \<open>None\<close> or \<open>Crash\<close>. Where the code ranges over a map and the order shows, the order is an
  argument or the theorem holds for each order of the list. The sequence counter of events is a \<open>64 word\<close>.

  \<^bold>\<open>Theories.\<close>
  \<^item> \<open>PF_Prelude\<close>, \<open>PF_Values\<close>: maps, results, early-return loops, reachability; \<open>f64\<close>, \<open>val\<close> and the string
    functions the sources call.
  \<^item> \<open>Core_Envelope\<close>, \<open>Core_Node\<close>, \<open>Runtime_Events\<close>: \<open>core/envelope.go\<close>, \<open>core/types.go\<close>, \<open>core/node.go\<close>,
    \<open>runtime/events.go\<close>, \<open>runtime/sequence.go\<close>. A node is a record of its identity and its behaviour; the behaviour
    is a function of the number of the call and of the envelope, so nodes that ask a model or a person are covered.
  \<^item> \<open>Kahn\<close>: the loop of Kahn's algorithm, and its correctness in the locale \<open>kahn_graph\<close>. It is used for graphs,
    graph documents and the dependencies of agent workflows.
  \<^item> \<open>Graph_Model\<close>, \<open>Graph_Builder\<close>: \<open>graph/graph.go\<close> and \<open>graph/builder.go\<close>. Graphs built by any calls are
    consistent; topological sorting and reachability are correct; \<open>Build\<close> returns only valid graphs; fanning out
    and merging gives the diamond it should.
  \<^item> \<open>Schema_Format\<close>, \<open>Node_Registry\<close>, \<open>Graph_Definition\<close>, \<open>Definition_Correct\<close>: \<open>schemafmt/\<close>, \<open>registry/\<close> and
    \<open>graph/definition.go\<close>. Validation accepts exactly the well-formed documents, with a registry exactly the
    well-typed ones, and \<open>ToGraph\<close> builds the graph that an accepted document describes.
  \<^item> \<open>Agent_Workflow\<close>, \<open>Agent_Compile\<close>, \<open>Agent_Correct\<close>, \<open>Agent_Valid\<close>: \<open>agent/\<close>. Compilation gives the graph that a workflow
    describes, for each strategy; accepted sequential and custom workflows compile to definitions that graph
    validation accepts, hierarchical ones never do, and parallel ones run a single task.
  \<^item> \<open>Step_Controller\<close>, \<open>Runtime_Common\<close>, \<open>Runtime_Sequential\<close>, \<open>Sequential_Correct\<close>, \<open>Step_Transparent\<close>:
    the step controllers and the sequential executor. A run ends after a bounded number of node executions, covers
    the reachable nodes, records or returns failures, has a well-formed event log, and does not panic on well-behaved
    nodes; an automatic step controller whose delay fits into the step's context does not change what is computed. A step's
    context says when it ends, the event channel has a reader; both are arguments.
  \<^item> \<open>Runtime_Parallel\<close>, \<open>Parallel_Correct\<close>: the parallel executor as a step relation of the main goroutine, the
    workers, which an ended context makes return, and the two channels. Progress, what a completed run means, the merge
    barrier; and schedules that exhibit two deadlocks (one after a cancellation), a panic and an unbounded run.
  \<^item> \<open>Event_Bus\<close>: \<open>bus/membus.go\<close>, \<open>bus/throttle.go\<close>, \<open>bus/store_subscriber.go\<close> as step relations over interleaved
    calls. Every published event is received, waiting, still being sent or dropped, once for each subscription that
    wants it; the throttled emitter passes on all other events and, of each node's deltas, a subsequence with the last one.
  \<^item> \<open>Expr_Lexer\<close>, \<open>Expr_Parser\<close>, \<open>Expr_Roundtrip\<close>, \<open>Expr_Eval\<close>, \<open>Conditional_Node\<close>: the expression language
    and the conditional node. Tokens are where they say they are, parsing always returns, printing an expression by
    the documented precedence table and parsing it gives it back, evaluation does not depend on the cache of regular expressions and fails only in
    the expected ways, routing picks the conditions that hold, and the runtime follows it.
  \<^item> \<open>Node_Helpers\<close>, \<open>Merge_Node\<close>, \<open>Gate_Router\<close>: \<open>nodes/helpers.go\<close>, \<open>nodes/merge.go\<close>, \<open>nodes/gate.go\<close> and
    the rule router of \<open>nodes/router.go\<close>. Nested maps obey read-after-write laws, deep merging is override by path,
    merging resolves conflicts as configured and does not panic, gates and routers make the runtime go where they say.
  \<^item> \<open>Filter_Node\<close>, \<open>Map_Node\<close>, \<open>Cache_Node\<close>, \<open>Transform_Node\<close>: \<open>nodes/filter.go\<close>, \<open>nodes/map.go\<close>,
    \<open>nodes/cache.go\<close> and \<open>nodes/transform.go\<close>. Filtering only removes, keeps one element of each
    key and the best elements; the worker pool of the map node always ends and gives what mapping one item at a
    time gives, for each schedule, when the mapper keeps no state of its own; a cache node returns what the node it wraps returns, reuses results until they
    expire, and its keys do not depend on the order of maps; picking and omitting treat exactly the listed fields,
    and mapping a transformation treats every item. The maps of a deep merge are also put in a store, which shows what it
    writes into the variables it reads.

  \<^bold>\<open>Contracts.\<close> The locale \<open>graph_interface\<close> is Go's interface \<open>graph.Graph\<close>, \<open>counted_graph\<close> adds what the
  algorithms need and is a \<open>kahn_graph\<close>; they are interpreted on \<open>BasicGraph\<close>, and \<open>kahn_graph\<close> also on graph
  documents and on task dependencies. \<open>type_table\<close> is the contract of the registry. \<open>passive_controller\<close> is what the runtime needs
  of a step controller that lets every node run in the contexts that leave it the time; three controllers are interpretations. \<open>cache_store\<close> is Go's interface
  \<open>CacheStore\<close> with the laws the cache node relies on, interpreted on the memory store.

  \<^bold>\<open>Bounds and fuel.\<close> The parser is defined by recursion on fuel; \<open>Parse\<close> starts it with twelve times the number of
  tokens plus eleven, since a token is consumed after at most twelve nested calls, and \<open>Parse_total\<close> shows that this is
  enough on every input. The sequential executor terminates by the measure \<open>visits_left\<close>, which the hop limit
  bounds. \<open>TrimSpace\<close> uses the length of the string as fuel, as every round removes a byte. All other loops are
  structural or have a measure. The parallel executor and the worker pool are relations, so nothing is assumed about
  their termination; the weight \<open>pool_weight\<close> bounds the steps of the pool.

  \<^bold>\<open>Parameters.\<close> The regular expression engine of the operator \<open>matches\<close>, the tables of package \<open>unicode\<close> beyond
  ASCII, the text that \<open>%v\<close> gives for floats and structs, the behaviour of nodes, node factories, expression
  checkers, custom merge, filter, mapping and transform functions, the order \<open>sort.Slice\<close> gives to equal elements, templates, JSON and SHA-256
  are arguments of the definitions.

  \<^bold>\<open>Not modelled.\<close> Clocks and elapsed times, except as arguments of the cache; locks that are held for a whole method; the sharing of maps
  between envelopes in the parallel executor and in merging, and in the transform node outside the part on deep merges
  (\<open>transform_Run\<close> gives what a deep merge returns, not its writes into the variables); pausing a step controller from another goroutine
  during a run; the LLM router, the LLM, tool, human, guardian
  and webhook nodes; the SQLite store of events; loading, hydration,
  tools, daemon, server, command line, streaming and telemetry. Of these, stores, HTTP, terminals, files and language
  models are outside services, and the components that call them mostly pass data on to libraries.
\<close>

end
